(* ===== verification/Prelude.thy ===== *)
theory Prelude
  imports Main "HOL-Library.Word" "HOL-Library.Multiset" "HOL-Library.Sublist"
    "HOL-Library.Char_ord" "HOL-Library.List_Lexorder"
begin

text \<open>
  What every component shares: the result type of Go code that may panic, the slice and index
  expressions of Go with their bounds checks, the orders the runtime chooses (map iteration,
  unstable sorting) as an interface, and list lemmas.
\<close>

unbundle bit_operations_syntax

named_theorems go_simps \<open>evaluation of Go results\<close>

type_synonym byte = "8 word"
type_synonym uint8 = "8 word"
type_synonym uint16 = "16 word"
type_synonym uint32 = "32 word"
type_synonym uint64 = "64 word"
type_synonym int32 = "32 word"
type_synonym int64 = "64 word"

section \<open>Results of Go code\<close>

text \<open>
  A Go function returns or panics. A run-time panic names its cause; a call of the builtin \<open>panic\<close>
  carries its message. \<open>NoReturn\<close> is no panic: it says that a loop did not end (within its fuel).
\<close>

datatype go_panic =
    IndexOutOfRange
  | SliceOutOfRange
  | NilDereference
  | InvalidArgument
  | PanicMsg string
  | NoReturn

type_synonym 'a go = "go_panic + 'a"

fun go_bind :: "'e + 'a \<Rightarrow> ('a \<Rightarrow> 'e + 'b) \<Rightarrow> 'e + 'b" where
  "go_bind (Inl e) f = Inl e"
| "go_bind (Inr x) f = f x"

lemma go_bind_Inr_iff [go_simps]: "go_bind m f = Inr y \<longleftrightarrow> (\<exists>x. m = Inr x \<and> f x = Inr y)"
  by (cases m) auto

lemma go_bind_Inl_iff: "go_bind m f = Inl e \<longleftrightarrow> m = Inl e \<or> (\<exists>x. m = Inr x \<and> f x = Inl e)"
  by (cases m) auto

lemma go_bind_cong [fundef_cong]:
  "m = m' \<Longrightarrow> (\<And>x. m' = Inr x \<Longrightarrow> f x = g x) \<Longrightarrow> go_bind m f = go_bind m' g"
  by (cases m') auto

text \<open>\<open>xs[i]\<close>, \<open>xs[lo:hi]\<close>: Go checks the bounds of both at run time.\<close>

definition go_index :: "'a list \<Rightarrow> int \<Rightarrow> 'a go" where
  "go_index xs i = (if 0 \<le> i \<and> i < int (length xs) then Inr (xs ! nat i) else Inl IndexOutOfRange)"

definition go_slice :: "'a list \<Rightarrow> int \<Rightarrow> int \<Rightarrow> 'a list go" where
  "go_slice xs lo hi =
     (if 0 \<le> lo \<and> lo \<le> hi \<and> hi \<le> int (length xs)
      then Inr (take (nat (hi - lo)) (drop (nat lo) xs)) else Inl SliceOutOfRange)"

lemma go_index_Inr_iff [go_simps]:
  "go_index xs i = Inr x \<longleftrightarrow> 0 \<le> i \<and> i < int (length xs) \<and> x = xs ! nat i"
  by (auto simp: go_index_def)

lemma go_slice_Inr_iff [go_simps]:
  "go_slice xs lo hi = Inr ys \<longleftrightarrow>
     0 \<le> lo \<and> lo \<le> hi \<and> hi \<le> int (length xs) \<and> ys = take (nat (hi - lo)) (drop (nat lo) xs)"
  by (auto simp: go_slice_def)

section \<open>Orders the runtime chooses\<close>

text \<open>
  Iterating a Go map visits the keys in an order the language leaves open, and \<open>sort.Sort\<close> is not
  stable. Both are a rearrangement of a list: the code relies on the elements being the same.
\<close>

locale rearrangement =
  fixes ord :: "'a list \<Rightarrow> 'a list"
  assumes mset_ord: "mset (ord xs) = mset xs"
begin

lemma set_ord: "set (ord xs) = set xs"
  using mset_ord mset_eq_setD by blast

lemma length_ord: "length (ord xs) = length xs"
  using mset_ord mset_eq_length by blast

lemma distinct_ord: "distinct (ord xs) = distinct xs"
  using mset_ord mset_eq_imp_distinct_iff by blast

lemma ord_Nil_iff: "ord xs = [] \<longleftrightarrow> xs = []"
  by (metis length_0_conv length_ord)

end

definition insertion_order :: "'a list \<Rightarrow> 'a list" where
  "insertion_order xs = xs"

interpretation insertion_order: rearrangement insertion_order
  by unfold_locales (simp add: insertion_order_def)

text \<open>
  \<open>sort.Sort\<close> of short slices is an insertion sort that swaps an element left while it is less than
  its left neighbour. It is one order \<open>sort.Sort\<close> may produce.
\<close>

fun sort_insert :: "('a \<Rightarrow> 'a \<Rightarrow> bool) \<Rightarrow> 'a \<Rightarrow> 'a list \<Rightarrow> 'a list" where
  "sort_insert lt x [] = [x]"
| "sort_insert lt x (y # ys) = (if lt x y then y # sort_insert lt x ys else x # y # ys)"

definition go_insertion_sort :: "('a \<Rightarrow> 'a \<Rightarrow> bool) \<Rightarrow> 'a list \<Rightarrow> 'a list" where
  "go_insertion_sort lt xs = rev (fold (sort_insert lt) xs [])"

lemma mset_sort_insert: "mset (sort_insert lt x ys) = add_mset x (mset ys)"
  by (induction ys) auto

lemma mset_fold_sort_insert: "mset (fold (sort_insert lt) xs acc) = mset xs + mset acc"
  by (induction xs arbitrary: acc) (auto simp: mset_sort_insert)

interpretation insertion_sort: rearrangement "go_insertion_sort lt"
  by unfold_locales (simp add: go_insertion_sort_def mset_fold_sort_insert)

section \<open>Three-way comparison of strings\<close>

text \<open>\<open>strings.Compare\<close>: bytewise lexicographic order.\<close>

definition strings_Compare :: "string \<Rightarrow> string \<Rightarrow> int" where
  "strings_Compare a b = (if a = b then 0 else if a < b then -1 else 1)"

lemma strings_Compare_0 [simp]: "strings_Compare a b = 0 \<longleftrightarrow> a = b"
  by (simp add: strings_Compare_def)

lemma strings_Compare_neg: "strings_Compare a b < 0 \<longleftrightarrow> a < b"
  by (auto simp: strings_Compare_def)

section \<open>Decimal numbers as text\<close>

definition digit_char :: "nat \<Rightarrow> char" where
  "digit_char d = char_of (48 + d)"

fun show_nat :: "nat \<Rightarrow> string" where
  "show_nat n = (if n < 10 then [digit_char n] else show_nat (n div 10) @ [digit_char (n mod 10)])"

declare show_nat.simps [simp del]

lemma show_nat_nonempty: "show_nat n \<noteq> []"
  by (subst show_nat.simps) simp

section \<open>Lists\<close>

text \<open>The last index whose element satisfies a predicate, \<open>-1\<close> if none does.\<close>

fun last_index_from :: "nat \<Rightarrow> ('a \<Rightarrow> bool) \<Rightarrow> 'a list \<Rightarrow> int \<Rightarrow> int" where
  "last_index_from i p [] acc = acc"
| "last_index_from i p (x # xs) acc = last_index_from (Suc i) p xs (if p x then int i else acc)"

text \<open>The first index whose element satisfies a predicate, \<open>-1\<close> if none does.\<close>

fun first_index_from :: "nat \<Rightarrow> ('a \<Rightarrow> bool) \<Rightarrow> 'a list \<Rightarrow> int" where
  "first_index_from i p [] = -1"
| "first_index_from i p (x # xs) = (if p x then int i else first_index_from (Suc i) p xs)"

lemma last_index_from_cases:
  "(\<forall>x\<in>set xs. \<not> p x) \<and> last_index_from i p xs acc = acc \<or>
   (\<exists>k < length xs. p (xs ! k) \<and> (\<forall>j. k < j \<and> j < length xs \<longrightarrow> \<not> p (xs ! j)) \<and>
      last_index_from i p xs acc = int (i + k))"
proof (induction xs arbitrary: i acc)
  case Nil
  then show ?case by simp
next
  case (Cons x xs)
  show ?case
  proof (cases "\<forall>y\<in>set xs. \<not> p y")
    case True
    then have rest: "last_index_from (Suc i) p xs a = a" for a
      using Cons.IH [of "Suc i" a] by (metis nth_mem)
    show ?thesis
    proof (cases "p x")
      case True
      with rest \<open>\<forall>y\<in>set xs. \<not> p y\<close> have "0 < length (x # xs) \<and> p ((x # xs) ! 0) \<and>
          (\<forall>j. 0 < j \<and> j < length (x # xs) \<longrightarrow> \<not> p ((x # xs) ! j)) \<and>
          last_index_from i p (x # xs) acc = int (i + 0)"
        by (auto simp: nth_Cons')
      then show ?thesis by blast
    next
      case False
      with rest True show ?thesis by simp
    qed
  next
    case False
    then obtain k where k: "k < length xs" "p (xs ! k)"
        "\<forall>j. k < j \<and> j < length xs \<longrightarrow> \<not> p (xs ! j)"
        "last_index_from (Suc i) p xs (if p x then int i else acc) = int (Suc i + k)"
      using Cons.IH [of "Suc i" "if p x then int i else acc"] by blast
    have "\<not> p ((x # xs) ! j)" if "Suc k < j" "j < length (x # xs)" for j
      using that k(3) by (cases j) auto
    with k have "Suc k < length (x # xs) \<and> p ((x # xs) ! Suc k) \<and>
        (\<forall>j. Suc k < j \<and> j < length (x # xs) \<longrightarrow> \<not> p ((x # xs) ! j)) \<and>
        last_index_from i p (x # xs) acc = int (i + Suc k)"
      by simp
    then show ?thesis by blast
  qed
qed

lemma first_index_from_cases:
  "(\<forall>x\<in>set xs. \<not> p x) \<and> first_index_from i p xs = -1 \<or>
   (\<exists>k < length xs. p (xs ! k) \<and> (\<forall>j < k. \<not> p (xs ! j)) \<and>
      first_index_from i p xs = int (i + k))"
proof (induction xs arbitrary: i)
  case Nil
  then show ?case by simp
next
  case (Cons x xs)
  show ?case
  proof (cases "p x")
    case True
    then show ?thesis by (intro disjI2 exI [of _ 0]) simp
  next
    case False
    from Cons.IH [of "Suc i"] show ?thesis
    proof
      assume "(\<forall>y\<in>set xs. \<not> p y) \<and> first_index_from (Suc i) p xs = -1"
      with False show ?thesis by simp
    next
      assume "\<exists>k<length xs. p (xs ! k) \<and> (\<forall>j<k. \<not> p (xs ! j)) \<and>
        first_index_from (Suc i) p xs = int (Suc i + k)"
      then obtain k where k: "k < length xs" "p (xs ! k)" "\<forall>j<k. \<not> p (xs ! j)"
        "first_index_from (Suc i) p xs = int (Suc i + k)" by blast
      with False have "Suc k < length (x # xs) \<and> p ((x # xs) ! Suc k) \<and>
          (\<forall>j < Suc k. \<not> p ((x # xs) ! j)) \<and> first_index_from i p (x # xs) = int (i + Suc k)"
        by (auto simp: nth_Cons' less_Suc_eq_0_disj)
      then show ?thesis by blast
    qed
  qed
qed

lemma take_nonempty_last: "ys = drop n xs \<Longrightarrow> ys \<noteq> [] \<Longrightarrow> last ys = last xs"
  by (metis drop_eq_Nil last_drop not_le_imp_less)

lemma map_update_same: "f y = f (xs ! j) \<Longrightarrow> map f (xs[j := y]) = map f xs"
  by (metis list_update_id map_update)

end
