(* ===== verification/NetAddr.thy ===== *)
theory NetAddr
  imports Prelude
begin

text \<open>
  Internet addresses: the part of Go's \<open>net\<close> package the repository uses, on \<open>net.IP\<close> values (byte
  slices, \<open>[]\<close> for nil), then \<open>util/util.go\<close> (conversions between addresses, \<open>uint32\<close> and text)
  and \<open>revtr/ip_utils\<close>. Addresses are kept as 32-bit words and as text, as in the code.
\<close>

section \<open>Package net\<close>

type_synonym net_ip = "byte list"

definition v4InV6Prefix :: "byte list" where
  "v4InV6Prefix = replicate 10 0 @ [255, 255]"

definition net_IPv4 :: "byte \<Rightarrow> byte \<Rightarrow> byte \<Rightarrow> byte \<Rightarrow> net_ip" where
  "net_IPv4 a b c d = v4InV6Prefix @ [a, b, c, d]"

definition To4 :: "net_ip \<Rightarrow> net_ip" where
  "To4 ip = (if length ip = 4 then ip
     else if length ip = 16 \<and> take 12 ip = v4InV6Prefix then drop 12 ip else [])"

text \<open>\<open>IP.Equal\<close>: an IPv4 address and its IPv6 form are the same address.\<close>

definition ip_Equal :: "net_ip \<Rightarrow> net_ip \<Rightarrow> bool" where
  "ip_Equal x y = (if length x = length y then x = y
     else if length x = 4 \<and> length y = 16 then take 12 y = v4InV6Prefix \<and> drop 12 y = x
     else if length x = 16 \<and> length y = 4 then take 12 x = v4InV6Prefix \<and> drop 12 x = y
     else False)"

definition IPv6unspecified :: net_ip where
  "IPv6unspecified = replicate 16 0"

definition IPv6loopback :: net_ip where
  "IPv6loopback = replicate 15 0 @ [1]"

definition IsUnspecified :: "net_ip \<Rightarrow> bool" where
  "IsUnspecified ip \<longleftrightarrow> ip_Equal ip (net_IPv4 0 0 0 0) \<or> ip_Equal ip IPv6unspecified"

definition IsLoopback :: "net_ip \<Rightarrow> bool" where
  "IsLoopback ip = (case To4 ip of a # _ \<Rightarrow> a = 127 | [] \<Rightarrow> ip_Equal ip IPv6loopback)"

definition IsMulticast :: "net_ip \<Rightarrow> bool" where
  "IsMulticast ip = (case To4 ip of a # _ \<Rightarrow> a AND 0xf0 = 0xe0
     | [] \<Rightarrow> (case ip of b # _ \<Rightarrow> length ip = 16 \<and> b = 0xff | [] \<Rightarrow> False))"

definition IsLinkLocalUnicast :: "net_ip \<Rightarrow> bool" where
  "IsLinkLocalUnicast ip = (case To4 ip of a # b # _ \<Rightarrow> a = 169 \<and> b = 254
     | _ \<Rightarrow> (case ip of b # c # _ \<Rightarrow> length ip = 16 \<and> b = 0xfe \<and> c AND 0xc0 = 0x80 | _ \<Rightarrow> False))"

definition IsGlobalUnicast :: "net_ip \<Rightarrow> bool" where
  "IsGlobalUnicast ip \<longleftrightarrow> (length ip = 4 \<or> length ip = 16) \<and>
     \<not> ip_Equal ip (net_IPv4 255 255 255 255) \<and> \<not> IsUnspecified ip \<and> \<not> IsLoopback ip \<and>
     \<not> IsMulticast ip \<and> \<not> IsLinkLocalUnicast ip"

section \<open>Reading and printing addresses\<close>

fun split_on :: "char \<Rightarrow> string \<Rightarrow> string list" where
  "split_on c [] = [[]]"
| "split_on c (x # xs) = (if x = c then [] # split_on c xs
     else (case split_on c xs of [] \<Rightarrow> [[x]] | f # fs \<Rightarrow> (x # f) # fs))"

definition is_digit :: "char \<Rightarrow> bool" where
  "is_digit c \<longleftrightarrow> 48 \<le> (of_char c :: nat) \<and> (of_char c :: nat) \<le> 57"

fun dec_value :: "nat \<Rightarrow> string \<Rightarrow> nat" where
  "dec_value acc [] = acc"
| "dec_value acc (c # cs) = dec_value (acc * 10 + (of_char c - 48)) cs"

definition parse_dec_byte :: "string \<Rightarrow> byte option" where
  "parse_dec_byte s = (if s = [] \<or> \<not> list_all is_digit s \<or> (length s > 1 \<and> hd s = CHR ''0'')
     then None
     else let n = dec_value 0 s in if n \<le> 255 then Some (word_of_nat n) else None)"

definition parseIPv4 :: "string \<Rightarrow> (byte list) option" where
  "parseIPv4 s = (case split_on (CHR ''.'') s of
     [a, b, c, d] \<Rightarrow> (case (parse_dec_byte a, parse_dec_byte b, parse_dec_byte c, parse_dec_byte d) of
        (Some a', Some b', Some c', Some d') \<Rightarrow> Some [a', b', c', d'] | _ \<Rightarrow> None)
   | _ \<Rightarrow> None)"

definition hex_digit :: "char \<Rightarrow> nat option" where
  "hex_digit c = (let n = of_char c in
     if 48 \<le> n \<and> n \<le> 57 then Some (n - 48)
     else if 97 \<le> n \<and> n \<le> 102 then Some (n - 87)
     else if 65 \<le> n \<and> n \<le> 70 then Some (n - 55) else None)"

fun hex_prefix :: "nat \<Rightarrow> string \<Rightarrow> nat \<times> string" where
  "hex_prefix acc [] = (acc, [])"
| "hex_prefix acc (c # cs) = (case hex_digit c of None \<Rightarrow> (acc, c # cs)
     | Some d \<Rightarrow> hex_prefix (acc * 16 + d) cs)"

definition hex_group :: "string \<Rightarrow> (byte list \<times> string) option" where
  "hex_group s = (let (n, rest) = hex_prefix 0 s in
     if length rest = length s \<or> n > 0xFFFF then None
     else Some ([word_of_nat (n div 256), word_of_nat n], rest))"

text \<open>The groups of an IPv6 address, the bytes so far and the place of the \<open>::\<close>.\<close>

fun parse6 :: "nat \<Rightarrow> byte list \<Rightarrow> nat option \<Rightarrow> string \<Rightarrow> (byte list \<times> nat option \<times> string) option"
where
  "parse6 0 acc ell s = Some (acc, ell, s)"
| "parse6 (Suc n) acc ell s = (case hex_group s of None \<Rightarrow> None
   | Some (g, rest) \<Rightarrow> (case rest of
       [] \<Rightarrow> Some (acc @ g, ell, [])
     | c # rest' \<Rightarrow>
        if c = CHR ''.'' then
          (if ell = None \<and> length acc \<noteq> 12 then None
           else if length acc + 4 > 16 then None
           else (case parseIPv4 s of None \<Rightarrow> None | Some b4 \<Rightarrow> Some (acc @ b4, ell, [])))
        else if c \<noteq> CHR '':'' \<or> rest' = [] then None
        else if hd rest' = CHR '':'' then
          (if ell \<noteq> None then None
           else if tl rest' = [] then Some (acc @ g, Some (length acc + 2), [])
           else parse6 n (acc @ g) (Some (length acc + 2)) (tl rest'))
        else parse6 n (acc @ g) ell rest'))"

definition parseIPv6 :: "string \<Rightarrow> net_ip option" where
  "parseIPv6 s = (let dbl = take 2 s = ''::''; s0 = (if dbl then drop 2 s else s) in
     if dbl \<and> s0 = [] then Some (replicate 16 0)
     else (case parse6 8 [] (if dbl then Some 0 else None) s0 of None \<Rightarrow> None
     | Some (bs, ell, rest) \<Rightarrow>
        if rest \<noteq> [] then None
        else if length bs < 16 then
          (case ell of None \<Rightarrow> None
           | Some e \<Rightarrow> Some (take e bs @ replicate (16 - length bs) 0 @ drop e bs))
        else if ell \<noteq> None then None else Some bs))"

text \<open>\<open>net.ParseIP\<close>: the first dot or colon decides the family; nil for no address.\<close>

definition ParseIP :: "string \<Rightarrow> net_ip" where
  "ParseIP s = (case dropWhile (\<lambda>c. c \<noteq> CHR ''.'' \<and> c \<noteq> CHR '':'') s of
     [] \<Rightarrow> []
   | c # _ \<Rightarrow> if c = CHR ''.''
       then (case parseIPv4 s of None \<Rightarrow> [] | Some b4 \<Rightarrow> v4InV6Prefix @ b4)
       else (case parseIPv6 s of None \<Rightarrow> [] | Some ip \<Rightarrow> ip))"

definition show_byte :: "byte \<Rightarrow> string" where
  "show_byte b = show_nat (unat b)"

text \<open>\<open>IP.String\<close> of an IPv4 address.\<close>

definition dotted_quad :: "byte \<Rightarrow> byte \<Rightarrow> byte \<Rightarrow> byte \<Rightarrow> string" where
  "dotted_quad a b c d =
     show_byte a @ ''.'' @ show_byte b @ ''.'' @ show_byte c @ ''.'' @ show_byte d"

section \<open>util/util.go\<close>

datatype util_error = IpOutOfRange | InvalidIP | NilIp

definition Int32ToIPString :: "uint32 \<Rightarrow> util_error + string" where
  "Int32ToIPString ip =
     (if unat ip > 4294967295 then Inl IpOutOfRange
      else
        let d = ucast (ip AND 0x000000ff) :: byte;
            c = ucast (drop_bit 8 (ip AND 0x0000ff00)) :: byte;
            b = ucast (drop_bit 16 (ip AND 0x00ff0000)) :: byte;
            a = ucast (drop_bit 24 (ip AND 0xff000000)) :: byte;
            nip = net_IPv4 a b c d
        in if nip = [] then Inl InvalidIP else Inr (dotted_quad a b c d))"

text \<open>\<open>s, _ := util.Int32ToIPString(ip)\<close>\<close>

definition ip_str :: "uint32 \<Rightarrow> string" where
  "ip_str ip = (case Int32ToIPString ip of Inl _ \<Rightarrow> [] | Inr s \<Rightarrow> s)"

text \<open>The four indexed reads of \<open>ip[0]\<close> to \<open>ip[3]\<close> and their shifts.\<close>

definition be_uint32 :: "byte list \<Rightarrow> uint32 go" where
  "be_uint32 ip =
     go_bind (go_index ip 0) (\<lambda>a. go_bind (go_index ip 1) (\<lambda>b.
     go_bind (go_index ip 2) (\<lambda>c. go_bind (go_index ip 3) (\<lambda>d.
       Inr (push_bit 24 (ucast a) OR push_bit 16 (ucast b) OR push_bit 8 (ucast c) OR ucast d)))))"

definition IPStringToInt32 :: "string \<Rightarrow> (util_error + uint32) go" where
  "IPStringToInt32 ips =
     (let ip = ParseIP ips in
      if ip = [] then Inr (Inl NilIp)
      else go_bind (be_uint32 (To4 ip)) (\<lambda>res. Inr (Inr res)))"

text \<open>\<open>i, _ := util.IPStringToInt32(s)\<close>\<close>

definition ip_int :: "string \<Rightarrow> uint32 go" where
  "ip_int s = go_bind (IPStringToInt32 s) (\<lambda>r. case r of Inl _ \<Rightarrow> Inr 0 | Inr i \<Rightarrow> Inr i)"

definition IPtoInt32 :: "net_ip \<Rightarrow> (util_error + uint32) go" where
  "IPtoInt32 ip = go_bind (be_uint32 (To4 ip)) (\<lambda>res. Inr (Inr res))"

definition Int32ToIP :: "uint32 \<Rightarrow> net_ip" where
  "Int32ToIP ip =
     (let a = ucast ip; b = ucast (drop_bit 8 ip); c = ucast (drop_bit 16 ip); d = ucast (drop_bit 24 ip)
      in net_IPv4 a b c d)"

definition MicroToNanoSec :: "int64 \<Rightarrow> int64" where
  "MicroToNanoSec usec = usec * 1000"

section \<open>revtr/ip\_utils\<close>

definition IsPrivate :: "net_ip \<Rightarrow> bool" where
  "IsPrivate ip \<longleftrightarrow> \<not> IsGlobalUnicast ip"

section \<open>Text and numbers agree\<close>

lemma split_on_append:
  "c \<notin> set f \<Longrightarrow> split_on c (f @ c # rest) = f # split_on c rest"
  by (induction f) auto

lemma split_on_single: "c \<notin> set f \<Longrightarrow> split_on c f = [f]"
  by (induction f) auto

lemma of_digit_char [simp]: "d < 10 \<Longrightarrow> (of_char (digit_char d) :: nat) = 48 + d"
  by (simp add: digit_char_def take_bit_nat_eq_self)

lemma is_digit_digit_char [simp]: "d < 10 \<Longrightarrow> is_digit (digit_char d)"
  by (simp add: is_digit_def)

lemma dec_value_snoc: "dec_value acc (xs @ [c]) = dec_value acc xs * 10 + (of_char c - 48)"
  by (induction xs arbitrary: acc) auto

lemma dec_value_show_nat [simp]: "dec_value 0 (show_nat n) = n"
proof (induction n rule: show_nat.induct)
  case (1 n)
  then show ?case
    by (subst show_nat.simps) (auto simp: dec_value_snoc)
qed

lemma show_nat_inject [simp]: "show_nat m = show_nat n \<longleftrightarrow> m = n"
  by (metis dec_value_show_nat)

lemma show_nat_digits [simp]: "list_all is_digit (show_nat n)"
proof (induction n rule: show_nat.induct)
  case (1 n)
  then show ?case by (subst show_nat.simps) auto
qed

lemma hd_show_nat: "0 < n \<Longrightarrow> hd (show_nat n) \<noteq> CHR ''0''"
proof (induction n rule: show_nat.induct)
  case (1 n)
  have "digit_char n \<noteq> CHR ''0''" if "n < 10"
  proof
    assume "digit_char n = CHR ''0''"
    then have "(of_char (digit_char n) :: nat) = of_char (CHR ''0'')" by simp
    with that 1(2) show False by simp
  qed
  with 1 show ?case
    by (subst show_nat.simps) (auto simp: show_nat_nonempty)
qed

lemma show_nat_0: "show_nat 0 = ''0''"
  by (subst show_nat.simps) (simp add: digit_char_def, code_simp)

lemma parse_show_byte [simp]: "parse_dec_byte (show_byte b) = Some b"
proof -
  have "unat b < 2 ^ LENGTH(8)" by (rule unsigned_less)
  then have "unat b \<le> 255" by simp
  moreover have "\<not> (length (show_byte b) > 1 \<and> hd (show_byte b) = CHR ''0'')"
  proof (cases "unat b = 0")
    case True
    then show ?thesis by (simp add: show_byte_def show_nat_0)
  next
    case False
    then show ?thesis by (simp add: show_byte_def hd_show_nat)
  qed
  ultimately show ?thesis
    by (simp add: parse_dec_byte_def show_byte_def show_nat_nonempty Let_def)
qed

lemma show_byte_digits: "c \<in> set (show_byte b) \<Longrightarrow> is_digit c"
  using show_nat_digits by (auto simp: list_all_iff show_byte_def)

lemma dot_not_in_show_byte [simp]: "CHR ''.'' \<notin> set (show_byte b)"
  using show_byte_digits by (force simp: is_digit_def)

lemma colon_not_in_show_byte [simp]: "CHR '':'' \<notin> set (show_byte b)"
  using show_byte_digits by (force simp: is_digit_def)

lemma parseIPv4_dotted_quad [simp]: "parseIPv4 (dotted_quad a b c d) = Some [a, b, c, d]"
  by (simp add: parseIPv4_def dotted_quad_def split_on_append split_on_single)

lemma ParseIP_dotted_quad [simp]: "ParseIP (dotted_quad a b c d) = net_IPv4 a b c d"
proof -
  have "dropWhile (\<lambda>x. x \<noteq> CHR ''.'' \<and> x \<noteq> CHR '':'') (show_byte a @ r) =
      dropWhile (\<lambda>x. x \<noteq> CHR ''.'' \<and> x \<noteq> CHR '':'') r" for r
    by (rule dropWhile_append2) (metis dot_not_in_show_byte colon_not_in_show_byte)
  then show ?thesis
    by (simp add: ParseIP_def dotted_quad_def net_IPv4_def parseIPv4_dotted_quad [unfolded dotted_quad_def, simplified])
qed

lemma To4_net_IPv4 [simp]: "To4 (net_IPv4 a b c d) = [a, b, c, d]"
  by (simp add: To4_def net_IPv4_def v4InV6Prefix_def)

lemma net_IPv4_not_Nil [simp]: "net_IPv4 a b c d \<noteq> []"
  by (simp add: net_IPv4_def)

lemma be_uint32_4 [simp]:
  "be_uint32 [a, b, c, d] =
     Inr (push_bit 24 (ucast a) OR push_bit 16 (ucast b) OR push_bit 8 (ucast c) OR ucast d)"
  by (simp add: be_uint32_def go_index_def)

lemma byte_masks:
  "(0x000000ff :: uint32) = mask 8"
  "(0x0000ff00 :: uint32) = push_bit 8 (mask 8)"
  "(0x00ff0000 :: uint32) = push_bit 16 (mask 8)"
  "(0xff000000 :: uint32) = push_bit 24 (mask 8)"
  by (simp_all add: mask_eq_exp_minus_1 push_bit_eq_mult)

lemma uint32_bytes:
  fixes x :: uint32
  shows "push_bit 24 (ucast (ucast (drop_bit 24 (x AND 0xff000000)) :: byte)) OR
     push_bit 16 (ucast (ucast (drop_bit 16 (x AND 0x00ff0000)) :: byte)) OR
     push_bit 8 (ucast (ucast (drop_bit 8 (x AND 0x0000ff00)) :: byte)) OR
     ucast (ucast (x AND 0x000000ff) :: byte) = x" (is "?l = x")
proof (rule bit_word_eqI)
  fix n assume "n < LENGTH(32)"
  then consider "n < 8" | "8 \<le> n" "n < 16" | "16 \<le> n" "n < 24" | "24 \<le> n" "n < 32"
    by fastforce
  then show "bit ?l n \<longleftrightarrow> bit x n"
    by cases (auto simp: byte_masks bit_simps)
qed

lemma Int32ToIPString_def':
  "Int32ToIPString x = Inr (dotted_quad (ucast (drop_bit 24 (x AND 0xff000000)))
     (ucast (drop_bit 16 (x AND 0x00ff0000))) (ucast (drop_bit 8 (x AND 0x0000ff00)))
     (ucast (x AND 0x000000ff)))"
proof -
  have "unat x < 2 ^ LENGTH(32)" by (rule unsigned_less)
  then show ?thesis by (simp add: Int32ToIPString_def Let_def)
qed

lemma IPStringToInt32_ip_str [simp]: "IPStringToInt32 (ip_str x) = Inr (Inr x)"
  unfolding IPStringToInt32_def ip_str_def Int32ToIPString_def'
  using uint32_bytes [of x] by (simp add: Let_def)

lemma ip_int_ip_str [simp]: "ip_int (ip_str x) = Inr x"
  by (simp add: ip_int_def)

lemma ip_str_inject [simp]: "ip_str x = ip_str y \<longleftrightarrow> x = y"
  by (metis IPStringToInt32_ip_str sum.inject(2))

lemma ip_str_0: "ip_str 0 = ''0.0.0.0''"
  by (simp add: ip_str_def Int32ToIPString_def' dotted_quad_def show_byte_def show_nat_0)

lemma IsGlobalUnicast_IPv4:
  "IsGlobalUnicast (net_IPv4 a b c d) \<longleftrightarrow>
     \<not> (a = 255 \<and> b = 255 \<and> c = 255 \<and> d = 255) \<and> \<not> (a = 0 \<and> b = 0 \<and> c = 0 \<and> d = 0) \<and>
     a \<noteq> 127 \<and> a AND 0xf0 \<noteq> 0xe0 \<and> \<not> (a = 169 \<and> b = 254)"
proof -
  have "net_IPv4 a b c d \<noteq> IPv6unspecified"
  proof
    assume "net_IPv4 a b c d = IPv6unspecified"
    then have "net_IPv4 a b c d ! 10 = IPv6unspecified ! 10" by simp
    then show False by (simp add: net_IPv4_def v4InV6Prefix_def IPv6unspecified_def nth_append)
  qed
  moreover have "length (net_IPv4 a b c d) = 16"
    by (simp add: net_IPv4_def v4InV6Prefix_def)
  moreover have "net_IPv4 a b c d = net_IPv4 e f g h \<longleftrightarrow> a = e \<and> b = f \<and> c = g \<and> d = h" for e f g h
    by (simp add: net_IPv4_def)
  ultimately show ?thesis
    by (auto simp: IsGlobalUnicast_def ip_Equal_def IsUnspecified_def IsLoopback_def IsMulticast_def
      IsLinkLocalUnicast_def IPv6unspecified_def net_IPv4_def v4InV6Prefix_def To4_def)
qed

section \<open>Properties\<close>

text \<open>
  Text and number of an IPv4 address round-trip: \<open>Int32ToIPString\<close> never fails, and
  \<open>IPStringToInt32\<close> gives back the address from the text, without error or panic.
\<close>

lemma ip_text_roundtrip:
  "\<exists>s. Int32ToIPString x = Inr s \<and> IPStringToInt32 s = Inr (Inr x)"
  using IPStringToInt32_ip_str [of x] by (simp add: Int32ToIPString_def' ip_str_def)

section \<open>An address has one text\<close>

lemma digit_char_of: "is_digit c \<Longrightarrow> digit_char (of_char c - 48) = c"
  by (simp add: is_digit_def digit_char_def)

lemma dec_value_pos: "0 < acc \<Longrightarrow> 0 < dec_value acc s"
  by (induction s arbitrary: acc) auto

lemma show_dec_value:
  "s \<noteq> [] \<Longrightarrow> list_all is_digit s \<Longrightarrow> \<not> (length s > 1 \<and> hd s = CHR ''0'') \<Longrightarrow> show_nat (dec_value 0 s) = s"
proof (induction s rule: rev_induct)
  case (snoc c xs)
  let ?d = "(of_char c :: nat) - 48"
  have d: "?d < 10" "digit_char ?d = c" using snoc.prems(2) digit_char_of [of c] by (auto simp: is_digit_def)
  show ?case
  proof (cases "xs = []")
    case True
    then show ?thesis using d by (simp add: show_nat.simps)
  next
    case False
    then have xs: "list_all is_digit xs" "hd xs \<noteq> CHR ''0''" using snoc.prems by auto
    then obtain h t where h: "xs = h # t" "is_digit h" "h \<noteq> CHR ''0''" using False by (cases xs) auto
    have "(of_char h :: nat) \<noteq> of_char (CHR ''0'')" using h(3) by (metis of_char_eq_iff)
    then have "0 < (of_char h :: nat) - 48" using h(2) by (simp add: is_digit_def)
    then have pos: "0 < dec_value 0 xs" using dec_value_pos by (simp add: h(1))
    have "show_nat (dec_value 0 xs) = xs" using snoc.IH False xs by auto
    then show ?thesis using pos d by (subst show_nat.simps) (simp add: dec_value_snoc)
  qed
qed simp

lemma parse_dec_byte_text: "parse_dec_byte s = Some b \<Longrightarrow> s = show_byte b"
proof -
  assume p: "parse_dec_byte s = Some b"
  then have s: "s \<noteq> []" "list_all is_digit s" "\<not> (length s > 1 \<and> hd s = CHR ''0'')"
    and b: "dec_value 0 s \<le> 255" "b = word_of_nat (dec_value 0 s)"
    by (auto simp: parse_dec_byte_def Let_def split: if_splits)
  have "unat b = dec_value 0 s" using b by (simp add: unat_of_nat take_bit_nat_eq_self)
  then show ?thesis using show_dec_value [OF s] by (simp add: show_byte_def)
qed

fun join_on :: "char \<Rightarrow> string list \<Rightarrow> string" where
  "join_on c [] = []"
| "join_on c [f] = f"
| "join_on c (f # fs) = f @ c # join_on c fs"

lemma split_on_not_Nil: "split_on c s \<noteq> []"
  by (induction s) (auto split: list.splits)

lemma join_split: "join_on c (split_on c s) = s"
proof (induction s)
  case (Cons x xs)
  obtain f fs where f: "split_on c xs = f # fs" using split_on_not_Nil [of c xs] by (meson neq_Nil_conv)
  then show ?case using Cons by (cases fs) auto
qed simp

lemma parseIPv4_text: "parseIPv4 s = Some bs \<Longrightarrow> \<exists>a b c d. bs = [a, b, c, d] \<and> s = dotted_quad a b c d"
proof -
  assume "parseIPv4 s = Some bs"
  then obtain f1 f2 f3 f4 a b c d where f: "split_on (CHR ''.'') s = [f1, f2, f3, f4]" "bs = [a, b, c, d]"
    "parse_dec_byte f1 = Some a" "parse_dec_byte f2 = Some b" "parse_dec_byte f3 = Some c" "parse_dec_byte f4 = Some d"
    by (auto simp: parseIPv4_def split: list.splits option.splits)
  have "s = join_on (CHR ''.'') [f1, f2, f3, f4]" using join_split [of "CHR ''.''" s] f(1) by simp
  with f(2) show ?thesis using f(3-6) [THEN parse_dec_byte_text] by (simp add: dotted_quad_def)
qed

lemma beyond_byte: "8 \<le> n \<Longrightarrow> \<not> bit (b :: byte) n"
  using bit_imp_le_length by fastforce

lemma byte_parts:
  fixes a b c d :: byte
  defines "x \<equiv> push_bit 24 (ucast a) OR push_bit 16 (ucast b) OR push_bit 8 (ucast c) OR ucast d :: uint32"
  shows "ucast (drop_bit 24 (x AND 0xff000000)) = a" "ucast (drop_bit 16 (x AND 0x00ff0000)) = b"
    "ucast (drop_bit 8 (x AND 0x0000ff00)) = c" "ucast (x AND 0x000000ff) = d"
  unfolding x_def
  by (rule bit_word_eqI; auto simp: byte_masks bit_simps beyond_byte)+

text \<open>Text without a colon is an IPv4 address or none: the conversion does not panic.\<close>

lemma ParseIP_no_colon:
  "CHR '':'' \<notin> set s \<Longrightarrow> ParseIP s = [] \<or> (\<exists>a b c d. s = dotted_quad a b c d)"
proof -
  assume s: "CHR '':'' \<notin> set s"
  show ?thesis
  proof (cases "dropWhile (\<lambda>c. c \<noteq> CHR ''.'' \<and> c \<noteq> CHR '':'') s")
    case Nil
    show ?thesis unfolding ParseIP_def Nil by simp
  next
    case (Cons c cs)
    then have "c = CHR ''.'' \<or> c = CHR '':''" using hd_dropWhile [of "\<lambda>c. c \<noteq> CHR ''.'' \<and> c \<noteq> CHR '':''" s] by auto
    moreover have "c \<in> set s" by (rule set_dropWhileD [of _ "\<lambda>c. c \<noteq> CHR ''.'' \<and> c \<noteq> CHR '':''"]) (simp add: Cons)
    ultimately have "c = CHR ''.''" using s by auto
    then show ?thesis unfolding ParseIP_def Cons using parseIPv4_text [of s] by (cases "parseIPv4 s") auto
  qed
qed

lemma IPStringToInt32_no_colon:
  assumes "CHR '':'' \<notin> set s"
  shows "IPStringToInt32 s = Inr (Inl NilIp) \<or> (\<exists>i. IPStringToInt32 s = Inr (Inr i) \<and> s = ip_str i)"
proof -
  consider "ParseIP s = []" | a b c d where "s = dotted_quad a b c d" using ParseIP_no_colon [OF assms] by blast
  then show ?thesis
  proof cases
    case 1
    then show ?thesis by (simp add: IPStringToInt32_def)
  next
    case 2
    let ?i = "push_bit 24 (ucast a) OR push_bit 16 (ucast b) OR push_bit 8 (ucast c) OR ucast d :: uint32"
    have "IPStringToInt32 s = Inr (Inr ?i)" by (simp add: IPStringToInt32_def Let_def 2)
    moreover have "s = ip_str ?i" by (simp only: ip_str_def Int32ToIPString_def' sum.case byte_parts 2)
    ultimately show ?thesis by blast
  qed
qed

end
