(* ===== verification/StringUtil.thy ===== *)
theory StringUtil
  imports NetAddr
begin

text \<open>
  \<open>util/string/string_utils.go\<close>: the string-slice helpers. Where the code ranges over a map, the
  order of the keys is the argument \<open>ord\<close>, any rearrangement of the keys.
\<close>

type_synonym order = "string list \<Rightarrow> string list"

definition StringSliceReverse :: "string list \<Rightarrow> string list" where
  "StringSliceReverse ss =
     fold (\<lambda>(i, s) ret. ret[length ss - i - 1 := s]) (enumerate 0 ss) (replicate (length ss) [])"

text \<open>
  \<open>StringSet.Union\<close>: the map \<open>mm\<close> has the strings of the receiver as keys and says which of them
  occur in \<open>s\<close>; the key \<open>non_spoofed\<close> goes to the front.
\<close>

definition union_mark :: "string list \<Rightarrow> string list \<Rightarrow> (string \<rightharpoonup> bool)" where
  "union_mark ss s = fold (\<lambda>c mm. case mm c of None \<Rightarrow> mm | Some _ \<Rightarrow> mm(c \<mapsto> True)) s
     (fold (\<lambda>c mm. mm(c \<mapsto> False)) ss Map.empty)"

definition StringSet_Union :: "order \<Rightarrow> string list \<Rightarrow> string list \<Rightarrow> string list" where
  "StringSet_Union ord ss s =
     (let mm = union_mark ss s;
          keys = ord (remdups ss);
          found = (mm ''non_spoofed'' = Some True);
          ret = filter (\<lambda>k. k \<noteq> ''non_spoofed'' \<and> mm k = Some True) keys
      in if found then ''non_spoofed'' # ret else ret)"

fun equals_loop :: "string list \<Rightarrow> string list \<Rightarrow> bool" where
  "equals_loop (l # ls) (r # rs) = (if l \<noteq> r then False else equals_loop ls rs)"
| "equals_loop _ _ = True"

definition StringArrayEquals :: "string list \<Rightarrow> string list \<Rightarrow> bool" where
  "StringArrayEquals left right = (if length left \<noteq> length right then False else equals_loop left right)"

text \<open>The first unequal pair decides; both slices have the same length in the loop.\<close>

fun order_loop :: "string list \<Rightarrow> string list \<Rightarrow> int" where
  "order_loop (l # ls) (r # rs) =
     (let cmp = strings_Compare l r in if cmp \<noteq> 0 then cmp else order_loop ls rs)"
| "order_loop _ _ = 0"

definition OrderStringArray :: "string list \<Rightarrow> string list \<Rightarrow> int" where
  "OrderStringArray left right =
     (if length left > length right then 1
      else if length left < length right then -1
      else order_loop left right)"

fun InArray :: "string list \<Rightarrow> string \<Rightarrow> bool" where
  "InArray [] s = False"
| "InArray (x # xs) s = (if x = s then True else InArray xs s)"

text \<open>\<open>StringSliceMinus\<close>: the keys of a map again, so the order of \<open>l\<close> is lost.\<close>

definition minus_old :: "string list \<Rightarrow> string list \<Rightarrow> (string \<rightharpoonup> bool)" where
  "minus_old l r = fold (\<lambda>s old. case old s of None \<Rightarrow> old | Some _ \<Rightarrow> old(s := None)) r
     (fold (\<lambda>s old. old(s \<mapsto> True)) l Map.empty)"

definition StringSliceMinus :: "order \<Rightarrow> string list \<Rightarrow> string list \<Rightarrow> string list" where
  "StringSliceMinus ord l r =
     (let old = minus_old l r;
          keys = ord (filter (\<lambda>k. old k \<noteq> None) (remdups l));
          ret = filter (\<lambda>k. k \<noteq> ''non_spoofed'') keys
      in if ''non_spoofed'' \<in> set keys then ''non_spoofed'' # ret else ret)"

definition StringSliceIndex :: "string list \<Rightarrow> string \<Rightarrow> int" where
  "StringSliceIndex segs seg = first_index_from 0 (\<lambda>s. s = seg) segs"

definition CloneStringSlice :: "string list \<Rightarrow> string list" where
  "CloneStringSlice ss = fold (\<lambda>s ret. ret @ [s]) ss []"

section \<open>What the helpers compute\<close>

lemma CloneStringSlice_eq [simp]: "CloneStringSlice ss = ss"
proof -
  have "fold (\<lambda>s ret. ret @ [s]) ss acc = acc @ ss" for acc
    by (induction ss arbitrary: acc) auto
  then show ?thesis by (simp add: CloneStringSlice_def)
qed

lemma InArray_iff [simp]: "InArray xs s \<longleftrightarrow> s \<in> set xs"
  by (induction xs) auto

lemma reverse_loop:
  "k + length xs = n \<Longrightarrow> length ret = n \<Longrightarrow>
     fold (\<lambda>(i, s) ret. ret[n - i - 1 := s]) (enumerate k xs) ret = rev xs @ drop (length xs) ret"
proof (induction xs arbitrary: k ret)
  case (Cons x xs)
  have "n - k - 1 = length xs" using Cons.prems(1) by simp
  then have "fold (\<lambda>(i, s) ret. ret[n - i - 1 := s]) (enumerate k (x # xs)) ret =
      rev xs @ drop (length xs) (ret[length xs := x])"
    using Cons.IH [of "Suc k" "ret[length xs := x]"] Cons.prems by simp
  moreover have "drop (length xs) (ret[length xs := x]) = x # drop (Suc (length xs)) ret"
    using Cons.prems by (simp add: drop_update_swap Cons_nth_drop_Suc [symmetric])
  ultimately show ?case by simp
qed simp

lemma StringSliceReverse_eq [simp]: "StringSliceReverse ss = rev ss"
  using reverse_loop [of 0 ss "length ss" "replicate (length ss) []"] by (simp add: StringSliceReverse_def)

lemma equals_loop_iff: "length l = length r \<Longrightarrow> equals_loop l r \<longleftrightarrow> l = r"
  by (induction l r rule: list_induct2) auto

lemma StringArrayEquals_iff [simp]: "StringArrayEquals l r \<longleftrightarrow> l = r"
  by (auto simp: StringArrayEquals_def equals_loop_iff)

lemma fold_put_const: "fold (\<lambda>c mm. mm(c \<mapsto> v)) ss m k = (if k \<in> set ss then Some v else m k)"
  by (induction ss arbitrary: m) auto

lemma fold_mark:
  "fold (\<lambda>c mm. case mm c of None \<Rightarrow> mm | Some _ \<Rightarrow> mm(c \<mapsto> True)) s m k =
     (if k \<in> set s \<and> m k \<noteq> None then Some True else m k)"
  by (induction s arbitrary: m) (auto split: option.splits)

lemma union_mark_Some_True: "union_mark ss s k = Some True \<longleftrightarrow> k \<in> set ss \<and> k \<in> set s"
  by (simp add: union_mark_def fold_mark fold_put_const)

lemma fold_unset:
  "fold (\<lambda>s old. case old s of None \<Rightarrow> old | Some _ \<Rightarrow> old(s := None)) r m k =
     (if k \<in> set r then None else m k)"
  by (induction r arbitrary: m) (auto split: option.splits)

lemma minus_old_None: "minus_old l r k \<noteq> None \<longleftrightarrow> k \<in> set l \<and> k \<notin> set r"
  by (simp add: minus_old_def fold_unset fold_put_const del: not_None_eq)

context rearrangement
begin

lemma filter_ord_set: "set (filter p (ord xs)) = {x \<in> set xs. p x}"
  by (simp add: set_ord)

lemma distinct_filter_ord: "distinct xs \<Longrightarrow> distinct (filter p (ord xs))"
  by (simp add: distinct_ord)

end

lemma set_StringSet_Union:
  assumes "rearrangement ord"
  shows "set (StringSet_Union ord ss s) = set ss \<inter> set s"
    and "distinct (StringSet_Union ord ss s)"
proof -
  show "set (StringSet_Union ord ss s) = set ss \<inter> set s"
    by (auto simp: StringSet_Union_def Let_def union_mark_Some_True
      rearrangement.set_ord [OF assms])
  show "distinct (StringSet_Union ord ss s)"
    by (auto simp: StringSet_Union_def Let_def rearrangement.distinct_ord [OF assms])
qed

lemma set_StringSliceMinus:
  assumes "rearrangement ord"
  shows "set (StringSliceMinus ord l r) = set l - set r"
    and "distinct (StringSliceMinus ord l r)"
proof -
  show "set (StringSliceMinus ord l r) = set l - set r"
    by (auto simp: StringSliceMinus_def Let_def minus_old_None rearrangement.set_ord [OF assms]
      simp del: not_None_eq)
  show "distinct (StringSliceMinus ord l r)"
    by (auto simp: StringSliceMinus_def Let_def rearrangement.distinct_ord [OF assms])
qed

lemma StringSliceIndex_cases:
  "seg \<notin> set segs \<and> StringSliceIndex segs seg = -1 \<or>
   (\<exists>k < length segs. segs ! k = seg \<and> (\<forall>j < k. segs ! j \<noteq> seg) \<and> StringSliceIndex segs seg = int k)"
  using first_index_from_cases [of segs "\<lambda>s. s = seg" 0] by (auto simp: StringSliceIndex_def)

text \<open>\<open>OrderStringArray\<close> is a linear order: length first, then bytewise.\<close>

lemma order_loop_refl [simp]: "order_loop xs xs = 0"
  by (induction xs) (auto simp: Let_def)

lemma order_loop_neg: "length l = length r \<Longrightarrow> order_loop l r < 0 \<longleftrightarrow> l < r"
  by (induction l r rule: list_induct2) (auto simp: Let_def strings_Compare_def)

lemma OrderStringArray_neg:
  "OrderStringArray l r < 0 \<longleftrightarrow> length l < length r \<or> length l = length r \<and> l < r"
  by (auto simp: OrderStringArray_def order_loop_neg)

end
