(* ===== verification/Segments.thy ===== *)
theory Segments
  imports StringUtil
begin

text \<open>
  \<open>revtr/reverse_traceroute/segments.go\<close>: the segments a reverse path is made of. The Go structs embed
  \<open>*RevSegment\<close> and inherit its methods, which therefore work on the embedded part (\<open>seg_base\<close>); the
  constructors are the ten concrete types. \<open>cm\<close> is \<open>ClusterMap.Get\<close> (theory \<open>ClusterMap\<close>), \<open>ord\<close> an
  iteration order of a map. A method that mutates its receiver returns the new value.
\<close>

type_synonym hop = string
type_synonym cluster_map = "string \<Rightarrow> string"

abbreviation zero_hop :: hop where
  "zero_hop \<equiv> ''0.0.0.0''"

section \<open>Data\<close>

record rev_segment =
  rs_Segment :: "hop list"
  rs_Src :: string
  rs_Hop :: string

datatype segment =
    RevSegment (seg_base: rev_segment)
  | DstRevSegment (seg_base: rev_segment)
  | DstSymRevSegment (seg_base: rev_segment) (sym_tr: "hop list") (sym_numHops: int)
  | TRtoSrcRevSegment (seg_base: rev_segment)
  | RRRevSegment (seg_base: rev_segment)
  | SpoofRRRevSegment (seg_base: rev_segment) (spoof_source: string)
  | TSAdjRevSegment (seg_base: rev_segment) (linux_bug: bool)
  | SpoofTSAdjRevSegment (seg_base: rev_segment) (linux_bug: bool) (spoof_source: string)
  | SpoofTSAdjRevSegmentTSZero (seg_base: rev_segment) (linux_bug: bool) (spoof_source: string)
  | SpoofTSAdjRevSegmentTSZeroDoubleStamp (seg_base: rev_segment) (linux_bug: bool) (spoof_source: string)

text \<open>The dynamic type, as \<open>reflect.TypeOf\<close> and type assertions see it.\<close>

fun is_DstSym :: "segment \<Rightarrow> bool" where
  "is_DstSym (DstSymRevSegment _ _ _) = True"
| "is_DstSym _ = False"

fun is_Dst :: "segment \<Rightarrow> bool" where
  "is_Dst (DstRevSegment _) = True"
| "is_Dst _ = False"

text \<open>A method of \<open>*RevSegment\<close> that writes its receiver, called on any segment.\<close>

fun map_base :: "(rev_segment \<Rightarrow> rev_segment) \<Rightarrow> segment \<Rightarrow> segment" where
  "map_base f (RevSegment b) = RevSegment (f b)"
| "map_base f (DstRevSegment b) = DstRevSegment (f b)"
| "map_base f (DstSymRevSegment b t n) = DstSymRevSegment (f b) t n"
| "map_base f (TRtoSrcRevSegment b) = TRtoSrcRevSegment (f b)"
| "map_base f (RRRevSegment b) = RRRevSegment (f b)"
| "map_base f (SpoofRRRevSegment b s) = SpoofRRRevSegment (f b) s"
| "map_base f (TSAdjRevSegment b l) = TSAdjRevSegment (f b) l"
| "map_base f (SpoofTSAdjRevSegment b l s) = SpoofTSAdjRevSegment (f b) l s"
| "map_base f (SpoofTSAdjRevSegmentTSZero b l s) = SpoofTSAdjRevSegmentTSZero (f b) l s"
| "map_base f (SpoofTSAdjRevSegmentTSZeroDoubleStamp b l s) =
     SpoofTSAdjRevSegmentTSZeroDoubleStamp (f b) l s"

fun seg_Type :: "segment \<Rightarrow> int" where
  "seg_Type (RevSegment _) = 0"
| "seg_Type (DstRevSegment _) = 1"
| "seg_Type (DstSymRevSegment _ _ _) = 2"
| "seg_Type (TRtoSrcRevSegment _) = 3"
| "seg_Type (RRRevSegment _) = 4"
| "seg_Type (SpoofRRRevSegment _ _) = 5"
| "seg_Type (TSAdjRevSegment _ _) = 6"
| "seg_Type (SpoofTSAdjRevSegment _ _ _) = 7"
| "seg_Type (SpoofTSAdjRevSegmentTSZero _ _ _) = 8"
| "seg_Type (SpoofTSAdjRevSegmentTSZeroDoubleStamp _ _ _) = 9"

text \<open>
  \<open>Clone\<close>: every type clones to itself except \<open>TRtoSrcRevSegment\<close>, which has no \<open>Clone\<close> of its own:
  the promoted method of the embedded \<open>RevSegment\<close> returns a plain one.
\<close>

definition rev_clone :: "rev_segment \<Rightarrow> rev_segment" where
  "rev_clone rv = \<lparr>rs_Segment = [] @ rs_Segment rv, rs_Src = rs_Src rv, rs_Hop = rs_Hop rv\<rparr>"

fun seg_Clone :: "segment \<Rightarrow> segment" where
  "seg_Clone (TRtoSrcRevSegment b) = RevSegment (rev_clone b)"
| "seg_Clone s = map_base rev_clone s"

section \<open>Methods of RevSegment\<close>

definition Hops :: "segment \<Rightarrow> hop list" where
  "Hops s = rs_Segment (seg_base s)"

definition SetHop :: "hop \<Rightarrow> segment \<Rightarrow> segment" where
  "SetHop hop = map_base (\<lambda>rv. rv\<lparr>rs_Hop := hop\<rparr>)"

definition set_hops :: "hop list \<Rightarrow> segment \<Rightarrow> segment" where
  "set_hops hs = map_base (\<lambda>rv. rv\<lparr>rs_Segment := hs\<rparr>)"

definition RemoveAt :: "int \<Rightarrow> segment \<Rightarrow> segment go" where
  "RemoveAt idx s =
     (let hs = Hops s; n = int (length hs) in
      go_bind (go_slice hs 0 idx) (\<lambda>front.
      go_bind (go_slice hs (idx + 1) n) (\<lambda>back.
      go_bind (go_index hs (n - 1)) (\<lambda>_. Inr (set_hops (front @ back) s)))))"

definition rIndex :: "cluster_map \<Rightarrow> hop list \<Rightarrow> hop \<Rightarrow> int" where
  "rIndex cm ss s = last_index_from 0 (\<lambda>st. cm s = cm st) ss (-1)"

datatype remove_error = StillALoop "hop list" "hop list" "hop list"

definition max_rIndex :: "cluster_map \<Rightarrow> hop list \<Rightarrow> hop list \<Rightarrow> int" where
  "max_rIndex cm hs common =
     fold (\<lambda>h maxIndex. let tmp = rIndex cm hs h in if tmp > maxIndex then tmp else maxIndex) common (-1)"

definition RemoveHops_list ::
    "order \<Rightarrow> cluster_map \<Rightarrow> hop list \<Rightarrow> hop list \<Rightarrow> hop list \<times> remove_error option" where
  "RemoveHops_list ord cm toDel hs =
     (let noZeros = filter (\<lambda>ip. ip \<noteq> zero_hop) toDel;
          common = StringSet_Union ord hs noZeros;
          hs' = (if length common > 0
                 then let maxIndex = max_rIndex cm hs common
                      in if maxIndex = int (length hs) then [] else drop (nat (maxIndex + 1)) hs
                 else hs);
          common' = StringSet_Union ord hs' toDel
      in (hs', if length common' > 0 then Some (StillALoop toDel hs' common') else None))"

definition RemoveHops ::
    "order \<Rightarrow> cluster_map \<Rightarrow> hop list \<Rightarrow> segment \<Rightarrow> segment \<times> remove_error option" where
  "RemoveHops ord cm toDel s =
     (let (hs', err) = RemoveHops_list ord cm toDel (Hops s) in (set_hops hs' s, err))"

definition RemoveLocalHops :: "segment \<Rightarrow> segment" where
  "RemoveLocalHops s =
     set_hops (filter (\<lambda>h. ParseIP h \<noteq> [] \<and> IsGlobalUnicast (ParseIP h)) (Hops s)) s"

definition seg_SymmetricAssumptions :: "segment \<Rightarrow> int" where
  "seg_SymmetricAssumptions s = 0"

definition seg_Length :: "bool \<Rightarrow> segment \<Rightarrow> nat" where
  "seg_Length excNullHops s =
     (if excNullHops then length (filter (\<lambda>h. h \<noteq> zero_hop) (Hops s)) else length (Hops s))"

definition seg_LastHop :: "segment \<Rightarrow> hop" where
  "seg_LastHop s = (if length (Hops s) = 0 then [] else last (Hops s))"

definition seg_Reaches :: "cluster_map \<Rightarrow> segment \<Rightarrow> bool" where
  "seg_Reaches cm s \<longleftrightarrow>
     seg_LastHop s = rs_Src (seg_base s) \<or> cm (seg_LastHop s) = cm (rs_Src (seg_base s))"

text \<open>
  \<open>Order\<close> is a method of \<open>*RevSegment\<close>: inside it \<open>rv\<close> is the embedded part, whatever segment the
  caller has, so \<open>reflect.TypeOf(rv)\<close> is always that of a plain \<open>RevSegment\<close>.
\<close>

definition seg_Order :: "cluster_map \<Rightarrow> segment \<Rightarrow> segment \<Rightarrow> int" where
  "seg_Order cm a b =
     (let rv = RevSegment (seg_base a) in
      if is_DstSym rv \<and> \<not> is_DstSym b then -1
      else if is_DstSym b \<and> \<not> is_DstSym rv then 1
      else if StringArrayEquals (Hops rv) (Hops b) then 0
      else if seg_LastHop rv = seg_LastHop b then
        (if seg_Length True rv \<noteq> seg_Length True b then
           (if seg_Length True rv < seg_Length True b then -1
            else if seg_Length True rv = seg_Length True b then 0
            else 1)
         else OrderStringArray (Hops rv) (Hops b))
      else if seg_Reaches cm rv then 1
      else if seg_Reaches cm b then -1
      else if seg_Length True rv \<noteq> seg_Length True b then
        (if seg_Length True rv < seg_Length True b then -1
         else if seg_Length True rv > seg_Length True b then 1
         else 0)
      else strings_Compare (seg_LastHop rv) (seg_LastHop b))"

definition NewRevSegment :: "hop list \<Rightarrow> string \<Rightarrow> string \<Rightarrow> rev_segment" where
  "NewRevSegment seg src hop =
     \<lparr>rs_Segment = map (\<lambda>h. if \<not> IsGlobalUnicast (ParseIP h) then zero_hop else h) seg,
      rs_Src = src, rs_Hop = hop\<rparr>"

definition NewDstRevSegment :: "hop list \<Rightarrow> string \<Rightarrow> string \<Rightarrow> segment" where
  "NewDstRevSegment seg src hop = DstRevSegment (NewRevSegment seg src hop)"

definition NewTrtoSrcRevSegment :: "hop list \<Rightarrow> string \<Rightarrow> string \<Rightarrow> segment" where
  "NewTrtoSrcRevSegment seg src hop = TRtoSrcRevSegment (NewRevSegment seg src hop)"

definition NewRRRevSegment :: "hop list \<Rightarrow> string \<Rightarrow> string \<Rightarrow> segment" where
  "NewRRRevSegment seg src hop = RRRevSegment (NewRevSegment seg src hop)"

definition NewSpoofRRRevSegment :: "hop list \<Rightarrow> string \<Rightarrow> string \<Rightarrow> string \<Rightarrow> segment" where
  "NewSpoofRRRevSegment seg src hop spfsrc = SpoofRRRevSegment (NewRevSegment seg src hop) spfsrc"

definition NewTSAdjRevSegment :: "hop list \<Rightarrow> string \<Rightarrow> string \<Rightarrow> bool \<Rightarrow> segment" where
  "NewTSAdjRevSegment seg src hop linuxbug = TSAdjRevSegment (NewRevSegment seg src hop) linuxbug"

definition NewSpoofTSAdjRevSegment ::
    "hop list \<Rightarrow> string \<Rightarrow> string \<Rightarrow> string \<Rightarrow> bool \<Rightarrow> segment" where
  "NewSpoofTSAdjRevSegment seg src hop spfsrc linuxbug =
     SpoofTSAdjRevSegment (NewRevSegment seg src hop) linuxbug spfsrc"

definition NewSpoofTSAdjRevSegmentTSZero ::
    "hop list \<Rightarrow> string \<Rightarrow> string \<Rightarrow> string \<Rightarrow> bool \<Rightarrow> segment" where
  "NewSpoofTSAdjRevSegmentTSZero seg src hop spfsrc linuxbug =
     SpoofTSAdjRevSegmentTSZero (NewRevSegment seg src hop) linuxbug spfsrc"

definition NewSpoofTSAdjRevSegmentTSZeroDoubleStamp ::
    "hop list \<Rightarrow> string \<Rightarrow> string \<Rightarrow> string \<Rightarrow> bool \<Rightarrow> segment" where
  "NewSpoofTSAdjRevSegmentTSZeroDoubleStamp seg src hop spfsrc linuxbug =
     SpoofTSAdjRevSegmentTSZeroDoubleStamp (NewRevSegment seg src hop) linuxbug spfsrc"

section \<open>Symmetric segments\<close>

text \<open>
  \<open>ndsrsSelectNonzeroHops\<close>: the scan counts the hops that are neither zero nor ignored; where there
  are not enough, trailing zeros are dropped, and an index of \<open>-1\<close> is read when all hops are zero.
\<close>

fun nds_scan :: "int \<Rightarrow> hop list \<Rightarrow> hop list \<Rightarrow> int \<Rightarrow> nat \<Rightarrow> int \<times> nat" where
  "nds_scan hops ignore [] found i = (found, i)"
| "nds_scan hops ignore (t # ts) found i =
     (if found < hops
      then nds_scan hops ignore ts
             (if t \<noteq> zero_hop \<and> \<not> InArray ignore t then found + 1 else found) (Suc i)
      else (found, i))"

definition drop_trailing_zeros :: "hop list \<Rightarrow> (hop list) go" where
  "drop_trailing_zeros tr =
     (case dropWhile (\<lambda>h. h = zero_hop) (rev tr) of
        [] \<Rightarrow> Inl IndexOutOfRange
      | h # hs \<Rightarrow> Inr (rev (h # hs)))"

definition ndsrsSelectNonzeroHops :: "hop list \<Rightarrow> int \<Rightarrow> hop list \<Rightarrow> (hop list) go" where
  "ndsrsSelectNonzeroHops tr hops hopsToIgnore =
     (let (found, i) = nds_scan hops hopsToIgnore tr 0 0
      in if found = hops then Inr (take i tr) else drop_trailing_zeros tr)"

definition NewDstSymRevSegment ::
    "string \<Rightarrow> string \<Rightarrow> hop list \<Rightarrow> int \<Rightarrow> hop list \<Rightarrow> segment go" where
  "NewDstSymRevSegment src hop tr numhops hopsToIgnore =
     go_bind (go_slice tr 0 (int (length tr) - 1)) (\<lambda>front.
       let ntr = [src] @ front;
           rv = StringSliceReverse ntr
       in go_bind (ndsrsSelectNonzeroHops rv numhops hopsToIgnore) (\<lambda>seg.
            Inr (DstSymRevSegment (NewRevSegment seg src hop) tr numhops)))"

text \<open>\<open>AddHop\<close> of a \<open>DstSymRevSegment\<close>; other segments do not have the method.\<close>

fun AddHop :: "hop list \<Rightarrow> segment \<Rightarrow> segment go" where
  "AddHop hopsToIgnore (DstSymRevSegment b t n) =
     go_bind (go_slice t 0 (int (length t) - 1)) (\<lambda>front.
       let ntr = [rs_Src b] @ front;
           rv = StringSliceReverse ntr
       in go_bind (ndsrsSelectNonzeroHops rv (n + 1) hopsToIgnore) (\<lambda>seg.
            Inr (DstSymRevSegment (b\<lparr>rs_Segment := seg\<rparr>) t (n + 1))))"
| "AddHop hopsToIgnore s = Inr s"

section \<open>Textual forms\<close>

definition show_bool :: "bool \<Rightarrow> string" where
  "show_bool b = (if b then ''true'' else ''false'')"

text \<open>\<open>fmt.Sprintf("%v", hops)\<close>\<close>

definition show_strings :: "string list \<Rightarrow> string" where
  "show_strings hs = ''['' @ concat (case hs of [] \<Rightarrow> [] | h # t \<Rightarrow> h # map ((@) '' '') t) @ '']''"

definition rev_String :: "rev_segment \<Rightarrow> string" where
  "rev_String rv = ''RevSegment_'' @ show_strings (rs_Segment rv) @ ''_S'' @ rs_Src rv @ ''_H'' @ rs_Hop rv"

definition tsadj_String :: "rev_segment \<Rightarrow> bool \<Rightarrow> string" where
  "tsadj_String b l = rev_String b @ (if l then ''_TSAdj_LinuxBug'' else ''_TSAdj'')"

definition spoof_tsadj_String :: "rev_segment \<Rightarrow> bool \<Rightarrow> string \<Rightarrow> string" where
  "spoof_tsadj_String b l s = tsadj_String b l @ ''_SpfSrc_'' @ s"

fun seg_String :: "segment \<Rightarrow> string" where
  "seg_String (RevSegment b) = rev_String b"
| "seg_String (DstRevSegment b) = rev_String b @ ''_Dst''"
| "seg_String (DstSymRevSegment b _ _) = rev_String b @ ''_AssumeSym''"
| "seg_String (TRtoSrcRevSegment b) = rev_String b @ ''_TRtoSrc''"
| "seg_String (RRRevSegment b) = rev_String b @ ''_RR''"
| "seg_String (SpoofRRRevSegment b _) = rev_String b @ ''_RR'' @ ''_SpfSrc''"
| "seg_String (TSAdjRevSegment b l) = tsadj_String b l"
| "seg_String (SpoofTSAdjRevSegment b l s) = spoof_tsadj_String b l s"
| "seg_String (SpoofTSAdjRevSegmentTSZero b l s) = spoof_tsadj_String b l s @ ''_Dst0''"
| "seg_String (SpoofTSAdjRevSegmentTSZeroDoubleStamp b l s) =
     spoof_tsadj_String b l s @ ''_Dst0'' @ ''_DblStamp''"

section \<open>Projections\<close>

lemma seg_base_map_base [simp]: "seg_base (map_base f s) = f (seg_base s)"
  by (cases s) auto

lemma is_DstSym_map_base [simp]: "is_DstSym (map_base f s) = is_DstSym s"
  by (cases s) auto

lemma is_Dst_map_base [simp]: "is_Dst (map_base f s) = is_Dst s"
  by (cases s) auto

lemma rev_clone_id [simp]: "rev_clone rv = rv"
  by (simp add: rev_clone_def)

lemma map_base_id [simp]: "map_base rev_clone s = s"
  by (cases s) auto

lemma seg_base_Clone [simp]: "seg_base (seg_Clone s) = seg_base s"
  by (cases s) auto

lemma Hops_Clone [simp]: "Hops (seg_Clone s) = Hops s"
  by (simp add: Hops_def)

lemma is_DstSym_Clone [simp]: "is_DstSym (seg_Clone s) = is_DstSym s"
  by (cases s) auto

lemma is_Dst_Clone [simp]: "is_Dst (seg_Clone s) = is_Dst s"
  by (cases s) auto

lemma seg_Clone_id: "\<not> (\<exists>b. s = TRtoSrcRevSegment b) \<Longrightarrow> seg_Clone s = s"
  by (cases s) auto

lemma seg_Clone_idem [simp]: "seg_Clone (seg_Clone s) = seg_Clone s"
  by (cases s) auto

lemma seg_LastHop_Clone [simp]: "seg_LastHop (seg_Clone s) = seg_LastHop s"
  by (simp add: seg_LastHop_def)

lemma seg_Reaches_Clone [simp]: "seg_Reaches cm (seg_Clone s) = seg_Reaches cm s"
  by (simp add: seg_Reaches_def)

lemma Hops_set_hops [simp]: "Hops (set_hops hs s) = hs"
  by (simp add: Hops_def set_hops_def)

lemma Src_set_hops [simp]: "rs_Src (seg_base (set_hops hs s)) = rs_Src (seg_base s)"
  by (simp add: set_hops_def)

lemma seg_LastHop_nonempty: "Hops s \<noteq> [] \<Longrightarrow> seg_LastHop s = last (Hops s)"
  by (simp add: seg_LastHop_def)

lemma Hops_plain [simp]: "Hops (RevSegment (seg_base a)) = Hops a"
  by (simp add: Hops_def)

lemma seg_LastHop_plain [simp]: "seg_LastHop (RevSegment (seg_base a)) = seg_LastHop a"
  by (simp add: seg_LastHop_def)

lemma seg_Reaches_plain [simp]: "seg_Reaches cm (RevSegment (seg_base a)) = seg_Reaches cm a"
  by (simp add: seg_Reaches_def)

lemma seg_Length_plain [simp]: "seg_Length e (RevSegment (seg_base a)) = seg_Length e a"
  by (simp add: seg_Length_def)

section \<open>Loop removal\<close>

lemma fold_greater_Max:
  "fold (\<lambda>h m. let tmp = f h in if tmp > m then tmp else m) xs (a :: int) = Max (insert a (f ` set xs))"
proof -
  have "fold (\<lambda>h m. let tmp = f h in if tmp > m then tmp else m) xs a = fold max (map f xs) a"
    by (induction xs arbitrary: a) (auto simp: Let_def max_def)
  also have "\<dots> = Max (set (a # map f xs))" by (rule Max.set_eq_fold [symmetric])
  finally show ?thesis by simp
qed

lemma rIndex_ge:
  assumes "j < length hs" "cm h = cm (hs ! j)"
  shows "int j \<le> rIndex cm hs h"
proof -
  from last_index_from_cases [of hs "\<lambda>st. cm h = cm st" 0 "-1"] assms
  obtain k where "k < length hs" "\<forall>i. k < i \<and> i < length hs \<longrightarrow> cm h \<noteq> cm (hs ! i)"
      "rIndex cm hs h = int k"
    unfolding rIndex_def by (metis add_0 nth_mem)
  with assms show ?thesis by (metis linorder_not_le of_nat_le_iff)
qed

lemma rIndex_cases:
  "rIndex cm hs h = -1 \<or> (\<exists>k < length hs. cm h = cm (hs ! k) \<and> rIndex cm hs h = int k)"
  using last_index_from_cases [of hs "\<lambda>st. cm h = cm st" 0 "-1"] unfolding rIndex_def by auto

lemma max_rIndex_spec:
  assumes "common \<noteq> []" and "set common \<subseteq> set hs"
  obtains k where "k < length hs" "max_rIndex cm hs common = int k" "cm (hs ! k) \<in> cm ` set common"
    "\<And>j. k < j \<Longrightarrow> j < length hs \<Longrightarrow> cm (hs ! j) \<notin> cm ` set common"
proof -
  let ?S = "insert (-1) (rIndex cm hs ` set common)"
  have eq: "max_rIndex cm hs common = Max ?S"
    unfolding max_rIndex_def by (rule fold_greater_Max)
  have ge: "rIndex cm hs h \<le> max_rIndex cm hs common" if "h \<in> set common" for h
    using that by (simp add: eq)
  obtain h0 j0 where "h0 \<in> set common" "j0 < length hs" "hs ! j0 = h0"
    using assms by (metis last_in_set in_set_conv_nth subsetD)
  then have "0 \<le> max_rIndex cm hs common"
    using ge [of h0] rIndex_ge [of j0 hs cm h0] by simp
  moreover have "max_rIndex cm hs common \<in> ?S" unfolding eq by (rule Max_in) auto
  ultimately obtain h where h: "h \<in> set common" "max_rIndex cm hs common = rIndex cm hs h" by auto
  with rIndex_cases [of cm hs h] \<open>0 \<le> max_rIndex cm hs common\<close>
  obtain k where k: "k < length hs" "cm h = cm (hs ! k)" "max_rIndex cm hs common = int k" by auto
  have "cm (hs ! j) \<notin> cm ` set common" if "k < j" "j < length hs" for j
  proof
    assume "cm (hs ! j) \<in> cm ` set common"
    then obtain h' where "h' \<in> set common" "cm h' = cm (hs ! j)" by auto
    with rIndex_ge [of j hs cm h'] ge [of h'] k that show False by simp
  qed
  moreover have "cm (hs ! k) \<in> cm ` set common" using k(2) h(1) by (metis imageI)
  ultimately show thesis using that [of k] k(1,3) by blast
qed

text \<open>What loop removal leaves: the hops after the last one in a cluster of a shared nonzero hop.\<close>

lemma RemoveHops_list_cut:
  assumes ord: "rearrangement ord" and res: "RemoveHops_list ord cm toDel hs = (hs', err)"
  defines "C \<equiv> set hs \<inter> (set toDel - {zero_hop})"
  shows "C = {} \<Longrightarrow> hs' = hs"
    and "C \<noteq> {} \<Longrightarrow> \<exists>k < length hs. hs' = drop (Suc k) hs \<and> cm (hs ! k) \<in> cm ` C \<and>
            (\<forall>h \<in> set hs'. cm h \<notin> cm ` C)"
    and "err = None \<longleftrightarrow> set hs' \<inter> set toDel = {}"
proof -
  let ?c = "StringSet_Union ord hs (filter (\<lambda>ip. ip \<noteq> zero_hop) toDel)"
  have setc: "set ?c = C"
    by (auto simp: set_StringSet_Union [OF ord] C_def)
  have hs': "hs' = (if length ?c > 0
                 then let maxIndex = max_rIndex cm hs ?c
                      in if maxIndex = int (length hs) then [] else drop (nat (maxIndex + 1)) hs
                 else hs)"
    and err: "err = (if length (StringSet_Union ord hs' toDel) > 0
                then Some (StillALoop toDel hs' (StringSet_Union ord hs' toDel)) else None)"
    using res by (auto simp: RemoveHops_list_def Let_def)
  show "hs' = hs" if "C = {}"
    using hs' setc that by simp
  show "\<exists>k < length hs. hs' = drop (Suc k) hs \<and> cm (hs ! k) \<in> cm ` C \<and>
            (\<forall>h \<in> set hs'. cm h \<notin> cm ` C)" if "C \<noteq> {}"
  proof -
    have ne: "?c \<noteq> []" using setc that by auto
    then obtain k where k: "k < length hs" "max_rIndex cm hs ?c = int k" "cm (hs ! k) \<in> cm ` set ?c"
      "\<And>j. k < j \<Longrightarrow> j < length hs \<Longrightarrow> cm (hs ! j) \<notin> cm ` set ?c"
      using max_rIndex_spec [of ?c hs cm] setc unfolding C_def by blast
    have cut: "hs' = drop (Suc k) hs"
      using k(1,2) ne by (simp add: hs' Let_def nat_add_distrib)
    have "cm h \<notin> cm ` C" if "h \<in> set hs'" for h
    proof -
      from that obtain i where "i < length hs'" "h = hs' ! i" by (metis in_set_conv_nth)
      then show ?thesis using k(1) k(4) [of "Suc k + i"] by (simp add: cut setc)
    qed
    with cut k(1,3) setc show ?thesis by blast
  qed
  have "set (StringSet_Union ord hs' toDel) = set hs' \<inter> set toDel"
    by (rule set_StringSet_Union [OF ord])
  then show "err = None \<longleftrightarrow> set hs' \<inter> set toDel = {}"
    by (auto simp: err)
qed

lemma RemoveHops_list_suffix:
  assumes "rearrangement ord" and "RemoveHops_list ord cm toDel hs = (hs', err)"
  shows "suffix hs' hs" and "set hs' \<inter> set toDel \<subseteq> {zero_hop}"
proof -
  note cut = RemoveHops_list_cut [OF assms]
  show suf: "suffix hs' hs" using cut(1,2) suffix_drop by (metis suffix_order.refl)
  show "set hs' \<inter> set toDel \<subseteq> {zero_hop}"
    using cut(1,2) set_mono_suffix [OF suf] by blast
qed

section \<open>The order of segments\<close>

text \<open>\<open>magicSort.Less\<close> is \<open>Order < 0\<close>; this is when it holds.\<close>

definition seg_Less :: "cluster_map \<Rightarrow> segment \<Rightarrow> segment \<Rightarrow> bool" where
  "seg_Less cm a b \<longleftrightarrow> seg_Order cm a b < 0"

lemma seg_Less_iff:
  "seg_Less cm a b \<longleftrightarrow> \<not> is_DstSym b \<and> Hops a \<noteq> Hops b \<and>
     (if seg_LastHop a = seg_LastHop b
      then seg_Length True a < seg_Length True b \<or>
        seg_Length True a = seg_Length True b \<and> OrderStringArray (Hops a) (Hops b) < 0
      else \<not> seg_Reaches cm a \<and> (seg_Reaches cm b \<or> seg_Length True a < seg_Length True b \<or>
        seg_Length True a = seg_Length True b \<and> seg_LastHop a < seg_LastHop b))"
  by (simp add: seg_Less_def seg_Order_def Let_def strings_Compare_neg)

lemma OrderStringArray_trans:
  "OrderStringArray a b < 0 \<Longrightarrow> OrderStringArray b c < 0 \<Longrightarrow> OrderStringArray a c < 0"
  unfolding OrderStringArray_neg by auto

lemma OrderStringArray_irrefl: "\<not> OrderStringArray a a < 0"
  unfolding OrderStringArray_neg by auto

lemma seg_Less_irrefl: "\<not> seg_Less cm a a"
  by (simp add: seg_Less_iff)

lemma seg_Reaches_cong:
  "seg_LastHop a = seg_LastHop b \<Longrightarrow> rs_Src (seg_base a) = rs_Src (seg_base b) \<Longrightarrow>
   seg_Reaches cm a = seg_Reaches cm b"
  by (simp add: seg_Reaches_def)

lemma seg_Less_trans:
  assumes src: "rs_Src (seg_base a) = rs_Src (seg_base b)" "rs_Src (seg_base b) = rs_Src (seg_base c)"
    and ab: "seg_Less cm a b" and bc: "seg_Less cm b c"
  shows "seg_Less cm a c"
proof -
  note r = seg_Reaches_cong [OF _ src(1), of cm] seg_Reaches_cong [OF _ src(2), of cm]
    seg_Reaches_cong [OF _ src(1) [THEN trans, OF src(2)], of cm]
  show ?thesis
  proof (cases "seg_LastHop a = seg_LastHop b \<and> seg_LastHop b = seg_LastHop c")
    case True
    let ?L = "seg_Length True"
    have A: "?L a < ?L b \<or> ?L a = ?L b \<and> OrderStringArray (Hops a) (Hops b) < 0"
      using ab True by (simp add: seg_Less_iff)
    have B: "?L b < ?L c \<or> ?L b = ?L c \<and> OrderStringArray (Hops b) (Hops c) < 0"
      using bc True by (simp add: seg_Less_iff)
    from A B have C: "?L a < ?L c \<or> ?L a = ?L c \<and> OrderStringArray (Hops a) (Hops c) < 0"
      by (elim disjE conjE) (auto intro: OrderStringArray_trans)
    then have "Hops a \<noteq> Hops c"
      using OrderStringArray_irrefl by (auto simp: seg_Length_def)
    moreover have "\<not> is_DstSym c" using bc by (simp add: seg_Less_iff)
    ultimately show ?thesis using C True by (simp add: seg_Less_iff)
  next
    case False
    then have ne: "Hops a \<noteq> Hops c \<or> seg_Less cm a b \<and> seg_Less cm b c \<and> seg_LastHop a = seg_LastHop c"
      using ab bc by (auto simp: seg_LastHop_def)
    show ?thesis
    proof (cases "seg_LastHop a = seg_LastHop c")
      case True
      with False ab bc r have "seg_Length True a < seg_Length True c"
        unfolding seg_Less_iff by (auto split: if_splits)
      with True bc show ?thesis unfolding seg_Less_iff by (auto simp: seg_Length_def)
    next
      case no: False
      then have "Hops a \<noteq> Hops c" by (metis seg_LastHop_def)
      with no False ab bc r show ?thesis unfolding seg_Less_iff by (auto split: if_splits)
    qed
  qed
qed

section \<open>Properties\<close>

text \<open>
  C5. \<open>RemoveHops\<close> cuts a segment down to a suffix that shares no hop but \<open>0.0.0.0\<close> with the hops to
  remove. Where the segment shares no other hop it is left alone; otherwise everything up to the last
  hop in the alias cluster of a shared hop is cut, and no hop of such a cluster is left. The error
  "Still a loop" is returned exactly when the rest shares a hop, which can only be \<open>0.0.0.0\<close>.
\<close>

theorem remove_hops_cuts_loops:
  assumes "rearrangement ord" and "RemoveHops ord cm toDel s = (s', err)"
    and "C = set (Hops s) \<inter> (set toDel - {zero_hop})"
  shows "suffix (Hops s') (Hops s) \<and> set (Hops s') \<inter> set toDel \<subseteq> {zero_hop} \<and>
    (C = {} \<longrightarrow> Hops s' = Hops s) \<and>
    (C \<noteq> {} \<longrightarrow> (\<exists>k < length (Hops s). Hops s' = drop (Suc k) (Hops s) \<and> cm (Hops s ! k) \<in> cm ` C \<and>
       (\<forall>h \<in> set (Hops s'). cm h \<notin> cm ` C))) \<and>
    (err = None \<longleftrightarrow> set (Hops s') \<inter> set toDel = {}) \<and>
    (err \<noteq> None \<longrightarrow> zero_hop \<in> set (Hops s') \<and> zero_hop \<in> set toDel)"
proof -
  have res: "RemoveHops_list ord cm toDel (Hops s) = (Hops s', err)"
    using assms(2) by (auto simp: RemoveHops_def Let_def split: prod.splits)
  note cut = RemoveHops_list_cut [OF assms(1) res] and suf = RemoveHops_list_suffix [OF assms(1) res]
  have "err \<noteq> None \<longrightarrow> zero_hop \<in> set (Hops s') \<and> zero_hop \<in> set toDel"
    using cut(3) suf(2) by blast
  with cut suf show ?thesis unfolding assms(3) by blast
qed

definition ex_segment :: "hop list \<Rightarrow> segment" where
  "ex_segment hs = RRRevSegment \<lparr>rs_Segment = hs, rs_Src = ''9.9.9.9'', rs_Hop = ''8.8.8.8''\<rparr>"

lemma Hops_ex_segment [simp]: "Hops (ex_segment hs) = hs"
  by (simp add: ex_segment_def Hops_def)

lemma ex_RemoveHops:
  "RemoveHops insertion_order (\<lambda>h. h) [''1.1.1.1''] (ex_segment [''1.1.1.1'', ''2.2.2.2'']) =
     (ex_segment [''2.2.2.2''], None)"
  by (simp add: RemoveHops_def RemoveHops_list_def ex_segment_def Hops_def set_hops_def
    StringSet_Union_def union_mark_def insertion_order_def max_rIndex_def rIndex_def)

theorem remove_hops_cuts_loops_witness:
  "suffix [''2.2.2.2''] [''1.1.1.1'', ''2.2.2.2''] \<and> set [''2.2.2.2''] \<inter> set [''1.1.1.1''] \<subseteq> {zero_hop}"
  using remove_hops_cuts_loops [OF insertion_order.rearrangement_axioms ex_RemoveHops refl]
  by (simp only: Hops_ex_segment)

text \<open>
  The order in which \<open>AddSegments\<close> tries its candidates is sound for sorting: among segments to the
  same source, \<open>magicSort.Less\<close> is irreflexive, asymmetric and transitive.
\<close>

lemma segment_order_strict_partial:
  assumes "rs_Src (seg_base a) = rs_Src (seg_base b)" and "rs_Src (seg_base b) = rs_Src (seg_base c)"
  shows "\<not> seg_Less cm a a \<and> (seg_Less cm a b \<longrightarrow> \<not> seg_Less cm b a) \<and>
    (seg_Less cm a b \<longrightarrow> seg_Less cm b c \<longrightarrow> seg_Less cm a c)"
  using seg_Less_irrefl seg_Less_trans [OF assms] seg_Less_trans [OF assms(1) assms(1) [symmetric]]
  by blast

lemma ex_seg_Less:
  "seg_Less (\<lambda>h. h) (ex_segment [''1.1.1.1'']) (ex_segment [''1.1.1.1'', ''2.2.2.2''])"
  "seg_Less (\<lambda>h. h) (ex_segment [''1.1.1.1'', ''2.2.2.2'']) (ex_segment [''9.9.9.9''])"
  by code_simp+

definition usable_hop :: "hop list \<Rightarrow> hop \<Rightarrow> bool" where
  "usable_hop ignore h \<longleftrightarrow> h \<noteq> zero_hop \<and> h \<notin> set ignore"

lemma nds_scan_count:
  assumes "nds_scan n ignore tr found i = (found', i')" and "found \<le> n"
  obtains k where "i' = i + k" "k \<le> length tr" "found' \<le> n"
    "int (length (filter (usable_hop ignore) (take k tr))) = found' - found"
    "found' < n \<Longrightarrow> k = length tr"
    "0 < k \<Longrightarrow> found' = n \<Longrightarrow> usable_hop ignore (tr ! (k - 1))"
  using assms
proof (induction tr arbitrary: found i thesis)
  case Nil
  from Nil.prems(1) [of 0] Nil.prems(2,3) show thesis by simp
next
  case (Cons t ts)
  show thesis
  proof (cases "found < n")
    case False
    with Cons.prems(1) [of 0] Cons.prems(2,3) show thesis by simp
  next
    case True
    let ?f = "if usable_hop ignore t then found + 1 else found"
    from True Cons.prems(2) have step: "nds_scan n ignore ts ?f (Suc i) = (found', i')"
      by (simp add: usable_hop_def)
    from True have "?f \<le> n" by simp
    with step obtain k where k: "i' = Suc i + k" "k \<le> length ts" "found' \<le> n"
        "int (length (filter (usable_hop ignore) (take k ts))) = found' - ?f"
        "found' < n \<Longrightarrow> k = length ts"
        "0 < k \<Longrightarrow> found' = n \<Longrightarrow> usable_hop ignore (ts ! (k - 1))"
      using Cons.IH [of "Suc i" ?f] by blast
    have "usable_hop ignore ((t # ts) ! k)" if "found' = n"
    proof (cases k)
      case 0
      with k(4) that have "n = ?f" by simp
      with True have "usable_hop ignore t" by (metis less_irrefl)
      with 0 show ?thesis by simp
    next
      case (Suc j)
      with k(6) that show ?thesis by simp
    qed
    with k(1-5) show thesis
      by (intro Cons.prems(1) [of "Suc k"]) (auto split: if_splits)
  qed
qed

lemma ndsrs_selects:
  assumes "0 < n" and "ndsrsSelectNonzeroHops tr n ignore = Inr sel"
  shows "prefix sel tr \<and> sel \<noteq> [] \<and>
    (if n \<le> int (length (filter (usable_hop ignore) tr))
     then int (length (filter (usable_hop ignore) sel)) = n \<and> usable_hop ignore (last sel)
     else last sel \<noteq> zero_hop \<and> (\<forall>h \<in> set (drop (length sel) tr). h = zero_hop))"
proof -
  obtain found i where scan: "nds_scan n ignore tr 0 0 = (found, i)" by (metis surj_pair)
  have n: "0 \<le> n" using assms(1) by simp
  obtain k where "i = 0 + k" and c: "k \<le> length tr" "found \<le> n"
    "int (length (filter (usable_hop ignore) (take k tr))) = found - 0"
    "found < n \<Longrightarrow> k = length tr"
    "0 < k \<Longrightarrow> found = n \<Longrightarrow> usable_hop ignore (tr ! (k - 1))"
    by (rule nds_scan_count [OF scan n]) blast
  then have i: "i = k" by simp
  have le: "length (filter (usable_hop ignore) (take k tr)) \<le> length (filter (usable_hop ignore) tr)"
    by (metis append_take_drop_id filter_append length_append le_add1)
  show ?thesis
  proof (cases "found = n")
    case True
    then have sel: "sel = take k tr" using assms(2) scan i by (simp add: ndsrsSelectNonzeroHops_def)
    have "k \<noteq> 0" using c(3) True assms(1) by (cases k) auto
    then have pos: "0 < k" by simp
    then have ne: "sel \<noteq> []" using c(1) sel by auto
    then have "last sel = tr ! (k - 1)" using c(1) pos by (subst last_conv_nth) (simp_all add: sel min_absorb2)
    then have "usable_hop ignore (last sel)" using c(5) [OF pos True] by simp
    with ne show ?thesis using c(3) le True sel take_is_prefix [of k tr] by auto
  next
    case False
    then have "found < n" using c(2) by simp
    then have "k = length tr" by (rule c(4))
    with c(3) \<open>found < n\<close> have few: "int (length (filter (usable_hop ignore) tr)) < n" by simp
    have "drop_trailing_zeros tr = Inr sel"
      using assms(2) scan False by (simp add: ndsrsSelectNonzeroHops_def)
    then obtain h hs where d: "dropWhile (\<lambda>h. h = zero_hop) (rev tr) = h # hs" "sel = rev (h # hs)"
      by (auto simp: drop_trailing_zeros_def split: list.splits)
    have h: "h \<noteq> zero_hop" using hd_dropWhile [of "\<lambda>h. h = zero_hop" "rev tr"] d(1) by simp
    define z where "z = rev (takeWhile (\<lambda>h. h = zero_hop) (rev tr))"
    have "rev tr = rev z @ rev sel"
      using takeWhile_dropWhile_id [of "\<lambda>h. h = zero_hop" "rev tr"] d by (simp add: z_def)
    then have tr: "tr = sel @ z" by (metis rev_append rev_rev_ident)
    have "\<forall>h \<in> set z. h = zero_hop" by (auto simp: z_def dest: set_takeWhileD)
    with tr h d(2) few show ?thesis by auto
  qed
qed

text \<open>
  The segment assumed symmetric is read off the forward traceroute: the selected hops are the
  shortest prefix of the reversed route with \<open>hops\<close> usable hops (neither zero nor to be ignored),
  where there is one, so its last hop is usable; otherwise the route without its trailing zeros.
\<close>

lemma symmetric_hops_selected:
  assumes "0 < n" and "ndsrsSelectNonzeroHops tr n ignore = Inr sel"
  shows "prefix sel tr \<and> sel \<noteq> [] \<and>
    (if n \<le> int (length (filter (usable_hop ignore) tr))
     then int (length (filter (usable_hop ignore) sel)) = n \<and> usable_hop ignore (last sel)
     else last sel \<noteq> zero_hop \<and> (\<forall>h \<in> set (drop (length sel) tr). h = zero_hop))"
  using ndsrs_selects [OF assms] .

lemma ex_select:
  "ndsrsSelectNonzeroHops [''0.0.0.0'', ''1.1.1.1'', ''2.2.2.2''] 1 [''1.1.1.1''] =
     Inr [''0.0.0.0'', ''1.1.1.1'', ''2.2.2.2'']"
  by (simp add: ndsrsSelectNonzeroHops_def)

end
