(* ===== verification/ReversePath.thy ===== *)
theory ReversePath
  imports Segments
begin

text \<open>
  \<open>revtr/reverse_traceroute/reverse_path.go\<close>: a reverse path is a source, a destination and a nonempty
  list of segments. \<open>Path\<close> is a pointer to a slice that no two paths share (\<open>Clone\<close> allocates), so a
  path is a value here. \<open>LastSeg\<close> of an empty path is a run-time panic.
\<close>

record reverse_path =
  rp_Src :: string
  rp_Dst :: string
  rp_Path :: "segment list"

definition rp_len :: "reverse_path \<Rightarrow> nat" where
  "rp_len rp = length (rp_Path rp)"

definition NewReversePath :: "string \<Rightarrow> string \<Rightarrow> segment list \<Rightarrow> reverse_path" where
  "NewReversePath src dst path =
     \<lparr>rp_Src = src, rp_Dst = dst,
      rp_Path = (if length path = 0 then [NewDstRevSegment [dst] src dst] else path)\<rparr>"

definition rp_Clone :: "reverse_path \<Rightarrow> reverse_path" where
  "rp_Clone rp = \<lparr>rp_Src = rp_Src rp, rp_Dst = rp_Dst rp, rp_Path = map seg_Clone (rp_Path rp)\<rparr>"

definition rp_Hops :: "reverse_path \<Rightarrow> hop list" where
  "rp_Hops rp = concat (map Hops (rp_Path rp))"

definition rp_Length :: "reverse_path \<Rightarrow> nat" where
  "rp_Length rp = sum_list (map (seg_Length False) (rp_Path rp))"

definition rp_LastSeg :: "reverse_path \<Rightarrow> segment go" where
  "rp_LastSeg rp = go_index (rp_Path rp) (int (rp_len rp) - 1)"

definition rp_LastHop :: "reverse_path \<Rightarrow> hop go" where
  "rp_LastHop rp = go_bind (rp_LastSeg rp) (\<lambda>s. Inr (seg_LastHop s))"

definition rp_Pop :: "reverse_path \<Rightarrow> (segment \<times> reverse_path) go" where
  "rp_Pop rp =
     (let n = int (rp_len rp) in
      go_bind (go_index (rp_Path rp) (n - 1)) (\<lambda>l.
      go_bind (go_slice (rp_Path rp) 0 (n - 1)) (\<lambda>front.
        Inr (l, rp\<lparr>rp_Path := front\<rparr>))))"

definition rp_Reaches :: "cluster_map \<Rightarrow> reverse_path \<Rightarrow> bool go" where
  "rp_Reaches cm rp = go_bind (rp_LastSeg rp) (\<lambda>s. Inr (seg_Reaches cm s))"

definition rp_SymmetricAssumptions :: "reverse_path \<Rightarrow> int" where
  "rp_SymmetricAssumptions rp = sum_list (map seg_SymmetricAssumptions (rp_Path rp))"

definition rp_Add :: "segment \<Rightarrow> reverse_path \<Rightarrow> reverse_path" where
  "rp_Add s rp = rp\<lparr>rp_Path := rp_Path rp @ [s]\<rparr>"

section \<open>Facts\<close>

lemma rp_LastSeg_nonempty [simp]: "rp_Path rp \<noteq> [] \<Longrightarrow> rp_LastSeg rp = Inr (last (rp_Path rp))"
  by (cases "rp_Path rp" rule: rev_cases) (auto simp: rp_LastSeg_def rp_len_def go_index_def)

lemma rp_LastSeg_empty [simp]: "rp_Path rp = [] \<Longrightarrow> rp_LastSeg rp = Inl IndexOutOfRange"
  by (simp add: rp_LastSeg_def rp_len_def go_index_def)

lemma rp_LastHop_nonempty [simp]:
  "rp_Path rp \<noteq> [] \<Longrightarrow> rp_LastHop rp = Inr (seg_LastHop (last (rp_Path rp)))"
  by (simp add: rp_LastHop_def)

lemma rp_Reaches_nonempty [simp]:
  "rp_Path rp \<noteq> [] \<Longrightarrow> rp_Reaches cm rp = Inr (seg_Reaches cm (last (rp_Path rp)))"
  by (simp add: rp_Reaches_def)

lemma rp_Pop_nonempty [simp]:
  "rp_Path rp \<noteq> [] \<Longrightarrow> rp_Pop rp = Inr (last (rp_Path rp), rp\<lparr>rp_Path := butlast (rp_Path rp)\<rparr>)"
  by (cases "rp_Path rp" rule: rev_cases)
    (auto simp: rp_Pop_def rp_len_def go_index_def go_slice_def Let_def)

lemma rp_Path_Clone [simp]: "rp_Path (rp_Clone rp) = map seg_Clone (rp_Path rp)"
  by (simp add: rp_Clone_def)

lemma rp_Hops_Clone [simp]: "rp_Hops (rp_Clone rp) = rp_Hops rp"
  by (simp add: rp_Hops_def comp_def)

lemma rp_Clone_Clone [simp]: "rp_Clone (rp_Clone rp) = rp_Clone rp"
  by (simp add: rp_Clone_def comp_def)

lemma rp_Path_Add [simp]: "rp_Path (rp_Add s rp) = rp_Path rp @ [s]"
  by (simp add: rp_Add_def)

lemma rp_Hops_Add [simp]: "rp_Hops (rp_Add s rp) = rp_Hops rp @ Hops s"
  by (simp add: rp_Hops_def)

lemma rp_SymmetricAssumptions_0: "rp_SymmetricAssumptions rp = 0"
  by (simp add: rp_SymmetricAssumptions_def seg_SymmetricAssumptions_def [abs_def])

text \<open>A path is well formed when it has a segment and every segment leads to the path's source.\<close>

definition path_ok :: "reverse_path \<Rightarrow> bool" where
  "path_ok rp \<longleftrightarrow> rp_Path rp \<noteq> [] \<and> (\<forall>s \<in> set (rp_Path rp). rs_Src (seg_base s) = rp_Src rp)"

lemma path_ok_Clone [simp]: "path_ok (rp_Clone rp) = path_ok rp"
  by (simp add: path_ok_def rp_Clone_def)

lemma path_ok_Add: "path_ok rp \<Longrightarrow> rs_Src (seg_base s) = rp_Src rp \<Longrightarrow> path_ok (rp_Add s rp)"
  by (auto simp: path_ok_def rp_Add_def)

lemma path_ok_New: "path_ok (NewReversePath src dst [])"
  by (simp add: path_ok_def NewReversePath_def NewDstRevSegment_def NewRevSegment_def)

end
