(* ===== verification/PbTypes.thy ===== *)
theory PbTypes
  imports NetAddr
begin

text \<open>
  The messages the services exchange, as far as the modelled code reads them: vantage points
  (\<open>vpservice/pb\<close>), the atlas requests and responses (\<open>atlas/pb\<close>), and measurements with their
  results (\<open>datamodel\<close>). A pointer that may be nil is an option; fields no modelled code uses are left
  out.
\<close>

record vantage_point =
  vp_Ip :: uint32
  vp_Hostname :: string
  vp_Site :: string
  vp_Timestamp :: bool
  vp_RecordRoute :: bool
  vp_Spoof :: bool
  vp_RecSpoof :: bool
  vp_Ping :: bool
  vp_Trace :: bool

record atlas_hop =
  ah_Ip :: uint32
  ah_Ttl :: uint32

record atlas_path =
  ap_Address :: uint32
  ap_Dest :: uint32
  ap_Hops :: "atlas_hop list"

datatype response_type = IR_PATH | IR_TOKEN | IR_NONE_FOUND | IR_ERROR

record intersection_request =
  ir_Address :: uint32
  ir_Dest :: uint32
  ir_Staleness :: int64
  ir_UseAliases :: bool
  ir_IgnoreSource :: bool
  ir_Src :: uint32

record intersection_response =
  irp_Type :: response_type
  irp_Token :: uint32
  irp_Path :: "atlas_path option"
  irp_Error :: string

record token_request =
  tkr_Token :: uint32

record token_response =
  tr_Token :: uint32
  tr_Type :: response_type
  tr_Path :: "atlas_path option"
  tr_Error :: string

record ping_measurement =
  pm_Src :: uint32
  pm_Dst :: uint32
  pm_SpooferAddr :: uint32
  pm_Spoof :: bool
  pm_RR :: bool
  pm_SAddr :: string
  pm_Payload :: string
  pm_Count :: string
  pm_IcmpSum :: string
  pm_Wait :: string
  pm_Ttl :: string
  pm_Mtu :: string
  pm_ReplyCount :: string
  pm_Pattern :: string
  pm_Method :: string
  pm_Size :: string
  pm_Tos :: string
  pm_TimeStamp :: string
  pm_Timeout :: int64
  pm_CheckCache :: bool
  pm_CheckDb :: bool
  pm_Staleness :: int64

definition zero_ping_measurement :: ping_measurement where
  "zero_ping_measurement = \<lparr>pm_Src = 0, pm_Dst = 0, pm_SpooferAddr = 0, pm_Spoof = False,
     pm_RR = False, pm_SAddr = [], pm_Payload = [], pm_Count = [], pm_IcmpSum = [], pm_Wait = [],
     pm_Ttl = [], pm_Mtu = [], pm_ReplyCount = [], pm_Pattern = [], pm_Method = [], pm_Size = [],
     pm_Tos = [], pm_TimeStamp = [], pm_Timeout = 0, pm_CheckCache = False, pm_CheckDb = False, pm_Staleness = 0\<rparr>"

record ts_and_addr =
  ta_Ip :: uint32
  ta_Ts :: uint32

record ping_response =
  prs_RR :: "uint32 list"
  prs_Tsandaddr :: "ts_and_addr list"

record ping =
  p_Src :: uint32
  p_Dst :: uint32
  p_Responses :: "ping_response list"
  p_SpoofedFrom :: uint32

record traceroute_measurement =
  tm_Staleness :: int64
  tm_Dst :: uint32
  tm_Confidence :: string
  tm_Dport :: string
  tm_FirstHop :: string
  tm_GapLimit :: string
  tm_GapAction :: string
  tm_MaxTtl :: string
  tm_PathDiscov :: bool
  tm_Loops :: string
  tm_LoopAction :: string
  tm_Payload :: string
  tm_Method :: string
  tm_Attempts :: string
  tm_SendAll :: bool
  tm_Sport :: string
  tm_Src :: uint32
  tm_Tos :: string
  tm_TimeExceeded :: bool
  tm_Wait :: string
  tm_WaitProbe :: string
  tm_GssEntry :: string
  tm_LssName :: string
  tm_Timeout :: int64
  tm_CheckCache :: bool
  tm_CheckDb :: bool

definition zero_traceroute_measurement :: traceroute_measurement where
  "zero_traceroute_measurement = \<lparr>tm_Staleness = 0, tm_Dst = 0, tm_Confidence = [], tm_Dport = [],
     tm_FirstHop = [], tm_GapLimit = [], tm_GapAction = [], tm_MaxTtl = [], tm_PathDiscov = False,
     tm_Loops = [], tm_LoopAction = [], tm_Payload = [], tm_Method = [], tm_Attempts = [],
     tm_SendAll = False, tm_Sport = [], tm_Src = 0, tm_Tos = [], tm_TimeExceeded = False, tm_Wait = [],
     tm_WaitProbe = [], tm_GssEntry = [], tm_LssName = [], tm_Timeout = 0, tm_CheckCache = False,
     tm_CheckDb = False\<rparr>"

record traceroute_hop =
  th_Addr :: uint32
  th_ProbeTtl :: uint32

record traceroute =
  trc_Src :: uint32
  trc_Dst :: uint32
  trc_Hops :: "traceroute_hop list"
  trc_Error :: string

text \<open>Spoofed probes (\<open>datamodel/recspoof.pb.go\<close>).\<close>

record spoof_request =
  so_Ip :: uint32
  so_Id :: uint32
  so_Sip :: uint32
  so_Dst :: uint32

datatype ts_type = TSOnly | TSAndAddr | TSPreSpec

record probe_ts =
  pts_Type :: ts_type
  pts_Stamps :: "ts_and_addr list"

record probe =
  prb_SpooferIp :: uint32
  prb_ProbeId :: uint32
  prb_Src :: uint32
  prb_Dst :: uint32
  prb_Id :: uint32
  prb_SeqNum :: uint32
  prb_RR :: "uint32 list option"
  prb_Ts :: "probe_ts option"
  prb_SenderIp :: uint32

end
