(* ===== verification/RevTraceroute.thy ===== *)
theory RevTraceroute
  imports ReversePath PbTypes
begin

text \<open>
  \<open>revtr/reverse_traceroute/revese_traceroute.go\<close>: the state of one reverse traceroute, a stack of
  reverse paths with the dead ends and the vantage points left to try, and its operations. Not
  modelled: times and durations, and the bodies of the callbacks \<open>onAdd\<close>, \<open>onReach\<close> and \<open>onFail\<close>,
  whose calls are recorded in order. Go maps are partial functions; \<open>DeadEnd\<close>, which only ever holds
  \<open>true\<close>, is the list of its keys, because the code ranges over them.
\<close>

section \<open>State\<close>

datatype stop_reason = NoStop | StopFailed | StopTrivial | StopCanceled | StopReaches

fun stop_string :: "stop_reason \<Rightarrow> string" where
  "stop_string NoStop = ''''"
| "stop_string StopFailed = ''FAILED''"
| "stop_string StopTrivial = ''TRIVIAL''"
| "stop_string StopCanceled = ''CANCELED''"
| "stop_string StopReaches = ''REACHES''"

text \<open>
  Why a probe gave nothing; \<open>ErrorDetails\<close> collects these where the code collects their texts.
\<close>

datatype probe_error =
    ErrPrivateIP
  | ErrCall
  | ErrNoResponses
  | ErrTrace
  | ErrNotReached hop
  | ErrNothing

datatype callback = OnAdd | OnReach | OnFail

record stats =
  st_RRProbes :: int
  st_SpoofedRRProbes :: int
  st_TSProbes :: int
  st_SpoofedTSProbes :: int
  st_RRRoundCount :: int
  st_TSRoundCount :: int
  st_TRToSrcRoundCount :: int
  st_AssumeSymmetricRoundCount :: int
  st_BackgroundTRSRoundCount :: int

definition zero_stats :: stats where
  "zero_stats = \<lparr>st_RRProbes = 0, st_SpoofedRRProbes = 0, st_TSProbes = 0, st_SpoofedTSProbes = 0,
     st_RRRoundCount = 0, st_TSRoundCount = 0, st_TRToSrcRoundCount = 0,
     st_AssumeSymmetricRoundCount = 0, st_BackgroundTRSRoundCount = 0\<rparr>"

record revtr =
  ID :: uint32
  LogStr :: string
  Stats :: stats
  Paths :: "reverse_path list"
  DeadEnd :: "string list"
  RRHop2RateLimit :: "string \<rightharpoonup> int"
  RRHop2VPSLeft :: "string \<rightharpoonup> string list"
  TSHop2RateLimit :: "string \<rightharpoonup> int"
  TSHop2AdjsLeft :: "string \<rightharpoonup> string list"
  rt_Src :: string
  rt_Dst :: string
  StopReason :: stop_reason
  Staleness :: int64
  BackoffEndhost :: bool
  FailReason :: string
  Tokens :: "intersection_response list option"
  TSDstToStampsZero :: "string \<rightharpoonup> bool"
  TSSrcToHopToSendSpoofed :: "string \<rightharpoonup> (string \<rightharpoonup> bool)"
  tsHopResponsive :: "string \<rightharpoonup> int"
  ErrorDetails :: "probe_error list"
  rrSpoofRRResponsive :: "string \<rightharpoonup> int"
  has_onAdd :: bool
  has_onReach :: bool
  has_onFail :: bool
  onReachOnce :: bool
  onFailOnce :: bool
  callbacks :: "callback list"

text \<open>\<open>m[k]\<close> of a map: the zero value for a key that is not there.\<close>

definition map_get :: "'v \<Rightarrow> ('k \<rightharpoonup> 'v) \<Rightarrow> 'k \<Rightarrow> 'v" where
  "map_get z m k = (case m k of None \<Rightarrow> z | Some v \<Rightarrow> v)"

definition dead_end :: "revtr \<Rightarrow> string \<Rightarrow> bool" where
  "dead_end rt h \<longleftrightarrow> h \<in> set (DeadEnd rt)"

definition maxUnresponsive :: int where
  "maxUnresponsive = 10"

definition RateLimit :: int where
  "RateLimit = 5"

text \<open>\<open>NewReverseTraceroute\<close>; \<open>rnd\<close> is what \<open>rand.Uint32\<close> returns.\<close>

definition NewReverseTraceroute ::
    "uint32 \<Rightarrow> string \<Rightarrow> string \<Rightarrow> uint32 \<Rightarrow> uint32 \<Rightarrow> revtr" where
  "NewReverseTraceroute rnd src dst id0 stale =
     (let i = (if id0 = 0 then rnd else id0) in
      \<lparr>ID = i, LogStr = ''ID: '' @ show_nat (unat i) @ '' :'', Stats = zero_stats,
       Paths = [NewReversePath src dst []], DeadEnd = [], RRHop2RateLimit = Map.empty,
       RRHop2VPSLeft = Map.empty, TSHop2RateLimit = Map.empty, TSHop2AdjsLeft = Map.empty,
       rt_Src = src, rt_Dst = dst, StopReason = NoStop, Staleness = ucast stale,
       BackoffEndhost = False, FailReason = [], Tokens = None, TSDstToStampsZero = Map.empty,
       TSSrcToHopToSendSpoofed = Map.empty, tsHopResponsive = Map.empty, ErrorDetails = [],
       rrSpoofRRResponsive = Map.empty, has_onAdd = False, has_onReach = False, has_onFail = False,
       onReachOnce = False, onFailOnce = False, callbacks = []\<rparr>)"

record revtr_measurement =
  rm_Src :: string
  rm_Dst :: string
  rm_Staleness :: uint32
  rm_Id :: uint32
  rm_BackoffEndhost :: bool

definition CreateReverseTraceroute ::
    "uint32 \<Rightarrow> revtr_measurement \<Rightarrow> bool \<Rightarrow> bool \<Rightarrow> bool \<Rightarrow> revtr" where
  "CreateReverseTraceroute rnd m onAdd onFail onReach =
     (NewReverseTraceroute rnd (rm_Src m) (rm_Dst m) (rm_Id m) (rm_Staleness m))
       \<lparr>BackoffEndhost := rm_BackoffEndhost m, has_onAdd := onAdd, has_onFail := onFail,
        has_onReach := onReach\<rparr>"

section \<open>Responsiveness\<close>

definition TSSetUnresponsive :: "string \<Rightarrow> revtr \<Rightarrow> revtr" where
  "TSSetUnresponsive dst rt = rt\<lparr>tsHopResponsive := (tsHopResponsive rt)(dst \<mapsto> 1)\<rparr>"

definition TSIsResponsive :: "string \<Rightarrow> revtr \<Rightarrow> bool" where
  "TSIsResponsive dst rt \<longleftrightarrow> map_get 0 (tsHopResponsive rt) dst = 0"

definition AddUnresponsiveRRSpoofer :: "string \<Rightarrow> int \<Rightarrow> revtr \<Rightarrow> revtr" where
  "AddUnresponsiveRRSpoofer dst cnt rt =
     (case rrSpoofRRResponsive rt dst of
        Some v \<Rightarrow> if v = -1 then rt
          else rt\<lparr>rrSpoofRRResponsive := (rrSpoofRRResponsive rt)(dst \<mapsto> v + cnt)\<rparr>
      | None \<Rightarrow> rt\<lparr>rrSpoofRRResponsive := (rrSpoofRRResponsive rt)(dst \<mapsto> cnt)\<rparr>)"

definition MarkResponsiveRRSpoofer :: "string \<Rightarrow> revtr \<Rightarrow> revtr" where
  "MarkResponsiveRRSpoofer dst rt = rt\<lparr>rrSpoofRRResponsive := (rrSpoofRRResponsive rt)(dst \<mapsto> -1)\<rparr>"

section \<open>The stack of paths\<close>

definition rt_len :: "revtr \<Rightarrow> nat" where
  "rt_len rt = length (Paths rt)"

definition CurrPath :: "revtr \<Rightarrow> reverse_path go" where
  "CurrPath rt = go_index (Paths rt) (int (rt_len rt) - 1)"

definition rt_SymmetricAssumptions :: "revtr \<Rightarrow> int go" where
  "rt_SymmetricAssumptions rt = go_bind (CurrPath rt) (\<lambda>rp. Inr (rp_SymmetricAssumptions rp))"

definition Deadends :: "order \<Rightarrow> revtr \<Rightarrow> string list" where
  "Deadends ord rt = ord (DeadEnd rt)"

definition rrVPSInitializedForHop :: "string \<Rightarrow> revtr \<Rightarrow> bool" where
  "rrVPSInitializedForHop hop rt \<longleftrightarrow> RRHop2VPSLeft rt hop \<noteq> None"

definition setRRVPSForHop :: "string \<Rightarrow> string list \<Rightarrow> revtr \<Rightarrow> revtr" where
  "setRRVPSForHop hop vps rt = rt\<lparr>RRHop2VPSLeft := (RRHop2VPSLeft rt)(hop \<mapsto> vps)\<rparr>"

definition rt_Hops :: "revtr \<Rightarrow> (hop list) go" where
  "rt_Hops rt = (if rt_len rt = 0 then Inr [] else go_bind (CurrPath rt) (\<lambda>rp. Inr (rp_Hops rp)))"

definition rt_LastHop :: "revtr \<Rightarrow> hop go" where
  "rt_LastHop rt = go_bind (CurrPath rt) rp_LastHop"

definition rt_LastSeg :: "revtr \<Rightarrow> segment go" where
  "rt_LastSeg rt = go_bind (CurrPath rt) rp_LastSeg"

definition call_onAdd :: "revtr \<Rightarrow> revtr" where
  "call_onAdd rt = (if has_onAdd rt then rt\<lparr>callbacks := callbacks rt @ [OnAdd]\<rparr> else rt)"

definition call_onReach :: "revtr \<Rightarrow> revtr" where
  "call_onReach rt = (if has_onReach rt \<and> \<not> onReachOnce rt
     then rt\<lparr>onReachOnce := True, callbacks := callbacks rt @ [OnReach]\<rparr> else rt)"

definition call_onFail :: "revtr \<Rightarrow> revtr" where
  "call_onFail rt = (if has_onFail rt \<and> \<not> onFailOnce rt
     then rt\<lparr>onFailOnce := True, callbacks := callbacks rt @ [OnFail]\<rparr> else rt)"

definition rt_Reaches :: "cluster_map \<Rightarrow> revtr \<Rightarrow> (bool \<times> revtr) go" where
  "rt_Reaches cm rt =
     (if length (Paths rt) = 0 then Inr (False, rt)
      else go_bind (CurrPath rt) (\<lambda>rp. go_bind (rp_Reaches cm rp) (\<lambda>reach.
        Inr (reach, if reach then call_onReach (rt\<lparr>StopReason := StopReaches\<rparr>) else rt))))"

definition is_failed :: "revtr \<Rightarrow> bool" where
  "is_failed rt \<longleftrightarrow> rt_len rt = 0 \<or>
     (BackoffEndhost rt \<and> rt_len rt = 1 \<and> rp_len (Paths rt ! 0) = 1 \<and>
      is_Dst (rp_Path (Paths rt ! 0) ! 0))"

definition rt_Failed :: "revtr \<Rightarrow> bool \<times> revtr" where
  "rt_Failed rt =
     (if is_failed rt then (True, call_onFail (rt\<lparr>StopReason := StopFailed\<rparr>)) else (False, rt))"

text \<open>The loop of \<open>FailCurrPath\<close>: pop paths that end in a dead end and are not assumed symmetric.\<close>

function fail_loop :: "revtr \<Rightarrow> revtr go" where
  "fail_loop rt =
     (case rt_Failed rt of
        (True, rt') \<Rightarrow> Inr rt'
      | (False, rt') \<Rightarrow>
          go_bind (rt_LastHop rt) (\<lambda>h.
          if dead_end rt h then
            go_bind (rt_LastSeg rt) (\<lambda>s.
            if \<not> is_DstSym s then fail_loop (rt\<lparr>Paths := take (rt_len rt - 1) (Paths rt)\<rparr>)
            else Inr rt)
          else Inr rt))"
  by pat_completeness auto
termination
  by (relation "measure (\<lambda>rt. length (Paths rt))")
    (auto simp: rt_Failed_def is_failed_def rt_len_def split: if_splits)

declare fail_loop.simps [simp del]

definition FailCurrPath :: "revtr \<Rightarrow> revtr go" where
  "FailCurrPath rt =
     go_bind (rt_LastHop rt) (\<lambda>h.
     go_bind (fail_loop (rt\<lparr>DeadEnd := List.insert h (DeadEnd rt)\<rparr>)) (\<lambda>rt'.
       Inr (call_onAdd rt')))"

definition AddAndReplaceSegment :: "segment \<Rightarrow> revtr \<Rightarrow> (bool \<times> revtr) go" where
  "AddAndReplaceSegment s rt =
     (if dead_end rt (seg_LastHop s) then Inr (False, rt)
      else
        go_bind (CurrPath rt) (\<lambda>rp.
        go_bind (rp_Pop (rp_Clone rp)) (\<lambda>(_, basePath).
          Inr (True, call_onAdd (rt\<lparr>Paths := Paths rt @ [rp_Add s basePath]\<rparr>)))))"

section \<open>Adding segments\<close>

text \<open>
  \<open>AddSegments\<close>: the candidates in the order of \<open>sort.Sort\<close> (an argument), each trimmed against the
  hops of the current path. A segment that still loops aborts with \<open>false\<close>, leaving the paths added
  before it and without the callback.
\<close>

type_synonym segment_sort = "(segment \<Rightarrow> segment \<Rightarrow> bool) \<Rightarrow> segment list \<Rightarrow> segment list"

fun add_loop ::
    "order \<Rightarrow> cluster_map \<Rightarrow> reverse_path \<Rightarrow> segment list \<Rightarrow> bool \<Rightarrow> revtr \<Rightarrow> bool \<times> bool \<times> revtr" where
  "add_loop ord cm basePath [] added rt = (False, added, rt)"
| "add_loop ord cm basePath (s # segs) added rt =
     (if dead_end rt (seg_LastHop s) then add_loop ord cm basePath segs added rt
      else (case RemoveHops ord cm (rp_Hops basePath) s of
          (s', Some err) \<Rightarrow> (True, added, rt)
        | (s', None) \<Rightarrow>
            if seg_Length False s' = 0 then add_loop ord cm basePath segs added rt
            else add_loop ord cm basePath segs True
                   (rt\<lparr>Paths := Paths rt @ [rp_Add s' (rp_Clone basePath)]\<rparr>)))"

definition AddSegments ::
    "segment_sort \<Rightarrow> order \<Rightarrow> cluster_map \<Rightarrow> segment list \<Rightarrow> revtr \<Rightarrow> (bool \<times> revtr) go" where
  "AddSegments srt ord cm segs rt =
     go_bind (CurrPath rt) (\<lambda>rp.
       let basePath = rp_Clone rp in
       case add_loop ord cm basePath (srt (seg_Less cm) segs) False rt of
         (True, _, rt') \<Rightarrow> Inr (False, rt')
       | (False, added, rt') \<Rightarrow> Inr (added, if added then call_onAdd rt' else rt'))"

section \<open>Adding a traceroute segment\<close>

definition stringSliceIndexWithClusters :: "cluster_map \<Rightarrow> hop list \<Rightarrow> hop \<Rightarrow> int" where
  "stringSliceIndexWithClusters cm ss seg = first_index_from 0 (\<lambda>s. cm s = cm seg) ss"

lemma RemoveAt_length:
  "RemoveAt i s = Inr s' \<Longrightarrow> Hops s \<noteq> [] \<and> length (Hops s') = length (Hops s) - 1"
  by (auto simp: RemoveAt_def Let_def go_simps)

text \<open>The inner loop: delete at \<open>l\<close> while the segment reaches past the intersection.\<close>

function trim_seg :: "int \<Rightarrow> int \<Rightarrow> int \<Rightarrow> segment \<Rightarrow> segment go" where
  "trim_seg l k index s =
     (if k + int (length (Hops s)) - 1 > index
      then go_bind (RemoveAt l s) (trim_seg l k index)
      else Inr s)"
  by pat_completeness auto
termination
  by (relation "measure (\<lambda>(l, k, index, s). length (Hops s))") (auto dest!: RemoveAt_length)

declare trim_seg.simps [simp del]

text \<open>
  The outer loop over the segments of the cloned path. Deleting segment \<open>j\<close> shifts the later ones
  left in the same array and then stores nil at index \<open>j\<close> of it, so unless \<open>j\<close> was the last, the
  shortened slice has a nil segment (\<open>None\<close>), whose \<open>Hops\<close> panics.
\<close>

type_synonym slots = "segment option list"

fun slots_Hops :: "slots \<Rightarrow> (hop list) go" where
  "slots_Hops [] = Inr []"
| "slots_Hops (None # ss) = Inl NilDereference"
| "slots_Hops (Some s # ss) = go_bind (slots_Hops ss) (\<lambda>hs. Inr (Hops s @ hs))"

definition slot_len :: "segment option \<Rightarrow> nat" where
  "slot_len sl = (case sl of None \<Rightarrow> 0 | Some s \<Rightarrow> length (Hops s))"

definition slot_segment :: "slots \<Rightarrow> nat \<Rightarrow> segment go" where
  "slot_segment sl j = go_bind (go_index sl (int j))
     (\<lambda>s. case s of None \<Rightarrow> Inl NilDereference | Some seg \<Rightarrow> Inr seg)"

lemma slot_segment_Inr: "slot_segment sl j = Inr s \<longleftrightarrow> j < length sl \<and> sl ! j = Some s"
  by (auto simp: slot_segment_def go_simps split: option.splits)

lemma trim_seg_length:
  "trim_seg l k index s = Inr s' \<Longrightarrow>
     length (Hops s') \<le> length (Hops s) \<and>
     (k + int (length (Hops s)) - 1 > index \<longrightarrow> length (Hops s') < length (Hops s))"
proof (induction l k index s rule: trim_seg.induct)
  case (1 l k index s)
  show ?case
  proof (cases "k + int (length (Hops s)) - 1 > index")
    case True
    with "1.prems" obtain s1 where s1: "RemoveAt l s = Inr s1" "trim_seg l k index s1 = Inr s'"
      by (subst (asm) trim_seg.simps) (auto simp: go_simps)
    from "1.IH" [OF True s1] RemoveAt_length [OF s1(1)] show ?thesis
      by (cases "Hops s") auto
  next
    case False
    with "1.prems" show ?thesis by (subst (asm) trim_seg.simps) auto
  qed
qed

lemma sum_slots_update:
  "j < length sl \<Longrightarrow> sum_list (map slot_len sl) = slot_len (sl ! j) + sum_list (map slot_len (sl[j := None]))"
  by (induction sl arbitrary: j) (auto simp: slot_len_def nth_Cons' split: nat.splits)

lemma sum_slots_replace:
  assumes "j < length sl" "sl ! j = Some s" "length (Hops s') < length (Hops s)"
  shows "sum_list (map slot_len (sl[j := Some s'])) < sum_list (map slot_len sl)"
  using sum_slots_update [of j sl] sum_slots_update [of j "sl[j := Some s']"] assms
  by (simp add: slot_len_def)

lemma sum_slots_delete:
  "sum_list (map slot_len (take j sl @ drop (Suc j) sl)) \<le> sum_list (map slot_len sl)"
proof -
  have "sum_list (map slot_len sl) =
      sum_list (map slot_len (take j sl)) + sum_list (map slot_len (drop j sl))"
    by (metis append_take_drop_id map_append sum_list_append)
  moreover have "sum_list (map slot_len (drop (Suc j) sl)) \<le> sum_list (map slot_len (drop j sl))"
    by (cases "j < length sl") (simp_all add: Cons_nth_drop_Suc [symmetric])
  ultimately show ?thesis by simp
qed

lemma sum_slots_None: "sum_list (map slot_len (sl[j := None])) \<le> sum_list (map slot_len sl)"
  using sum_slots_update [of j sl] by (cases "j < length sl") (simp_all add: list_update_beyond)

function trim_path :: "hop \<Rightarrow> int \<Rightarrow> int \<Rightarrow> nat \<Rightarrow> slots \<Rightarrow> slots go" where
  "trim_path t0 index k j path =
     go_bind (slots_Hops path) (\<lambda>hs.
     if int (length hs) - 1 > index then
       go_bind (slot_segment path j) (\<lambda>seg.
       if k > index then
         trim_path t0 index k j ((take j path @ drop (Suc j) path)[j := None])
       else if k + int (length (Hops seg)) - 1 > index then
         go_bind (trim_seg (StringSliceIndex (Hops seg) t0 + 1) k index seg) (\<lambda>seg'.
           trim_path t0 index k j (path[j := Some seg']))
       else trim_path t0 index (k + int (length (Hops seg))) (Suc j) path)
     else Inr path)"
  by pat_completeness auto
termination
proof (relation "measure (\<lambda>(t0, index, k, j, path). (length path - j) + sum_list (map slot_len path))",
    goal_cases)
  case 1
  show ?case by simp
next
  case (2 t0 index k j path hs seg)
  then have j: "j < length path" by (simp add: slot_segment_Inr)
  have "sum_list (map slot_len ((take j path @ drop (Suc j) path)[j := None])) \<le> sum_list (map slot_len path)"
    using sum_slots_None sum_slots_delete order_trans by blast
  with j show ?case by simp
next
  case (3 t0 index k j path hs seg seg')
  then have "j < length path" "path ! j = Some seg" by (simp_all add: slot_segment_Inr)
  moreover have "length (Hops seg') < length (Hops seg)" using 3 trim_seg_length by blast
  ultimately have "sum_list (map slot_len (path[j := Some seg'])) < sum_list (map slot_len path)"
    by (rule sum_slots_replace)
  then show ?case by simp
next
  case (4 t0 index k j path hs seg)
  then have "j < length path" by (simp add: slot_segment_Inr)
  then show ?case by (simp add: diff_less_mono2)
qed

declare trim_path.simps [simp del]

fun all_segments :: "slots \<Rightarrow> (segment list) go" where
  "all_segments [] = Inr []"
| "all_segments (None # ss) = Inl NilDereference"
| "all_segments (Some s # ss) = go_bind (all_segments ss) (\<lambda>xs. Inr (s # xs))"

text \<open>The first path that contains a hop of the cluster, with the index of the hop.\<close>

fun find_chunk :: "cluster_map \<Rightarrow> hop \<Rightarrow> reverse_path list \<Rightarrow> (reverse_path \<times> int) option" where
  "find_chunk cm t0 [] = None"
| "find_chunk cm t0 (chunk # chunks) =
     (let index = stringSliceIndexWithClusters cm (rp_Hops chunk) t0
      in if index \<noteq> -1 then Some (chunk, index) else find_chunk cm t0 chunks)"

definition trim_chunk :: "hop \<Rightarrow> int \<Rightarrow> reverse_path \<Rightarrow> reverse_path go" where
  "trim_chunk t0 index chunk =
     go_bind (trim_path t0 index 0 0 (map Some (rp_Path (rp_Clone chunk)))) (\<lambda>sl.
     go_bind (all_segments sl) (\<lambda>segs. Inr ((rp_Clone chunk)\<lparr>rp_Path := segs\<rparr>)))"

definition AddBackgroundTRSegment ::
    "segment_sort \<Rightarrow> order \<Rightarrow> cluster_map \<Rightarrow> segment \<Rightarrow> revtr \<Rightarrow> (bool \<times> revtr) go" where
  "AddBackgroundTRSegment srt ord cm trSeg rt =
     (if Paths rt = [] then Inr (False, rt)
      else
        go_bind (go_index (Hops trSeg) 0) (\<lambda>t0.
        case find_chunk cm t0 (Paths rt) of
          None \<Rightarrow> Inr (False, rt)
        | Some (chunk, index) \<Rightarrow>
            go_bind (trim_chunk t0 index chunk) (\<lambda>found.
            go_bind (AddSegments srt ord cm [trSeg] (rt\<lparr>Paths := Paths rt @ [found]\<rparr>)) (\<lambda>(success, rt').
              let i = length (Paths rt) in
              Inr (success,
                if \<not> success then rt'\<lparr>Paths := take i (Paths rt') @ drop (Suc i) (Paths rt')\<rparr>
                else rt')))))"

end
