(* ===== verification/RevTracerouteProps.thy ===== *)
theory RevTracerouteProps
  imports RevTraceroute
begin

text \<open>
  Facts about the operations of \<open>RevTraceroute\<close> and the properties that follow: what is pushed and
  popped, where a background traceroute is cut, and the invariant of the traceroute's life.
\<close>

section \<open>Adding segments: facts\<close>

text \<open>
  \<open>p\<close> is the path \<open>base\<close> extended by what is left of one of the candidates: a nonempty suffix that
  shares no hop with the base and whose last hop is not a dead end.
\<close>

definition extended_by :: "string list \<Rightarrow> reverse_path \<Rightarrow> segment list \<Rightarrow> reverse_path \<Rightarrow> bool" where
  "extended_by dead base segs p \<longleftrightarrow>
     (\<exists>s \<in> set segs. \<exists>hs. p = rp_Add (set_hops hs s) (rp_Clone base) \<and> suffix hs (Hops s) \<and> hs \<noteq> [] \<and>
        set hs \<inter> set (rp_Hops base) = {} \<and> last hs \<notin> set dead)"

lemma extended_by_Cons: "extended_by dead base segs p \<Longrightarrow> extended_by dead base (s # segs) p"
  unfolding extended_by_def by (meson list.set_intros(2))

lemma set_hops_twice [simp]: "set_hops hs (set_hops hs' s) = set_hops hs s"
  by (cases s) (simp_all add: set_hops_def)

lemma seg_LastHop_suffix: "suffix hs (Hops s) \<Longrightarrow> hs \<noteq> [] \<Longrightarrow> last hs = seg_LastHop s"
  by (auto simp: suffix_def seg_LastHop_def)

lemma RemoveHops_fst: "RemoveHops ord cm toDel s = (s', err) \<Longrightarrow> s' = set_hops (Hops s') s"
  by (auto simp: RemoveHops_def Let_def split: prod.splits)

lemma RemoveHops_list_of:
  "RemoveHops ord cm toDel s = (s', err) \<Longrightarrow> RemoveHops_list ord cm toDel (Hops s) = (Hops s', err)"
  by (auto simp: RemoveHops_def Let_def split: prod.splits)

lemma RemoveHops_extended_by:
  assumes ord: "rearrangement ord" and r: "RemoveHops ord cm (rp_Hops base) s = (s', None)"
    and ne: "seg_Length False s' \<noteq> 0" and live: "seg_LastHop s \<notin> set dead"
  shows "extended_by dead base (s # segs) (rp_Add s' (rp_Clone base))"
proof -
  note suf = RemoveHops_list_suffix(1) [OF ord RemoveHops_list_of [OF r]]
  have "Hops s' \<noteq> []" using ne by (simp add: seg_Length_def)
  moreover have "set (Hops s') \<inter> set (rp_Hops base) = {}"
    using RemoveHops_list_cut(3) [OF ord RemoveHops_list_of [OF r]] by simp
  moreover have "last (Hops s') \<notin> set dead"
    using seg_LastHop_suffix [OF suf] \<open>Hops s' \<noteq> []\<close> live by simp
  ultimately show ?thesis
    unfolding extended_by_def using suf RemoveHops_fst [OF r] by force
qed

lemma add_loop_spec:
  assumes ord: "rearrangement ord" and "add_loop ord cm base segs added rt = (err, added', rt')"
  shows "\<exists>new. rt' = rt\<lparr>Paths := Paths rt @ new\<rparr> \<and> (\<forall>p \<in> set new. extended_by (DeadEnd rt) base segs p) \<and>
    (added' \<longleftrightarrow> added \<or> new \<noteq> []) \<and> (err \<longrightarrow> zero_hop \<in> set (rp_Hops base))"
  using assms(2)
proof (induction segs arbitrary: added rt)
  case Nil
  then show ?case by (intro exI [of _ "[]"]) simp
next
  case (Cons s segs)
  show ?case
  proof (cases "dead_end rt (seg_LastHop s)")
    case True
    with Cons.prems have "add_loop ord cm base segs added rt = (err, added', rt')" by simp
    from Cons.IH [OF this] show ?thesis using extended_by_Cons by blast
  next
    case live: False
    obtain s' e where r: "RemoveHops ord cm (rp_Hops base) s = (s', e)" by (metis surj_pair)
    note listr = RemoveHops_list_of [OF r]
    consider (err) x where "e = Some x" | (empty) "e = None" "seg_Length False s' = 0"
      | (add) "e = None" "seg_Length False s' \<noteq> 0" by (cases e) auto
    then show ?thesis
    proof cases
      case err
      then have "set (Hops s') \<inter> set (rp_Hops base) \<noteq> {}"
        using RemoveHops_list_cut(3) [OF ord listr] by simp
      then have "zero_hop \<in> set (rp_Hops base)"
        using RemoveHops_list_suffix(2) [OF ord listr] by auto
      with err live r Cons.prems show ?thesis by (intro exI [of _ "[]"]) simp
    next
      case empty
      with live r Cons.prems have "add_loop ord cm base segs added rt = (err, added', rt')" by simp
      from Cons.IH [OF this] show ?thesis using extended_by_Cons by blast
    next
      case add
      let ?p = "rp_Add s' (rp_Clone base)"
      let ?rt = "rt\<lparr>Paths := Paths rt @ [?p]\<rparr>"
      from add live r Cons.prems have "add_loop ord cm base segs True ?rt = (err, added', rt')" by simp
      from Cons.IH [OF this] obtain new where new: "rt' = ?rt\<lparr>Paths := Paths ?rt @ new\<rparr>"
        "\<forall>p \<in> set new. extended_by (DeadEnd ?rt) base segs p" "added' \<longleftrightarrow> True \<or> new \<noteq> []"
        "err \<longrightarrow> zero_hop \<in> set (rp_Hops base)" by blast
      have "extended_by (DeadEnd rt) base (s # segs) ?p"
        using RemoveHops_extended_by [OF ord _ add(2)] r add(1) live by (simp add: dead_end_def)
      moreover have "\<forall>p \<in> set new. extended_by (DeadEnd rt) base (s # segs) p"
        using new(2) by (simp add: extended_by_Cons)
      ultimately show ?thesis using new by (intro exI [of _ "?p # new"]) simp
    qed
  qed
qed

lemma CurrPath_Inr: "CurrPath rt = Inr rp \<longleftrightarrow> Paths rt \<noteq> [] \<and> rp = last (Paths rt)"
  by (cases "Paths rt" rule: rev_cases) (auto simp: CurrPath_def rt_len_def go_index_def)

lemma call_onAdd_fields [simp]:
  "Paths (call_onAdd rt) = Paths rt" "DeadEnd (call_onAdd rt) = DeadEnd rt"
  "StopReason (call_onAdd rt) = StopReason rt" "rt_Src (call_onAdd rt) = rt_Src rt"
  "BackoffEndhost (call_onAdd rt) = BackoffEndhost rt"
  "RRHop2VPSLeft (call_onAdd rt) = RRHop2VPSLeft rt"
  by (simp_all add: call_onAdd_def)

lemma AddSegments_spec:
  assumes ord: "rearrangement ord" and srt: "rearrangement (srt (seg_Less cm))"
    and a: "AddSegments srt ord cm segs rt = Inr (success, rt')"
  shows "\<exists>new rt1. rt1 = rt\<lparr>Paths := Paths rt @ new\<rparr> \<and> rt' = (if success then call_onAdd rt1 else rt1) \<and>
    Paths rt \<noteq> [] \<and> (\<forall>p \<in> set new. extended_by (DeadEnd rt) (last (Paths rt)) segs p) \<and>
    (success \<longrightarrow> new \<noteq> []) \<and> (\<not> success \<and> new \<noteq> [] \<longrightarrow> zero_hop \<in> set (rp_Hops (last (Paths rt))))"
proof -
  let ?base = "rp_Clone (last (Paths rt))"
  have ne: "Paths rt \<noteq> []" using a by (auto simp: AddSegments_def go_simps CurrPath_Inr)
  obtain err added rt1 where l: "add_loop ord cm ?base (srt (seg_Less cm) segs) False rt = (err, added, rt1)"
    by (metis surj_pair)
  from add_loop_spec [OF ord l] obtain new where new: "rt1 = rt\<lparr>Paths := Paths rt @ new\<rparr>"
    "\<forall>p \<in> set new. extended_by (DeadEnd rt) ?base (srt (seg_Less cm) segs) p" "added \<longleftrightarrow> new \<noteq> []"
    "err \<longrightarrow> zero_hop \<in> set (rp_Hops ?base)" by auto
  have "set (srt (seg_Less cm) segs) = set segs" by (rule rearrangement.set_ord [OF srt])
  then have "\<forall>p \<in> set new. extended_by (DeadEnd rt) (last (Paths rt)) segs p"
    using new(2) by (simp add: extended_by_def)
  moreover have "rt' = (if success then call_onAdd rt1 else rt1) \<and> (success \<longrightarrow> new \<noteq> []) \<and>
      (\<not> success \<and> new \<noteq> [] \<longrightarrow> err)"
    using a l ne new(3) by (auto simp: AddSegments_def go_simps CurrPath_Inr split: bool.splits if_splits)
  ultimately show ?thesis using ne new(1,4) by auto
qed

section \<open>Failing a path: facts\<close>

lemma rt_Failed_cases:
  "rt_Failed rt = (is_failed rt, if is_failed rt then call_onFail (rt\<lparr>StopReason := StopFailed\<rparr>) else rt)"
  by (simp add: rt_Failed_def)

lemma call_onFail_fields [simp]:
  "Paths (call_onFail rt) = Paths rt" "DeadEnd (call_onFail rt) = DeadEnd rt"
  "StopReason (call_onFail rt) = StopReason rt" "rt_Src (call_onFail rt) = rt_Src rt"
  "BackoffEndhost (call_onFail rt) = BackoffEndhost rt"
  by (simp_all add: call_onFail_def)

lemma rt_LastHop_Inr:
  "rt_LastHop rt = Inr h \<longleftrightarrow>
     Paths rt \<noteq> [] \<and> rp_Path (last (Paths rt)) \<noteq> [] \<and> h = seg_LastHop (last (rp_Path (last (Paths rt))))"
  by (cases "rp_Path (last (Paths rt)) = []") (auto simp: rt_LastHop_def go_simps CurrPath_Inr rp_LastHop_def)

lemma rt_LastSeg_Inr:
  "rt_LastSeg rt = Inr s \<longleftrightarrow>
     Paths rt \<noteq> [] \<and> rp_Path (last (Paths rt)) \<noteq> [] \<and> s = last (rp_Path (last (Paths rt)))"
  by (cases "rp_Path (last (Paths rt)) = []") (auto simp: rt_LastSeg_def go_simps CurrPath_Inr)

lemma fail_loop_spec:
  assumes "\<forall>p \<in> set (Paths rt). rp_Path p \<noteq> []"
  shows "\<exists>rt'. fail_loop rt = Inr rt' \<and> prefix (Paths rt') (Paths rt) \<and> DeadEnd rt' = DeadEnd rt \<and>
     BackoffEndhost rt' = BackoffEndhost rt \<and>
     (is_failed rt' \<and> StopReason rt' = StopFailed \<or>
      \<not> is_failed rt' \<and> StopReason rt' = StopReason rt \<and>
      (let s = last (rp_Path (last (Paths rt')))
       in is_DstSym s \<or> seg_LastHop s \<notin> set (DeadEnd rt)))"
  using assms
proof (induction rt rule: fail_loop.induct)
  case (1 rt)
  show ?case
  proof (cases "is_failed rt")
    case True
    moreover from this have "is_failed (call_onFail (rt\<lparr>StopReason := StopFailed\<rparr>))"
      by (simp add: is_failed_def rt_len_def)
    ultimately show ?thesis by (subst fail_loop.simps) (simp add: rt_Failed_cases)
  next
    case False
    then have ne: "Paths rt \<noteq> []" by (auto simp: is_failed_def rt_len_def)
    with 1(2) have pne: "rp_Path (last (Paths rt)) \<noteq> []" by simp
    let ?s = "last (rp_Path (last (Paths rt)))"
    have h: "rt_LastHop rt = Inr (seg_LastHop ?s)" and s: "rt_LastSeg rt = Inr ?s"
      using ne pne by (simp_all add: rt_LastHop_Inr rt_LastSeg_Inr)
    show ?thesis
    proof (cases "dead_end rt (seg_LastHop ?s) \<and> \<not> is_DstSym ?s")
      case True
      let ?rt = "rt\<lparr>Paths := take (rt_len rt - 1) (Paths rt)\<rparr>"
      have "fail_loop rt = fail_loop ?rt"
        using False True by (subst fail_loop.simps) (simp add: rt_Failed_cases h s)
      moreover have "\<forall>p \<in> set (Paths ?rt). rp_Path p \<noteq> []" using 1(2) by (auto dest: in_set_takeD)
      moreover have "prefix (Paths ?rt) (Paths rt)" by (simp add: take_is_prefix)
      ultimately show ?thesis
        using 1(1) [of False rt "seg_LastHop ?s" ?s] False True h s
        by (auto simp: rt_Failed_cases intro: prefix_order.trans)
    next
      case stop: False
      then have "fail_loop rt = Inr rt"
        using False by (subst fail_loop.simps) (auto simp: rt_Failed_cases h s)
      with stop False show ?thesis by (auto simp: dead_end_def Let_def)
    qed
  qed
qed

section \<open>Trimming a path: facts\<close>

lemma slots_Hops_Some [simp]: "slots_Hops (map Some segs) = Inr (concat (map Hops segs))"
  by (induction segs) auto

lemma all_segments_Some [simp]: "all_segments (map Some segs) = Inr segs"
  by (induction segs) auto

lemma slots_Hops_None: "None \<in> set sl \<Longrightarrow> slots_Hops sl = Inl NilDereference"
  by (induction sl rule: slots_Hops.induct) auto

lemma trim_path_done:
  "int (length (concat (map Hops segs))) - 1 \<le> index \<Longrightarrow>
     trim_path t0 index k j (map Some segs) = Inr (map Some segs)"
  by (subst trim_path.simps) simp

lemma trim_path_step:
  assumes "int (length (concat (map Hops segs))) - 1 > index" and "j < length segs"
  shows "trim_path t0 index k j (map Some segs) =
     (if k > index then trim_path t0 index k j ((map Some (take j segs @ drop (Suc j) segs))[j := None])
      else if k + int (length (Hops (segs ! j))) - 1 > index then
         go_bind (trim_seg (StringSliceIndex (Hops (segs ! j)) t0 + 1) k index (segs ! j)) (\<lambda>seg'.
           trim_path t0 index k j (map Some (segs[j := seg'])))
      else trim_path t0 index (k + int (length (Hops (segs ! j)))) (Suc j) (map Some segs))"
proof -
  have "slot_segment (map Some segs) j = Inr (segs ! j)"
    using assms(2) by (simp add: slot_segment_Inr)
  moreover have "(map Some segs)[j := Some x] = map Some (segs[j := x])" for x
    by (simp add: map_update)
  ultimately show ?thesis using assms
    by (subst trim_path.simps) (simp add: take_map drop_map)
qed

text \<open>Cutting inside a segment: behind the intersection, or, if the hop itself is not there, in front.\<close>

definition cut_hops :: "hop \<Rightarrow> nat \<Rightarrow> hop list \<Rightarrow> hop list" where
  "cut_hops t0 i hs = (if t0 \<in> set hs then take (Suc i) hs else drop (length hs - Suc i) hs)"

lemma RemoveAt_Inr:
  "l < length (Hops s) \<Longrightarrow> RemoveAt (int l) s = Inr (set_hops (take l (Hops s) @ drop (Suc l) (Hops s)) s)"
  by (cases "Hops s = []") (simp_all add: RemoveAt_def Let_def go_slice_def go_index_def nat_add_distrib)

lemma set_hops_id [simp]: "set_hops (Hops s) s = s"
  by (cases s) (simp_all add: set_hops_def Hops_def)

lemma trim_seg_behind:
  "i < length (Hops s) \<Longrightarrow> trim_seg (int (Suc i)) k (k + int i) s = Inr (set_hops (take (Suc i) (Hops s)) s)"
proof (induction "length (Hops s)" arbitrary: s)
  case 0
  then show ?case by simp
next
  case (Suc n)
  show ?case
  proof (cases "Suc i < length (Hops s)")
    case True
    let ?s = "set_hops (take (Suc i) (Hops s) @ drop (Suc (Suc i)) (Hops s)) s"
    have r: "RemoveAt (int (Suc i)) s = Inr ?s" by (rule RemoveAt_Inr [OF True])
    have "trim_seg (int (Suc i)) k (k + int i) s = trim_seg (int (Suc i)) k (k + int i) ?s"
      using True r by (subst trim_seg.simps) simp
    also have "\<dots> = Inr (set_hops (take (Suc i) (Hops ?s)) ?s)"
      by (rule Suc.hyps(1)) (use Suc.hyps(2) True in auto)
    finally show ?thesis using True by simp
  next
    case False
    with Suc.prems show ?thesis by (subst trim_seg.simps) simp
  qed
qed

lemma trim_seg_front:
  "i < length (Hops s) \<Longrightarrow>
     trim_seg 0 k (k + int i) s = Inr (set_hops (drop (length (Hops s) - Suc i) (Hops s)) s)"
proof (induction "length (Hops s)" arbitrary: s)
  case 0
  then show ?case by simp
next
  case (Suc n)
  show ?case
  proof (cases "Suc i < length (Hops s)")
    case True
    let ?s = "set_hops (drop 1 (Hops s)) s"
    have "0 < length (Hops s)" using True by linarith
    then have r: "RemoveAt 0 s = Inr ?s" using RemoveAt_Inr [of 0 s] by simp
    have "trim_seg 0 k (k + int i) s = trim_seg 0 k (k + int i) ?s"
      using True r by (subst trim_seg.simps) simp
    also have "\<dots> = Inr (set_hops (drop (length (Hops ?s) - Suc i) (Hops ?s)) ?s)"
      by (rule Suc.hyps(1)) (use Suc.hyps(2) True in auto)
    finally show ?thesis using True by (simp add: Suc_diff_Suc)
  next
    case False
    with Suc.prems show ?thesis by (subst trim_seg.simps) simp
  qed
qed

lemma trim_seg_cut:
  assumes i: "i < length (Hops s)" and first: "t0 \<in> set (Hops s) \<Longrightarrow> Hops s ! i = t0 \<and> (\<forall>j < i. Hops s ! j \<noteq> t0)"
  shows "trim_seg (StringSliceIndex (Hops s) t0 + 1) k (k + int i) s = Inr (set_hops (cut_hops t0 i (Hops s)) s)"
proof (cases "t0 \<in> set (Hops s)")
  case True
  with first have f: "Hops s ! i = t0" "\<forall>j < i. Hops s ! j \<noteq> t0" by auto
  from StringSliceIndex_cases [of t0 "Hops s"] True
  obtain m where m: "m < length (Hops s)" "Hops s ! m = t0" "\<forall>j < m. Hops s ! j \<noteq> t0"
    "StringSliceIndex (Hops s) t0 = int m" by auto
  with f i have "m = i" by (metis linorder_neqE_nat)
  with m have eq: "StringSliceIndex (Hops s) t0 + 1 = int (Suc i)" by simp
  show ?thesis unfolding eq trim_seg_behind [OF i] using True by (simp add: cut_hops_def)
next
  case False
  with StringSliceIndex_cases [of t0 "Hops s"] have "StringSliceIndex (Hops s) t0 = -1"
    by auto
  with False trim_seg_front [OF i] show ?thesis by (simp add: cut_hops_def)
qed

lemma trim_path_advance:
  assumes "int (length (concat (map Hops (done @ pre @ rest)))) - 1 > index"
    and "k + int (length (concat (map Hops pre))) \<le> index + 1" and "k \<le> index"
    and "\<forall>s \<in> set pre. Hops s \<noteq> []"
  shows "trim_path t0 index k (length done) (map Some (done @ pre @ rest)) =
     trim_path t0 index (k + int (length (concat (map Hops pre)))) (length done + length pre)
       (map Some (done @ pre @ rest))"
  using assms
proof (induction pre arbitrary: "done" k)
  case Nil
  then show ?case by simp
next
  case (Cons s pre)
  have step: "trim_path t0 index k (length done) (map Some (done @ (s # pre) @ rest)) =
      trim_path t0 index (k + int (length (Hops s))) (Suc (length done)) (map Some (done @ (s # pre) @ rest))"
    using trim_path_step [OF Cons.prems(1), of "length done"] Cons.prems(2,3) by simp
  show ?case
  proof (cases "pre = []")
    case True
    then show ?thesis using step by simp
  next
    case False
    then have "0 < length (concat (map Hops pre))" using Cons.prems(4) by (cases pre) auto
    moreover have "k + int (length (Hops s)) + int (length (concat (map Hops pre))) \<le> index + 1"
      using Cons.prems(2) by simp
    ultimately have "k + int (length (Hops s)) \<le> index" by linarith
    then have "trim_path t0 index (k + int (length (Hops s))) (length (done @ [s])) (map Some ((done @ [s]) @ pre @ rest)) =
      trim_path t0 index (k + int (length (Hops s)) + int (length (concat (map Hops pre))))
        (length (done @ [s]) + length pre) (map Some ((done @ [s]) @ pre @ rest))"
      using Cons.prems by (intro Cons.IH) simp_all
    with step show ?thesis by (simp add: add.assoc)
  qed
qed

text \<open>What is left once the segments up to the intersection are passed: one segment can be deleted.\<close>

lemma trim_path_rest:
  assumes idx: "index + 1 = int (length (concat (map Hops front)))" and ne: "\<forall>s \<in> set post. Hops s \<noteq> []"
  shows "trim_path t0 index (index + 1) (length front) (map Some (front @ post)) =
     (if length post \<le> 1 then Inr (map Some front) else Inl NilDereference)"
proof (cases post)
  case Nil
  have "int (length (concat (map Hops front))) - 1 \<le> index" using idx by simp
  from trim_path_done [OF this] Nil show ?thesis by simp
next
  case (Cons p ps)
  then have "0 < length (Hops p)" using ne by simp
  moreover have "length (concat (map Hops (front @ post))) =
      length (concat (map Hops front)) + (length (Hops p) + length (concat (map Hops ps)))"
    using Cons by simp
  ultimately have more: "int (length (concat (map Hops (front @ post)))) - 1 > index"
    using idx by linarith
  have j: "length front < length (front @ post)" using Cons by simp
  have step: "trim_path t0 index (index + 1) (length front) (map Some (front @ post)) =
      trim_path t0 index (index + 1) (length front) ((map Some (front @ ps))[length front := None])"
    using trim_path_step [OF more j, of t0 "index + 1"] Cons by simp
  show ?thesis
  proof (cases ps)
    case Nil
    have "int (length (concat (map Hops front))) - 1 \<le> index" using idx by simp
    from trim_path_done [OF this, of t0 "index + 1" "length front"] Nil Cons step show ?thesis
      by (simp add: list_update_beyond)
  next
    case (Cons q qs)
    have "slots_Hops ((map Some (front @ ps))[length front := None]) = Inl NilDereference"
      by (rule slots_Hops_None) (simp add: Cons list_update_append)
    then have "trim_path t0 index (index + 1) (length front) ((map Some (front @ ps))[length front := None]) =
        Inl NilDereference"
      by (subst trim_path.simps) simp
    with step Cons \<open>post = p # ps\<close> show ?thesis by simp
  qed
qed

lemma trim_path_cut:
  assumes idx: "index = int (length (concat (map Hops pre))) + int i" and i: "i < length (Hops seg)"
    and ne: "\<forall>s \<in> set (pre @ seg # post). Hops s \<noteq> []"
    and first: "t0 \<in> set (Hops seg) \<Longrightarrow> Hops seg ! i = t0 \<and> (\<forall>j < i. Hops seg ! j \<noteq> t0)"
  shows "trim_path t0 index 0 0 (map Some (pre @ seg # post)) =
     (if length post \<le> 1 then Inr (map Some (pre @ [set_hops (cut_hops t0 i (Hops seg)) seg]))
      else Inl NilDereference)"
proof -
  let ?k = "int (length (concat (map Hops pre)))"
  let ?seg = "set_hops (cut_hops t0 i (Hops seg)) seg"
  have len: "length (cut_hops t0 i (Hops seg)) = Suc i" using i by (simp add: cut_hops_def)
  have rest: "trim_path t0 index (index + 1) (length (pre @ [?seg])) (map Some ((pre @ [?seg]) @ post)) =
     (if length post \<le> 1 then Inr (map Some (pre @ [?seg])) else Inl NilDereference)"
    by (rule trim_path_rest) (use idx len ne in auto)
  have advance: "trim_path t0 index ?k (length pre) (map Some (pre @ ?seg # post)) =
      (if length post \<le> 1 then Inr (map Some (pre @ [?seg])) else Inl NilDereference)"
  proof (cases "post = []")
    case True
    have "int (length (concat (map Hops (pre @ ?seg # post)))) - 1 \<le> index" using idx len True by simp
    from trim_path_done [OF this] True show ?thesis by simp
  next
    case False
    then have "0 < length (concat (map Hops post))" using ne by (cases post) auto
    then have more: "int (length (concat (map Hops (pre @ ?seg # post)))) - 1 > index"
      using idx len by simp
    have j: "length pre < length (pre @ ?seg # post)" by simp
    have "trim_path t0 index ?k (length pre) (map Some (pre @ ?seg # post)) =
        trim_path t0 index (index + 1) (Suc (length pre)) (map Some (pre @ ?seg # post))"
      using trim_path_step [OF more j, of t0 ?k] idx len by (simp add: add.assoc [symmetric] add.commute)
    with rest show ?thesis by simp
  qed
  have start: "trim_path t0 index 0 0 (map Some (pre @ seg # post)) =
      trim_path t0 index ?k (length pre) (map Some (pre @ seg # post))"
    if "int (length (concat (map Hops (pre @ seg # post)))) - 1 > index"
  proof (cases "0 \<le> index")
    case True
    have "trim_path t0 index 0 (length ([] :: segment list)) (map Some ([] @ pre @ seg # post)) =
        trim_path t0 index (0 + ?k) (length ([] :: segment list) + length pre) (map Some ([] @ pre @ seg # post))"
      by (rule trim_path_advance) (use that idx ne True in auto)
    then show ?thesis by simp
  qed (use idx in simp)
  show ?thesis
  proof (cases "Suc i < length (Hops seg)")
    case True
    then have more: "int (length (concat (map Hops (pre @ seg # post)))) - 1 > index" using idx by simp
    have j: "length pre < length (pre @ seg # post)" by simp
    have "trim_path t0 index ?k (length pre) (map Some (pre @ seg # post)) =
        trim_path t0 index ?k (length pre) (map Some (pre @ ?seg # post))"
      using trim_path_step [OF more j, of t0 ?k] trim_seg_cut [OF i first, of ?k] idx True by simp
    with start [OF more] advance show ?thesis by simp
  next
    case False
    then have "cut_hops t0 i (Hops seg) = Hops seg" using i by (simp add: cut_hops_def)
    then have same: "?seg = seg" by simp
    show ?thesis
    proof (cases "post = []")
      case True
      have "int (length (concat (map Hops (pre @ seg # post)))) - 1 \<le> index" using idx False i True by simp
      from trim_path_done [OF this] True same show ?thesis by simp
    next
      case notNil: False
      then have "0 < length (concat (map Hops post))" using ne by (cases post) auto
      moreover have "length (concat (map Hops (pre @ seg # post))) =
          length (concat (map Hops pre)) + (length (Hops seg) + length (concat (map Hops post)))"
        by simp
      ultimately have "int (length (concat (map Hops (pre @ seg # post)))) - 1 > index"
        using idx i False by linarith
      from start [OF this] advance same show ?thesis by simp
    qed
  qed
qed

lemma locate_segment:
  "n < length (concat (map Hops path)) \<Longrightarrow>
     \<exists>pre seg post i. path = pre @ seg # post \<and> n = length (concat (map Hops pre)) + i \<and> i < length (Hops seg)"
proof (induction path arbitrary: n)
  case Nil
  then show ?case by simp
next
  case (Cons s path)
  show ?case
  proof (cases "n < length (Hops s)")
    case True
    then show ?thesis by (intro exI [of _ "[]"]) simp
  next
    case False
    with Cons.prems have "n - length (Hops s) < length (concat (map Hops path))" by simp
    from Cons.IH [OF this] obtain pre seg post i where "path = pre @ seg # post"
      "n - length (Hops s) = length (concat (map Hops pre)) + i" "i < length (Hops seg)" by blast
    with False show ?thesis
      by (intro exI [of _ "s # pre"] exI [of _ seg] exI [of _ post] exI [of _ i]) simp
  qed
qed

lemma find_chunk_Some:
  "find_chunk cm t0 paths = Some (chunk, index) \<Longrightarrow>
     chunk \<in> set paths \<and> (\<exists>n < length (rp_Hops chunk). index = int n \<and> cm (rp_Hops chunk ! n) = cm t0 \<and>
       (\<forall>j < n. cm (rp_Hops chunk ! j) \<noteq> cm t0))"
proof (induction paths)
  case (Cons c cs)
  from first_index_from_cases [of "rp_Hops c" "\<lambda>s. cm s = cm t0" 0] Cons show ?case
    by (auto simp: Let_def stringSliceIndexWithClusters_def split: if_splits)
qed simp

definition slots_to :: "string \<Rightarrow> slots \<Rightarrow> bool" where
  "slots_to src sl \<longleftrightarrow> (\<forall>s. Some s \<in> set sl \<longrightarrow> rs_Src (seg_base s) = src)"

lemma RemoveAt_Src: "RemoveAt l s = Inr s' \<Longrightarrow> rs_Src (seg_base s') = rs_Src (seg_base s)"
  by (auto simp: RemoveAt_def Let_def go_simps)

lemma trim_seg_Src: "trim_seg l k index s = Inr s' \<Longrightarrow> rs_Src (seg_base s') = rs_Src (seg_base s)"
proof (induction l k index s rule: trim_seg.induct)
  case (1 l k index s)
  from "1.prems" show ?case
    by (subst (asm) trim_seg.simps) (auto simp: go_simps RemoveAt_Src dest: 1(1) split: if_splits)
qed

lemma slots_to_update: "slots_to src sl \<Longrightarrow> rs_Src (seg_base s) = src \<Longrightarrow> slots_to src (sl[j := Some s])"
  unfolding slots_to_def by (metis insert_iff option.inject set_update_subset_insert subsetD)

lemma slots_to_delete: "slots_to src sl \<Longrightarrow> slots_to src ((take j sl @ drop (Suc j) sl)[j := None])"
  unfolding slots_to_def
  by (metis Un_iff insert_iff in_set_dropD in_set_takeD option.distinct(1) set_append set_update_subset_insert subsetD)

lemma trim_path_to:
  assumes "trim_path t0 index k j sl = Inr sl'" "slots_to src sl" "sl \<noteq> []" "0 \<le> index" "0 < k \<Longrightarrow> 0 < j"
  shows "slots_to src sl' \<and> sl' \<noteq> []"
  using assms
proof (induction t0 index k j sl rule: trim_path.induct)
  case (1 t0 index k j sl)
  show ?case
  proof (cases "trim_path t0 index k j sl = Inr sl")
    case True
    with 1 show ?thesis by simp
  next
    case False
    with 1(4) obtain hs seg where hs: "slots_Hops sl = Inr hs" "int (length hs) - 1 > index"
      "slot_segment sl j = Inr seg"
      by (subst (asm) (1 2) trim_path.simps) (auto simp: go_simps split: if_splits)
    note seg = hs(3) [unfolded slot_segment_Inr]
    have src: "rs_Src (seg_base seg) = src"
      using 1(5) seg unfolding slots_to_def by (metis nth_mem)
    consider (del) "k > index" | (cut) "\<not> k > index" "k + int (length (Hops seg)) - 1 > index"
      | (skip) "\<not> k > index" "\<not> k + int (length (Hops seg)) - 1 > index" by blast
    then show ?thesis
    proof cases
      case del
      with 1(4) hs have "trim_path t0 index k j ((take j sl @ drop (Suc j) sl)[j := None]) = Inr sl'"
        by (subst (asm) trim_path.simps) simp
      moreover have "(take j sl @ drop (Suc j) sl)[j := None] \<noteq> []"
        using seg 1(6-8) del by simp
      ultimately show ?thesis using 1(1) [OF hs del] slots_to_delete [OF 1(5)] 1(7,8) by blast
    next
      case cut
      with 1(4) hs obtain seg' where c: "trim_seg (StringSliceIndex (Hops seg) t0 + 1) k index seg = Inr seg'"
        "trim_path t0 index k j (sl[j := Some seg']) = Inr sl'"
        by (subst (asm) trim_path.simps) (auto simp: go_simps)
      have "slots_to src (sl[j := Some seg'])"
        using slots_to_update 1(5) trim_seg_Src [OF c(1)] src by metis
      with 1(2) [OF hs cut c] 1(6-8) show ?thesis by simp
    next
      case skip
      with 1(4) hs have "trim_path t0 index (k + int (length (Hops seg))) (Suc j) sl = Inr sl'"
        by (subst (asm) trim_path.simps) simp
      with 1(3) [OF hs skip] 1(5-7) show ?thesis by simp
    qed
  qed
qed

section \<open>The life of a reverse traceroute\<close>

text \<open>The calls of the runner on one traceroute; segments it hands in lead to the source.\<close>

inductive rt_step :: "revtr \<Rightarrow> revtr \<Rightarrow> bool" where
  step_AddSegments:
    "AddSegments srt ord cm segs rt = Inr (b, rt') \<Longrightarrow> rearrangement ord \<Longrightarrow>
     rearrangement (srt (seg_Less cm)) \<Longrightarrow> \<forall>s \<in> set segs. rs_Src (seg_base s) = rt_Src rt \<Longrightarrow>
     rt_step rt rt'"
| step_AddAndReplaceSegment:
    "AddAndReplaceSegment s rt = Inr (b, rt') \<Longrightarrow> rs_Src (seg_base s) = rt_Src rt \<Longrightarrow> rt_step rt rt'"
| step_AddBackgroundTRSegment:
    "AddBackgroundTRSegment srt ord cm s rt = Inr (b, rt') \<Longrightarrow> rearrangement ord \<Longrightarrow>
     rearrangement (srt (seg_Less cm)) \<Longrightarrow> rs_Src (seg_base s) = rt_Src rt \<Longrightarrow> rt_step rt rt'"
| step_FailCurrPath: "FailCurrPath rt = Inr rt' \<Longrightarrow> rt_step rt rt'"
| step_Failed: "rt_Failed rt = (b, rt') \<Longrightarrow> rt_step rt rt'"
| step_Reaches: "rt_Reaches cm rt = Inr (b, rt') \<Longrightarrow> rt_step rt rt'"

inductive rt_reachable :: "revtr \<Rightarrow> revtr \<Rightarrow> bool" for rt0 where
  start: "rt_reachable rt0 rt0"
| move: "rt_reachable rt0 rt \<Longrightarrow> rt_step rt rt' \<Longrightarrow> rt_reachable rt0 rt'"

definition rt_ok :: "revtr \<Rightarrow> bool" where
  "rt_ok rt \<longleftrightarrow> (\<forall>p \<in> set (Paths rt). path_ok p \<and> rp_Src p = rt_Src rt)"

lemma rt_ok_cong: "Paths rt' = Paths rt \<Longrightarrow> rt_Src rt' = rt_Src rt \<Longrightarrow> rt_ok rt' = rt_ok rt"
  by (simp add: rt_ok_def)

lemma call_onReach_fields [simp]:
  "Paths (call_onReach rt) = Paths rt" "DeadEnd (call_onReach rt) = DeadEnd rt"
  "StopReason (call_onReach rt) = StopReason rt" "rt_Src (call_onReach rt) = rt_Src rt"
  by (simp_all add: call_onReach_def)

lemma rp_Src_Add [simp]: "rp_Src (rp_Add s p) = rp_Src p" "rp_Src (rp_Clone p) = rp_Src p"
  by (simp_all add: rp_Add_def rp_Clone_def)

lemma extended_by_ok:
  assumes "extended_by dead base segs p" "path_ok base" "\<forall>s \<in> set segs. rs_Src (seg_base s) = rp_Src base"
  shows "path_ok p \<and> rp_Src p = rp_Src base"
  using assms by (auto simp: extended_by_def intro!: path_ok_Add)

lemma fail_loop_Src: "fail_loop rt = Inr rt' \<Longrightarrow> rt_Src rt' = rt_Src rt"
proof (induction rt rule: fail_loop.induct)
  case (1 rt)
  have IH: "rt_Src rt' = rt_Src rt"
    if "\<not> is_failed rt" "rt_LastHop rt = Inr h" "dead_end rt h" "rt_LastSeg rt = Inr s" "\<not> is_DstSym s"
      "fail_loop (rt\<lparr>Paths := take (rt_len rt - 1) (Paths rt)\<rparr>) = Inr rt'" for h s
    using 1(1) [of False rt h s] that by (simp add: rt_Failed_cases)
  from 1(2) show ?case
    by (subst (asm) fail_loop.simps) (auto simp: rt_Failed_cases go_simps IH split: if_splits)
qed

lemma AddSegments_ok:
  assumes a: "AddSegments srt ord cm segs rt = Inr (b, rt')" and ord: "rearrangement ord"
    "rearrangement (srt (seg_Less cm))" and src: "\<forall>s \<in> set segs. rs_Src (seg_base s) = rt_Src rt"
    and ok: "rt_ok rt"
  shows "rt_ok rt' \<and> rt_Src rt' = rt_Src rt"
proof -
  obtain new rt1 where new: "rt1 = rt\<lparr>Paths := Paths rt @ new\<rparr>" "rt' = (if b then call_onAdd rt1 else rt1)"
    "Paths rt \<noteq> []" "\<forall>p \<in> set new. extended_by (DeadEnd rt) (last (Paths rt)) segs p"
    using AddSegments_spec [OF ord a] by blast
  have base: "path_ok (last (Paths rt)) \<and> rp_Src (last (Paths rt)) = rt_Src rt"
    using ok new(3) by (simp add: rt_ok_def)
  then have "path_ok p \<and> rp_Src p = rt_Src rt" if "p \<in> set new" for p
    using extended_by_ok new(4) src that by metis
  moreover have "Paths rt' = Paths rt @ new" "rt_Src rt' = rt_Src rt" using new(1,2) by auto
  ultimately show ?thesis using ok by (auto simp: rt_ok_def)
qed

lemma all_segments_Inr: "all_segments sl = Inr segs \<Longrightarrow> sl = map Some segs"
  by (induction sl arbitrary: segs rule: all_segments.induct) (auto simp: go_simps)

lemma trim_chunk_ok:
  assumes "trim_chunk t0 index chunk = Inr p" "path_ok chunk" "0 \<le> index"
  shows "path_ok p \<and> rp_Src p = rp_Src chunk"
proof -
  obtain segs where segs: "trim_path t0 index 0 0 (map Some (rp_Path (rp_Clone chunk))) = Inr (map Some segs)"
    "p = (rp_Clone chunk)\<lparr>rp_Path := segs\<rparr>"
    using assms(1) by (auto simp: trim_chunk_def go_simps dest!: all_segments_Inr)
  have "slots_to (rp_Src chunk) (map Some (rp_Path (rp_Clone chunk)))"
    using assms(2) by (auto simp: slots_to_def path_ok_def)
  with trim_path_to [OF segs(1) this] assms(2,3)
  have "slots_to (rp_Src chunk) (map Some segs) \<and> segs \<noteq> []" by (auto simp: path_ok_def)
  with segs(2) show ?thesis by (auto simp: path_ok_def slots_to_def)
qed

lemma rt_step_ok: "rt_step rt rt' \<Longrightarrow> rt_ok rt \<Longrightarrow> rt_ok rt' \<and> rt_Src rt' = rt_Src rt"
proof (induction rule: rt_step.induct)
  case (step_AddSegments srt ord cm segs rt b rt')
  then show ?case by (rule AddSegments_ok)
next
  case (step_AddAndReplaceSegment s rt b rt')
  show ?case
  proof (cases "Paths rt = []")
    case True
    with step_AddAndReplaceSegment show ?thesis
      by (auto simp: AddAndReplaceSegment_def go_simps CurrPath_Inr split: if_splits)
  next
    case False
    then have base: "path_ok (last (Paths rt)) \<and> rp_Src (last (Paths rt)) = rt_Src rt"
      using step_AddAndReplaceSegment.prems by (simp add: rt_ok_def)
    then have "rp_Pop (rp_Clone (last (Paths rt))) = Inr (last (rp_Path (rp_Clone (last (Paths rt)))),
        (rp_Clone (last (Paths rt)))\<lparr>rp_Path := butlast (rp_Path (rp_Clone (last (Paths rt))))\<rparr>)"
      by (simp add: path_ok_def)
    with base False step_AddAndReplaceSegment show ?thesis
      by (auto simp: AddAndReplaceSegment_def go_simps CurrPath_Inr rt_ok_def path_ok_def rp_Add_def
          split: if_splits dest!: in_set_butlastD)
  qed
next
  case (step_AddBackgroundTRSegment srt ord cm s rt b rt')
  show ?case
  proof (cases "rt' = rt")
    case True
    with step_AddBackgroundTRSegment.prems show ?thesis by simp
  next
    case False
    with step_AddBackgroundTRSegment(1) obtain t0 chunk index p rt1 where
      f: "find_chunk cm t0 (Paths rt) = Some (chunk, index)" "trim_chunk t0 index chunk = Inr p"
        "AddSegments srt ord cm [s] (rt\<lparr>Paths := Paths rt @ [p]\<rparr>) = Inr (b, rt1)"
        "rt' = (if \<not> b then rt1\<lparr>Paths := take (length (Paths rt)) (Paths rt1) @
           drop (Suc (length (Paths rt))) (Paths rt1)\<rparr> else rt1)"
      by (auto simp: AddBackgroundTRSegment_def go_simps Let_def simp del: fun_upd_apply
          split: if_splits option.splits)
    have f5: "set (Paths rt') \<subseteq> set (Paths rt1)" "rt_Src rt' = rt_Src rt1"
      unfolding f(4) by (auto dest: in_set_takeD in_set_dropD)
    from find_chunk_Some [OF f(1)] have chunk: "chunk \<in> set (Paths rt)" "0 \<le> index" by auto
    with step_AddBackgroundTRSegment.prems have "path_ok chunk \<and> rp_Src chunk = rt_Src rt"
      by (simp add: rt_ok_def)
    with trim_chunk_ok [OF f(2) _ chunk(2)] step_AddBackgroundTRSegment.prems
    have "rt_ok (rt\<lparr>Paths := Paths rt @ [p]\<rparr>)" by (auto simp: rt_ok_def)
    from AddSegments_ok [OF f(3) step_AddBackgroundTRSegment(2,3) _ this] step_AddBackgroundTRSegment(4) f5
    show ?thesis by (auto simp: rt_ok_def)
  qed
next
  case (step_FailCurrPath rt rt')
  then obtain h rt1 where f: "fail_loop (rt\<lparr>DeadEnd := List.insert h (DeadEnd rt)\<rparr>) = Inr rt1"
    "rt' = call_onAdd rt1" by (auto simp: FailCurrPath_def go_simps)
  let ?rt = "rt\<lparr>DeadEnd := List.insert h (DeadEnd rt)\<rparr>"
  have "\<forall>p \<in> set (Paths ?rt). rp_Path p \<noteq> []"
    using step_FailCurrPath.prems by (simp add: rt_ok_def path_ok_def)
  from fail_loop_spec [OF this] f(1) have "prefix (Paths rt1) (Paths rt)" by auto
  then have "set (Paths rt1) \<subseteq> set (Paths rt)" by (rule set_mono_prefix)
  with fail_loop_Src [OF f(1)] f(2) step_FailCurrPath.prems show ?case
    by (auto simp: rt_ok_def)
next
  case (step_Failed rt b rt')
  then show ?case by (auto simp: rt_Failed_cases rt_ok_def split: if_splits)
next
  case (step_Reaches cm rt b rt')
  then show ?case by (auto simp: rt_Reaches_def go_simps rt_ok_def split: if_splits)
qed

section \<open>Properties\<close>

text \<open>
  C1. \<open>AddSegments\<close> only ever pushes: each path it adds is a clone of the current one with one more
  segment, what \<open>RemoveHops\<close> left of a candidate, nonempty, disjoint from the hops already there and
  not ending in a dead end. It reports success only if it pushed a path, and then calls \<open>onAdd\<close> once.
  Failure means that nothing was pushed, unless \<open>0.0.0.0\<close> is a hop of the current path: then the
  paths pushed before the "still a loop" error stay.
\<close>

theorem add_segments_extends:
  assumes "rearrangement ord" and "rearrangement (srt (seg_Less cm))"
    and "AddSegments srt ord cm segs rt = Inr (success, rt')"
  shows "(\<exists>new. Paths rt' = Paths rt @ new \<and>
      (\<forall>p \<in> set new. extended_by (DeadEnd rt) (last (Paths rt)) segs p) \<and>
      (success \<longrightarrow> new \<noteq> []) \<and>
      (\<not> success \<longrightarrow> new = [] \<or> zero_hop \<in> set (rp_Hops (last (Paths rt))))) \<and>
    callbacks rt' = callbacks rt @ (if success \<and> has_onAdd rt then [OnAdd] else []) \<and>
    DeadEnd rt' = DeadEnd rt"
proof -
  obtain new rt1 where new: "rt1 = rt\<lparr>Paths := Paths rt @ new\<rparr>" "rt' = (if success then call_onAdd rt1 else rt1)"
    "\<forall>p \<in> set new. extended_by (DeadEnd rt) (last (Paths rt)) segs p" "success \<longrightarrow> new \<noteq> []"
    "\<not> success \<and> new \<noteq> [] \<longrightarrow> zero_hop \<in> set (rp_Hops (last (Paths rt)))"
    using AddSegments_spec [OF assms] by blast
  have "Paths rt' = Paths rt @ new" using new(1,2) by simp
  moreover have "callbacks rt' = callbacks rt @ (if success \<and> has_onAdd rt then [OnAdd] else [])"
    using new(1,2) by (simp add: call_onAdd_def)
  moreover have "DeadEnd rt' = DeadEnd rt" using new(1,2) by simp
  ultimately show ?thesis using new(3-5) by auto
qed

definition ex_path :: "segment list \<Rightarrow> reverse_path" where
  "ex_path segs = \<lparr>rp_Src = ''9.9.9.9'', rp_Dst = ''8.8.8.8'', rp_Path = segs\<rparr>"

definition ex_rt :: "reverse_path list \<Rightarrow> revtr" where
  "ex_rt paths = (CreateReverseTraceroute 1 \<lparr>rm_Src = ''9.9.9.9'', rm_Dst = ''8.8.8.8'', rm_Staleness = 0,
     rm_Id = 7, rm_BackoffEndhost = False\<rparr> True True True)\<lparr>Paths := paths\<rparr>"

lemma ex_rt_fields [simp]:
  "Paths (ex_rt paths) = paths" "DeadEnd (ex_rt paths) = []" "rt_Src (ex_rt paths) = ''9.9.9.9''"
  "callbacks (ex_rt paths) = []" "has_onAdd (ex_rt paths)" "\<not> BackoffEndhost (ex_rt paths)"
  by (simp_all add: ex_rt_def CreateReverseTraceroute_def NewReverseTraceroute_def Let_def)

abbreviation ex_path_a :: reverse_path where
  "ex_path_a \<equiv> ex_path [ex_segment [''1.1.1.1'', ''2.2.2.2'']]"

lemma ex_RemoveHops_2:
  "RemoveHops insertion_order (\<lambda>h. h) [''1.1.1.1'', ''2.2.2.2''] (ex_segment [''2.2.2.2'', ''3.3.3.3'']) =
     (ex_segment [''3.3.3.3''], None)"
  by (simp add: RemoveHops_def RemoveHops_list_def ex_segment_def Hops_def set_hops_def
    StringSet_Union_def union_mark_def insertion_order_def max_rIndex_def rIndex_def)

lemma ex_AddSegments:
  "AddSegments go_insertion_sort insertion_order (\<lambda>h. h) [ex_segment [''2.2.2.2'', ''3.3.3.3'']] (ex_rt [ex_path_a]) =
     Inr (True, call_onAdd (ex_rt [ex_path_a, ex_path [ex_segment [''1.1.1.1'', ''2.2.2.2''], ex_segment [''3.3.3.3'']]]))"
proof -
  let ?s = "ex_segment [''2.2.2.2'', ''3.3.3.3'']"
  have base: "rp_Clone ex_path_a = ex_path_a" "rp_Hops ex_path_a = [''1.1.1.1'', ''2.2.2.2'']"
    by (simp_all add: rp_Clone_def ex_path_def ex_segment_def rp_Hops_def Hops_def)
  have "add_loop insertion_order (\<lambda>h. h) ex_path_a [?s] False (ex_rt [ex_path_a]) =
      (False, True, (ex_rt [ex_path_a])\<lparr>Paths := [ex_path_a, rp_Add (ex_segment [''3.3.3.3'']) ex_path_a]\<rparr>)"
    by (simp add: base ex_RemoveHops_2 dead_end_def seg_Length_def)
  moreover have "go_insertion_sort lt [?s] = [?s]" for lt by (simp add: go_insertion_sort_def)
  moreover have "(ex_rt [ex_path_a])\<lparr>Paths := ps\<rparr> = ex_rt ps" for ps by (simp add: ex_rt_def)
  moreover have "CurrPath (ex_rt [ex_path_a]) = Inr ex_path_a" by (simp add: CurrPath_Inr)
  ultimately show ?thesis by (simp add: AddSegments_def base(1)) (simp add: rp_Add_def ex_path_def)
qed

theorem add_segments_extends_witness:
  "\<exists>new. Paths (ex_rt [ex_path_a, ex_path [ex_segment [''1.1.1.1'', ''2.2.2.2''], ex_segment [''3.3.3.3'']]]) =
      [ex_path_a] @ new \<and> new \<noteq> []"
  using add_segments_extends [OF insertion_order.rearrangement_axioms insertion_sort.rearrangement_axioms
      ex_AddSegments] by auto

text \<open>
  C7. \<open>FailCurrPath\<close> terminates on every well-formed traceroute without a panic. It marks the last hop
  as a dead end and only pops paths; afterwards either the traceroute has failed (and says so in its
  stop reason), or the current path ends in a segment assumed symmetric (to be extended backwards) or
  in a hop that is not a dead end.
\<close>

theorem fail_curr_path_outcome:
  assumes "Paths rt \<noteq> []" and "rt_ok rt"
  shows "\<exists>rt' h. FailCurrPath rt = Inr rt' \<and> rt_LastHop rt = Inr h \<and>
     DeadEnd rt' = List.insert h (DeadEnd rt) \<and> prefix (Paths rt') (Paths rt) \<and>
     (is_failed rt' \<and> StopReason rt' = StopFailed \<or>
      \<not> is_failed rt' \<and> StopReason rt' = StopReason rt \<and>
      (\<exists>s. rt_LastSeg rt' = Inr s \<and> (is_DstSym s \<or> seg_LastHop s \<notin> set (DeadEnd rt'))))"
proof -
  have ne: "\<forall>p \<in> set (Paths rt). rp_Path p \<noteq> []" using assms(2) by (simp add: rt_ok_def path_ok_def)
  let ?h = "seg_LastHop (last (rp_Path (last (Paths rt))))"
  have h: "rt_LastHop rt = Inr ?h" using ne assms(1) by (simp add: rt_LastHop_Inr)
  let ?rt = "rt\<lparr>DeadEnd := List.insert ?h (DeadEnd rt)\<rparr>"
  have "\<forall>p \<in> set (Paths ?rt). rp_Path p \<noteq> []" using ne by simp
  from fail_loop_spec [OF this] obtain rt1 where r: "fail_loop ?rt = Inr rt1"
    "prefix (Paths rt1) (Paths rt)" "DeadEnd rt1 = List.insert ?h (DeadEnd rt)"
    "is_failed rt1 \<and> StopReason rt1 = StopFailed \<or>
      \<not> is_failed rt1 \<and> StopReason rt1 = StopReason rt \<and>
      (let s = last (rp_Path (last (Paths rt1))) in is_DstSym s \<or> seg_LastHop s \<notin> set (DeadEnd rt1))"
    by auto
  have f: "is_failed (call_onAdd rt1) = is_failed rt1" by (simp add: is_failed_def rt_len_def)
  have "rt_LastSeg (call_onAdd rt1) = Inr (last (rp_Path (last (Paths rt1))))" if "\<not> is_failed rt1"
  proof -
    have ne1: "Paths rt1 \<noteq> []" using that by (auto simp: is_failed_def rt_len_def)
    then have "last (Paths rt1) \<in> set (Paths rt)"
      using set_mono_prefix [OF r(2)] last_in_set by blast
    with ne ne1 show ?thesis by (simp add: rt_LastSeg_Inr)
  qed
  with h r f show ?thesis by (auto simp: FailCurrPath_def Let_def)
qed

theorem fail_curr_path_outcome_witness:
  "\<exists>rt' h. FailCurrPath (ex_rt [ex_path_a]) = Inr rt' \<and> rt_LastHop (ex_rt [ex_path_a]) = Inr h"
  using fail_curr_path_outcome [of "ex_rt [ex_path_a]"]
  by (auto simp: rt_ok_def path_ok_def ex_path_def ex_segment_def)


abbreviation ex_revtr :: revtr where
  "ex_revtr \<equiv> CreateReverseTraceroute 1 \<lparr>rm_Src = ''9.9.9.9'', rm_Dst = ''8.8.8.8'', rm_Staleness = 0,
     rm_Id = 7, rm_BackoffEndhost = False\<rparr> True True True"


lemma trim_chunk_located:
  assumes split: "rp_Path chunk = pre @ seg # post" "i < length (Hops seg)" and idx: "index = int (length (concat (map Hops pre)) + i)"
    and ne: "\<forall>s \<in> set (rp_Path chunk). Hops s \<noteq> []"
    and first: "t0 \<in> set (Hops seg) \<Longrightarrow> Hops seg ! i = t0 \<and> (\<forall>j < i. Hops seg ! j \<noteq> t0)"
  shows "trim_chunk t0 index chunk =
    (if length post \<le> 1
     then Inr ((rp_Clone chunk)\<lparr>rp_Path := map seg_Clone pre @ [set_hops (cut_hops t0 i (Hops seg)) (seg_Clone seg)]\<rparr>)
     else Inl NilDereference)"
proof -
  have idx': "index = int (length (concat (map Hops (map seg_Clone pre)))) + int i"
    using idx by (simp add: comp_def)
  have i: "i < length (Hops (seg_Clone seg))" using split(2) by simp
  have ne': "\<forall>s \<in> set (map seg_Clone pre @ seg_Clone seg # map seg_Clone post). Hops s \<noteq> []"
    using ne split(1) by auto
  have first': "t0 \<in> set (Hops (seg_Clone seg)) \<Longrightarrow>
      Hops (seg_Clone seg) ! i = t0 \<and> (\<forall>j < i. Hops (seg_Clone seg) ! j \<noteq> t0)"
    using first by simp
  have "trim_path t0 index 0 0 (map Some (rp_Path (rp_Clone chunk))) =
      (if length post \<le> 1 then Inr (map Some (map seg_Clone pre @ [set_hops (cut_hops t0 i (Hops seg)) (seg_Clone seg)]))
       else Inl NilDereference)"
    using trim_path_cut [OF idx' i ne' first'] by (simp add: split(1))
  then show ?thesis
    unfolding trim_chunk_def
    by (cases "length post \<le> 1") (simp_all only: go_bind.simps all_segments_Some if_True if_False)
qed

text \<open>
  C6. A background traceroute that meets a path at a hop: the path is cut behind the intersection, so
  that its hops are exactly those up to it. Two flaws of the code are part of the statement: if the hop
  is met only through its alias cluster, the segment it is in loses hops at its front instead of its
  end; and if more than one segment follows, the second deletion reads a nil segment and panics.
\<close>

theorem background_intersection_cut:
  assumes f: "find_chunk cm t0 paths = Some (chunk, index)"
    and ne: "\<forall>s \<in> set (rp_Path chunk). Hops s \<noteq> []"
    and exact: "rp_Hops chunk ! nat index = t0 \<or> t0 \<notin> set (rp_Hops chunk)"
  shows "chunk \<in> set paths \<and>
    (\<exists>pre seg post i. rp_Path chunk = pre @ seg # post \<and> i < length (Hops seg) \<and>
       nat index = length (concat (map Hops pre)) + i \<and> cm (Hops seg ! i) = cm t0 \<and>
       trim_chunk t0 index chunk =
         (if length post \<le> 1
          then Inr ((rp_Clone chunk)\<lparr>rp_Path := map seg_Clone pre @ [set_hops (cut_hops t0 i (Hops seg)) (seg_Clone seg)]\<rparr>)
          else Inl NilDereference) \<and>
       (length post \<le> 1 \<and> t0 \<in> set (rp_Hops chunk) \<longrightarrow>
          (\<exists>p. trim_chunk t0 index chunk = Inr p \<and> rp_Hops p = take (nat index + 1) (rp_Hops chunk))))"
proof -
  from find_chunk_Some [OF f] obtain n where chunk: "chunk \<in> set paths" and n: "n < length (rp_Hops chunk)"
    "index = int n" "cm (rp_Hops chunk ! n) = cm t0" "\<forall>j < n. cm (rp_Hops chunk ! j) \<noteq> cm t0" by blast
  from locate_segment [of n "rp_Path chunk"] n(1) obtain pre seg post i where
    split: "rp_Path chunk = pre @ seg # post" "n = length (concat (map Hops pre)) + i" "i < length (Hops seg)"
    unfolding rp_Hops_def by blast
  let ?pre = "concat (map Hops pre)"
  have hops: "rp_Hops chunk = ?pre @ Hops seg @ concat (map Hops post)"
    by (simp add: rp_Hops_def split(1))
  have at: "rp_Hops chunk ! n = Hops seg ! i" using split(2,3) by (simp add: hops nth_append)
  have "Hops seg ! j \<noteq> t0" if "j < i" for j
  proof -
    have "rp_Hops chunk ! (length ?pre + j) = Hops seg ! j" using that split(3) by (simp add: hops nth_append)
    with n(4) split(2) that show ?thesis by (metis nat_add_left_cancel_less)
  qed
  then have first: "t0 \<in> set (Hops seg) \<Longrightarrow> Hops seg ! i = t0 \<and> (\<forall>j < i. Hops seg ! j \<noteq> t0)"
    using exact at n(2) by (auto simp: hops)
  note trim = trim_chunk_located [OF split(1,3) n(2) [unfolded split(2)] ne first]
  have "rp_Hops ((rp_Clone chunk)\<lparr>rp_Path := map seg_Clone pre @ [set_hops (cut_hops t0 i (Hops seg)) (seg_Clone seg)]\<rparr>)
      = take (nat index + 1) (rp_Hops chunk)" if "t0 \<in> set (rp_Hops chunk)"
  proof -
    have "t0 = Hops seg ! i" using exact that at n(2) by simp
    then have "t0 \<in> set (Hops seg)" using split(3) by simp
    then have "cut_hops t0 i (Hops seg) = take (Suc i) (Hops seg)" by (simp add: cut_hops_def)
    then show ?thesis
      using n(2) split(2,3) by (simp add: hops nat_int_add) (simp add: rp_Hops_def comp_def)
  qed
  with trim chunk split at n show ?thesis by (intro conjI exI [of _ pre] exI [of _ seg] exI [of _ post] exI [of _ i]) auto
qed

lemma ex_find_chunk: "find_chunk (\<lambda>h. h) ''1.1.1.1'' [ex_path_a] = Some (ex_path_a, 0)"
  by (simp add: stringSliceIndexWithClusters_def rp_Hops_def ex_path_def)

theorem background_intersection_cut_witness:
  "\<exists>p. trim_chunk ''1.1.1.1'' 0 ex_path_a = Inr p \<and> rp_Hops p = [''1.1.1.1'']"
proof -
  have "\<exists>pre seg post i. rp_Path ex_path_a = pre @ seg # post \<and>
      (length post \<le> 1 \<and> ''1.1.1.1'' \<in> set (rp_Hops ex_path_a) \<longrightarrow>
        (\<exists>p. trim_chunk ''1.1.1.1'' 0 ex_path_a = Inr p \<and> rp_Hops p = take (nat 0 + 1) (rp_Hops ex_path_a)))"
    using background_intersection_cut [OF ex_find_chunk] by (simp add: ex_path_def rp_Hops_def) blast
  then show ?thesis by (auto simp: ex_path_def rp_Hops_def Cons_eq_append_conv)
qed

end
