(* ===== verification/RevTracerouteVPs.thy ===== *)
theory RevTracerouteVPs
  imports RevTracerouteProps
begin

text \<open>
  \<open>revtr/reverse_traceroute/revese_traceroute.go\<close>, continued: which vantage points and adjacencies a
  reverse traceroute tries next, and the form in which it is stored. The vantage point service and the
  adjacency database are arguments; a query that fails returns \<open>None\<close>.
\<close>

section \<open>Storable form\<close>

datatype revtr_status = DUMMY_X | RUNNING | COMPLETED | CANCELED

record storable_stats =
  ss_RrProbes :: int32
  ss_SpoofedRrProbes :: int32
  ss_TsProbes :: int32
  ss_SpoofedTsProbes :: int32
  ss_RrRoundCount :: int32
  ss_TsRoundCount :: int32
  ss_TrToSrcRoundCount :: int32
  ss_AssumeSymmetricRoundCount :: int32
  ss_BackgroundTrsRoundCount :: int32

record revtr_hop =
  rh_Hop :: string
  rh_Type :: int

record storable =
  sr_Id :: uint32
  sr_Src :: string
  sr_Dst :: string
  sr_FailReason :: string
  sr_StopReason :: string
  sr_Stats :: "storable_stats option"
  sr_Status :: revtr_status
  sr_Path :: "revtr_hop list"

text \<open>The loop over the hops of one segment; \<open>seen\<close> holds the keys of \<open>hopsSeen\<close>.\<close>

fun store_hops :: "int \<Rightarrow> hop list \<Rightarrow> string list \<Rightarrow> revtr_hop list \<Rightarrow> string list \<times> revtr_hop list" where
  "store_hops ty [] seen acc = (seen, acc)"
| "store_hops ty (h # hs) seen acc =
     (if h \<in> set seen then store_hops ty hs seen acc
      else store_hops ty hs (h # seen) (acc @ [\<lparr>rh_Hop = h, rh_Type = ty\<rparr>]))"

fun store_segments :: "segment list \<Rightarrow> string list \<Rightarrow> revtr_hop list \<Rightarrow> revtr_hop list" where
  "store_segments [] seen acc = acc"
| "store_segments (s # ss) seen acc =
     (let (seen', acc') = store_hops (seg_Type s) (Hops s) seen acc in store_segments ss seen' acc')"

definition ToStorable :: "revtr \<Rightarrow> (storable \<times> revtr) go" where
  "ToStorable rt =
     (let st = Stats rt;
          stats = \<lparr>ss_RrProbes = word_of_int (st_RRProbes st),
                   ss_SpoofedRrProbes = word_of_int (st_SpoofedRRProbes st),
                   ss_TsProbes = word_of_int (st_TSProbes st),
                   ss_SpoofedTsProbes = word_of_int (st_SpoofedTSProbes st),
                   ss_RrRoundCount = word_of_int (st_RRRoundCount st),
                   ss_TsRoundCount = word_of_int (st_TSRoundCount st),
                   ss_TrToSrcRoundCount = word_of_int (st_TRToSrcRoundCount st),
                   ss_AssumeSymmetricRoundCount = word_of_int (st_AssumeSymmetricRoundCount st),
                   ss_BackgroundTrsRoundCount = word_of_int (st_BackgroundTRSRoundCount st)\<rparr>;
          ret = \<lparr>sr_Id = ID rt, sr_Src = rt_Src rt, sr_Dst = rt_Dst rt, sr_FailReason = FailReason rt,
                 sr_StopReason = stop_string (StopReason rt), sr_Stats = Some stats,
                 sr_Status = (if stop_string (StopReason rt) \<noteq> [] then COMPLETED else RUNNING),
                 sr_Path = []\<rparr>
      in case rt_Failed rt of
           (True, rt') \<Rightarrow> Inr (ret, rt')
         | (False, rt') \<Rightarrow> go_bind (CurrPath rt') (\<lambda>rp.
             Inr (ret\<lparr>sr_Path := store_segments (rp_Path rp) [] []\<rparr>, rt')))"

section \<open>Timestamp adjacencies\<close>

record adjacency =
  adj_IP1 :: uint32
  adj_IP2 :: uint32
  adj_Cnt :: uint32

record adjacency_to_dest =
  atd_Dest24 :: uint32
  atd_Address :: uint32
  atd_Adjacent :: uint32
  atd_Cnt :: uint32

record adjacency_source =
  as_ByIP1 :: "uint32 \<Rightarrow> (adjacency list) option"
  as_ByIP2 :: "uint32 \<Rightarrow> (adjacency list) option"
  as_ToDest :: "uint32 \<Rightarrow> uint32 \<Rightarrow> (adjacency_to_dest list) option"

text \<open>The two calls of \<open>sort.Sort\<close>, as arguments: one per element type.\<close>

type_synonym 'a sorter = "('a \<Rightarrow> 'a \<Rightarrow> bool) \<Rightarrow> 'a list \<Rightarrow> 'a list"

definition byCount_Less :: "adjacency_to_dest \<Rightarrow> adjacency_to_dest \<Rightarrow> bool" where
  "byCount_Less a b \<longleftrightarrow> atd_Cnt a < atd_Cnt b"

definition aByCount_Less :: "adjacency \<Rightarrow> adjacency \<Rightarrow> bool" where
  "aByCount_Less a b \<longleftrightarrow> adj_Cnt a < adj_Cnt b"

definition sort_Reverse :: "('a \<Rightarrow> 'a \<Rightarrow> bool) \<Rightarrow> 'a \<Rightarrow> 'a \<Rightarrow> bool" where
  "sort_Reverse lt a b \<longleftrightarrow> lt b a"

definition first_30 :: "string list \<Rightarrow> (string list) go" where
  "first_30 ret =
     (if length ret < 30 then go_slice ret 0 (int (length ret)) else go_slice ret 0 30)"

definition getAdjacenciesForIPToSrc ::
    "adjacency_to_dest sorter \<Rightarrow> adjacency sorter \<Rightarrow> order \<Rightarrow> adjacency_source \<Rightarrow> string \<Rightarrow> string \<Rightarrow>
     ((string list) option) go" where
  "getAdjacenciesForIPToSrc srtd srta ord as ip src =
     go_bind (ip_int ip) (\<lambda>ipint.
     go_bind (ip_int src) (\<lambda>srcint.
       let dest24 = drop_bit 8 srcint in
       case as_ByIP1 as ipint of None \<Rightarrow> Inr None | Some ips1 \<Rightarrow>
       case as_ByIP2 as ipint of None \<Rightarrow> Inr None | Some ips2 \<Rightarrow>
       case as_ToDest as dest24 ipint of None \<Rightarrow> Inr None | Some adjstodst \<Rightarrow>
         (let atjs = map (\<lambda>a. ip_str (atd_Adjacent a)) (srtd (sort_Reverse byCount_Less) adjstodst);
              combined = srta (sort_Reverse aByCount_Less) (ips1 @ ips2);
              combinedIps = map (\<lambda>a. if adj_IP1 a = ipint then ip_str (adj_IP2 a) else ip_str (adj_IP1 a)) combined;
              ss = StringSliceMinus ord (StringSliceMinus ord combinedIps atjs) [ip];
              ret = atjs @ ss
          in go_bind (first_30 ret) (\<lambda>r. Inr (Some r)))))"

definition InitializeTSAdjacents ::
    "adjacency_to_dest sorter \<Rightarrow> adjacency sorter \<Rightarrow> order \<Rightarrow> adjacency_source \<Rightarrow> string \<Rightarrow> revtr \<Rightarrow> revtr go" where
  "InitializeTSAdjacents srtd srta ord as cls rt =
     go_bind (getAdjacenciesForIPToSrc srtd srta ord as cls (rt_Src rt)) (\<lambda>r.
       case r of None \<Rightarrow> Inr rt
       | Some adjs \<Rightarrow> Inr (rt\<lparr>TSHop2AdjsLeft := (TSHop2AdjsLeft rt)(cls \<mapsto> adjs)\<rparr>))"

definition GetTSAdjacents ::
    "adjacency_to_dest sorter \<Rightarrow> adjacency sorter \<Rightarrow> order \<Rightarrow> adjacency_source \<Rightarrow> string \<Rightarrow> revtr \<Rightarrow>
     (string list \<times> revtr) go" where
  "GetTSAdjacents srtd srta ord as hop rt =
     go_bind (if TSHop2AdjsLeft rt hop = None then InitializeTSAdjacents srtd srta ord as hop rt else Inr rt) (\<lambda>rt1.
     go_bind (rt_LastHop rt1) (\<lambda>_.
       let left = map_get [] (TSHop2AdjsLeft rt1) hop in
       if length left = 0 then Inr ([], rt1)
       else
         (let rate = (case TSHop2RateLimit rt1 hop of Some val \<Rightarrow> val | None \<Rightarrow> 1);
              mn = (if rate > int (length left) then int (length left) else rate)
          in go_bind (go_slice left 0 mn) (\<lambda>adjacents.
             go_bind (go_slice left mn (int (length left))) (\<lambda>rest.
               Inr (adjacents, rt1\<lparr>TSHop2AdjsLeft := (TSHop2AdjsLeft rt1)(hop \<mapsto> rest)\<rparr>))))))"

section \<open>Vantage points\<close>

record vp_source =
  vs_GetTSSpoofers :: "uint32 \<Rightarrow> (vantage_point list) option"
  vs_GetRRSpoofers :: "uint32 \<Rightarrow> uint32 \<Rightarrow> (vantage_point list) option"

definition GetTimestampSpoofers :: "vp_source \<Rightarrow> string list" where
  "GetTimestampSpoofers vps =
     (case vs_GetTSSpoofers vps 0 of
        None \<Rightarrow> []
      | Some vs \<Rightarrow>
          let spoofers = map (\<lambda>vp. ip_str (vp_Ip vp)) vs
          in if length spoofers > 5 then take 5 spoofers else spoofers)"

abbreviation non_spoofed :: string where
  "non_spoofed \<equiv> ''non_spoofed''"

definition InitializeRRVPs :: "vp_source \<Rightarrow> string \<Rightarrow> revtr \<Rightarrow> revtr go" where
  "InitializeRRVPs vs cls rt =
     (let rt1 = rt\<lparr>RRHop2RateLimit := (RRHop2RateLimit rt)(cls \<mapsto> RateLimit)\<rparr> in
      go_bind (ip_int cls) (\<lambda>clsi.
        case vs_GetRRSpoofers vs clsi 0 of
          None \<Rightarrow> Inr rt1
        | Some vps \<Rightarrow> Inr (rt1\<lparr>RRHop2VPSLeft :=
            (RRHop2VPSLeft rt1)(cls \<mapsto> non_spoofed # map (\<lambda>vp. ip_str (vp_Ip vp)) vps)\<rparr>)))"

fun init_rr_hops :: "vp_source \<Rightarrow> hop list \<Rightarrow> revtr \<Rightarrow> revtr go" where
  "init_rr_hops vs [] rt = Inr rt"
| "init_rr_hops vs (hop # hops) rt =
     go_bind (if RRHop2VPSLeft rt hop = None then InitializeRRVPs vs hop rt else Inr rt)
       (init_rr_hops vs hops)"

text \<open>The search for a target, from the last hop of the segment; the argument is the reversed list.\<close>

fun pick_target :: "revtr \<Rightarrow> hop list \<Rightarrow> hop option" where
  "pick_target rt [] = None"
| "pick_target rt (target # segHops) =
     (if map_get 0 (rrSpoofRRResponsive rt) target \<noteq> -1 \<and>
         map_get 0 (rrSpoofRRResponsive rt) target \<ge> maxUnresponsive
      then pick_target rt segHops
      else if length (map_get [] (RRHop2VPSLeft rt) target) = 0 then pick_target rt segHops
      else Some target)"

definition set_vps_left :: "hop \<Rightarrow> string list \<Rightarrow> revtr \<Rightarrow> revtr" where
  "set_vps_left cls left rt = rt\<lparr>RRHop2VPSLeft := (RRHop2VPSLeft rt)(cls \<mapsto> left)\<rparr>"

definition next_rr_batch :: "hop \<Rightarrow> segment \<Rightarrow> revtr \<Rightarrow> (string list \<times> revtr) go" where
  "next_rr_batch cls lastSeg rt =
     (let left = map_get [] (RRHop2VPSLeft rt) cls;
          rate = map_get 0 (RRHop2RateLimit rt) cls;
          mn = (if int (length left) < rate then int (length left) else rate)
      in go_bind (go_slice left 0 mn) (\<lambda>batch.
         if InArray batch non_spoofed then
           go_bind (go_slice left 1 (int (length left))) (\<lambda>rest.
             Inr ([non_spoofed], set_vps_left cls rest rt))
         else
           case lastSeg of
             SpoofRRRevSegment _ spoofer \<Rightarrow>
               (let newleft = filter (\<lambda>s. s \<noteq> spoofer) left;
                    mn' = (if int (length newleft) < rate - 1 then int (length newleft) else rate - 1)
                in go_bind (go_slice newleft 0 mn') (\<lambda>vs.
                   go_bind (go_slice newleft mn' (int (length newleft))) (\<lambda>rest.
                     Inr (spoofer # vs, set_vps_left cls rest rt))))
           | _ \<Rightarrow> go_bind (go_slice left mn (int (length left))) (\<lambda>rest.
               Inr (batch, set_vps_left cls rest rt))))"

text \<open>\<open>GetRRVPs\<close>: an empty list stands for \<open>nil\<close>, returned with the empty target.\<close>

definition GetRRVPs :: "vp_source \<Rightarrow> revtr \<Rightarrow> (string list \<times> string \<times> revtr) go" where
  "GetRRVPs vs rt =
     go_bind (rt_LastSeg rt) (\<lambda>lastSeg.
     go_bind (init_rr_hops vs (Hops lastSeg) rt) (\<lambda>rt1.
       case pick_target rt1 (rev (CloneStringSlice (Hops lastSeg))) of
         None \<Rightarrow> Inr ([], [], rt1)
       | Some target \<Rightarrow> go_bind (next_rr_batch target lastSeg rt1) (\<lambda>(vps, rt2). Inr (vps, target, rt2))))"

section \<open>Storing: facts\<close>

lemma store_hops_spec:
  "store_hops ty hs seen acc = (seen', acc') \<Longrightarrow> set seen = set (map rh_Hop acc) \<Longrightarrow> distinct (map rh_Hop acc) \<Longrightarrow>
     set seen' = set (map rh_Hop acc') \<and> distinct (map rh_Hop acc') \<and>
     set (map rh_Hop acc') = set (map rh_Hop acc) \<union> set hs \<and>
     (\<exists>new. acc' = acc @ new \<and> (\<forall>h \<in> set new. rh_Type h = ty \<and> rh_Hop h \<in> set hs))"
proof (induction hs arbitrary: seen acc)
  case Nil
  then show ?case by simp
next
  case (Cons h hs)
  show ?case
  proof (cases "h \<in> set seen")
    case True
    with Cons.prems(1) have "store_hops ty hs seen acc = (seen', acc')" by simp
    from Cons.IH [OF this Cons.prems(2,3)] True Cons.prems(2) show ?thesis by auto
  next
    case False
    let ?x = "\<lparr>rh_Hop = h, rh_Type = ty\<rparr>"
    from False Cons.prems(1) have r: "store_hops ty hs (h # seen) (acc @ [?x]) = (seen', acc')" by simp
    have "set (h # seen) = set (map rh_Hop (acc @ [?x]))" "distinct (map rh_Hop (acc @ [?x]))"
      using Cons.prems(2,3) False by auto
    from Cons.IH [OF r this] show ?thesis by auto
  qed
qed

lemma store_segments_spec:
  "set seen = set (map rh_Hop acc) \<Longrightarrow> distinct (map rh_Hop acc) \<Longrightarrow>
     distinct (map rh_Hop (store_segments ss seen acc)) \<and>
     set (map rh_Hop (store_segments ss seen acc)) = set (map rh_Hop acc) \<union> set (concat (map Hops ss)) \<and>
     (\<exists>new. store_segments ss seen acc = acc @ new \<and>
        (\<forall>h \<in> set new. \<exists>s \<in> set ss. rh_Type h = seg_Type s \<and> rh_Hop h \<in> set (Hops s)))"
proof (induction ss arbitrary: seen acc)
  case Nil
  then show ?case by simp
next
  case (Cons s ss)
  obtain seen' acc' where r: "store_hops (seg_Type s) (Hops s) seen acc = (seen', acc')" by (metis surj_pair)
  note h = store_hops_spec [OF r Cons.prems]
  then have IH: "distinct (map rh_Hop (store_segments ss seen' acc'))"
    "set (map rh_Hop (store_segments ss seen' acc')) = set (map rh_Hop acc') \<union> set (concat (map Hops ss))"
    "\<exists>new. store_segments ss seen' acc' = acc' @ new \<and>
        (\<forall>h \<in> set new. \<exists>s \<in> set ss. rh_Type h = seg_Type s \<and> rh_Hop h \<in> set (Hops s))"
    using Cons.IH [of seen' acc'] by simp_all
  obtain new where new: "acc' = acc @ new" "\<forall>h \<in> set new. rh_Type h = seg_Type s \<and> rh_Hop h \<in> set (Hops s)"
    using h by blast
  obtain new' where new': "store_segments ss seen' acc' = acc' @ new'"
    "\<forall>h \<in> set new'. \<exists>s \<in> set ss. rh_Type h = seg_Type s \<and> rh_Hop h \<in> set (Hops s)" using IH(3) by blast
  have "\<forall>h \<in> set (new @ new'). \<exists>s' \<in> set (s # ss). rh_Type h = seg_Type s' \<and> rh_Hop h \<in> set (Hops s')"
    using new(2) new'(2) by auto
  moreover have "store_segments ss seen' acc' = acc @ (new @ new')" using new(1) new'(1) by simp
  moreover have "set (map rh_Hop (store_segments ss seen' acc')) =
      set (map rh_Hop acc) \<union> set (concat (map Hops (s # ss)))"
    unfolding IH(2) using h by (simp add: Un_assoc)
  moreover have "store_segments (s # ss) seen acc = store_segments ss seen' acc'" using r by simp
  ultimately show ?case using IH(1) by metis
qed

section \<open>Vantage points: facts\<close>

text \<open>What is left to try for a segment, and the state the batches rely on.\<close>

definition rr_left :: "hop list \<Rightarrow> revtr \<Rightarrow> nat" where
  "rr_left hops rt = sum_list (map (\<lambda>h. length (map_get [] (RRHop2VPSLeft rt) h)) (remdups hops))"

definition rr_ready :: "hop list \<Rightarrow> revtr \<Rightarrow> bool" where
  "rr_ready hops rt \<longleftrightarrow> (\<forall>h \<in> set hops. RRHop2VPSLeft rt h \<noteq> None \<and> RRHop2RateLimit rt h = Some RateLimit)"

text \<open>A hop that can still be asked: not given up as unresponsive, with vantage points left.\<close>

definition rr_askable :: "revtr \<Rightarrow> hop \<Rightarrow> bool" where
  "rr_askable rt h \<longleftrightarrow>
     \<not> (map_get 0 (rrSpoofRRResponsive rt) h \<noteq> -1 \<and> map_get 0 (rrSpoofRRResponsive rt) h \<ge> maxUnresponsive) \<and>
     map_get [] (RRHop2VPSLeft rt) h \<noteq> []"

lemma pick_target_None: "pick_target rt hs = None \<longleftrightarrow> (\<forall>h \<in> set hs. \<not> rr_askable rt h)"
  by (induction hs) (auto simp: rr_askable_def)

lemma pick_target_Some: "pick_target rt hs = Some t \<Longrightarrow> t \<in> set hs \<and> rr_askable rt t"
  by (induction hs) (auto simp: rr_askable_def split: if_splits)

lemma init_rr_hops_ready: "rr_ready hops rt \<Longrightarrow> init_rr_hops vs hops rt = Inr rt"
  by (induction hops) (auto simp: rr_ready_def)

lemma map_get_upd [simp]: "map_get z (m(k \<mapsto> v)) k' = (if k' = k then v else map_get z m k')"
  by (simp add: map_get_def)

lemma map_get_Some: "m k = Some v \<Longrightarrow> map_get z m k = v"
  by (simp add: map_get_def)

lemma rr_left_set_vps:
  assumes "cls \<in> set hops" "length left < length (map_get [] (RRHop2VPSLeft rt) cls)"
  shows "rr_left hops (set_vps_left cls left rt) < rr_left hops rt"
proof -
  let ?f = "\<lambda>h. length (map_get [] (RRHop2VPSLeft rt) h)"
  have "(\<Sum>h \<in> set hops. if h = cls then length left else ?f h) < (\<Sum>h \<in> set hops. ?f h)"
    by (rule sum_strict_mono_ex1) (use assms in auto)
  then show ?thesis
    by (simp add: rr_left_def set_vps_left_def sum_list_distinct_conv_sum_set if_distrib cong: if_cong)
qed

lemma go_slice_Some: "0 \<le> a \<Longrightarrow> a \<le> b \<Longrightarrow> b \<le> int (length xs) \<Longrightarrow>
    go_slice xs a b = Inr (take (nat (b - a)) (drop (nat a) xs))"
  by (simp add: go_slice_def)

lemma next_rr_batch_spec:
  assumes left: "map_get [] (RRHop2VPSLeft rt) cls = left" "left \<noteq> []" and rate: "RRHop2RateLimit rt cls = Some RateLimit"
  shows "\<exists>vps rest. next_rr_batch cls seg rt = Inr (vps, set_vps_left cls rest rt) \<and>
    vps \<noteq> [] \<and> length vps \<le> 5 \<and> length rest < length left \<and> set rest \<subseteq> set left \<and>
    (\<forall>vp \<in> set vps. vp \<in> set left \<or> (\<exists>b. seg = SpoofRRRevSegment b vp))"
proof -
  define mn where "mn = (if int (length left) < 5 then int (length left) else 5)"
  have mn: "0 \<le> mn" "mn \<le> int (length left)" "0 < mn" "mn \<le> 5" using left(2) by (auto simp: mn_def)
  have r: "map_get 0 (RRHop2RateLimit rt) cls = 5" using rate by (simp add: map_get_def RateLimit_def)
  have batch: "go_slice left 0 mn = Inr (take (nat mn) left)" using mn by (simp add: go_slice_Some)
  have unf: "next_rr_batch cls seg rt =
      (if non_spoofed \<in> set (take (nat mn) left) then
         go_bind (go_slice left 1 (int (length left))) (\<lambda>rest. Inr ([non_spoofed], set_vps_left cls rest rt))
       else
         case seg of
           SpoofRRRevSegment _ spoofer \<Rightarrow>
             go_bind (go_slice (filter (\<lambda>s. s \<noteq> spoofer) left) 0 (min (int (length (filter (\<lambda>s. s \<noteq> spoofer) left))) 4)) (\<lambda>vs.
             go_bind (go_slice (filter (\<lambda>s. s \<noteq> spoofer) left) (min (int (length (filter (\<lambda>s. s \<noteq> spoofer) left))) 4)
                 (int (length (filter (\<lambda>s. s \<noteq> spoofer) left)))) (\<lambda>rest.
               Inr (spoofer # vs, set_vps_left cls rest rt)))
         | _ \<Rightarrow> go_bind (go_slice left mn (int (length left))) (\<lambda>rest.
             Inr (take (nat mn) left, set_vps_left cls rest rt)))"
    unfolding next_rr_batch_def Let_def left(1) r mn_def [symmetric] batch go_bind.simps InArray_iff
    by (cases seg) (auto simp: min_def)
  consider (plain) "non_spoofed \<in> set (take (nat mn) left)"
    | (spoof) b sp where "non_spoofed \<notin> set (take (nat mn) left)" "seg = SpoofRRRevSegment b sp"
    | (rest) "non_spoofed \<notin> set (take (nat mn) left)" "\<And>b sp. seg \<noteq> SpoofRRRevSegment b sp" by blast
  then show ?thesis
  proof cases
    case plain
    have "go_slice left 1 (int (length left)) = Inr (drop 1 left)"
      using left(2) by (cases left) (simp_all add: go_slice_Some)
    then have "next_rr_batch cls seg rt = Inr ([non_spoofed], set_vps_left cls (drop 1 left) rt)"
      unfolding unf using plain by simp
    moreover have "length (drop 1 left) < length left" using left(2) by simp
    moreover have "non_spoofed \<in> set left" using plain by (rule in_set_takeD)
    moreover have "set (drop 1 left) \<subseteq> set left" by (rule set_drop_subset)
    ultimately show ?thesis by (intro exI [of _ "[non_spoofed]"] exI [of _ "drop 1 left"]) simp
  next
    case spoof
    define new where "new = filter (\<lambda>s. s \<noteq> sp) left"
    define m4 where "m4 = min (int (length new)) 4"
    have m4: "0 \<le> m4" "m4 \<le> int (length new)" "m4 \<le> 4" "new \<noteq> [] \<Longrightarrow> 0 < m4"
      by (auto simp: m4_def min_def)
    have sl: "go_slice new 0 m4 = Inr (take (nat m4) new)"
      "go_slice new m4 (int (length new)) = Inr (drop (nat m4) new)"
      using m4 by (simp_all add: go_slice_Some nat_diff_distrib)
    have "next_rr_batch cls seg rt = Inr (sp # take (nat m4) new, set_vps_left cls (drop (nat m4) new) rt)"
      unfolding unf using spoof sl by (simp add: new_def [symmetric] m4_def [symmetric])
    moreover have "length (drop (nat m4) new) < length left"
    proof (cases "new = []")
      case True
      with left(2) show ?thesis by simp
    next
      case False
      have "length new \<le> length left" unfolding new_def by (rule length_filter_le)
      with m4(4) [OF False] False show ?thesis by (cases new) auto
    qed
    moreover have sub: "set new \<subseteq> set left" by (auto simp: new_def)
    moreover have "set (drop (nat m4) new) \<subseteq> set left" by (rule order_trans [OF set_drop_subset sub])
    moreover have "length (take (nat m4) new) \<le> 4" using m4(3) by simp
    moreover have "\<forall>vp \<in> set (sp # take (nat m4) new). vp \<in> set left \<or> (\<exists>b. seg = SpoofRRRevSegment b vp)"
      using spoof(2) order_trans [OF set_take_subset sub] by auto
    moreover have "length (sp # take (nat m4) new) \<le> 5" using m4(3) by simp
    ultimately show ?thesis by blast
  next
    case rest
    have "go_slice left mn (int (length left)) = Inr (drop (nat mn) left)"
      using mn by (simp add: go_slice_Some nat_diff_distrib)
    then have "next_rr_batch cls seg rt = Inr (take (nat mn) left, set_vps_left cls (drop (nat mn) left) rt)"
      unfolding unf using rest by (cases seg) auto
    moreover have "length (drop (nat mn) left) < length left" "take (nat mn) left \<noteq> []"
      using mn(3) left(2) by (cases left; auto)+
    moreover have "length (take (nat mn) left) \<le> 5" using mn(4) by simp
    moreover have "set (drop (nat mn) left) \<subseteq> set left" by (rule set_drop_subset)
    moreover have "\<forall>vp \<in> set (take (nat mn) left). vp \<in> set left \<or> (\<exists>b. seg = SpoofRRRevSegment b vp)"
      using in_set_takeD by fast
    ultimately show ?thesis by blast
  qed
qed

lemma GetRRVPs_spec:
  assumes "rt_LastSeg rt = Inr seg" and "rr_ready (Hops seg) rt"
  shows "\<exists>vps target rt'. GetRRVPs vs rt = Inr (vps, target, rt') \<and>
    rr_ready (Hops seg) rt' \<and> Paths rt' = Paths rt \<and> length vps \<le> 5 \<and>
    (vps = [] \<longleftrightarrow> (\<forall>h \<in> set (Hops seg). \<not> rr_askable rt h)) \<and>
    (vps \<noteq> [] \<longrightarrow> target \<in> set (Hops seg) \<and> rr_left (Hops seg) rt' < rr_left (Hops seg) rt \<and>
       (\<forall>vp \<in> set vps. vp \<in> set (map_get [] (RRHop2VPSLeft rt) target) \<or>
          (\<exists>b. seg = SpoofRRRevSegment b vp)))"
proof (cases "pick_target rt (rev (Hops seg))")
  case None
  then have "GetRRVPs vs rt = Inr ([], [], rt)"
    using assms by (simp add: GetRRVPs_def init_rr_hops_ready)
  with None assms(2) show ?thesis by (simp add: pick_target_None)
next
  case (Some t)
  then have t: "t \<in> set (Hops seg)" "rr_askable rt t" by (auto dest: pick_target_Some)
  then have "map_get [] (RRHop2VPSLeft rt) t \<noteq> []" "RRHop2RateLimit rt t = Some RateLimit"
    using assms(2) by (auto simp: rr_askable_def rr_ready_def)
  from next_rr_batch_spec [OF refl this, of seg] obtain vps rest where
    b: "next_rr_batch t seg rt = Inr (vps, set_vps_left t rest rt)" "vps \<noteq> []" "length vps \<le> 5"
      "length rest < length (map_get [] (RRHop2VPSLeft rt) t)"
      "\<forall>vp \<in> set vps. vp \<in> set (map_get [] (RRHop2VPSLeft rt) t) \<or> (\<exists>b. seg = SpoofRRRevSegment b vp)"
    by blast
  have g: "GetRRVPs vs rt = Inr (vps, t, set_vps_left t rest rt)"
    using assms Some b(1) by (simp add: GetRRVPs_def init_rr_hops_ready)
  have "rr_ready (Hops seg) (set_vps_left t rest rt)" "Paths (set_vps_left t rest rt) = Paths rt"
    using assms(2) by (simp_all add: rr_ready_def set_vps_left_def)
  moreover have "rr_left (Hops seg) (set_vps_left t rest rt) < rr_left (Hops seg) rt"
    by (rule rr_left_set_vps [OF t(1) b(4)])
  ultimately show ?thesis using g b(2,3,5) t by blast
qed

section \<open>Properties\<close>

text \<open>
  The loop that asks \<open>GetRRVPs\<close> for batches ends, and the batches respect the rate limit. On an
  initialised segment the call returns. It returns nothing exactly when no hop can still be asked;
  otherwise a nonempty batch of at most five vantage points for one of the segment's hops, all of them
  left to try for that hop or the spoofer that revealed the segment, and strictly fewer are left
  afterwards, so that after at most as many calls as there were vantage points nothing is returned.
\<close>

lemma get_rr_vps_progress:
  assumes "rt_LastSeg rt = Inr seg" and "rr_ready (Hops seg) rt"
  shows "\<exists>vps target rt'. GetRRVPs vs rt = Inr (vps, target, rt') \<and>
    rr_ready (Hops seg) rt' \<and> Paths rt' = Paths rt \<and> length vps \<le> 5 \<and>
    (vps = [] \<longleftrightarrow> (\<forall>h \<in> set (Hops seg). \<not> rr_askable rt h)) \<and>
    (vps \<noteq> [] \<longrightarrow> target \<in> set (Hops seg) \<and> rr_left (Hops seg) rt' < rr_left (Hops seg) rt \<and>
       (\<forall>vp \<in> set vps. vp \<in> set (map_get [] (RRHop2VPSLeft rt) target) \<or>
          (\<exists>b. seg = SpoofRRRevSegment b vp)))"
  by (rule GetRRVPs_spec [OF assms])

definition ex_vp_rt :: revtr where
  "ex_vp_rt = (ex_rt [ex_path [ex_segment [''1.1.1.1'']]])
     \<lparr>RRHop2VPSLeft := [''1.1.1.1'' \<mapsto> [non_spoofed, ''4.4.4.4'']], RRHop2RateLimit := [''1.1.1.1'' \<mapsto> RateLimit]\<rparr>"

lemma ex_vp_rt_Paths [simp]: "Paths ex_vp_rt = [ex_path [ex_segment [''1.1.1.1'']]]"
  by (simp add: ex_vp_rt_def)

text \<open>
  The stored form of a reverse traceroute lists every hop of the current path once, each with
  the type of a segment it is on, and nothing when the traceroute has failed. Its status is "completed"
  exactly if a stop reason had been set when \<open>ToStorable\<close> was called: a failure that only
  \<open>ToStorable\<close> itself discovers is stored as running and without its reason.
\<close>

lemma to_storable_hops:
  assumes "ToStorable rt = Inr (st, rt')"
  shows "distinct (map rh_Hop (sr_Path st)) \<and>
    (is_failed rt \<longrightarrow> sr_Path st = [] \<and> StopReason rt' = StopFailed) \<and>
    (\<not> is_failed rt \<longrightarrow> rt' = rt \<and> set (map rh_Hop (sr_Path st)) = set (rp_Hops (last (Paths rt))) \<and>
       (\<forall>h \<in> set (sr_Path st). \<exists>s \<in> set (rp_Path (last (Paths rt))).
          rh_Type h = seg_Type s \<and> rh_Hop h \<in> set (Hops s))) \<and>
    (sr_Status st = COMPLETED \<longleftrightarrow> StopReason rt \<noteq> NoStop) \<and>
    sr_StopReason st = stop_string (StopReason rt)"
proof -
  let ?segs = "rp_Path (last (Paths rt))"
  have stop: "stop_string r \<noteq> [] \<longleftrightarrow> r \<noteq> NoStop" for r by (cases r) auto
  have status: "(sr_Status st = COMPLETED \<longleftrightarrow> StopReason rt \<noteq> NoStop) \<and> sr_StopReason st = stop_string (StopReason rt)"
    using assms by (auto simp: ToStorable_def Let_def go_simps stop rt_Failed_def split: if_splits)
  show ?thesis
  proof (cases "is_failed rt")
    case True
    then have "sr_Path st = []" "rt' = call_onFail (rt\<lparr>StopReason := StopFailed\<rparr>)"
      using assms by (auto simp: ToStorable_def Let_def rt_Failed_def)
    with True status show ?thesis by (simp add: call_onFail_def)
  next
    case False
    then have p: "sr_Path st = store_segments ?segs [] []" "rt' = rt"
      using assms by (auto simp: ToStorable_def Let_def rt_Failed_def go_simps CurrPath_Inr)
    have "distinct (map rh_Hop (sr_Path st))" "set (map rh_Hop (sr_Path st)) = set (concat (map Hops ?segs))"
      "\<forall>h \<in> set (sr_Path st). \<exists>s \<in> set ?segs. rh_Type h = seg_Type s \<and> rh_Hop h \<in> set (Hops s)"
      unfolding p(1) using store_segments_spec [of "[]" "[]" ?segs] by auto
    with False p(2) status show ?thesis by (simp add: rp_Hops_def)
  qed
qed

lemma ex_ToStorable:
  "\<exists>st. ToStorable ex_vp_rt = Inr (st, ex_vp_rt) \<and> map rh_Hop (sr_Path st) = [''1.1.1.1'']"
proof -
  have "rt_Failed ex_vp_rt = (False, ex_vp_rt)"
    by (simp add: rt_Failed_def is_failed_def rt_len_def rp_len_def ex_path_def ex_segment_def)
  then show ?thesis by (simp add: ToStorable_def CurrPath_Inr Let_def CurrPath_def go_index_def rt_len_def ex_path_def)
qed

end
