(* ===== verification/RunnerProbes.thy ===== *)
theory RunnerProbes
  imports RevTracerouteVPs
begin

text \<open>
  \<open>revtr/runner/revtr_runner.go\<close>: the measurements the runner issues and how it reads their results.
  The controller (pings, traceroutes) and the atlas are services the runner calls over streams. They
  are functions of an environment over a world of any type \<open>'w\<close>: a call takes the messages sent and
  gives \<open>None\<close> if the call or the sending fails, or the messages received, in order, and whether the
  stream then broke with an error instead of ending. \<open>e_Done\<close> says whether the caller has cancelled;
  \<open>e_ord\<close>, \<open>e_ord3\<close> are orders of map iteration, \<open>e_srt\<close>, \<open>e_srtd\<close>, \<open>e_srta\<close> what \<open>sort.Sort\<close> does.
\<close>

section \<open>The environment\<close>

type_synonym ('w, 'a, 'b) service = "'a \<Rightarrow> 'w \<Rightarrow> ('b list \<times> bool) option \<times> 'w"

record 'w env =
  e_cm :: cluster_map
  e_ord :: order
  e_ord3 :: "(string \<times> string \<times> string) list \<Rightarrow> (string \<times> string \<times> string) list"
  e_srt :: segment_sort
  e_vps :: vp_source
  e_as :: adjacency_source
  e_srtd :: "adjacency_to_dest sorter"
  e_srta :: "adjacency sorter"
  e_Ping :: "('w, ping_measurement list, ping) service"
  e_Traceroute :: "('w, traceroute_measurement, traceroute) service"
  e_GetIntersectingPath :: "('w, intersection_request list, intersection_response) service"
  e_GetPathsWithToken :: "('w, token_request list, token_response) service"
  e_Done :: "'w \<Rightarrow> bool"

text \<open>The order the runtime picks is one: the laws the code relies on.\<close>

definition env_ok :: "'w env \<Rightarrow> bool" where
  "env_ok e \<longleftrightarrow> (\<forall>xs. mset (e_ord e xs) = mset xs) \<and> (\<forall>lt xs. mset (e_srt e lt xs) = mset xs)"

section \<open>Record route\<close>

definition stringSliceRIndex :: "string list \<Rightarrow> string \<Rightarrow> int" where
  "stringSliceRIndex ss s = last_index_from 0 (\<lambda>sss. sss = s) ss (-1)"

text \<open>The search for the destination's cluster: \<open>rr_scan p hs i\<close> looks at \<open>i - 1\<close>, \<dots>, \<open>0\<close>.\<close>

fun rr_scan :: "('a \<Rightarrow> bool) \<Rightarrow> 'a list \<Rightarrow> nat \<Rightarrow> nat option" where
  "rr_scan p hs 0 = None"
| "rr_scan p hs (Suc i) = (if p (hs ! i) then Some i else rr_scan p hs i)"

text \<open>
  The loop that removes cluster level loops. Where \<open>ri < currIndex\<close> the code would go round for ever.
\<close>

partial_function (option) collapse_loops ::
    "string list \<Rightarrow> hop list \<Rightarrow> nat \<Rightarrow> hop list \<Rightarrow> (hop list) option" where
  "collapse_loops clusters hopss currIndex retHops =
     (if int currIndex \<le> int (length clusters) - 1
      then let ri = stringSliceRIndex clusters (clusters ! currIndex) in
           if ri \<ge> int currIndex
           then collapse_loops clusters hopss (nat ri + 1) (retHops @ [hopss ! nat ri])
           else collapse_loops clusters hopss currIndex retHops
      else Some retHops)"

definition processRR ::
    "cluster_map \<Rightarrow> string \<Rightarrow> string \<Rightarrow> uint32 list \<Rightarrow> bool \<Rightarrow> (hop list) option" where
  "processRR cm src dst hops removeLoops =
     (if length hops = 0 then Some []
      else
        let dstcls = cm dst; hopss = map ip_str hops in
        if cm (last hopss) = dstcls then Some []
        else case rr_scan (\<lambda>h. dstcls = cm h) hopss (length hops - 1) of
            None \<Rightarrow> Some []
          | Some i \<Rightarrow>
              let hopss' = (if i = length hops - 1 then [] else drop (i + 1) hopss) in
              if removeLoops then collapse_loops (map cm hopss') hopss' 0 []
              else Some hopss')"

definition go_processRR ::
    "cluster_map \<Rightarrow> string \<Rightarrow> string \<Rightarrow> uint32 list \<Rightarrow> (hop list) go" where
  "go_processRR cm src dst hops =
     (case processRR cm src dst hops True of None \<Rightarrow> Inl NoReturn | Some hs \<Rightarrow> Inr hs)"

definition issueRR ::
    "'w env \<Rightarrow> string \<Rightarrow> string \<Rightarrow> int64 \<Rightarrow> 'w \<Rightarrow> ((probe_error + hop list) \<times> 'w) go" where
  "issueRR e src dst staleness w =
     (if IsPrivate (ParseIP dst) then Inr (Inl ErrPrivateIP, w)
      else
        go_bind (ip_int src) (\<lambda>srci. go_bind (ip_int dst) (\<lambda>dsti.
          let pm = zero_ping_measurement\<lparr>pm_Src := srci, pm_Dst := dsti, pm_RR := True, pm_Timeout := 10,
                     pm_Count := ''1'', pm_CheckCache := True, pm_CheckDb := True,
                     pm_Staleness := staleness\<rparr>
          in case e_Ping e [pm] w of
               (None, w') \<Rightarrow> Inr (Inl ErrCall, w')
             | (Some ([], broken), w') \<Rightarrow> Inr (Inl (if broken then ErrCall else ErrNoResponses), w')
             | (Some (p # _, _), w') \<Rightarrow>
                 (case p_Responses p of
                    [] \<Rightarrow> Inr (Inl ErrNoResponses, w')
                  | pr # _ \<Rightarrow> go_bind (go_processRR (e_cm e) src dst (prs_RR pr)) (\<lambda>hs. Inr (Inr hs, w'))))))"

record sprrhops =
  sp_hops :: "hop list"
  sp_vp :: string

fun spoofed_replies :: "cluster_map \<Rightarrow> string \<Rightarrow> string \<Rightarrow> ping list \<Rightarrow> (sprrhops list) go" where
  "spoofed_replies cm recv dst [] = Inr []"
| "spoofed_replies cm recv dst (p # ps) =
     (case p_Responses p of
        [] \<Rightarrow> spoofed_replies cm recv dst ps
      | pr # _ \<Rightarrow>
          go_bind (go_processRR cm recv dst (prs_RR pr)) (\<lambda>hs.
          go_bind (spoofed_replies cm recv dst ps) (\<lambda>rrs.
            Inr (\<lparr>sp_hops = hs, sp_vp = ip_str (p_SpoofedFrom p)\<rparr> # rrs))))"

fun spoofed_pings :: "string \<Rightarrow> uint32 \<Rightarrow> int64 \<Rightarrow> string list \<Rightarrow> (ping_measurement list) go" where
  "spoofed_pings recv dsti staleness [] = Inr []"
| "spoofed_pings recv dsti staleness (src # srcs) =
     go_bind (ip_int src) (\<lambda>srci.
     go_bind (spoofed_pings recv dsti staleness srcs) (\<lambda>pms.
       Inr (zero_ping_measurement\<lparr>pm_Src := srci, pm_Dst := dsti, pm_SAddr := recv, pm_Timeout := 20,
              pm_Count := ''1'', pm_Staleness := staleness, pm_CheckCache := True, pm_Spoof := True,
              pm_RR := True\<rparr> # pms)))"

text \<open>The replies read before the stream broke are returned together with the error.\<close>

definition issueSpoofedRR ::
    "'w env \<Rightarrow> string \<Rightarrow> string \<Rightarrow> string list \<Rightarrow> int64 \<Rightarrow> 'w \<Rightarrow>
     (sprrhops list \<times> probe_error option \<times> 'w) go" where
  "issueSpoofedRR e recv dst srcs staleness w =
     (if IsPrivate (ParseIP dst) then Inr ([], Some ErrPrivateIP, w)
      else
        go_bind (ip_int dst) (\<lambda>dsti.
        go_bind (spoofed_pings recv dsti staleness srcs) (\<lambda>pms.
          case e_Ping e pms w of
            (None, w') \<Rightarrow> Inr ([], Some ErrCall, w')
          | (Some (ps, broken), w') \<Rightarrow>
              go_bind (spoofed_replies (e_cm e) recv dst ps) (\<lambda>rrs.
                Inr (rrs, if broken then Some ErrCall else None, w')))))"

section \<open>Traceroutes\<close>

text \<open>
  The hops of a traceroute as text. The loop that should write a star for each missing hop compares a
  hop with itself; it is not entered, unless adding two to the TTL wraps, and then it never ends.
\<close>

fun trace_hops :: "traceroute_hop list \<Rightarrow> (hop list) go" where
  "trace_hops [] = Inr []"
| "trace_hops (hop # hops) =
     (if hops \<noteq> [] \<and> th_ProbeTtl hop + 2 < th_ProbeTtl hop then Inl NoReturn
      else go_bind (trace_hops hops) (\<lambda>hs. Inr (ip_str (th_Addr hop) # hs)))"

record runner_traceroute =
  rtr_src :: string
  rtr_dst :: string
  rtr_hops :: "hop list"

definition issueTraceroute ::
    "'w env \<Rightarrow> string \<Rightarrow> string \<Rightarrow> int64 \<Rightarrow> 'w \<Rightarrow> ((probe_error + runner_traceroute) \<times> 'w) go" where
  "issueTraceroute e src dst staleness w =
     go_bind (ip_int src) (\<lambda>srci. go_bind (ip_int dst) (\<lambda>dsti.
       if IsPrivate (ParseIP dst) then Inr (Inl ErrPrivateIP, w)
       else
         let tr = zero_traceroute_measurement\<lparr>tm_Staleness := staleness, tm_Dst := dsti, tm_Loops := ''3'',
                   tm_LoopAction := ''1'', tm_Attempts := ''1'', tm_Src := srci, tm_Wait := ''2'', tm_Timeout := 30,
                   tm_CheckCache := True, tm_CheckDb := True\<rparr>
         in case e_Traceroute e tr w of
              (None, w') \<Rightarrow> Inr (Inl ErrCall, w')
            | (Some ([], broken), w') \<Rightarrow> Inr (Inl (if broken then ErrCall else ErrNothing), w')
            | (Some (trace # _, _), w') \<Rightarrow>
                if trc_Error trace \<noteq> [] then Inr (Inl ErrTrace, w')
                else
                  go_bind (trace_hops (trc_Hops trace)) (\<lambda>hopst.
                    if length hopst = 0 then Inr (Inl ErrTrace, w')
                    else if e_cm e (last hopst) \<noteq> e_cm e (ip_str (trc_Dst trace))
                    then Inr (Inl (ErrNotReached (last hopst)), w')
                    else Inr (Inr \<lparr>rtr_src = src, rtr_dst = dst, rtr_hops = hopst\<rparr>, w'))))"

section \<open>The atlas\<close>

record intersecting_tr =
  it_addr :: string
  it_hops :: "hop list"

text \<open>The hops from the intersection on: those before the first one in the cluster of \<open>addr\<close> go.\<close>

definition atlas_path_hops :: "cluster_map \<Rightarrow> atlas_path \<Rightarrow> intersecting_tr" where
  "atlas_path_hops cm path =
     (let addr = ip_str (ap_Address path)
      in \<lparr>it_addr = addr, it_hops = dropWhile (\<lambda>hss. cm addr \<noteq> cm hss) (map (\<lambda>h. ip_str (ah_Ip h)) (ap_Hops path))\<rparr>)"

text \<open>
  Reading the responses: the first path ends it; tokens are collected. The result is an error, or an
  intersecting traceroute and the tokens, of which an empty list stands for nil.
\<close>

fun read_intersections ::
    "cluster_map \<Rightarrow> intersection_response list \<Rightarrow> bool \<Rightarrow> intersection_response list \<Rightarrow>
     (probe_error + (intersecting_tr \<times> intersection_response list)) go" where
  "read_intersections cm [] broken tokens =
     Inr (if broken then Inl ErrCall else Inr (\<lparr>it_addr = [], it_hops = []\<rparr>, tokens))"
| "read_intersections cm (itr # itrs) broken tokens =
     (case irp_Type itr of
        IR_PATH \<Rightarrow> (case irp_Path itr of
            None \<Rightarrow> Inl NilDereference
          | Some path \<Rightarrow> Inr (Inr (atlas_path_hops cm path, [])))
      | IR_TOKEN \<Rightarrow> read_intersections cm itrs broken (tokens @ [itr])
      | _ \<Rightarrow> read_intersections cm itrs broken tokens)"

definition intersectingTraceroute ::
    "'w env \<Rightarrow> string \<Rightarrow> string \<Rightarrow> uint32 list \<Rightarrow> int64 \<Rightarrow> 'w \<Rightarrow>
     ((probe_error + (intersecting_tr \<times> intersection_response list)) \<times> 'w) go" where
  "intersectingTraceroute e src dst addrs staleness w =
     go_bind (ip_int src) (\<lambda>dest. go_bind (ip_int dst) (\<lambda>srci.
       let reqs = map (\<lambda>addr. \<lparr>ir_Address = addr, ir_Dest = dest, ir_Staleness = staleness,
                         ir_UseAliases = True, ir_IgnoreSource = False, ir_Src = srci\<rparr>) addrs
       in case e_GetIntersectingPath e reqs w of
            (None, w') \<Rightarrow> Inr (Inl ErrCall, w')
          | (Some (itrs, broken), w') \<Rightarrow>
              go_bind (read_intersections (e_cm e) itrs broken []) (\<lambda>r. Inr (r, w'))))"

fun read_token_responses ::
    "cluster_map \<Rightarrow> token_response list \<Rightarrow> bool \<Rightarrow> (probe_error + intersecting_tr) go" where
  "read_token_responses cm [] broken = Inr (Inl (if broken then ErrCall else ErrNothing))"
| "read_token_responses cm (resp # resps) broken =
     (case tr_Type resp of
        IR_PATH \<Rightarrow> (case tr_Path resp of
            None \<Rightarrow> Inl NilDereference
          | Some path \<Rightarrow> Inr (Inr (atlas_path_hops cm path)))
      | _ \<Rightarrow> read_token_responses cm resps broken)"

definition retreiveTraceroutes ::
    "'w env \<Rightarrow> intersection_response list \<Rightarrow> 'w \<Rightarrow> ((probe_error + intersecting_tr) \<times> 'w) go" where
  "retreiveTraceroutes e reqs w =
     (case e_GetPathsWithToken e (map (\<lambda>req. \<lparr>tkr_Token = irp_Token req\<rparr>) reqs) w of
        (None, w') \<Rightarrow> Inr (Inl ErrCall, w')
      | (Some (resps, broken), w') \<Rightarrow>
          go_bind (read_token_responses (e_cm e) resps broken) (\<lambda>r. Inr (r, w')))"

section \<open>Record route: facts\<close>

lemma subseq_set: "subseq xs ys \<Longrightarrow> set xs \<subseteq> set ys"
  by (induction rule: list_emb.induct) auto

lemma stringSliceRIndex_cluster:
  assumes "c < length hs"
  obtains k where "stringSliceRIndex (map f hs) (f (hs ! c)) = int k" "c \<le> k" "k < length hs"
    "f (hs ! k) = f (hs ! c)" "\<And>j. k < j \<Longrightarrow> j < length hs \<Longrightarrow> f (hs ! j) \<noteq> f (hs ! c)"
proof -
  let ?p = "\<lambda>s. s = f (hs ! c)"
  have "\<exists>k < length hs. f (hs ! k) = f (hs ! c) \<and> (\<forall>j. k < j \<and> j < length hs \<longrightarrow> f (hs ! j) \<noteq> f (hs ! c)) \<and>
      last_index_from 0 ?p (map f hs) (-1) = int (0 + k)"
    using last_index_from_cases [of "map f hs" ?p 0 "-1"] assms by auto
  then obtain k where k: "k < length hs" "f (hs ! k) = f (hs ! c)"
    "\<forall>j. k < j \<and> j < length hs \<longrightarrow> f (hs ! j) \<noteq> f (hs ! c)" "stringSliceRIndex (map f hs) (f (hs ! c)) = int k"
    by (auto simp: stringSliceRIndex_def)
  moreover have "c \<le> k" using k(3) assms by (metis linorder_not_le)
  ultimately show thesis using that by blast
qed

lemma collapse_loops_spec:
  "\<exists>hs. collapse_loops (map cm hopss) hopss c ret = Some (ret @ hs) \<and> subseq hs (drop c hopss) \<and>
     distinct (map cm hs) \<and> (hs = [] \<longleftrightarrow> length hopss \<le> c) \<and> (hs \<noteq> [] \<longrightarrow> last hs = last hopss)"
proof (induction "length hopss - c" arbitrary: c ret rule: less_induct)
  case less
  show ?case
  proof (cases "c < length hopss")
    case False
    then show ?thesis by (subst collapse_loops.simps) simp
  next
    case True
    then obtain k where k: "stringSliceRIndex (map cm hopss) (cm (hopss ! c)) = int k" "c \<le> k"
      "k < length hopss" "cm (hopss ! k) = cm (hopss ! c)"
      "\<And>j. k < j \<Longrightarrow> j < length hopss \<Longrightarrow> cm (hopss ! j) \<noteq> cm (hopss ! c)"
      by (rule stringSliceRIndex_cluster [where f = cm]) blast
    have nat: "nat (int k + 1) = Suc k" by simp
    have "collapse_loops (map cm hopss) hopss c ret =
        collapse_loops (map cm hopss) hopss (Suc k) (ret @ [hopss ! k])"
      using True k(1,2) by (subst collapse_loops.simps) (simp add: nat)
    moreover have "length hopss - Suc k < length hopss - c" using k(2,3) by simp
    ultimately obtain hs where hs: "collapse_loops (map cm hopss) hopss c ret = Some ((ret @ [hopss ! k]) @ hs)"
      "subseq hs (drop (Suc k) hopss)" "distinct (map cm hs)"
      "hs = [] \<longleftrightarrow> length hopss \<le> Suc k" "hs \<noteq> [] \<longrightarrow> last hs = last hopss"
      using less [of "Suc k" "ret @ [hopss ! k]"] by metis
    have split: "drop c hopss = take (k - c) (drop c hopss) @ hopss ! k # drop (Suc k) hopss"
      using k(2,3) by (metis Cons_nth_drop_Suc append_take_drop_id drop_drop le_add_diff_inverse2)
    have "cm (hopss ! k) \<notin> set (map cm (drop (Suc k) hopss))"
    proof
      assume "cm (hopss ! k) \<in> set (map cm (drop (Suc k) hopss))"
      then obtain i where "i < length (drop (Suc k) hopss)" "cm (drop (Suc k) hopss ! i) = cm (hopss ! k)"
        by (auto simp: in_set_conv_nth)
      moreover from this have "Suc (k + i) < length hopss" by simp
      ultimately show False using k(4) k(5) [of "Suc k + i"] by simp
    qed
    moreover have "set (map cm hs) \<subseteq> set (map cm (drop (Suc k) hopss))"
      using subseq_set [OF hs(2)] by auto
    ultimately have "distinct (map cm (hopss ! k # hs))" using hs(3) by auto
    moreover have "subseq (hopss ! k # hs) (drop c hopss)"
      by (subst split) (simp add: hs(2) list_emb_append2)
    moreover have "hopss ! k # hs \<noteq> [] \<longrightarrow> last (hopss ! k # hs) = last hopss"
    proof (cases "hs = []")
      case True
      with hs(4) have "length hopss = Suc k" using k(3) by simp
      with True show ?thesis by (cases hopss rule: rev_cases) (auto simp: nth_append)
    qed (use hs(5) in simp)
    ultimately show ?thesis using hs(1) True by (intro exI [of _ "hopss ! k # hs"]) simp
  qed
qed

lemma rr_scan_Some:
  "rr_scan p hs n = Some i \<longleftrightarrow> i < n \<and> p (hs ! i) \<and> (\<forall>j. i < j \<and> j < n \<longrightarrow> \<not> p (hs ! j))"
  by (induction n) (auto simp: less_Suc_eq)

lemma rr_scan_None: "rr_scan p hs n = None \<longleftrightarrow> (\<forall>j < n. \<not> p (hs ! j))"
  by (induction n) (auto simp: less_Suc_eq)

text \<open>The hops a record route reply reveals behind the destination's cluster.\<close>

lemma processRR_spec:
  "\<exists>hs. processRR cm src dst hops True = Some hs \<and> subseq hs (map ip_str hops) \<and> distinct (map cm hs) \<and>
     cm dst \<notin> set (map cm hs) \<and>
     (hs \<noteq> [] \<longleftrightarrow> hops \<noteq> [] \<and> cm dst \<in> cm ` ip_str ` set hops \<and> cm (ip_str (last hops)) \<noteq> cm dst) \<and>
     (hs \<noteq> [] \<longrightarrow> last hs = ip_str (last hops))"
proof (cases "hops = [] \<or> cm (ip_str (last hops)) = cm dst")
  case True
  then show ?thesis by (auto simp: processRR_def last_map)
next
  case False
  then have ne: "hops \<noteq> []" and last: "cm (ip_str (last hops)) \<noteq> cm dst" by auto
  let ?hs = "map ip_str hops"
  show ?thesis
  proof (cases "rr_scan (\<lambda>h. cm dst = cm h) ?hs (length hops - 1)")
    case None
    have "cm (ip_str h) \<noteq> cm dst" if h: "h \<in> set hops" for h
    proof -
      from h obtain j where j: "j < length hops" "h = hops ! j" by (metis in_set_conv_nth)
      show ?thesis
      proof (cases "j = length hops - 1")
        case True
        then show ?thesis using last ne j(2) by (simp add: last_conv_nth)
      next
        case False
        with j(1) have "j < length hops - 1" by simp
        with j None show ?thesis by (auto simp: rr_scan_None)
      qed
    qed
    then have "cm dst \<notin> cm ` ip_str ` set hops" by force
    with None last ne show ?thesis by (auto simp: processRR_def Let_def last_map)
  next
    case (Some i)
    then have i: "i < length hops - 1" "cm dst = cm (ip_str (hops ! i))"
      "\<And>j. i < j \<Longrightarrow> j < length hops - 1 \<Longrightarrow> cm dst \<noteq> cm (ip_str (hops ! j))"
      by (auto simp: rr_scan_Some)
    define rest where "rest = drop (Suc i) ?hs"
    have "rest \<noteq> []" using i(1) by (simp add: rest_def)
    moreover have "last rest = ip_str (last hops)"
      using \<open>rest \<noteq> []\<close> ne by (simp add: rest_def last_drop last_map)
    moreover from collapse_loops_spec [of cm rest 0 "[]"] obtain hs where
      hs: "collapse_loops (map cm rest) rest 0 [] = Some hs" "subseq hs rest" "distinct (map cm hs)"
        "hs = [] \<longleftrightarrow> rest = []" "hs \<noteq> [] \<longrightarrow> last hs = last rest" by auto
    moreover have "processRR cm src dst hops True = Some hs"
      using Some last ne hs(1) i(1) by (simp add: processRR_def Let_def last_map rest_def)
    moreover have "subseq hs ?hs"
      using subseq_order.trans [OF hs(2)] suffix_imp_subseq suffix_drop unfolding rest_def by metis
    moreover have "cm h \<noteq> cm dst" if h: "h \<in> set rest" for h
    proof -
      from h obtain j where j: "j < length rest" "h = rest ! j" by (metis in_set_conv_nth)
      then have hj: "h = ip_str (hops ! (Suc i + j))" "Suc i + j < length hops"
        by (simp_all add: rest_def)
      show ?thesis
      proof (cases "Suc i + j = length hops - 1")
        case True
        then show ?thesis using hj last ne by (simp add: last_conv_nth)
      next
        case False
        with hj(2) have "Suc i + j < length hops - 1" by simp
        with hj(1) i(3) [of "Suc i + j"] show ?thesis by simp
      qed
    qed
    then have "cm dst \<notin> set (map cm hs)" using subseq_set [OF hs(2)] by force
    moreover have "hops ! i \<in> set hops" using i(1) by simp
    then have "cm dst \<in> cm ` ip_str ` set hops" using i(2) by blast
    ultimately show ?thesis using last ne by auto
  qed
qed

lemma go_processRR_returns: "\<exists>hs. go_processRR cm src dst hops = Inr hs"
  using processRR_spec [of cm src dst hops] by (auto simp: go_processRR_def)

section \<open>Properties\<close>



end
