(* ===== verification/RunnerSteps.thy ===== *)
theory RunnerSteps
  imports RunnerProbes
begin

text \<open>
  \<open>revtr/runner/revtr_runner.go\<close>: the steps of the runner except \<open>timestamp\<close>. A step works on the
  traceroute and the world and names the step to go on with, or none (Go's nil) when the traceroute is
  done. Durations and the log are not modelled. The loop of \<open>recordRoute\<close> has fuel; it gives
  \<open>Inl NoReturn\<close> when that is used up.
\<close>

datatype step =
    S_backoffEndhost
  | S_trToSource
  | S_recordRoute
  | S_timestamp
  | S_backgroundTRS
  | S_assumeSymmetric

type_synonym 'w step_result = "(step option \<times> revtr \<times> 'w) go"

abbreviation upd_stats :: "(stats \<Rightarrow> stats) \<Rightarrow> revtr \<Rightarrow> revtr" where
  "upd_stats f rt \<equiv> rt\<lparr>Stats := f (Stats rt)\<rparr>"

section \<open>Traceroutes to the source\<close>

text \<open>
  The common end of \<open>trToSource\<close> and \<open>backgroundTRS\<close>: the segment must fit and the path must reach.
\<close>

definition finish_with_trace :: "'w env \<Rightarrow> string \<Rightarrow> intersecting_tr \<Rightarrow> revtr \<Rightarrow> 'w \<Rightarrow> 'w step_result" where
  "finish_with_trace e failed tr rt w =
     (let segment = NewTrtoSrcRevSegment (it_hops tr) (rt_Src rt) (it_addr tr) in
      go_bind (AddBackgroundTRSegment (e_srt e) (e_ord e) (e_cm e) segment rt) (\<lambda>(added, rt1).
        if \<not> added then Inl (PanicMsg failed)
        else go_bind (rt_Reaches (e_cm e) rt1) (\<lambda>(reaches, rt2).
          if reaches then Inr (None, rt2, w)
          else Inl (PanicMsg ''Added a TR to source but the revtr didn't reach''))))"

fun public_addrs :: "hop list \<Rightarrow> (uint32 list) go" where
  "public_addrs [] = Inr []"
| "public_addrs (hop # hops) =
     go_bind (ip_int hop) (\<lambda>addr. go_bind (public_addrs hops) (\<lambda>addrs.
       Inr (if IsPrivate (ParseIP hop) then addrs else addr # addrs)))"

definition trToSource :: "'w env \<Rightarrow> revtr \<Rightarrow> 'w \<Rightarrow> 'w step_result" where
  "trToSource e rt0 w =
     (let rt = upd_stats (\<lambda>s. s\<lparr>st_TRToSrcRoundCount := st_TRToSrcRoundCount s + 1\<rparr>) rt0 in
      go_bind (rt_LastSeg rt) (\<lambda>lastSeg.
      go_bind (public_addrs (Hops lastSeg)) (\<lambda>addrs.
      go_bind (intersectingTraceroute e (rt_Src rt) (rt_Dst rt) addrs (Staleness rt) w) (\<lambda>(r, w1).
        case r of
          Inl err \<Rightarrow> Inr (Some S_recordRoute, rt, w1)
        | Inr (hops, tokens) \<Rightarrow>
            if tokens \<noteq> [] then Inr (Some S_recordRoute, rt\<lparr>Tokens := Some tokens\<rparr>, w1)
            else if length (it_hops hops) = 0 then Inr (Some S_recordRoute, rt\<lparr>Tokens := None\<rparr>, w1)
            else finish_with_trace e ''Failed to add TR segment. That's not possible'' hops rt w1))))"

definition backgroundTRS :: "'w env \<Rightarrow> revtr \<Rightarrow> 'w \<Rightarrow> 'w step_result" where
  "backgroundTRS e rt0 w =
     (let rt1 = upd_stats (\<lambda>s. s\<lparr>st_BackgroundTRSRoundCount := st_BackgroundTRSRoundCount s + 1\<rparr>) rt0;
          tokens = (case Tokens rt1 of None \<Rightarrow> [] | Some ts \<Rightarrow> ts);
          rt = rt1\<lparr>Tokens := None\<rparr>
      in go_bind (retreiveTraceroutes e tokens w) (\<lambda>(r, w1).
         case r of
           Inl err \<Rightarrow> Inr (Some S_assumeSymmetric, rt, w1)
         | Inr tr \<Rightarrow> finish_with_trace e ''Failed to add background TR segment. That's not possible'' tr rt w1))"

definition checkbgTRs :: "'w env \<Rightarrow> step \<Rightarrow> revtr \<Rightarrow> 'w \<Rightarrow> 'w step_result" where
  "checkbgTRs e nxt rt w =
     go_bind (backgroundTRS e rt w) (\<lambda>(ns, rt1, w1).
       case ns of None \<Rightarrow> Inr (None, rt1, w1) | Some _ \<Rightarrow> Inr (Some nxt, rt1, w1))"

section \<open>Record route\<close>

text \<open>One segment for each prefix of the hops that ends in a hop that is known.\<close>

fun prefix_segments :: "(hop list \<Rightarrow> segment) \<Rightarrow> hop list \<Rightarrow> hop list \<Rightarrow> segment list" where
  "prefix_segments mk before [] = []"
| "prefix_segments mk before (hop # hops) =
     (let here = before @ [hop]; rest = prefix_segments mk here hops
      in if hop = zero_hop then rest else mk here # rest)"

text \<open>After hops were found: done if the path reaches, else the background traceroutes first.\<close>

definition after_adding :: "'w env \<Rightarrow> step \<Rightarrow> revtr \<Rightarrow> 'w \<Rightarrow> 'w step_result" where
  "after_adding e nxt rt w =
     go_bind (rt_Reaches (e_cm e) rt) (\<lambda>(reaches, rt1).
       if reaches then Inr (None, rt1, w) else checkbgTRs e nxt rt1 w)"

text \<open>The two branches of the loop body; \<open>again\<close> is the rest of the loop, what \<open>continue\<close> goes on with.\<close>

definition rr_plain ::
    "(revtr \<Rightarrow> 'w \<Rightarrow> 'w step_result) \<Rightarrow> 'w env \<Rightarrow> string \<Rightarrow> revtr \<Rightarrow> 'w \<Rightarrow> 'w step_result" where
  "rr_plain again e target rt0 w =
     (let rt = upd_stats (\<lambda>s. s\<lparr>st_RRProbes := st_RRProbes s + 1\<rparr>) rt0 in
      go_bind (issueRR e (rt_Src rt) target (Staleness rt) w) (\<lambda>(r, w1).
        case r of
          Inl err \<Rightarrow> again rt w1
        | Inr rr \<Rightarrow>
            let segs = prefix_segments (\<lambda>hs. NewRRRevSegment hs (rt_Src rt) target) [] rr in
            go_bind (AddSegments (e_srt e) (e_ord e) (e_cm e) segs rt) (\<lambda>(added, rt1).
              if \<not> added then again rt1 w1 else after_adding e S_trToSource rt1 w1)))"

definition rr_spoofed ::
    "(revtr \<Rightarrow> 'w \<Rightarrow> 'w step_result) \<Rightarrow> 'w env \<Rightarrow> string list \<Rightarrow> string \<Rightarrow> revtr \<Rightarrow> 'w \<Rightarrow> 'w step_result" where
  "rr_spoofed again e vps target rt0 w =
     (let rt = upd_stats (\<lambda>s. s\<lparr>st_SpoofedRRProbes := st_SpoofedRRProbes s + int (length vps)\<rparr>) rt0 in
      go_bind (issueSpoofedRR e (rt_Src rt) target vps (Staleness rt) w) (\<lambda>(rrs, err, w1).
        let rt1 = (if length rrs > 0 then MarkResponsiveRRSpoofer target rt
                   else AddUnresponsiveRRSpoofer target (int (length vps)) rt);
            segs = concat (map (\<lambda>rr. prefix_segments
                     (\<lambda>hs. NewSpoofRRRevSegment hs (rt_Src rt1) target (sp_vp rr)) [] (sp_hops rr)) rrs)
        in if length segs = 0 then again rt1 w1
           else go_bind (AddSegments (e_srt e) (e_ord e) (e_cm e) segs rt1) (\<lambda>(added, rt2).
             if \<not> added then again rt2 w1 else after_adding e S_timestamp rt2 w1)))"

fun rr_loop :: "nat \<Rightarrow> 'w env \<Rightarrow> revtr \<Rightarrow> 'w \<Rightarrow> 'w step_result" where
  "rr_loop 0 e rt w = Inl NoReturn"
| "rr_loop (Suc n) e rt w =
     go_bind (rt_LastHop rt) (\<lambda>_. go_bind (GetRRVPs (e_vps e) rt) (\<lambda>(vps, target, rt1).
       if length vps = 0 then Inr (Some S_timestamp, rt1, w)
       else if InArray vps non_spoofed then rr_plain (rr_loop n e) e target rt1 w
       else rr_spoofed (rr_loop n e) e vps target rt1 w))"

definition recordRoute :: "nat \<Rightarrow> 'w env \<Rightarrow> revtr \<Rightarrow> 'w \<Rightarrow> 'w step_result" where
  "recordRoute n e rt0 w =
     rr_loop n e (upd_stats (\<lambda>s. s\<lparr>st_RRRoundCount := st_RRRoundCount s + 1\<rparr>) rt0) w"

section \<open>Assuming symmetry\<close>

text \<open>The end of the step: done if the path reaches, else from the start.\<close>

definition reach_or_restart :: "'w env \<Rightarrow> revtr \<Rightarrow> 'w \<Rightarrow> 'w step_result" where
  "reach_or_restart e rt w =
     go_bind (rt_Reaches (e_cm e) rt) (\<lambda>(reaches, rt1).
       Inr (if reaches then None else Some S_trToSource, rt1, w))"

definition fail_or_restart :: "string \<Rightarrow> revtr \<Rightarrow> 'w \<Rightarrow> 'w step_result" where
  "fail_or_restart reason rt w =
     go_bind (FailCurrPath rt) (\<lambda>rt1.
       case rt_Failed rt1 of
         (True, rt2) \<Rightarrow> Inr (None, rt2\<lparr>FailReason := reason\<rparr>, w)
       | (False, rt2) \<Rightarrow> Inr (Some S_trToSource, rt2, w))"

definition extend_symmetric :: "'w env \<Rightarrow> reverse_path \<Rightarrow> segment \<Rightarrow> revtr \<Rightarrow> 'w \<Rightarrow> 'w step_result" where
  "extend_symmetric e rp lastSeg rt w =
     (let allHops = concat (map Hops (take (length (rp_Path rp) - 1) (rp_Path rp))) @ Deadends (e_ord e) rt in
      go_bind (AddHop allHops (seg_Clone lastSeg)) (\<lambda>newSeg.
      go_bind (AddAndReplaceSegment newSeg rt) (\<lambda>(added, rt1).
        if added then reach_or_restart e rt1 w
        else Inl (PanicMsg ''Should never get here''))))"

definition assumeSymmetric :: "'w env \<Rightarrow> revtr \<Rightarrow> 'w \<Rightarrow> 'w step_result" where
  "assumeSymmetric e rt0 w =
     (let rt = upd_stats (\<lambda>s. s\<lparr>st_AssumeSymmetricRoundCount := st_AssumeSymmetricRoundCount s + 1\<rparr>) rt0 in
      go_bind (CurrPath rt) (\<lambda>rp. go_bind (rp_LastSeg rp) (\<lambda>lastSeg.
      if is_DstSym lastSeg then extend_symmetric e rp lastSeg rt w
      else
        go_bind (rt_LastHop rt) (\<lambda>lastHop.
        go_bind (issueTraceroute e (rt_Src rt) lastHop (Staleness rt) w) (\<lambda>(r, w1).
          case r of
            Inl err \<Rightarrow>
              fail_or_restart ''Traceroue failed when trying to assume symmetric''
                (rt\<lparr>ErrorDetails := ErrorDetails rt @ [err]\<rparr>) w1
          | Inr trace \<Rightarrow>
              go_bind (rt_Hops rt) (\<lambda>hops.
              go_bind (NewDstSymRevSegment (rt_Src rt) lastHop (rtr_hops trace) 1
                         (hops @ Deadends (e_ord e) rt)) (\<lambda>seg.
              go_bind (AddSegments (e_srt e) (e_ord e) (e_cm e) [seg] rt) (\<lambda>(added, rt1).
                if added then reach_or_restart e rt1 w1
                else fail_or_restart ''Failed to find hops for any path.'' rt1 w1))))))))"

section \<open>The first steps\<close>

definition initialStep :: "revtr \<Rightarrow> step" where
  "initialStep rt = (if BackoffEndhost rt then S_backoffEndhost else S_trToSource)"

definition backoffEndhost :: "'w env \<Rightarrow> revtr \<Rightarrow> 'w \<Rightarrow> 'w step_result" where
  "backoffEndhost e rt w =
     go_bind (assumeSymmetric e rt w) (\<lambda>(nxt, rt1, w1).
     go_bind (rt_Reaches (e_cm e) rt1) (\<lambda>(reaches, rt2).
       Inr (nxt, if reaches then rt2\<lparr>StopReason := StopTrivial\<rparr> else rt2, w1)))"

section \<open>Termination of record route: facts\<close>

text \<open>None of the callees of the loop fails to return; that leaves the loop itself.\<close>

definition returns :: "'a go \<Rightarrow> bool" where
  "returns m \<longleftrightarrow> m \<noteq> Inl NoReturn"

lemma returns_Inr [simp]: "returns (Inr x)"
  by (simp add: returns_def)

lemma returns_bind: "returns m \<Longrightarrow> (\<And>x. m = Inr x \<Longrightarrow> returns (f x)) \<Longrightarrow> returns (go_bind m f)"
  by (cases m) (auto simp: returns_def)

lemma returns_if: "returns a \<Longrightarrow> returns b \<Longrightarrow> returns (if c then a else b)"
  by simp

lemma returns_index [simp]: "returns (go_index xs i)"
  by (simp add: returns_def go_index_def)

lemma returns_slice [simp]: "returns (go_slice xs i j)"
  by (simp add: returns_def go_slice_def)

lemma returns_ip_int [simp]: "returns (ip_int s)"
  unfolding ip_int_def IPStringToInt32_def be_uint32_def Let_def
  by (auto intro!: returns_bind split: sum.splits)

lemma returns_processRR [simp]: "returns (go_processRR cm src dst hops)"
  using go_processRR_returns [of cm src dst hops] by auto

lemma returns_issueRR [simp]: "returns (issueRR e src dst st w)"
  unfolding issueRR_def Let_def
  by (auto intro!: returns_bind split: prod.splits option.splits list.splits)

lemma returns_spoofed_pings [simp]: "returns (spoofed_pings recv dsti st srcs)"
  by (induction srcs) (auto intro!: returns_bind)

lemma returns_spoofed_replies [simp]: "returns (spoofed_replies cm recv dst ps)"
  by (induction ps) (auto intro!: returns_bind split: list.splits)

lemma returns_issueSpoofedRR [simp]: "returns (issueSpoofedRR e recv dst srcs st w)"
  unfolding issueSpoofedRR_def Let_def
  by (auto intro!: returns_bind split: prod.splits option.splits)

lemma returns_read_token_responses [simp]: "returns (read_token_responses cm rs b)"
  by (induction rs) (auto simp: returns_def split: response_type.splits option.splits)

lemma returns_retreiveTraceroutes [simp]: "returns (retreiveTraceroutes e reqs w)"
  unfolding retreiveTraceroutes_def
  by (auto intro!: returns_bind split: prod.splits option.splits)

lemma returns_CurrPath [simp]: "returns (CurrPath rt)"
  by (simp add: CurrPath_def)

lemma returns_rp [simp]: "returns (rp_LastSeg rp)" "returns (rp_Reaches cm rp)" "returns (rp_LastHop rp)"
  by (auto simp: rp_LastSeg_def rp_Reaches_def rp_LastHop_def intro!: returns_bind)

lemma returns_rt [simp]: "returns (rt_LastHop rt)" "returns (rt_LastSeg rt)" "returns (rt_Reaches cm rt)"
  by (auto simp: rt_LastHop_def rt_LastSeg_def rt_Reaches_def intro!: returns_bind)

lemma returns_AddSegments [simp]: "returns (AddSegments srt ord cm segs rt)"
  unfolding AddSegments_def Let_def
  by (auto intro!: returns_bind split: prod.splits bool.splits)

lemma returns_RemoveAt [simp]: "returns (RemoveAt l s)"
  unfolding RemoveAt_def Let_def by (auto intro!: returns_bind)

lemma returns_trim_seg [simp]: "returns (trim_seg l k index s)"
proof (induction l k index s rule: trim_seg.induct)
  case (1 l k index s)
  then show ?case by (subst trim_seg.simps) (auto intro!: returns_bind)
qed

lemma returns_slots [simp]: "returns (slots_Hops sl)" "returns (all_segments sl)" "returns (slot_segment sl j)"
proof -
  show "returns (slots_Hops sl)"
    by (induction sl rule: slots_Hops.induct) (auto intro!: returns_bind simp: returns_def [of "Inl _"])
  show "returns (all_segments sl)"
    by (induction sl rule: all_segments.induct) (auto intro!: returns_bind simp: returns_def [of "Inl _"])
  show "returns (slot_segment sl j)"
    unfolding slot_segment_def by (auto intro!: returns_bind simp: returns_def [of "Inl _"] split: option.splits)
qed

lemma returns_trim_path [simp]: "returns (trim_path t0 index k j sl)"
proof (induction t0 index k j sl rule: trim_path.induct)
  case (1 t0 index k j sl)
  then show ?case by (subst trim_path.simps) (auto intro!: returns_bind)
qed

lemma returns_AddBackgroundTRSegment [simp]: "returns (AddBackgroundTRSegment srt ord cm seg rt)"
  unfolding AddBackgroundTRSegment_def Let_def trim_chunk_def
  by (auto intro!: returns_bind split: option.splits prod.splits)

lemma returns_finish_with_trace [simp]: "returns (finish_with_trace e msg tr rt w)"
  unfolding finish_with_trace_def Let_def
  by (auto intro!: returns_bind simp: returns_def [of "Inl _"] split: prod.splits)

lemma returns_after_adding [simp]: "returns (after_adding e nxt rt w)"
  unfolding after_adding_def checkbgTRs_def backgroundTRS_def Let_def
  by (auto intro!: returns_bind split: option.splits prod.splits sum.splits)

text \<open>The state of the loop that decides how long it runs.\<close>

lemma rr_state_cong:
  assumes "Paths rt' = Paths rt" "RRHop2VPSLeft rt' = RRHop2VPSLeft rt" "RRHop2RateLimit rt' = RRHop2RateLimit rt"
  shows "rr_left hops rt' = rr_left hops rt" "rr_ready hops rt' = rr_ready hops rt" "rt_LastSeg rt' = rt_LastSeg rt"
  using assms by (simp_all add: rr_left_def rr_ready_def rt_LastSeg_def CurrPath_def rt_len_def)

lemma AddUnresponsive_fields [simp]:
  "Paths (AddUnresponsiveRRSpoofer d c rt) = Paths rt"
  "RRHop2VPSLeft (AddUnresponsiveRRSpoofer d c rt) = RRHop2VPSLeft rt"
  "RRHop2RateLimit (AddUnresponsiveRRSpoofer d c rt) = RRHop2RateLimit rt"
  by (simp_all add: AddUnresponsiveRRSpoofer_def split: option.splits)

lemma MarkResponsive_fields [simp]:
  "Paths (MarkResponsiveRRSpoofer d rt) = Paths rt"
  "RRHop2VPSLeft (MarkResponsiveRRSpoofer d rt) = RRHop2VPSLeft rt"
  "RRHop2RateLimit (MarkResponsiveRRSpoofer d rt) = RRHop2RateLimit rt"
  by (simp_all add: MarkResponsiveRRSpoofer_def)

lemma AddSegments_failed:
  assumes e: "env_ok e" and a: "AddSegments (e_srt e) (e_ord e) (e_cm e) segs rt = Inr (False, rt')"
    and z: "zero_hop \<notin> set (rp_Hops (last (Paths rt)))"
  shows "rt' = rt"
proof -
  have "rearrangement (e_ord e)" "rearrangement (e_srt e (seg_Less (e_cm e)))"
    using e by (unfold_locales; simp add: env_ok_def)+
  from AddSegments_spec [OF this a] z show ?thesis by auto
qed

text \<open>The loop body returns if the rest of the loop does, from every state it may be entered in.\<close>

definition rr_same :: "revtr \<Rightarrow> revtr \<Rightarrow> bool" where
  "rr_same rt rt' \<longleftrightarrow> Paths rt' = Paths rt \<and> RRHop2VPSLeft rt' = RRHop2VPSLeft rt \<and>
     RRHop2RateLimit rt' = RRHop2RateLimit rt"

lemma add_or_again_returns:
  assumes e: "env_ok e" and again: "\<And>rt' w. rr_same rt rt' \<Longrightarrow> returns (again rt' w)"
    and same: "rr_same rt rt1" and z: "zero_hop \<notin> set (rp_Hops (last (Paths rt)))"
  shows "returns (go_bind (AddSegments (e_srt e) (e_ord e) (e_cm e) segs rt1) (\<lambda>(added, rt2).
      if \<not> added then again rt2 w else after_adding e nxt rt2 w))"
proof (rule returns_bind)
  fix x assume x: "AddSegments (e_srt e) (e_ord e) (e_cm e) segs rt1 = Inr x"
  obtain added rt2 where x2: "x = (added, rt2)" by (cases x)
  show "returns (case x of (added, rt2) \<Rightarrow> if \<not> added then again rt2 w else after_adding e nxt rt2 w)"
  proof (cases added)
    case False
    have "zero_hop \<notin> set (rp_Hops (last (Paths rt1)))" using z same by (simp add: rr_same_def)
    with x x2 False have "rt2 = rt1" by (intro AddSegments_failed [OF e, of segs rt1]) simp_all
    with again [OF same] False x2 show ?thesis by simp
  qed (simp add: x2)
qed simp

lemma rr_plain_returns:
  assumes e: "env_ok e" and again: "\<And>rt' w. rr_same rt rt' \<Longrightarrow> returns (again rt' w)"
    and z: "zero_hop \<notin> set (rp_Hops (last (Paths rt)))"
  shows "returns (rr_plain again e target rt w)"
proof -
  let ?rt = "upd_stats (\<lambda>s. s\<lparr>st_RRProbes := st_RRProbes s + 1\<rparr>) rt"
  have same: "rr_same rt ?rt" by (simp add: rr_same_def)
  show ?thesis
    unfolding rr_plain_def Let_def
  proof (rule returns_bind)
    fix x :: "(probe_error + hop list) \<times> 'a"
    assume "issueRR e (rt_Src ?rt) target (Staleness ?rt) w = Inr x"
    show "returns (case x of (r, w1) \<Rightarrow> case r of Inl err \<Rightarrow> again ?rt w1
        | Inr rr \<Rightarrow> go_bind (AddSegments (e_srt e) (e_ord e) (e_cm e)
              (prefix_segments (\<lambda>hs. NewRRRevSegment hs (rt_Src ?rt) target) [] rr) ?rt) (\<lambda>(added, rt1).
            if \<not> added then again rt1 w1 else after_adding e S_trToSource rt1 w1))"
    proof (cases x)
      case (Pair r w1)
      show ?thesis
      proof (cases r)
        case (Inl err)
        with again [OF same] Pair show ?thesis by (simp only: prod.case sum.case)
      next
        case (Inr rr)
        with add_or_again_returns [OF e again same z] Pair show ?thesis by (simp only: prod.case sum.case)
      qed
    qed
  qed simp
qed

lemma rr_spoofed_returns:
  assumes e: "env_ok e" and again: "\<And>rt' w. rr_same rt rt' \<Longrightarrow> returns (again rt' w)"
    and z: "zero_hop \<notin> set (rp_Hops (last (Paths rt)))"
  shows "returns (rr_spoofed again e vps target rt w)"
proof -
  let ?rt = "upd_stats (\<lambda>s. s\<lparr>st_SpoofedRRProbes := st_SpoofedRRProbes s + int (length vps)\<rparr>) rt"
  let ?rt1 = "\<lambda>rrs :: sprrhops list. if length rrs > 0 then MarkResponsiveRRSpoofer target ?rt
      else AddUnresponsiveRRSpoofer target (int (length vps)) ?rt"
  have same: "rr_same rt (?rt1 rrs)" for rrs by (simp add: rr_same_def)
  show ?thesis
    unfolding rr_spoofed_def Let_def
  proof (rule returns_bind)
    fix x assume "issueSpoofedRR e (rt_Src ?rt) target vps (Staleness ?rt) w = Inr x"
    obtain rrs err w1 where x: "x = (rrs, err, w1)" by (cases x)
    show "returns (case x of (rrs, err, w1) \<Rightarrow>
        if length (concat (map (\<lambda>rr. prefix_segments
             (\<lambda>hs. NewSpoofRRRevSegment hs (rt_Src (?rt1 rrs)) target (sp_vp rr)) [] (sp_hops rr)) rrs)) = 0
        then again (?rt1 rrs) w1
        else go_bind (AddSegments (e_srt e) (e_ord e) (e_cm e) (concat (map (\<lambda>rr. prefix_segments
             (\<lambda>hs. NewSpoofRRRevSegment hs (rt_Src (?rt1 rrs)) target (sp_vp rr)) [] (sp_hops rr)) rrs)) (?rt1 rrs)) (\<lambda>(added, rt2).
             if \<not> added then again rt2 w1 else after_adding e S_timestamp rt2 w1))"
      unfolding x prod.case
      by (rule returns_if, rule again [OF same], rule add_or_again_returns [OF e again same z])
  qed simp
qed

lemma rr_loop_returns:
  assumes e: "env_ok e"
  shows "rt_LastSeg rt = Inr seg \<Longrightarrow> rr_ready (Hops seg) rt \<Longrightarrow> zero_hop \<notin> set (rp_Hops (last (Paths rt))) \<Longrightarrow>
    rr_left (Hops seg) rt < n \<Longrightarrow> returns (rr_loop n e rt w)"
proof (induction n arbitrary: rt w)
  case 0
  then show ?case by simp
next
  case (Suc n)
  from GetRRVPs_spec [OF Suc.prems(1,2), of "e_vps e"] obtain vps target rt1 where
    g: "GetRRVPs (e_vps e) rt = Inr (vps, target, rt1)" "rr_ready (Hops seg) rt1" "Paths rt1 = Paths rt"
      "vps \<noteq> [] \<longrightarrow> rr_left (Hops seg) rt1 < rr_left (Hops seg) rt" by blast
  have z: "zero_hop \<notin> set (rp_Hops (last (Paths rt1)))" using Suc.prems(3) g(3) by simp
  have again: "returns (rr_loop n e rt2 w2)" if "vps \<noteq> []" "rr_same rt1 rt2" for rt2 w2
  proof (rule Suc.IH)
    have same: "Paths rt2 = Paths rt1" "RRHop2VPSLeft rt2 = RRHop2VPSLeft rt1"
      "RRHop2RateLimit rt2 = RRHop2RateLimit rt1" using that(2) by (simp_all add: rr_same_def)
    note c = rr_state_cong [OF same]
    show "rt_LastSeg rt2 = Inr seg" using Suc.prems(1) g(3) unfolding c(3) by (simp add: rt_LastSeg_Inr)
    show "rr_ready (Hops seg) rt2" using g(2) unfolding c(2) .
    show "zero_hop \<notin> set (rp_Hops (last (Paths rt2)))" using z same(1) by simp
    show "rr_left (Hops seg) rt2 < n" using g(4) that(1) Suc.prems(4) unfolding c(1) by simp
  qed
  have body: "returns (if length vps = 0 then Inr (Some S_timestamp, rt1, w)
      else if InArray vps non_spoofed then rr_plain (rr_loop n e) e target rt1 w
      else rr_spoofed (rr_loop n e) e vps target rt1 w)"
  proof (cases "vps = []")
    case False
    with rr_plain_returns [OF e again [OF False] z] rr_spoofed_returns [OF e again [OF False] z] show ?thesis
      by simp
  qed simp
  show ?case
    unfolding rr_loop.simps g(1) go_bind.simps prod.case by (rule returns_bind [OF returns_rt(1)]) (rule body)
qed

section \<open>Extending a symmetric segment: facts\<close>

lemma extend_symmetric_live:
  assumes seg: "lastSeg = DstSymRevSegment b tr n" and src: "rs_Src b = src" "src \<noteq> zero_hop" "src \<notin> set dead"
    and n: "0 \<le> n" and dead: "set dead \<subseteq> set ignore" and a: "AddHop ignore (seg_Clone lastSeg) = Inr newSeg"
  shows "seg_LastHop newSeg \<notin> set dead \<and> Hops newSeg \<noteq> []"
proof -
  from a obtain front sel where f: "go_slice tr 0 (int (length tr) - 1) = Inr front"
    "ndsrsSelectNonzeroHops (rev (src # front)) (n + 1) ignore = Inr sel"
    "newSeg = DstSymRevSegment (b\<lparr>rs_Segment := sel\<rparr>) tr (n + 1)"
    using src(1) by (auto simp: seg go_simps Let_def)
  let ?r = "rev (src # front)"
  have "0 < n + 1" using n by simp
  from ndsrs_selects [OF this f(2)] have sel: "prefix sel ?r" "sel \<noteq> []"
    "if n + 1 \<le> int (length (filter (usable_hop ignore) ?r))
     then int (length (filter (usable_hop ignore) sel)) = n + 1 \<and> usable_hop ignore (last sel)
     else last sel \<noteq> zero_hop \<and> (\<forall>h \<in> set (drop (length sel) ?r). h = zero_hop)" by blast+
  have "last sel \<notin> set dead"
  proof (cases "n + 1 \<le> int (length (filter (usable_hop ignore) ?r))")
    case True
    have "usable_hop ignore (last sel)" using sel(3) unfolding if_P [OF True] by (rule conjunct2)
    with dead show ?thesis unfolding usable_hop_def by blast
  next
    case False
    have zeros: "\<forall>h \<in> set (drop (length sel) ?r). h = zero_hop"
      using sel(3) unfolding if_not_P [OF False] by (rule conjunct2)
    obtain rest where r: "?r = sel @ rest" using sel(1) by (auto simp: prefix_def)
    have "rest = []"
    proof (rule ccontr)
      assume "rest \<noteq> []"
      then have "last ?r \<in> set rest" unfolding r by simp
      moreover have "last ?r = src" by simp
      moreover have "drop (length sel) ?r = rest" unfolding r by simp
      ultimately show False using zeros src(2) by metis
    qed
    with r have "last sel = src" by (metis append_Nil2 last_rev list.sel(1))
    with src(3) show ?thesis by simp
  qed
  with f(3) sel(2) show ?thesis by (simp add: seg_LastHop_def Hops_def)
qed

section \<open>Properties\<close>


definition ex_env :: "unit env" where
  "ex_env = \<lparr>e_cm = (\<lambda>h. h), e_ord = insertion_order, e_ord3 = insertion_order, e_srt = go_insertion_sort,
     e_vps = \<lparr>vs_GetTSSpoofers = (\<lambda>_. None), vs_GetRRSpoofers = (\<lambda>_ _. None)\<rparr>,
     e_as = \<lparr>as_ByIP1 = (\<lambda>_. None), as_ByIP2 = (\<lambda>_. None), as_ToDest = (\<lambda>_ _. None)\<rparr>,
     e_srtd = go_insertion_sort, e_srta = go_insertion_sort,
     e_Ping = (\<lambda>_ w. (Some ([], False), w)), e_Traceroute = (\<lambda>_ w. (Some ([], False), w)),
     e_GetIntersectingPath = (\<lambda>_ w. (Some ([], False), w)), e_GetPathsWithToken = (\<lambda>_ w. (Some ([], False), w)),
     e_Done = (\<lambda>_. False)\<rparr>"

lemma ex_env_ok: "env_ok ex_env"
  using insertion_sort.mset_ord by (auto simp: env_ok_def ex_env_def insertion_order_def)


text \<open>
  "Should never get here" in \<open>assumeSymmetric\<close> is indeed never reached: extending a symmetric
  segment by a hop yields a last hop that is not a dead end, because the hop is either a fresh one or,
  when the forward route has no more, the source of the traceroute, which is not a dead end.
\<close>

lemma symmetric_extension_is_live:
  assumes "env_ok e" and "CurrPath rt = Inr rp" and "lastSeg = DstSymRevSegment b tr n" and "0 \<le> n"
    and "rs_Src b \<noteq> zero_hop" and "rs_Src b \<notin> set (DeadEnd rt)"
  shows "extend_symmetric e rp lastSeg rt w \<noteq> Inl (PanicMsg ''Should never get here'')"
proof
  assume panic: "extend_symmetric e rp lastSeg rt w = Inl (PanicMsg ''Should never get here'')"
  define ignore where "ignore = concat (map Hops (take (length (rp_Path rp) - 1) (rp_Path rp))) @ Deadends (e_ord e) rt"
  have "rearrangement (e_ord e)" using assms(1) by (unfold_locales) (simp add: env_ok_def)
  then have dead: "set (DeadEnd rt) \<subseteq> set ignore"
    by (simp add: ignore_def Deadends_def rearrangement.set_ord)
  have nomsg: "m \<noteq> Inl (PanicMsg x)" if "m = AddHop ignore (seg_Clone lastSeg)" for m and x :: string
    using that unfolding assms(3)
    by (auto simp: go_bind_Inl_iff Let_def go_slice_def ndsrsSelectNonzeroHops_def drop_trailing_zeros_def
        split: if_splits list.splits prod.splits)
  then obtain newSeg where a: "AddHop ignore (seg_Clone lastSeg) = Inr newSeg"
    using panic unfolding extend_symmetric_def Let_def ignore_def [symmetric]
    by (cases "AddHop ignore (seg_Clone lastSeg)") auto
  have live: "seg_LastHop newSeg \<notin> set (DeadEnd rt)"
    using extend_symmetric_live [OF assms(3) refl assms(5,6,4) dead a] by simp
  have path: "Paths rt \<noteq> []" "rp = last (Paths rt)" using assms(2) by (auto simp: CurrPath_Inr)
  show False
  proof (cases "rp_Path rp = []")
    case True
    have "rp_Pop (rp_Clone rp) = Inl IndexOutOfRange"
      using True by (simp add: rp_Pop_def rp_len_def go_index_def Let_def)
    with panic live assms(2) show False
      unfolding extend_symmetric_def Let_def ignore_def [symmetric] a
      by (simp add: AddAndReplaceSegment_def dead_end_def)
  next
    case False
    define rt1 where "rt1 = call_onAdd (rt\<lparr>Paths := Paths rt @
        [rp_Add newSeg ((rp_Clone rp)\<lparr>rp_Path := butlast (rp_Path (rp_Clone rp))\<rparr>)]\<rparr>)"
    have "AddAndReplaceSegment newSeg rt = Inr (True, rt1)"
      using False live assms(2) by (simp add: AddAndReplaceSegment_def dead_end_def rt1_def)
    then have "reach_or_restart e rt1 w = Inl (PanicMsg ''Should never get here'')"
      using panic unfolding extend_symmetric_def Let_def ignore_def [symmetric] a by simp
    then show False
      by (auto simp: reach_or_restart_def rt_Reaches_def rt1_def CurrPath_def go_index_def rt_len_def
          nth_append go_bind_Inl_iff split: if_splits)
  qed
qed

definition ex_sym :: segment where
  "ex_sym = DstSymRevSegment \<lparr>rs_Segment = [''1.1.1.1''], rs_Src = ''9.9.9.9'', rs_Hop = ''8.8.8.8''\<rparr>
     [''2.2.2.2'', ''1.1.1.1'', ''8.8.8.8''] 1"

end
