(* ===== verification/RunnerTimestamp.thy ===== *)
theory RunnerTimestamp
  imports RunnerSteps
begin

text \<open>
  \<open>revtr/runner/revtr_runner.go\<close>: the \<open>timestamp\<close> step and the two functions that issue timestamp
  probes. A map from addresses to probes is an association list, whose keys a loop visits in the order
  the runtime picks. The closures the code passes to the issuing functions are functions on the
  traceroute and the local maps (\<open>ts_local\<close>). The map \<open>revHopsVPDstToRevSeg\<close> the code fills at the end
  of a round is never read and left out.
\<close>

section \<open>Maps of probes\<close>

type_synonym probe = "string list"
type_synonym 'k probes = "('k \<times> probe list) list"

fun al_append :: "'k \<Rightarrow> 'v \<Rightarrow> ('k \<times> 'v list) list \<Rightarrow> ('k \<times> 'v list) list" where
  "al_append k v [] = [(k, [v])]"
| "al_append k v ((k', vs) # m) = (if k = k' then (k', vs @ [v]) # m else (k', vs) # al_append k v m)"

definition al_get :: "('k \<times> 'v list) list \<Rightarrow> 'k \<Rightarrow> 'v list" where
  "al_get m k = (case map_of m k of None \<Rightarrow> [] | Some vs \<Rightarrow> vs)"

fun al_append2 :: "'a \<Rightarrow> 'b \<Rightarrow> 'v \<Rightarrow> ('a \<times> ('b \<times> 'v list) list) list \<Rightarrow> ('a \<times> ('b \<times> 'v list) list) list" where
  "al_append2 a b v [] = [(a, [(b, [v])])]"
| "al_append2 a b v ((a', m) # mm) =
     (if a = a' then (a', al_append b v m) # mm else (a', m) # al_append2 a b v mm)"

type_synonym spoofed_probes = "(string \<times> string probes) list"

section \<open>Issuing timestamp probes\<close>

fun join_commas :: "string list \<Rightarrow> string" where
  "join_commas [] = []"
| "join_commas [p] = p"
| "join_commas (p # ps) = p @ '','' @ join_commas ps"

definition tsprespec :: "probe \<Rightarrow> string" where
  "tsprespec probe = ''tsprespec='' @ join_commas (drop 1 probe)"

fun ts_pings :: "uint32 \<Rightarrow> int64 \<Rightarrow> probe list \<Rightarrow> (ping_measurement list) go" where
  "ts_pings srcip staleness [] = Inr []"
| "ts_pings srcip staleness (probe # probes) =
     go_bind (go_index probe 0) (\<lambda>dst. go_bind (ip_int dst) (\<lambda>dstip.
     go_bind (ts_pings srcip staleness probes) (\<lambda>pings.
       if IsPrivate (ParseIP dst) then Inr pings
       else Inr (zero_ping_measurement\<lparr>pm_Src := srcip, pm_Dst := dstip, pm_TimeStamp := tsprespec probe,
                   pm_Timeout := 10, pm_Count := ''1'', pm_CheckCache := True, pm_CheckDb := True,
                   pm_Staleness := staleness\<rparr> # pings))))"

fun all_ts_pings :: "string probes \<Rightarrow> int64 \<Rightarrow> string list \<Rightarrow> (ping_measurement list) go" where
  "all_ts_pings issue staleness [] = Inr []"
| "all_ts_pings issue staleness (src # srcs) =
     go_bind (ip_int src) (\<lambda>srcip.
     go_bind (ts_pings srcip staleness (al_get issue src)) (\<lambda>pings.
     go_bind (all_ts_pings issue staleness srcs) (\<lambda>rest. Inr (pings @ rest))))"

text \<open>The replies are handed to the callback in the order they arrive.\<close>

type_synonym 's ts_callback = "string \<Rightarrow> string \<Rightarrow> ping \<Rightarrow> 's \<Rightarrow> 's go"

fun feed :: "(ping \<Rightarrow> 's \<Rightarrow> 's go) \<Rightarrow> ping list \<Rightarrow> 's \<Rightarrow> 's go" where
  "feed fn [] st = Inr st"
| "feed fn (pr # prs) st = go_bind (fn pr st) (feed fn prs)"

definition issueTimestamps ::
    "'w env \<Rightarrow> string probes \<Rightarrow> 's ts_callback \<Rightarrow> int64 \<Rightarrow> 's \<Rightarrow> 'w \<Rightarrow> ('s \<times> 'w) go" where
  "issueTimestamps e issue fn staleness st w =
     go_bind (all_ts_pings issue staleness (e_ord e (map fst issue))) (\<lambda>pings.
       case e_Ping e pings w of
         (None, w') \<Rightarrow> Inr (st, w')
       | (Some (prs, broken), w') \<Rightarrow>
           go_bind (feed (\<lambda>pr. fn (ip_str (p_Src pr)) non_spoofed pr) prs st) (\<lambda>st'. Inr (st', w')))"

text \<open>
  The spoofed variant: the timestamp option is assembled but not put into the measurement, and the
  receiver goes into \<open>SpooferAddr\<close>.
\<close>

fun spoofed_ts_pings :: "uint32 \<Rightarrow> uint32 \<Rightarrow> int64 \<Rightarrow> probe list \<Rightarrow> (ping_measurement list) go" where
  "spoofed_ts_pings recip spoofip staleness [] = Inr []"
| "spoofed_ts_pings recip spoofip staleness (probe # probes) =
     go_bind (go_index probe 0) (\<lambda>dst. go_bind (ip_int dst) (\<lambda>dstip.
     go_bind (spoofed_ts_pings recip spoofip staleness probes) (\<lambda>pings.
       if IsPrivate (ParseIP dst) then Inr pings
       else Inr (zero_ping_measurement\<lparr>pm_Src := spoofip, pm_Spoof := True, pm_Dst := dstip,
                   pm_SpooferAddr := recip, pm_Timeout := 10, pm_Count := ''1'', pm_CheckCache := True,
                   pm_CheckDb := True, pm_Staleness := staleness\<rparr> # pings))))"

fun spoofer_pings :: "uint32 \<Rightarrow> string probes \<Rightarrow> int64 \<Rightarrow> string list \<Rightarrow> (ping_measurement list) go" where
  "spoofer_pings recip m staleness [] = Inr []"
| "spoofer_pings recip m staleness (spoofer # spoofers) =
     go_bind (ip_int spoofer) (\<lambda>spoofip.
     go_bind (spoofed_ts_pings recip spoofip staleness (al_get m spoofer)) (\<lambda>pings.
     go_bind (spoofer_pings recip m staleness spoofers) (\<lambda>rest. Inr (pings @ rest))))"

fun all_spoofed_ts_pings :: "order \<Rightarrow> spoofed_probes \<Rightarrow> int64 \<Rightarrow> string list \<Rightarrow> (ping_measurement list) go" where
  "all_spoofed_ts_pings ord issue staleness [] = Inr []"
| "all_spoofed_ts_pings ord issue staleness (recv # recvs) =
     go_bind (ip_int recv) (\<lambda>recip.
     go_bind (spoofer_pings recip (al_get issue recv) staleness (ord (map fst (al_get issue recv)))) (\<lambda>pings.
     go_bind (all_spoofed_ts_pings ord issue staleness recvs) (\<lambda>rest. Inr (pings @ rest))))"

definition issueSpoofedTimestamps ::
    "'w env \<Rightarrow> spoofed_probes \<Rightarrow> 's ts_callback \<Rightarrow> int64 \<Rightarrow> 's \<Rightarrow> 'w \<Rightarrow> ('s \<times> 'w) go" where
  "issueSpoofedTimestamps e issue fn staleness st w =
     go_bind (all_spoofed_ts_pings (e_ord e) issue staleness (e_ord e (map fst issue))) (\<lambda>pings.
       case e_Ping e pings w of
         (None, w') \<Rightarrow> Inr (st, w')
       | (Some (prs, broken), w') \<Rightarrow>
           go_bind (feed (\<lambda>pr. fn (ip_str (p_Src pr)) (ip_str (p_SpoofedFrom pr)) pr) prs st) (\<lambda>st'. Inr (st', w')))"

section \<open>Local state of a round\<close>

type_synonym triplet = "string \<times> string \<times> string"

record ts_local =
  tl_revtr :: revtr
  tl_revHops :: "(string \<times> string) \<rightharpoonup> segment list"
  tl_linuxBug :: "(triplet \<times> string list) list"
  tl_doesNotStamp :: "triplet list"
  tl_toVerify :: "string probes"
  tl_interested :: "(triplet \<times> string list) list"
  tl_maybeRevHop :: "triplet list"

definition new_local :: "revtr \<Rightarrow> ts_local" where
  "new_local rt = \<lparr>tl_revtr = rt, tl_revHops = Map.empty, tl_linuxBug = [], tl_doesNotStamp = [],
     tl_toVerify = [], tl_interested = [], tl_maybeRevHop = []\<rparr>"

definition send_spoofed :: "revtr \<Rightarrow> string \<Rightarrow> string \<Rightarrow> bool option" where
  "send_spoofed rt src hop = map_get Map.empty (TSSrcToHopToSendSpoofed rt) src hop"

definition set_send_spoofed :: "string \<Rightarrow> string \<Rightarrow> bool \<Rightarrow> revtr \<Rightarrow> revtr" where
  "set_send_spoofed src hop b rt = rt\<lparr>TSSrcToHopToSendSpoofed := (TSSrcToHopToSendSpoofed rt)
     (src \<mapsto> (map_get Map.empty (TSSrcToHopToSendSpoofed rt) src)(hop \<mapsto> b))\<rparr>"

definition zero_ts :: ts_and_addr where
  "zero_ts = \<lparr>ta_Ip = 0, ta_Ts = 0\<rparr>"

definition upd_revtr :: "(revtr \<Rightarrow> revtr) \<Rightarrow> ts_local \<Rightarrow> ts_local" where
  "upd_revtr f l = l\<lparr>tl_revtr := f (tl_revtr l)\<rparr>"

definition ts_segment :: "string \<Rightarrow> hop list \<Rightarrow> string \<Rightarrow> string \<Rightarrow> segment" where
  "ts_segment vp hops src dsts =
     (if vp = non_spoofed then NewTSAdjRevSegment hops src dsts False
      else NewSpoofTSAdjRevSegment hops src dsts vp False)"

definition set_rev_hop :: "string \<Rightarrow> string \<Rightarrow> segment \<Rightarrow> ts_local \<Rightarrow> ts_local" where
  "set_rev_hop src dsts seg l = l\<lparr>tl_revHops := (tl_revHops l)((src, dsts) \<mapsto> [seg])\<rparr>"

section \<open>The callbacks\<close>

text \<open>The first three stamps of a response; a response with more than three counts as none.\<close>

definition three_stamps :: "ts_and_addr list \<Rightarrow> ts_and_addr \<times> ts_and_addr \<times> ts_and_addr" where
  "three_stamps tas =
     (case tas of
        [a] \<Rightarrow> (a, zero_ts, zero_ts)
      | [a, b] \<Rightarrow> (a, b, zero_ts)
      | [a, b, c] \<Rightarrow> (a, b, c)
      | _ \<Rightarrow> (zero_ts, zero_ts, zero_ts))"

definition processTSCheckForRevHop :: "ts_local ts_callback" where
  "processTSCheckForRevHop src vp p l0 =
     (let dsts = ip_str (p_Dst p);
          l1 = (if vp = non_spoofed then upd_revtr (set_send_spoofed src dsts False) l0 else l0);
          l = upd_revtr (TSSetUnresponsive dsts) l1
      in case p_Responses p of
           [] \<Rightarrow> Inr l
         | rp # _ \<Rightarrow>
             (let (ts1, ts2, ts3) = three_stamps (prs_Tsandaddr rp) in
              if ta_Ts ts3 \<noteq> 0 then Inr (set_rev_hop src dsts (ts_segment vp [ip_str (ta_Ip ts3)] src dsts) l)
              else if ta_Ts ts2 \<noteq> 0 then
                let ts2ips = ip_str (ta_Ip ts2) in
                if ta_Ts ts2 - ta_Ts ts1 > 3 \<or> ta_Ts ts2 < ta_Ts ts1
                then Inr (set_rev_hop src dsts (ts_segment vp [ts2ips] src dsts) l)
                else Inr (l\<lparr>tl_linuxBug := al_append (src, dsts, vp) ts2ips (tl_linuxBug l)\<rparr>)
              else if ta_Ts ts1 = 0 then
                Inr ((upd_revtr (\<lambda>rt. rt\<lparr>TSDstToStampsZero := (TSDstToStampsZero rt)(dsts \<mapsto> True)\<rparr>) l)
                       \<lparr>tl_doesNotStamp := tl_doesNotStamp l @ [(src, dsts, ip_str (ta_Ip ts2))]\<rparr>)
              else Inr l))"

definition processTSCheckForLinuxBug :: "ts_local ts_callback" where
  "processTSCheckForLinuxBug src vp p l0 =
     (let dsts = ip_str (p_Dst p) in
      go_bind (go_index (p_Responses p) 0) (\<lambda>rp.
      go_bind (go_index (prs_Tsandaddr rp) 1) (\<lambda>ts2.
        let l = (if vp = non_spoofed then upd_revtr (set_send_spoofed src dsts False) l0 else l0) in
        if ta_Ts ts2 \<noteq> 0 then Inr l
        else Inr (fold (\<lambda>revhop. set_rev_hop src dsts (ts_segment vp [revhop] src dsts))
                    (al_get (tl_linuxBug l) (src, dsts, vp)) l))))"

definition one_two_four_stamps :: "ts_and_addr list \<Rightarrow> ts_and_addr \<times> ts_and_addr \<times> ts_and_addr" where
  "one_two_four_stamps tas =
     (case tas of
        [a] \<Rightarrow> (a, zero_ts, zero_ts)
      | [a, b] \<Rightarrow> (a, b, zero_ts)
      | [a, b, c] \<Rightarrow> (a, b, zero_ts)
      | [a, b, c, d] \<Rightarrow> (a, b, d)
      | _ \<Rightarrow> (zero_ts, zero_ts, zero_ts))"

definition processTSDestDoesNotStamp :: "ts_local ts_callback" where
  "processTSDestDoesNotStamp src vp p l =
     (let dsts = ip_str (p_Dst p) in
      case p_Responses p of
        [] \<Rightarrow> Inr l
      | rp # _ \<Rightarrow>
          (let (ts1, ts2, ts4) = one_two_four_stamps (prs_Tsandaddr rp) in
           if ta_Ts ts2 \<noteq> 0 \<and> ta_Ts ts4 = 0 then
             Inr (set_rev_hop src dsts
                    (NewSpoofTSAdjRevSegmentTSZeroDoubleStamp [ip_str (ta_Ts ts2)] src dsts vp False) l)
           else if ta_Ts ts1 \<noteq> 0 then
             let ts1ips = ip_str (ta_Ip ts1) in
             Inr (l\<lparr>tl_toVerify := al_append vp [dsts, ts1ips, ts1ips, ts1ips, ts1ips] (tl_toVerify l),
                    tl_interested := al_append (vp, dsts, ts1ips) src (tl_interested l)\<rparr>)
           else Inr l))"

definition processTSDestDoesNotStampToVerify :: "ts_local ts_callback" where
  "processTSDestDoesNotStampToVerify src vp p l =
     (let dsts = ip_str (p_Dst p) in
      go_bind (go_index (p_Responses p) 0) (\<lambda>rp.
      go_bind (go_index (prs_Tsandaddr rp) 0) (\<lambda>ts1.
        let key = (src, dsts, ip_str (ta_Ip ts1)) in
        if ta_Ts ts1 = 0 then Inr (l\<lparr>tl_maybeRevHop := List.insert key (tl_maybeRevHop l)\<rparr>)
        else Inr (l\<lparr>tl_interested := filter (\<lambda>(k, _). k \<noteq> key) (tl_interested l)\<rparr>))))"

section \<open>A round\<close>

abbreviation dummyIP :: string where
  "dummyIP \<equiv> ''128.208.3.77''"

text \<open>
  Which probes to send for a batch of adjacents: none if the target is known to stamp zero (the code
  lists such targets but does nothing with the list); probes from the source; or, if the target did not
  answer those, spoofed ones, unless there are no spoofers (\<open>None\<close>).
\<close>

definition ts_first_probes ::
    "vp_source \<Rightarrow> string \<Rightarrow> string list \<Rightarrow> spoofed_probes \<Rightarrow> revtr \<Rightarrow>
     ((string probes \<times> spoofed_probes \<times> revtr) option) go" where
  "ts_first_probes vs target adjs r2s rt =
     go_bind (rt_LastHop rt) (\<lambda>lastHop.
       if map_get False (TSDstToStampsZero rt) target then Inr (Some ([], r2s, rt))
       else if send_spoofed rt (rt_Src rt) target \<noteq> Some True then
         Inr (Some (fold (\<lambda>adj. al_append (rt_Src rt) [lastHop, lastHop, adj, adj, dummyIP]) adjs [], r2s, rt))
       else
         let spfs = GetTimestampSpoofers vs in
         if length spfs = 0 then Inr None
         else Inr (Some ([],
           fold (\<lambda>adj m. fold (\<lambda>spf. al_append2 (rt_Src rt) spf [lastHop, lastHop, adj, adj, dummyIP]) spfs m) adjs r2s,
           TSSetUnresponsive target rt)))"

definition issued_pairs :: "order \<Rightarrow> string probes \<Rightarrow> (string \<times> probe) list" where
  "issued_pairs ord issue = concat (map (\<lambda>src. map (Pair src) (al_get issue src)) (ord (map fst issue)))"

definition mark_sent :: "string \<times> probe \<Rightarrow> revtr \<Rightarrow> revtr" where
  "mark_sent sp rt =
     (case sp of (src, probe) \<Rightarrow>
        if send_spoofed rt src (hd probe) \<noteq> None then rt else set_send_spoofed src (hd probe) True rt)"

definition retry_spoofed :: "vp_source \<Rightarrow> string \<times> probe \<Rightarrow> spoofed_probes \<times> ts_local \<Rightarrow> spoofed_probes \<times> ts_local" where
  "retry_spoofed vs sp st =
     (case sp of (src, probe) \<Rightarrow> case st of (r2s, l) \<Rightarrow>
        if send_spoofed (tl_revtr l) src (hd probe) = Some True
        then (fold (\<lambda>spf. al_append2 src spf probe) (GetTimestampSpoofers vs) r2s,
              upd_revtr (TSSetUnresponsive (hd probe)) l)
        else (r2s, l))"

definition ts_unspoofed ::
    "'w env \<Rightarrow> string probes \<Rightarrow> spoofed_probes \<Rightarrow> ts_local \<Rightarrow> 'w \<Rightarrow> (spoofed_probes \<times> ts_local \<times> 'w) go" where
  "ts_unspoofed e issue r2s l0 w =
     (if length issue > 0 then
        let l1 = upd_revtr (fold mark_sent (issued_pairs (e_ord e) issue)) l0;
            l2 = upd_revtr (upd_stats (\<lambda>s. s\<lparr>st_TSProbes := st_TSProbes s + int (length issue)\<rparr>)) l1
        in go_bind (issueTimestamps e issue processTSCheckForRevHop (Staleness (tl_revtr l2)) l2 w) (\<lambda>(l3, w1).
           let (r2s', l4) = fold (retry_spoofed (e_vps e)) (issued_pairs (e_ord e) issue) (r2s, l3)
           in Inr (r2s', l4, w1))
      else Inr (r2s, l0, w))"

definition count_spoofed :: "spoofed_probes \<Rightarrow> ts_local \<Rightarrow> ts_local" where
  "count_spoofed r2s = upd_revtr (upd_stats (\<lambda>s. s\<lparr>st_SpoofedTSProbes :=
     st_SpoofedTSProbes s + sum_list (map (\<lambda>(_, val). int (length val)) r2s)\<rparr>))"

definition ts_spoofed :: "'w env \<Rightarrow> spoofed_probes \<Rightarrow> ts_local \<Rightarrow> 'w \<Rightarrow> (ts_local \<times> 'w) go" where
  "ts_spoofed e r2s l0 w =
     (let l = count_spoofed r2s l0 in
      if length r2s > 0
      then issueSpoofedTimestamps e r2s processTSCheckForRevHop (Staleness (tl_revtr l)) l w
      else Inr (l, w))"

definition linux_check :: "triplet \<Rightarrow> string probes \<times> spoofed_probes \<Rightarrow> string probes \<times> spoofed_probes" where
  "linux_check sdvp st =
     (case sdvp of (src, dst, vp) \<Rightarrow> case st of (plain, spoofed) \<Rightarrow>
        let p = [dst, dst, dummyIP, dummyIP] in
        if vp = non_spoofed then (al_append src p plain, spoofed)
        else (plain, al_append2 src vp p spoofed))"

definition ts_linux_bug ::
    "'w env \<Rightarrow> string probes \<Rightarrow> spoofed_probes \<Rightarrow> ts_local \<Rightarrow> 'w \<Rightarrow> (ts_local \<times> 'w) go" where
  "ts_linux_bug e issue r2s l0 w =
     (if length (tl_linuxBug l0) > 0 then
        let (plain, spoofed) = fold linux_check (e_ord3 e (map fst (tl_linuxBug l0))) ([], []);
            l1 = upd_revtr (upd_stats (\<lambda>s. s\<lparr>st_TSProbes := st_TSProbes s + int (length issue)\<rparr>)) l0
        in go_bind (issueTimestamps e plain processTSCheckForLinuxBug (Staleness (tl_revtr l1)) l1 w) (\<lambda>(l2, w1).
           issueSpoofedTimestamps e spoofed processTSCheckForLinuxBug (Staleness (tl_revtr l2)) (count_spoofed r2s l2) w1)
      else Inr (l0, w))"

text \<open>Probes to the targets that answered without stamping; they are the map the next round starts with.\<close>

definition stamp_zero_probes :: "vp_source \<Rightarrow> triplet list \<Rightarrow> spoofed_probes" where
  "stamp_zero_probes vs dns =
     fold (\<lambda>(src, dst, tsip) m. fold (\<lambda>s. al_append2 src s [dst, tsip, tsip, tsip, tsip]) (GetTimestampSpoofers vs) m) dns []"

definition ts_does_not_stamp :: "'w env \<Rightarrow> spoofed_probes \<Rightarrow> ts_local \<Rightarrow> 'w \<Rightarrow> (ts_local \<times> 'w) go" where
  "ts_does_not_stamp e r2s l w =
     (if length (tl_doesNotStamp l) > 0
      then issueSpoofedTimestamps e r2s processTSDestDoesNotStamp (Staleness (tl_revtr l)) l w
      else Inr (l, w))"

definition quadruple :: "'a list \<Rightarrow> 'a list" where
  "quadruple xs = (let ys = xs @ xs in ys @ ys)"

definition ts_verify :: "'w env \<Rightarrow> ts_local \<Rightarrow> 'w \<Rightarrow> (ts_local \<times> 'w) go" where
  "ts_verify e l w =
     (if length (tl_toVerify l) > 0 then
        let verify = map (\<lambda>(vp, probes). (vp, quadruple probes)) (tl_toVerify l)
        in issueTimestamps e verify processTSDestDoesNotStampToVerify (Staleness (tl_revtr l))
             (l\<lparr>tl_toVerify := verify\<rparr>) w
      else Inr (l, w))"

text \<open>One round: the new state, the world, the probes carried over, and the reverse hops found.\<close>

definition ts_round ::
    "'w env \<Rightarrow> string probes \<Rightarrow> spoofed_probes \<Rightarrow> revtr \<Rightarrow> 'w \<Rightarrow> (ts_local \<times> spoofed_probes \<times> 'w) go" where
  "ts_round e issue r2s rt w =
     go_bind (ts_unspoofed e issue r2s (new_local rt) w) (\<lambda>(r2s1, l1, w1).
     go_bind (ts_spoofed e r2s1 l1 w1) (\<lambda>(l2, w2).
     go_bind (ts_linux_bug e issue r2s1 l2 w2) (\<lambda>(l3, w3).
       let r2s2 = stamp_zero_probes (e_vps e) (tl_doesNotStamp l3) in
     go_bind (ts_does_not_stamp e r2s2 l3 w3) (\<lambda>(l4, w4).
     go_bind (ts_verify e l4 w4) (\<lambda>(l5, w5). Inr (l5, r2s2, w5))))))"

fun ts_loop :: "nat \<Rightarrow> 'w env \<Rightarrow> string \<Rightarrow> spoofed_probes \<Rightarrow> revtr \<Rightarrow> 'w \<Rightarrow> 'w step_result" where
  "ts_loop 0 e target r2s rt w = Inl NoReturn"
| "ts_loop (Suc n) e target r2s rt w =
     go_bind (GetTSAdjacents (e_srtd e) (e_srta e) (e_ord e) (e_as e) target rt) (\<lambda>(adjs, rt1).
       if length adjs = 0 then Inr (Some S_backgroundTRS, rt1, w)
       else go_bind (ts_first_probes (e_vps e) target adjs r2s rt1) (\<lambda>first.
         case first of
           None \<Rightarrow> Inr (Some S_backgroundTRS, rt1, w)
         | Some (issue, r2s1, rt2) \<Rightarrow>
             go_bind (ts_round e issue r2s1 rt2 w) (\<lambda>(l, r2s2, w1).
             go_bind (rt_LastHop (tl_revtr l)) (\<lambda>lastHop.
               case tl_revHops l (rt_Src (tl_revtr l), lastHop) of
                 None \<Rightarrow> ts_loop n e target r2s2 (tl_revtr l) w1
               | Some segments \<Rightarrow>
                   go_bind (AddSegments (e_srt e) (e_ord e) (e_cm e) segments (tl_revtr l)) (\<lambda>(added, rt3).
                     if added then after_adding e S_trToSource rt3 w1
                     else ts_loop n e target r2s2 rt3 w1)))))"

definition timestamp :: "nat \<Rightarrow> 'w env \<Rightarrow> revtr \<Rightarrow> 'w \<Rightarrow> 'w step_result" where
  "timestamp n e rt0 w =
     (let rt = upd_stats (\<lambda>s. s\<lparr>st_TSRoundCount := st_TSRoundCount s + 1\<rparr>) rt0 in
      go_bind (rt_LastHop rt) (\<lambda>target.
        if \<not> TSIsResponsive target rt then Inr (Some S_backgroundTRS, rt, w)
        else ts_loop n e target [] rt w))"

section \<open>What the callbacks may do\<close>

text \<open>The part of a traceroute that timestamp replies leave alone.\<close>

definition ts_frame :: "revtr \<Rightarrow> revtr \<Rightarrow> bool" where
  "ts_frame rt rt' \<longleftrightarrow> Paths rt' = Paths rt \<and> rt_Src rt' = rt_Src rt \<and> DeadEnd rt' = DeadEnd rt \<and>
     TSHop2AdjsLeft rt' = TSHop2AdjsLeft rt \<and> TSHop2RateLimit rt' = TSHop2RateLimit rt \<and>
     StopReason rt' = StopReason rt \<and> ID rt' = ID rt \<and> rt_Dst rt' = rt_Dst rt \<and> BackoffEndhost rt' = BackoffEndhost rt \<and>
     has_onFail rt' = has_onFail rt \<and> onFailOnce rt' = onFailOnce rt"

lemma ts_frame_refl [simp]: "ts_frame rt rt"
  by (simp add: ts_frame_def)

lemma ts_frame_trans: "ts_frame a b \<Longrightarrow> ts_frame b c \<Longrightarrow> ts_frame a c"
  by (simp add: ts_frame_def)

text \<open>A computation that returns and keeps to the frame, for results from which a traceroute is read.\<close>

definition ts_safe :: "revtr \<Rightarrow> ('a \<Rightarrow> revtr) \<Rightarrow> 'a go \<Rightarrow> bool" where
  "ts_safe rt f m \<longleftrightarrow> returns m \<and> (\<forall>x. m = Inr x \<longrightarrow> ts_frame rt (f x))"

lemma ts_safe_Inr [simp]: "ts_safe rt f (Inr x) \<longleftrightarrow> ts_frame rt (f x)"
  by (simp add: ts_safe_def)

lemma ts_safe_bind:
  assumes "ts_safe rt f m" and "\<And>x. m = Inr x \<Longrightarrow> ts_frame rt (f x) \<Longrightarrow> ts_safe (f x) g (k x)"
  shows "ts_safe rt g (go_bind m k)"
proof (cases m)
  case (Inl e)
  with assms(1) show ?thesis by (simp add: ts_safe_def returns_def)
next
  case (Inr x)
  with assms(1) have "ts_frame rt (f x)" by simp
  with assms(2) [OF Inr this] ts_frame_trans show ?thesis unfolding ts_safe_def Inr by auto
qed

lemma ts_safe_pure_bind:
  "returns m \<Longrightarrow> (\<And>x. m = Inr x \<Longrightarrow> ts_safe rt g (k x)) \<Longrightarrow> ts_safe rt g (go_bind m k)"
  by (cases m) (auto simp: ts_safe_def returns_def)

lemma ts_safe_weaken: "ts_frame rt rt1 \<Longrightarrow> ts_safe rt1 f m \<Longrightarrow> ts_safe rt f m"
  using ts_frame_trans unfolding ts_safe_def by blast

text \<open>
  The contract between the functions that issue probes and the closures they are given: a closure
  returns and keeps to the frame. Then so do they.
\<close>

locale ts_reply_handler =
  fixes fn :: "ts_local ts_callback"
  assumes handler_safe: "ts_safe (tl_revtr l) tl_revtr (fn src vp p l)"
begin

lemma feed_safe: "ts_safe (tl_revtr l) tl_revtr (feed (\<lambda>pr. fn (f pr) (g pr) pr) prs l)"
proof (induction prs arbitrary: l)
  case (Cons pr prs)
  show ?case unfolding feed.simps by (rule ts_safe_bind [OF handler_safe]) (rule Cons)
qed simp

lemma issue_safe:
  "ts_safe (tl_revtr l) (\<lambda>(l', w). tl_revtr l') (issueTimestamps e issue fn st l w)"
  if "returns (all_ts_pings issue st (e_ord e (map fst issue)))"
  unfolding issueTimestamps_def
  by (rule ts_safe_pure_bind [OF that])
    (auto split: prod.splits option.splits intro!: ts_safe_bind [OF feed_safe])

lemma issue_spoofed_safe:
  "ts_safe (tl_revtr l) (\<lambda>(l', w). tl_revtr l') (issueSpoofedTimestamps e issue fn st l w)"
  if "returns (all_spoofed_ts_pings (e_ord e) issue st (e_ord e (map fst issue)))"
  unfolding issueSpoofedTimestamps_def
  by (rule ts_safe_pure_bind [OF that])
    (auto split: prod.splits option.splits intro!: ts_safe_bind [OF feed_safe])

end

lemma returns_ts_pings [simp]: "returns (ts_pings s st probes)" "returns (spoofed_ts_pings r s st probes)"
  by (induction probes) (auto intro!: returns_bind)

lemma returns_all_ts_pings [simp]: "returns (all_ts_pings issue st srcs)"
  by (induction srcs) (auto intro!: returns_bind)

lemma returns_spoofer_pings [simp]: "returns (spoofer_pings recip m st srcs)"
  by (induction srcs) (auto intro!: returns_bind)

lemma returns_all_spoofed_ts_pings [simp]: "returns (all_spoofed_ts_pings ord issue st srcs)"
  by (induction srcs) (auto intro!: returns_bind)

lemma set_send_spoofed_frame [simp]: "ts_frame rt (set_send_spoofed src hop b rt')  = ts_frame rt rt'"
  by (simp add: ts_frame_def set_send_spoofed_def)

lemma TSSetUnresponsive_frame [simp]: "ts_frame rt (TSSetUnresponsive d rt') = ts_frame rt rt'"
  by (simp add: ts_frame_def TSSetUnresponsive_def)

lemma upd_stats_frame [simp]: "ts_frame rt (upd_stats f rt') = ts_frame rt rt'"
  by (simp add: ts_frame_def)

lemma tl_revtr_upd [simp]: "tl_revtr (upd_revtr f l) = f (tl_revtr l)" "tl_revtr (set_rev_hop s d seg l) = tl_revtr l"
  by (simp_all add: upd_revtr_def set_rev_hop_def)

interpretation rev_hop: ts_reply_handler processTSCheckForRevHop
  by unfold_locales
    (auto simp: processTSCheckForRevHop_def Let_def ts_frame_def TSSetUnresponsive_def set_send_spoofed_def
      split: list.splits prod.splits)

lemma fold_set_rev_hop [simp]: "tl_revtr (fold (\<lambda>h. set_rev_hop s d (f h)) hs l) = tl_revtr l"
  by (induction hs arbitrary: l) auto

interpretation linux_bug: ts_reply_handler processTSCheckForLinuxBug
  by unfold_locales
    (auto simp: processTSCheckForLinuxBug_def Let_def intro!: ts_safe_pure_bind)

interpretation no_stamp: ts_reply_handler processTSDestDoesNotStamp
  by unfold_locales (auto simp: processTSDestDoesNotStamp_def Let_def split: list.splits prod.splits)

interpretation verify: ts_reply_handler processTSDestDoesNotStampToVerify
  by unfold_locales (auto simp: processTSDestDoesNotStampToVerify_def Let_def intro!: ts_safe_pure_bind)

section \<open>A round returns\<close>

lemma mark_sent_frame: "ts_frame rt (mark_sent sp rt)"
  by (simp add: mark_sent_def split: prod.splits)

lemma fold_mark_sent_frame: "ts_frame rt (fold mark_sent sps rt)"
proof (induction sps arbitrary: rt)
  case (Cons sp sps)
  show ?case using ts_frame_trans [OF mark_sent_frame Cons] by simp
qed simp

lemma retry_spoofed_frame: "retry_spoofed vs sp (r2s, l) = (r2s', l') \<Longrightarrow> ts_frame (tl_revtr l) (tl_revtr l')"
  by (auto simp: retry_spoofed_def split: prod.splits if_splits)

lemma fold_retry_spoofed_frame:
  "fold (retry_spoofed vs) sps (r2s, l) = (r2s', l') \<Longrightarrow> ts_frame (tl_revtr l) (tl_revtr l')"
proof (induction sps arbitrary: r2s l)
  case (Cons sp sps)
  obtain r1 l1 where s: "retry_spoofed vs sp (r2s, l) = (r1, l1)" by (metis surj_pair)
  with Cons.prems have "fold (retry_spoofed vs) sps (r1, l1) = (r2s', l')" by simp
  from ts_frame_trans [OF retry_spoofed_frame [OF s] Cons.IH [OF this]] show ?case .
qed simp

lemma ts_unspoofed_safe: "ts_safe (tl_revtr l) (\<lambda>(_, l', _). tl_revtr l') (ts_unspoofed e issue r2s l w)"
proof (cases "issue = []")
  case False
  let ?l1 = "upd_revtr (fold mark_sent (issued_pairs (e_ord e) issue)) l"
  let ?l2 = "upd_revtr (upd_stats (\<lambda>s. s\<lparr>st_TSProbes := st_TSProbes s + int (length issue)\<rparr>)) ?l1"
  have "ts_frame (tl_revtr l) (tl_revtr ?l2)" by (simp add: fold_mark_sent_frame)
  moreover have "ts_safe (tl_revtr ?l2) (\<lambda>(_, l', _). tl_revtr l') (ts_unspoofed e issue r2s l w)"
    unfolding ts_unspoofed_def Let_def using False
    by (auto simp del: tl_revtr_upd intro!: ts_safe_bind [OF rev_hop.issue_safe] fold_retry_spoofed_frame split: prod.splits)
  ultimately show ?thesis by (rule ts_safe_weaken)
qed (simp add: ts_unspoofed_def)

lemma count_spoofed_frame [simp]: "ts_frame rt (tl_revtr (count_spoofed r2s l)) = ts_frame rt (tl_revtr l)"
  by (simp add: count_spoofed_def)

lemma ts_spoofed_safe: "ts_safe (tl_revtr l) (\<lambda>(l', _). tl_revtr l') (ts_spoofed e r2s l w)"
  by (rule ts_safe_weaken [of _ "tl_revtr (count_spoofed r2s l)"])
    (simp_all add: ts_spoofed_def Let_def rev_hop.issue_spoofed_safe)

lemma ts_linux_bug_safe: "ts_safe (tl_revtr l) (\<lambda>(l', _). tl_revtr l') (ts_linux_bug e issue r2s l w)"
proof (cases "tl_linuxBug l = []")
  case False
  let ?l1 = "upd_revtr (upd_stats (\<lambda>s. s\<lparr>st_TSProbes := st_TSProbes s + int (length issue)\<rparr>)) l"
  obtain plain spoofed where c: "fold linux_check (e_ord3 e (map fst (tl_linuxBug l))) ([], []) = (plain, spoofed)"
    by (metis surj_pair)
  have second: "ts_safe (tl_revtr l2) (\<lambda>(l', _). tl_revtr l')
      (issueSpoofedTimestamps e spoofed processTSCheckForLinuxBug (Staleness (tl_revtr l2)) (count_spoofed r2s l2) w1)" for l2 w1
    by (rule ts_safe_weaken [of _ "tl_revtr (count_spoofed r2s l2)"]) (simp_all add: linux_bug.issue_spoofed_safe)
  have "ts_safe (tl_revtr ?l1) (\<lambda>(l', _). tl_revtr l') (ts_linux_bug e issue r2s l w)"
    unfolding ts_linux_bug_def Let_def c prod.case using False
    by (auto simp del: tl_revtr_upd intro!: ts_safe_bind [OF linux_bug.issue_safe] second split: prod.splits)
  moreover have "ts_frame (tl_revtr l) (tl_revtr ?l1)" by simp
  ultimately show ?thesis using ts_safe_weaken by blast
qed (simp add: ts_linux_bug_def)

lemma ts_does_not_stamp_safe: "ts_safe (tl_revtr l) (\<lambda>(l', _). tl_revtr l') (ts_does_not_stamp e r2s l w)"
  by (simp add: ts_does_not_stamp_def no_stamp.issue_spoofed_safe)

lemma ts_verify_safe: "ts_safe (tl_revtr l) (\<lambda>(l', _). tl_revtr l') (ts_verify e l w)"
  using verify.issue_safe [of _ _ e "l\<lparr>tl_toVerify := vs\<rparr>" for vs] by (simp add: ts_verify_def Let_def)

lemma ts_round_safe: "ts_safe rt (\<lambda>(l, _, _). tl_revtr l) (ts_round e issue r2s rt w)"
proof -
  have new: "tl_revtr (new_local rt) = rt" by (simp add: new_local_def)
  show ?thesis
    unfolding ts_round_def Let_def
    by (rule ts_safe_bind [OF ts_unspoofed_safe [of "new_local rt", unfolded new]]; clarsimp;
        rule ts_safe_bind [OF ts_spoofed_safe]; clarsimp; rule ts_safe_bind [OF ts_linux_bug_safe]; clarsimp;
        rule ts_safe_bind [OF ts_does_not_stamp_safe]; clarsimp; rule ts_safe_bind [OF ts_verify_safe]; clarsimp)
qed

section \<open>Termination of the timestamp step: facts\<close>

text \<open>How many adjacents are left for a target; at most thirty are taken when it is first asked.\<close>

definition adjs_left :: "string \<Rightarrow> revtr \<Rightarrow> nat" where
  "adjs_left target rt = (case TSHop2AdjsLeft rt target of None \<Rightarrow> 31 | Some l \<Rightarrow> length l)"

lemma first_30_spec: "\<exists>r. first_30 xs = Inr r \<and> length r \<le> 30"
  by (auto simp: first_30_def go_slice_def)

lemma returns_first_30 [simp]: "returns (first_30 xs)"
  using first_30_spec [of xs] by auto

lemma getAdjacencies_returns: "returns (getAdjacenciesForIPToSrc srtd srta ord as ip src)"
  unfolding getAdjacenciesForIPToSrc_def Let_def
  by (auto intro!: returns_bind split: option.splits)

lemma getAdjacencies_length:
  "getAdjacenciesForIPToSrc srtd srta ord as ip src = Inr (Some adjs) \<Longrightarrow> length adjs \<le> 30"
proof -
  assume "getAdjacenciesForIPToSrc srtd srta ord as ip src = Inr (Some adjs)"
  then obtain xs where "first_30 xs = Inr adjs"
    by (auto simp: getAdjacenciesForIPToSrc_def Let_def go_simps split: option.splits)
  with first_30_spec [of xs] show ?thesis by simp
qed

lemma InitializeTSAdjacents_spec:
  assumes "InitializeTSAdjacents srtd srta ord as cls rt = Inr rt'"
  shows "rt' = rt \<or> (\<exists>adjs. length adjs \<le> 30 \<and> rt' = rt\<lparr>TSHop2AdjsLeft := (TSHop2AdjsLeft rt)(cls \<mapsto> adjs)\<rparr>)"
  using assms
  by (auto simp: InitializeTSAdjacents_def go_simps split: option.splits dest: getAdjacencies_length)

lemma GetTSAdjacents_returns: "returns (GetTSAdjacents srtd srta ord as hop rt)"
  unfolding GetTSAdjacents_def InitializeTSAdjacents_def Let_def
  by (auto intro!: returns_bind getAdjacencies_returns split: option.splits)

lemma GetTSAdjacents_decreases:
  assumes g: "GetTSAdjacents srtd srta ord as hop rt = Inr (adjs, rt')" and r: "TSHop2RateLimit rt hop = None"
    and ne: "adjs \<noteq> []"
  shows "adjs_left hop rt' < adjs_left hop rt \<and> TSHop2RateLimit rt' hop = None"
proof -
  obtain rt1 where i: "(if TSHop2AdjsLeft rt hop = None then InitializeTSAdjacents srtd srta ord as hop rt else Inr rt) = Inr rt1"
    using g by (auto simp: GetTSAdjacents_def go_simps)
  have rl: "TSHop2RateLimit rt1 hop = None"
    using i r InitializeTSAdjacents_spec [of srtd srta ord as hop rt rt1] by (auto split: if_splits)
  define left where "left = map_get [] (TSHop2AdjsLeft rt1) hop"
  have bound: "length left \<le> 30 \<and> TSHop2AdjsLeft rt hop = None \<or> TSHop2AdjsLeft rt hop = Some left \<and> rt1 = rt"
    if "left \<noteq> []"
  proof (cases "TSHop2AdjsLeft rt hop")
    case None
    with i InitializeTSAdjacents_spec [of srtd srta ord as hop rt rt1] that show ?thesis
      by (auto simp: left_def map_get_def)
  next
    case (Some l)
    with i show ?thesis by (simp add: left_def map_get_def)
  qed
  have nleft: "left \<noteq> []" using g ne i by (auto simp: GetTSAdjacents_def go_simps left_def Let_def)
  then have len: "(1 :: int) \<le> int (length left)" by (cases left) auto
  have "go_slice left 1 (int (length left)) = Inr (drop 1 left)"
    using len by (simp add: go_slice_def nat_diff_distrib)
  then have "rt' = rt1\<lparr>TSHop2AdjsLeft := (TSHop2AdjsLeft rt1)(hop \<mapsto> drop 1 left)\<rparr>"
    using g i rl nleft len
    by (auto simp: GetTSAdjacents_def go_simps left_def [symmetric] Let_def split: if_splits)
  moreover have "length (drop 1 left) < length left" using nleft by (cases left) auto
  ultimately show ?thesis using bound [OF nleft] rl by (auto simp: adjs_left_def)
qed

lemma returns_first_probes: "returns (ts_first_probes vs target adjs r2s rt)"
  unfolding ts_first_probes_def Let_def by (auto intro!: returns_bind)

lemma ts_first_probes_frame:
  "ts_first_probes vs target adjs r2s rt = Inr (Some (issue, r2s', rt')) \<Longrightarrow> ts_frame rt rt'"
  by (auto simp: ts_first_probes_def go_simps Let_def split: if_splits)

lemma adjs_left_frame: "ts_frame rt rt' \<Longrightarrow> adjs_left t rt' = adjs_left t rt \<and> TSHop2RateLimit rt' = TSHop2RateLimit rt"
  by (simp add: ts_frame_def adjs_left_def)

lemma AddSegments_adjs:
  assumes "env_ok e" "AddSegments (e_srt e) (e_ord e) (e_cm e) segs rt = Inr (b, rt')"
  shows "adjs_left t rt' = adjs_left t rt \<and> TSHop2RateLimit rt' = TSHop2RateLimit rt"
proof -
  have "rearrangement (e_ord e)" "rearrangement (e_srt e (seg_Less (e_cm e)))"
    using assms(1) by (unfold_locales; simp add: env_ok_def)+
  from AddSegments_spec [OF this assms(2)] show ?thesis
    by (auto simp: adjs_left_def call_onAdd_def)
qed

lemma ts_loop_returns:
  assumes e: "env_ok e"
  shows "TSHop2RateLimit rt target = None \<Longrightarrow> adjs_left target rt < n \<Longrightarrow> returns (ts_loop n e target r2s rt w)"
proof (induction n arbitrary: r2s rt w)
  case 0
  then show ?case by simp
next
  case (Suc n)
  have again: "returns (ts_loop n e target r2s2 rt4 w2)"
    if "TSHop2RateLimit rt4 target = None" "adjs_left target rt4 < adjs_left target rt" for r2s2 rt4 w2
    using Suc.IH that Suc.prems(2) by simp
  show ?case
    unfolding ts_loop.simps
  proof (rule returns_bind [OF GetTSAdjacents_returns], clarsimp)
    fix adjs rt1
    assume g: "GetTSAdjacents (e_srtd e) (e_srta e) (e_ord e) (e_as e) target rt = Inr (adjs, rt1)" and ne: "adjs \<noteq> []"
    note d = GetTSAdjacents_decreases [OF g Suc.prems(1) ne]
    show "returns (go_bind (ts_first_probes (e_vps e) target adjs r2s rt1) (\<lambda>first. case first of
           None \<Rightarrow> Inr (Some S_backgroundTRS, rt1, w)
         | Some (issue, r2s1, rt2) \<Rightarrow>
             go_bind (ts_round e issue r2s1 rt2 w) (\<lambda>(l, r2s2, w1).
             go_bind (rt_LastHop (tl_revtr l)) (\<lambda>lastHop.
               case tl_revHops l (rt_Src (tl_revtr l), lastHop) of
                 None \<Rightarrow> ts_loop n e target r2s2 (tl_revtr l) w1
               | Some segments \<Rightarrow>
                   go_bind (AddSegments (e_srt e) (e_ord e) (e_cm e) segments (tl_revtr l)) (\<lambda>(added, rt3).
                     if added then after_adding e S_trToSource rt3 w1
                     else ts_loop n e target r2s2 rt3 w1)))))"
    proof (rule returns_bind [OF returns_first_probes], clarsimp split: option.split)
      fix issue r2s1 rt2
      assume f: "ts_first_probes (e_vps e) target adjs r2s rt1 = Inr (Some (issue, r2s1, rt2))"
      note fr = adjs_left_frame [OF ts_first_probes_frame [OF f], of target]
      have round: "returns (ts_round e issue r2s1 rt2 w)"
        "ts_round e issue r2s1 rt2 w = Inr (l, r2s2, w1) \<Longrightarrow> ts_frame rt2 (tl_revtr l)" for l r2s2 w1
        using ts_round_safe [of rt2 e issue r2s1 w] by (auto simp: ts_safe_def)
      show "returns (go_bind (ts_round e issue r2s1 rt2 w) (\<lambda>(l, r2s2, w1).
             go_bind (rt_LastHop (tl_revtr l)) (\<lambda>lastHop.
               case tl_revHops l (rt_Src (tl_revtr l), lastHop) of
                 None \<Rightarrow> ts_loop n e target r2s2 (tl_revtr l) w1
               | Some segments \<Rightarrow>
                   go_bind (AddSegments (e_srt e) (e_ord e) (e_cm e) segments (tl_revtr l)) (\<lambda>(added, rt3).
                     if added then after_adding e S_trToSource rt3 w1
                     else ts_loop n e target r2s2 rt3 w1))))"
      proof (rule returns_bind [OF round(1)], clarsimp, rule returns_bind [OF returns_rt(1)])
        fix l r2s2 w1 lastHop
        assume "ts_round e issue r2s1 rt2 w = Inr (l, r2s2, w1)"
        note l = adjs_left_frame [OF round(2) [OF this], of target]
        have a1: "TSHop2RateLimit (tl_revtr l) target = None" "adjs_left target (tl_revtr l) < adjs_left target rt"
          using l fr d by simp_all
        show "returns (case tl_revHops l (rt_Src (tl_revtr l), lastHop) of
                 None \<Rightarrow> ts_loop n e target r2s2 (tl_revtr l) w1
               | Some segments \<Rightarrow>
                   go_bind (AddSegments (e_srt e) (e_ord e) (e_cm e) segments (tl_revtr l)) (\<lambda>(added, rt3).
                     if added then after_adding e S_trToSource rt3 w1
                     else ts_loop n e target r2s2 rt3 w1))"
        proof (cases "tl_revHops l (rt_Src (tl_revtr l), lastHop)")
          case None
          with again [OF a1] show ?thesis by simp
        next
          case (Some segments)
          have "returns (ts_loop n e target r2s2 rt3 w1)"
            if "AddSegments (e_srt e) (e_ord e) (e_cm e) segments (tl_revtr l) = Inr (b, rt3)" for b rt3
            using AddSegments_adjs [OF e that, of target] a1 by (intro again) simp_all
          with Some show ?thesis by (auto intro!: returns_bind)
        qed
      qed
    qed
  qed
qed

section \<open>Properties\<close>

text \<open>
  C9. The endless loop of the \<open>timestamp\<close> step ends after at most 31 rounds, whatever the probes
  answer, because each round takes one adjacent of the at most thirty there are.
\<close>

theorem timestamp_ends:
  assumes "env_ok e" and "rt_LastHop rt = Inr h" and "TSHop2RateLimit rt h = None"
    and "case TSHop2AdjsLeft rt h of None \<Rightarrow> True | Some l \<Rightarrow> length l \<le> 30" and "32 \<le> n"
  shows "timestamp n e rt w \<noteq> Inl NoReturn"
proof -
  let ?rt = "upd_stats (\<lambda>s. s\<lparr>st_TSRoundCount := st_TSRoundCount s + 1\<rparr>) rt"
  have h: "rt_LastHop ?rt = Inr h" using assms(2) by (simp add: rt_LastHop_Inr)
  have "adjs_left h ?rt < n" using assms(4,5) by (auto simp: adjs_left_def split: option.splits)
  then have "returns (ts_loop n e h [] ?rt w)" using assms(1,3) by (intro ts_loop_returns) simp_all
  then have "returns (timestamp n e rt w)" unfolding timestamp_def Let_def h by simp
  then show ?thesis by (simp add: returns_def)
qed

theorem timestamp_ends_witness: "timestamp 32 ex_env ex_vp_rt () \<noteq> Inl NoReturn"
proof (rule timestamp_ends [OF ex_env_ok])
  show "rt_LastHop ex_vp_rt = Inr ''1.1.1.1''"
    by (simp add: rt_LastHop_Inr ex_path_def seg_LastHop_def)
qed (simp_all add: ex_vp_rt_def ex_rt_def CreateReverseTraceroute_def NewReverseTraceroute_def Let_def)

text \<open>
  A target that answers a timestamp probe is marked unresponsive by the handler of the answer:
  as long as it is the last hop, the timestamp step gives up on it without a probe.
\<close>

lemma timestamp_answer_marks_unresponsive:
  assumes "processTSCheckForRevHop src vp p l = Inr l'"
    and "rt_LastHop (tl_revtr l') = Inr (ip_str (p_Dst p))"
  shows "\<not> TSIsResponsive (ip_str (p_Dst p)) (tl_revtr l') \<and>
    (\<exists>rt. timestamp n e (tl_revtr l') w = Inr (Some S_backgroundTRS, rt, w))"
proof -
  let ?d = "ip_str (p_Dst p)"
  have "tsHopResponsive (tl_revtr l') ?d = Some 1"
    using assms(1)
    by (auto simp: processTSCheckForRevHop_def Let_def TSSetUnresponsive_def
        split: list.splits prod.splits if_splits)
  then have no: "\<not> TSIsResponsive ?d (tl_revtr l')" by (simp add: TSIsResponsive_def map_get_def)
  let ?rt = "upd_stats (\<lambda>s. s\<lparr>st_TSRoundCount := st_TSRoundCount s + 1\<rparr>) (tl_revtr l')"
  have "rt_LastHop ?rt = Inr ?d" using assms(2) by (simp add: rt_LastHop_Inr)
  moreover have "\<not> TSIsResponsive ?d ?rt" using no by (simp add: TSIsResponsive_def)
  ultimately show ?thesis using no by (simp add: timestamp_def Let_def)
qed

definition ex_ts_reply :: ping where
  "ex_ts_reply = \<lparr>p_Src = 0x09090909, p_Dst = 0x01010101, p_Responses = [\<lparr>prs_RR = [],
     prs_Tsandaddr = [\<lparr>ta_Ip = 0x01010101, ta_Ts = 100\<rparr>, \<lparr>ta_Ip = 0x02020202, ta_Ts = 200\<rparr>]\<rparr>],
     p_SpoofedFrom = 0\<rparr>"

lemma processTSCheckForRevHop_returns: "\<exists>l'. processTSCheckForRevHop src vp p l = Inr l'"
  by (auto simp: processTSCheckForRevHop_def Let_def split: list.splits prod.splits)

end
