(* ===== verification/Runner.thy ===== *)
theory Runner
  imports RunnerTimestamp
begin

text \<open>
  \<open>revtr/runner/revtr_runner.go\<close>: the loop \<open>run\<close> that takes a reverse traceroute from step to step until
  there is no next one or the caller cancels. \<open>n\<close> is the fuel of the loop, \<open>m\<close> that of the loops inside
  the steps. A batch runs its traceroutes as goroutines that share no traceroute; one is modelled.
\<close>

fun do_step :: "nat \<Rightarrow> 'w env \<Rightarrow> step \<Rightarrow> revtr \<Rightarrow> 'w \<Rightarrow> 'w step_result" where
  "do_step m e S_backoffEndhost rt w = backoffEndhost e rt w"
| "do_step m e S_trToSource rt w = trToSource e rt w"
| "do_step m e S_recordRoute rt w = recordRoute m e rt w"
| "do_step m e S_timestamp rt w = timestamp m e rt w"
| "do_step m e S_backgroundTRS rt w = backgroundTRS e rt w"
| "do_step m e S_assumeSymmetric rt w = assumeSymmetric e rt w"

fun run_loop :: "nat \<Rightarrow> nat \<Rightarrow> 'w env \<Rightarrow> step \<Rightarrow> revtr \<Rightarrow> 'w \<Rightarrow> (revtr \<times> 'w) go" where
  "run_loop 0 m e currStep rt w = Inl NoReturn"
| "run_loop (Suc n) m e currStep rt w =
     (if e_Done e w then Inr (rt\<lparr>StopReason := StopCanceled\<rparr>, w)
      else go_bind (do_step m e currStep rt w) (\<lambda>(nxt, rt1, w1).
        case nxt of None \<Rightarrow> Inr (rt1, w1) | Some s \<Rightarrow> run_loop n m e s rt1 w1))"

text \<open>\<open>run\<close> starts with \<open>initialStep\<close>, itself a step: it names the first one and does nothing else.\<close>

definition run :: "nat \<Rightarrow> nat \<Rightarrow> 'w env \<Rightarrow> revtr \<Rightarrow> 'w \<Rightarrow> (revtr \<times> 'w) go" where
  "run n m e rt w =
     (if e_Done e w then Inr (rt\<lparr>StopReason := StopCanceled\<rparr>, w)
      else run_loop n m e (initialStep rt) rt w)"

section \<open>How a run ends: facts\<close>

definition reached :: "cluster_map \<Rightarrow> revtr \<Rightarrow> bool" where
  "reached cm rt \<longleftrightarrow> Paths rt \<noteq> [] \<and> rp_Path (last (Paths rt)) \<noteq> [] \<and> seg_Reaches cm (last (rp_Path (last (Paths rt))))"

definition done_ok :: "cluster_map \<Rightarrow> revtr \<Rightarrow> bool" where
  "done_ok cm rt \<longleftrightarrow> StopReason rt = StopFailed \<and> is_failed rt \<and> (has_onFail rt \<longrightarrow> onFailOnce rt) \<or>
     (StopReason rt = StopReaches \<or> StopReason rt = StopTrivial) \<and> reached cm rt"

text \<open>A step that names no next one has finished the traceroute.\<close>

definition ends :: "cluster_map \<Rightarrow> 'w step_result \<Rightarrow> bool" where
  "ends cm r \<longleftrightarrow> (\<forall>rt w. r = Inr (None, rt, w) \<longrightarrow> done_ok cm rt)"

lemma ends_Inl [simp]: "ends cm (Inl p)"
  by (simp add: ends_def)

lemma ends_Some [simp]: "ends cm (Inr (Some s, rt, w))"
  by (simp add: ends_def)

lemma ends_bind: "(\<And>x. m = Inr x \<Longrightarrow> ends cm (f x)) \<Longrightarrow> ends cm (go_bind m f)"
  by (cases m) auto

lemma rp_Reaches_Inr:
  "rp_Reaches cm rp = Inr b \<longleftrightarrow> rp_Path rp \<noteq> [] \<and> b = seg_Reaches cm (last (rp_Path rp))"
  by (cases "rp_Path rp = []") (auto simp: rp_Reaches_def)

lemma rt_Reaches_Inr:
  "rt_Reaches cm rt = Inr (b, rt') \<Longrightarrow>
     (b \<longrightarrow> reached cm rt \<and> rt' = call_onReach (rt\<lparr>StopReason := StopReaches\<rparr>)) \<and> (\<not> b \<longrightarrow> rt' = rt)"
  by (auto simp: rt_Reaches_def go_simps CurrPath_Inr reached_def rp_Reaches_Inr split: if_splits)

lemma reached_cong: "Paths rt' = Paths rt \<Longrightarrow> reached cm rt' = reached cm rt"
  by (simp add: reached_def)

lemma rt_Reaches_True: "rt_Reaches cm rt = Inr (True, rt') \<Longrightarrow> done_ok cm rt'"
  using rt_Reaches_Inr [of cm rt True rt'] by (auto simp: done_ok_def reached_def)

lemma is_failed_cong: "Paths rt' = Paths rt \<Longrightarrow> BackoffEndhost rt' = BackoffEndhost rt \<Longrightarrow> is_failed rt' = is_failed rt"
  by (simp add: is_failed_def rt_len_def)

lemma ends_finish_with_trace: "ends (e_cm e) (finish_with_trace e msg tr rt w)"
  unfolding finish_with_trace_def Let_def
  by (auto intro!: ends_bind split: prod.splits) (auto simp: ends_def dest: rt_Reaches_True)

lemma ends_trToSource: "ends (e_cm e) (trToSource e rt w)"
  unfolding trToSource_def Let_def
  by (auto intro!: ends_bind ends_finish_with_trace split: prod.splits sum.splits)

lemma ends_backgroundTRS: "ends (e_cm e) (backgroundTRS e rt w)"
  unfolding backgroundTRS_def Let_def
  by (auto intro!: ends_bind ends_finish_with_trace split: prod.splits sum.splits)

lemma ends_checkbgTRs: "ends (e_cm e) (checkbgTRs e nxt rt w)"
  unfolding checkbgTRs_def
  using ends_backgroundTRS [of e rt w] by (auto simp: ends_def go_simps split: option.splits)

lemma ends_after_adding: "ends (e_cm e) (after_adding e nxt rt w)"
  unfolding after_adding_def
  by (auto intro!: ends_bind ends_checkbgTRs split: prod.splits) (auto simp: ends_def dest: rt_Reaches_True)

lemma ends_reach_or_restart: "ends (e_cm e) (reach_or_restart e rt w)"
  unfolding reach_or_restart_def
  by (auto intro!: ends_bind) (auto simp: ends_def dest: rt_Reaches_True)

lemma ends_fail_or_restart: "ends cm (fail_or_restart reason rt w)"
  unfolding fail_or_restart_def
  by (intro ends_bind) (auto simp: rt_Failed_cases ends_def done_ok_def is_failed_def rt_len_def call_onFail_def split: if_splits)

lemma ends_rr_plain: "(\<And>rt w. ends (e_cm e) (again rt w)) \<Longrightarrow> ends (e_cm e) (rr_plain again e target rt w)"
  unfolding rr_plain_def Let_def
  by (intro ends_bind) (auto intro!: ends_bind ends_after_adding split: prod.splits sum.splits)

lemma ends_rr_spoofed:
  assumes "\<And>rt w. ends (e_cm e) (again rt w)"
  shows "ends (e_cm e) (rr_spoofed again e vps target rt w)"
  unfolding rr_spoofed_def Let_def prod.case_eq_if
  by (intro ends_bind) (simp add: assms ends_bind ends_after_adding)

lemma ends_rr_loop: "ends (e_cm e) (rr_loop n e rt w)"
proof (induction n arbitrary: rt w)
  case (Suc n)
  show ?case
    unfolding rr_loop.simps
    by (intro ends_bind) (simp add: prod.case_eq_if ends_rr_plain ends_rr_spoofed Suc)
qed simp

lemma ends_ts_loop: "ends (e_cm e) (ts_loop n e target r2s rt w)"
proof (induction n arbitrary: r2s rt w)
  case (Suc n)
  show ?case
    unfolding ts_loop.simps
    by (intro ends_bind)
      (auto simp: Suc intro!: ends_bind ends_after_adding split: prod.splits option.splits)
qed simp

lemma ends_assumeSymmetric: "ends (e_cm e) (assumeSymmetric e rt w)"
  unfolding assumeSymmetric_def extend_symmetric_def Let_def
  by (auto intro!: ends_bind ends_reach_or_restart ends_fail_or_restart split: prod.splits sum.splits)

lemma ends_backoffEndhost: "ends (e_cm e) (backoffEndhost e rt w)"
proof -
  have "done_ok (e_cm e) (if reaches then rt2\<lparr>StopReason := StopTrivial\<rparr> else rt2)"
    if "done_ok (e_cm e) rt1" "rt_Reaches (e_cm e) rt1 = Inr (reaches, rt2)" for rt1 reaches rt2
    using that rt_Reaches_Inr [OF that(2)] by (auto simp: done_ok_def reached_def)
  note trivial = this
  show ?thesis
    unfolding backoffEndhost_def ends_def
  proof (intro allI impI)
    fix rt' w'
    assume "go_bind (assumeSymmetric e rt w) (\<lambda>(nxt, rt1, w1). go_bind (rt_Reaches (e_cm e) rt1) (\<lambda>(reaches, rt2).
        Inr (nxt, if reaches then rt2\<lparr>StopReason := StopTrivial\<rparr> else rt2, w1))) = Inr (None, rt', w')"
    then obtain rt1 reaches rt2 where s: "assumeSymmetric e rt w = Inr (None, rt1, w')"
      "rt_Reaches (e_cm e) rt1 = Inr (reaches, rt2)" "rt' = (if reaches then rt2\<lparr>StopReason := StopTrivial\<rparr> else rt2)"
      by (auto simp: go_simps)
    then have "done_ok (e_cm e) rt1" using ends_assumeSymmetric [of e rt w] by (simp add: ends_def)
    from trivial [OF this s(2)] show "done_ok (e_cm e) rt'" unfolding s(3) .
  qed
qed

lemma ends_do_step: "ends (e_cm e) (do_step m e s rt w)"
  by (cases s) (simp_all add: ends_backoffEndhost ends_trToSource ends_backgroundTRS ends_assumeSymmetric
    recordRoute_def ends_rr_loop timestamp_def Let_def ends_bind ends_ts_loop)

lemma run_loop_done:
  "run_loop n m e s rt w = Inr (rt', w') \<Longrightarrow> StopReason rt' = StopCanceled \<or> done_ok (e_cm e) rt'"
proof (induction n arbitrary: s rt w)
  case (Suc n)
  show ?case
  proof (cases "e_Done e w")
    case False
    with Suc.prems obtain nxt rt1 w1 where s: "do_step m e s rt w = Inr (nxt, rt1, w1)"
      "(case nxt of None \<Rightarrow> Inr (rt1, w1) | Some s \<Rightarrow> run_loop n m e s rt1 w1) = Inr (rt', w')"
      by (auto simp: go_simps)
    show ?thesis
    proof (cases nxt)
      case None
      with s ends_do_step [of e m s rt w] show ?thesis by (simp add: ends_def)
    next
      case (Some s')
      with s Suc.IH show ?thesis by simp
    qed
  qed (use Suc.prems in auto)
qed simp

section \<open>Properties\<close>

text \<open>
  C3. A run that returns has a stop reason, and the reason is true: it was cancelled, or it has failed
  (no path is left, or only the destination while backing off), or the last segment of its current path
  reaches the source. No step can end a run in any other way.
\<close>

theorem run_stop_reason_true:
  assumes "run n m e rt w = Inr (rt', w')"
  shows "StopReason rt' = StopCanceled \<or> StopReason rt' = StopFailed \<and> is_failed rt' \<or>
    (StopReason rt' = StopReaches \<or> StopReason rt' = StopTrivial) \<and> Paths rt' \<noteq> [] \<and>
      rp_Path (last (Paths rt')) \<noteq> [] \<and> seg_Reaches (e_cm e) (last (rp_Path (last (Paths rt'))))"
proof (cases "e_Done e w")
  case False
  with assms have "run_loop n m e (initialStep rt) rt w = Inr (rt', w')" by (simp add: run_def)
  from run_loop_done [OF this] show ?thesis by (auto simp: done_ok_def reached_def)
qed (use assms in \<open>auto simp: run_def\<close>)

lemma ex_run:
  "(case run 10 3 ex_env (ex_rt [ex_path_a]) () of Inr (rt', _) \<Rightarrow> StopReason rt' = StopFailed | _ \<Rightarrow> False)"
  by code_simp

theorem run_stop_reason_true_witness:
  "\<exists>rt' w'. run 10 3 ex_env (ex_rt [ex_path_a]) () = Inr (rt', w') \<and> StopReason rt' = StopFailed \<and> is_failed rt'"
proof -
  obtain rt' w' where r: "run 10 3 ex_env (ex_rt [ex_path_a]) () = Inr (rt', w')" "StopReason rt' = StopFailed"
    using ex_run by (auto split: sum.splits)
  from run_stop_reason_true [OF r(1)] r show ?thesis by auto
qed

end
