(* ===== verification/ClusterMap.thy ===== *)
theory ClusterMap
  imports StringUtil
begin

text \<open>
  \<open>revtr/clustermap/cluster_map.go\<close>: the alias cluster of an address, looked up in a cluster source
  (the database) through a cache. The cache interface is \<open>types.Cache\<close> of \<open>revtr/types/types.go\<close>;
  its provider is the vendored \<open>go-cache\<close>, whose entries expire. The other components of the reverse
  traceroute use the cluster map as a function from address to cluster; the theorem of this theory
  says when it is one.
\<close>

section \<open>The cache interface\<close>

text \<open>
  A cache may forget, but what it answers for a key is what was stored last under that key. Each
  operation happens at a time.
\<close>

locale forgetful_cache =
  fixes get :: "int \<Rightarrow> 'k \<Rightarrow> 'c \<Rightarrow> 'v option"
    and put :: "int \<Rightarrow> 'k \<Rightarrow> 'v \<Rightarrow> 'c \<Rightarrow> 'c"
  assumes get_put_same: "get t' k (put t k v c) = Some w \<Longrightarrow> w = v"
    and get_put_other: "k \<noteq> k' \<Longrightarrow> get t' k' (put t k v c) = get t' k' c"
begin

lemma put_keeps:
  assumes "\<And>t k v. get t k c = Some v \<Longrightarrow> P k v" and "P k v"
  shows "get t' k' (put t k v c) = Some w \<Longrightarrow> P k' w"
  using assms get_put_same get_put_other by (cases "k = k'") metis+

end

section \<open>go-cache\<close>

record 'v go_item =
  Object :: 'v
  Expiration :: int

type_synonym 'v go_cache = "string \<rightharpoonup> 'v go_item"

text \<open>
  Times are in nanoseconds. A positive duration gives the entry an expiration, a negative one means
  that it never expires, zero stands for the default of the cache.
\<close>

definition cache_Set :: "int \<Rightarrow> int \<Rightarrow> string \<Rightarrow> 'v \<Rightarrow> int \<Rightarrow> 'v go_cache \<Rightarrow> 'v go_cache" where
  "cache_Set dflt now k x d c =
     (let d' = (if d = 0 then dflt else d);
          e = (if d' > 0 then now + d' else 0)
      in c(k \<mapsto> \<lparr>Object = x, Expiration = e\<rparr>))"

definition cache_Get :: "int \<Rightarrow> string \<Rightarrow> 'v go_cache \<Rightarrow> 'v option" where
  "cache_Get now k c = (case c k of None \<Rightarrow> None
     | Some item \<Rightarrow> if Expiration item > 0 \<and> now > Expiration item then None else Some (Object item))"

definition six_hours :: int where
  "six_hours = 6 * 3600 * 1000000000"

interpretation gc: forgetful_cache cache_Get "\<lambda>now k x. cache_Set dflt now k x six_hours"
  by unfold_locales (auto simp: cache_Get_def cache_Set_def Let_def split: option.splits if_splits)

section \<open>The cluster map\<close>

text \<open>The cluster source: \<open>GetClusterIDByIP\<close>, with \<open>None\<close> for an error.\<close>

type_synonym cluster_source = "uint32 \<Rightarrow> int option"

definition show_int :: "int \<Rightarrow> string" where
  "show_int i = (if i < 0 then CHR ''-'' # show_nat (nat (- i)) else show_nat (nat i))"

definition fetchCluster ::
    "cluster_source \<Rightarrow> int \<Rightarrow> int \<Rightarrow> string \<Rightarrow> string go_cache \<Rightarrow> (string \<times> string go_cache) go" where
  "fetchCluster cs dflt now s ca =
     go_bind (ip_int s) (\<lambda>ipint.
       (case cs ipint of
          None \<Rightarrow> Inr (s, cache_Set dflt now (''CM_'' @ s) s six_hours ca)
        | Some cluster \<Rightarrow>
            (let clusters = show_int cluster
             in Inr (clusters, cache_Set dflt now (''CM_'' @ s) clusters six_hours ca))))"

definition ClusterMap_Get ::
    "cluster_source \<Rightarrow> int \<Rightarrow> int \<Rightarrow> string \<Rightarrow> string go_cache \<Rightarrow> (string \<times> string go_cache) go" where
  "ClusterMap_Get cs dflt now s ca =
     (case cache_Get now (''CM_'' @ s) ca of
        None \<Rightarrow> fetchCluster cs dflt now s ca
      | Some item \<Rightarrow> Inr (item, ca))"

text \<open>The specification: the cluster of an address as a function of the source alone.\<close>

definition cluster_of :: "cluster_source \<Rightarrow> string \<Rightarrow> string go" where
  "cluster_of cs s = go_bind (ip_int s) (\<lambda>i. case cs i of None \<Rightarrow> Inr s | Some c \<Rightarrow> Inr (show_int c))"

text \<open>A run of lookups at given times, and the same run against the specification.\<close>

fun cluster_run ::
    "cluster_source \<Rightarrow> int \<Rightarrow> string go_cache \<Rightarrow> (int \<times> string) list \<Rightarrow> (string list) go" where
  "cluster_run cs dflt ca [] = Inr []"
| "cluster_run cs dflt ca ((now, s) # reqs) =
     go_bind (ClusterMap_Get cs dflt now s ca) (\<lambda>(c, ca').
     go_bind (cluster_run cs dflt ca' reqs) (\<lambda>rs. Inr (c # rs)))"

fun cluster_spec :: "cluster_source \<Rightarrow> string list \<Rightarrow> (string list) go" where
  "cluster_spec cs [] = Inr []"
| "cluster_spec cs (s # ss) =
     go_bind (cluster_of cs s) (\<lambda>c. go_bind (cluster_spec cs ss) (\<lambda>rs. Inr (c # rs)))"

definition coherent :: "cluster_source \<Rightarrow> string go_cache \<Rightarrow> bool" where
  "coherent cs ca \<longleftrightarrow> (\<forall>now s v. cache_Get now (''CM_'' @ s) ca = Some v \<longrightarrow> cluster_of cs s = Inr v)"

lemma coherent_empty: "coherent cs Map.empty"
  by (simp add: coherent_def cache_Get_def)

lemma coherent_Set:
  assumes "coherent cs ca" and "cluster_of cs s = Inr v"
  shows "coherent cs (cache_Set dflt now (''CM_'' @ s) v six_hours ca)"
  unfolding coherent_def
proof (intro allI impI)
  fix now' s' w
  assume get: "cache_Get now' (''CM_'' @ s') (cache_Set dflt now (''CM_'' @ s) v six_hours ca) = Some w"
  have old: "\<forall>s. k = ''CM_'' @ s \<longrightarrow> cluster_of cs s = Inr v" if "cache_Get t k ca = Some v" for t k v
    using that assms(1) unfolding coherent_def by blast
  show "cluster_of cs s' = Inr w"
    using gc.put_keeps [where P = "\<lambda>k v. \<forall>s. k = ''CM_'' @ s \<longrightarrow> cluster_of cs s = Inr v",
        OF old _ get] assms(2) by auto
qed

lemma ClusterMap_Get_spec:
  assumes "coherent cs ca"
  shows "go_bind (ClusterMap_Get cs dflt now s ca) (\<lambda>(c, ca'). Inr c) = cluster_of cs s"
    and "ClusterMap_Get cs dflt now s ca = Inr (c, ca') \<Longrightarrow> coherent cs ca'"
proof -
  have hit: "cluster_of cs s = Inr v" if "cache_Get now (''CM_'' @ s) ca = Some v" for v
    using that assms unfolding coherent_def by blast
  have miss: "(\<exists>e. fetchCluster cs dflt now s ca = Inl e \<and> cluster_of cs s = Inl e) \<or>
      (\<exists>v. fetchCluster cs dflt now s ca = Inr (v, cache_Set dflt now (''CM_'' @ s) v six_hours ca) \<and>
        cluster_of cs s = Inr v)"
    by (cases "ip_int s") (auto simp: fetchCluster_def cluster_of_def Let_def split: option.splits)
  show "go_bind (ClusterMap_Get cs dflt now s ca) (\<lambda>(c, ca'). Inr c) = cluster_of cs s"
    using hit miss unfolding ClusterMap_Get_def by (cases "cache_Get now (''CM_'' @ s) ca") auto
  show "coherent cs ca'" if "ClusterMap_Get cs dflt now s ca = Inr (c, ca')"
    using hit miss that assms unfolding ClusterMap_Get_def
    by (cases "cache_Get now (''CM_'' @ s) ca") (auto intro: coherent_Set [simplified])
qed

lemma cluster_run_coherent:
  "coherent cs ca \<Longrightarrow> cluster_run cs dflt ca reqs = cluster_spec cs (map snd reqs)"
proof (induction reqs arbitrary: ca)
  case Nil
  then show ?case by simp
next
  case (Cons req reqs)
  obtain now s where req: "req = (now, s)" by (cases req)
  note spec = ClusterMap_Get_spec [OF Cons.prems, of dflt now s]
  show ?case
  proof (cases "ClusterMap_Get cs dflt now s ca")
    case (Inl e)
    with spec(1) have "cluster_of cs s = Inl e" by simp
    with Inl show ?thesis by (simp add: req)
  next
    case (Inr r)
    obtain c ca' where r: "r = (c, ca')" by (cases r)
    have "cluster_of cs s = Inr c" using spec(1) Inr r by simp
    moreover have "coherent cs ca'" using spec(2) Inr r by simp
    ultimately show ?thesis using Inr r Cons.IH by (simp add: req)
  qed
qed

text \<open>
  With a cluster source that does not change, \<open>ClusterMap.Get\<close> is a function of the address:
  whatever lookups were made before, at whatever times and with whatever expirations, each answer is
  the cluster of the address in the source, and the address itself where the source has none.
\<close>

lemma cluster_map_is_function:
  "cluster_run cs dflt Map.empty reqs = cluster_spec cs (map snd reqs)"
  by (rule cluster_run_coherent [OF coherent_empty])

end
