(* ===== verification/Quarantine.thy ===== *)
theory Quarantine
  imports PbTypes
begin

text \<open>
  \<open>vpservice/types/types.go\<close>: the quarantines of vantage points. A \<open>time.Duration\<close> is a signed 64 bit
  number of nanoseconds, a \<open>time.Time\<close> the number of nanoseconds since the zero time, unbounded. What the
  code takes from its surroundings are parameters: the clock, \<open>rand.Int63n\<close> where it does not panic, and
  the value a conversion of a floating point number beyond 64 bits has on the machine.
\<close>

type_synonym duration = int64
type_synonym go_time = int

section \<open>Reasons\<close>

type_synonym quarantine_reason = int

definition CantPerformMeasurement :: quarantine_reason where "CantPerformMeasurement = 1"
definition Manual :: quarantine_reason where "Manual = 2"
definition FlipFlop :: quarantine_reason where "FlipFlop = 3"
definition DownTooLong :: quarantine_reason where "DownTooLong = 4"
definition CantRunCode :: quarantine_reason where "CantRunCode = 5"

lemmas reasons = CantPerformMeasurement_def Manual_def FlipFlop_def DownTooLong_def CantRunCode_def

definition reasonToDesc :: "(quarantine_reason \<times> string) list" where
  "reasonToDesc =
     [(CantPerformMeasurement, ''VP can not perform any measurements''),
      (Manual, ''VP was manually quarantined''),
      (FlipFlop, ''VP switches between down and up too often''),
      (DownTooLong, ''VP is down too long in the specified interval''),
      (CantRunCode, ''VP cannot run the measurement code'')]"

definition descToReason :: "(string \<times> quarantine_reason) list" where
  "descToReason =
     [(''VP can not perform any measurements'', CantPerformMeasurement),
      (''VP was manually quarantined'', Manual),
      (''VP switches between down and up too often'', FlipFlop),
      (''VP is down too long in the specified interval'', DownTooLong),
      (''VP cannot run the measurement code'', CantRunCode)]"

definition reason_MarshalJSON :: "quarantine_reason \<Rightarrow> string option" where
  "reason_MarshalJSON qr =
     (if qr = 0 then Some []
      else case map_of reasonToDesc qr of Some str \<Rightarrow> Some (CHR 0x22 # str @ [CHR 0x22]) | None \<Rightarrow> None)"

definition reason_UnmarshalJSON :: "string \<Rightarrow> quarantine_reason option go" where
  "reason_UnmarshalJSON i =
     go_bind (go_slice i 1 (int (length i))) (\<lambda>useStr.
     go_bind (go_slice useStr 0 (int (length useStr) - 1)) (\<lambda>useStr.
       Inr (map_of descToReason useStr)))"

text \<open>Every reason the code gives comes back; 0 becomes nothing, which cannot be read.\<close>

lemma reason_roundtrip:
  "1 \<le> r \<Longrightarrow> r \<le> 5 \<Longrightarrow> \<exists>s. reason_MarshalJSON r = Some s \<and> reason_UnmarshalJSON s = Inr (Some r)"
proof -
  assume "1 \<le> r" and "r \<le> 5"
  then have "r \<in> {1, 2, 3, 4, 5}" by auto
  moreover have "\<exists>d. map_of reasonToDesc k = Some d \<and> map_of descToReason d = Some k" if "k \<in> {1, 2, 3, 4, 5}" for k
    using that by (auto simp: reasonToDesc_def descToReason_def reasons)
  ultimately obtain d where "map_of reasonToDesc r = Some d" "map_of descToReason d = Some r" by blast
  then show ?thesis using \<open>1 \<le> r\<close>
    by (auto simp: reason_MarshalJSON_def reason_UnmarshalJSON_def go_slice_def)
qed

lemma reason_zero_unreadable: "reason_MarshalJSON 0 = Some [] \<and> reason_UnmarshalJSON [] = Inl SliceOutOfRange"
  by (simp add: reason_MarshalJSON_def reason_UnmarshalJSON_def go_slice_def)

section \<open>Quarantines\<close>

datatype quarantine_class = Q_default | Q_manual | Q_mostly_down

record quarantine =
  q_class :: quarantine_class
  q_VP :: vantage_point
  q_Reason :: quarantine_reason
  q_Attempt :: int64
  q_LastAttempt :: go_time
  q_Backoff :: go_time
  q_InitialBackoff :: duration
  q_Multiplier :: int64
  q_MaxBackoff :: duration
  q_NextInitialBackoff :: duration
  q_Expire :: go_time
  q_CurrentBackoff :: duration

fun quarantine_Type :: "quarantine_class \<Rightarrow> string" where
  "quarantine_Type Q_default = ''DEFAULT''"
| "quarantine_Type Q_manual = ''MANUAL''"
| "quarantine_Type Q_mostly_down = ''MOSTLYDOWN''"

definition hour :: duration where
  "hour = 3600000000000"

definition new_quarantine :: "quarantine_class \<Rightarrow> quarantine_reason \<Rightarrow> duration \<Rightarrow> go_time \<Rightarrow> vantage_point
    \<Rightarrow> quarantine option \<Rightarrow> quarantine" where
  "new_quarantine cls reason initial now vp prev =
     (let ib = (case prev of
                  Some p \<Rightarrow> if quarantine_Type (q_class p) = ''DEFAULT'' \<and> q_CurrentBackoff p <s initial
                             then q_CurrentBackoff p else initial
                | None \<Rightarrow> initial)
      in \<lparr>q_class = cls, q_VP = vp, q_Reason = reason, q_Attempt = 0, q_LastAttempt = 0, q_Backoff = now + sint ib,
          q_InitialBackoff = ib, q_Multiplier = 2, q_MaxBackoff = hour * 24 * 7, q_NextInitialBackoff = hour * 24,
          q_Expire = 0, q_CurrentBackoff = ib\<rparr>)"

definition NewDefaultQuarantine :: "go_time \<Rightarrow> vantage_point \<Rightarrow> quarantine option \<Rightarrow> quarantine_reason \<Rightarrow> quarantine" where
  "NewDefaultQuarantine now vp prev reason = new_quarantine Q_default reason (hour * 24) now vp prev"

definition NewMDQuarantine :: "go_time \<Rightarrow> vantage_point \<Rightarrow> quarantine option \<Rightarrow> quarantine" where
  "NewMDQuarantine now vp prev = new_quarantine Q_mostly_down DownTooLong (hour * 24 * 3 + 12 * hour) now vp prev"

definition NewManualQuarantine :: "vantage_point \<Rightarrow> go_time \<Rightarrow> quarantine" where
  "NewManualQuarantine vp exp =
     \<lparr>q_class = Q_manual, q_VP = vp, q_Reason = Manual, q_Attempt = 0, q_LastAttempt = 0, q_Backoff = 0,
      q_InitialBackoff = 0, q_Multiplier = 0, q_MaxBackoff = 0, q_NextInitialBackoff = 0, q_Expire = exp,
      q_CurrentBackoff = 0\<rparr>"

definition Expired :: "quarantine \<Rightarrow> go_time \<Rightarrow> bool" where
  "Expired q now = (if q_Expire q = 0 then False else q_Expire q < now \<or> q_Expire q = now)"

definition Elapsed :: "quarantine \<Rightarrow> go_time \<Rightarrow> bool" where
  "Elapsed q now = (if q_class q = Q_manual then False else q_Backoff q < now \<or> q_Backoff q = now)"

text \<open>
  \<open>int(math.Pow(float64(x), float64(y)))\<close>. Powers of two, the only ones the code takes, are exact; a
  result beyond 64 bits is \<open>oor\<close>.
\<close>

definition power_int :: "int64 \<Rightarrow> int64 \<Rightarrow> int64 \<Rightarrow> int64" where
  "power_int oor x y =
     (if 0 \<le> sint y then
        (let v = sint x ^ nat (sint y) in if v < - (2 ^ 63) \<or> 2 ^ 63 \<le> v then oor else word_of_int v)
      else if x = 0 then oor
      else if x = 1 \<or> x = - 1 then word_of_int (sint x ^ nat (- sint y)) else 0)"

record quar_env =
  qe_oor :: int64
  qe_rand :: "int64 \<Rightarrow> int64"

definition Int63n :: "quar_env \<Rightarrow> int64 \<Rightarrow> int64 go" where
  "Int63n env n = (if n \<le>s 0 then Inl InvalidArgument else Inr (qe_rand env n))"

definition NextBackoff :: "quar_env \<Rightarrow> go_time \<Rightarrow> quarantine \<Rightarrow> (go_time \<times> quarantine) go" where
  "NextBackoff env now q =
     (if q_class q = Q_manual then Inr (q_Expire q, q)
      else
        let q = q\<lparr>q_Attempt := q_Attempt q + 1\<rparr>;
            bk = q_InitialBackoff q * power_int (qe_oor env) (q_Multiplier q) (q_Attempt q);
            maxBack = (if q_MaxBackoff q <s bk then q_MaxBackoff q else bk)
        in go_bind (Int63n env maxBack) (\<lambda>r.
           let cur = r + q_InitialBackoff q; q = q\<lparr>q_CurrentBackoff := cur, q_Backoff := now + sint cur\<rparr>
           in Inr (q_Backoff q, q)))"

text \<open>A quarantine whose node is found down again and again, at the times given.\<close>

fun backoffs :: "quar_env \<Rightarrow> go_time list \<Rightarrow> quarantine \<Rightarrow> quarantine go" where
  "backoffs env [] q = Inr q"
| "backoffs env (t # ts) q = go_bind (NextBackoff env t q) (\<lambda>(_, q'). backoffs env ts q')"

text \<open>What package rand promises: \<open>Int63n(n)\<close> is at least 0 and less than n.\<close>

definition rand_ok :: "quar_env \<Rightarrow> bool" where
  "rand_ok env \<longleftrightarrow> (\<forall>n. 0 <s n \<longrightarrow> 0 \<le>s qe_rand env n \<and> qe_rand env n <s n)"

section \<open>How far the backoff grows\<close>

lemma sint_of_int64: "- (2 ^ 63) \<le> v \<Longrightarrow> v < 2 ^ 63 \<Longrightarrow> sint (word_of_int v :: int64) = v"
  by (simp add: sint_sbintrunc' signed_take_bit_int_eq_self)

lemma int64_range: "- (2 ^ 63) \<le> sint (w :: int64) \<and> sint w < 2 ^ 63"
  using sint_range_size [of w] by (simp add: word_size)

lemma sint_add64:
  assumes "- (2 ^ 63) \<le> sint a + sint b" and "sint a + sint b < 2 ^ 63"
  shows "sint (a + b :: int64) = sint a + sint b"
proof -
  have "a + b = word_of_int (sint a + sint b)" by simp
  then show ?thesis using sint_of_int64 [OF assms] by metis
qed

lemma sless_sint: "(a :: int64) <s b \<longleftrightarrow> sint a < sint b" "a \<le>s b \<longleftrightarrow> sint a \<le> sint b"
  by (simp_all add: word_sless_alt word_sle_eq)

lemma power_int_two:
  assumes "0 \<le> sint y" and "sint y \<le> 62"
  shows "power_int oor 2 y = word_of_int (2 ^ nat (sint y))"
proof -
  have "(2::int) ^ nat (sint y) \<le> 2 ^ 62" using assms by (intro power_increasing) auto
  moreover have "\<not> (2::int) ^ nat (sint y) < - (2 ^ 63)" by (smt (verit) zero_less_power)
  moreover have "sint (2 :: int64) = 2" by simp
  ultimately show ?thesis using assms by (simp add: power_int_def Let_def not_le)
qed

text \<open>The parameters of every quarantine that backs off.\<close>

definition backing_off :: "quarantine \<Rightarrow> bool" where
  "backing_off q \<longleftrightarrow> q_class q \<noteq> Q_manual \<and> q_Multiplier q = 2 \<and> 0 < sint (q_InitialBackoff q) \<and> 0 < sint (q_MaxBackoff q) \<and>
     sint (q_InitialBackoff q) + sint (q_MaxBackoff q) < 2 ^ 63 \<and> 0 \<le> sint (q_Attempt q) \<and> sint (q_Attempt q) < 62"

lemma attempt_plus_one:
  assumes "backing_off q"
  shows "sint (q_Attempt q + 1) = sint (q_Attempt q) + 1"
  using sint_add64 [of "q_Attempt q" 1] assms by (simp add: backing_off_def)

definition next_factor :: "quarantine \<Rightarrow> int" where
  "next_factor q = 2 ^ (nat (sint (q_Attempt q)) + 1)"

lemma next_power:
  assumes "backing_off q"
  shows "power_int oor (q_Multiplier q) (q_Attempt q + 1) = word_of_int (next_factor q)"
proof -
  have "0 \<le> sint (q_Attempt q)" using assms by (simp add: backing_off_def)
  then have "nat (sint (q_Attempt q) + 1) = nat (sint (q_Attempt q)) + 1" by simp
  then show ?thesis
    using assms power_int_two [of "q_Attempt q + 1" oor]
    by (simp add: attempt_plus_one [OF assms] backing_off_def next_factor_def)
qed

lemma next_back:
  assumes "backing_off q"
  shows "q_InitialBackoff q * power_int oor (q_Multiplier q) (q_Attempt q + 1) =
    word_of_int (sint (q_InitialBackoff q) * next_factor q)"
  by (simp add: next_power [OF assms] of_int_sint wi_hom_mult [symmetric])

lemma next_backoff_ok:
  assumes r: "rand_ok env" and b: "backing_off q" and fits: "sint (q_InitialBackoff q) * next_factor q < 2 ^ 63"
  shows "\<exists>cur. NextBackoff env now q = Inr (now + sint cur,
      q\<lparr>q_Attempt := q_Attempt q + 1, q_CurrentBackoff := cur, q_Backoff := now + sint cur\<rparr>) \<and>
    sint (q_InitialBackoff q) \<le> sint cur \<and>
    sint cur < sint (q_InitialBackoff q) + min (sint (q_MaxBackoff q)) (sint (q_InitialBackoff q) * next_factor q)"
proof -
  let ?i = "sint (q_InitialBackoff q)" and ?m = "sint (q_MaxBackoff q)"
  define bk where "bk = (word_of_int (?i * next_factor q) :: int64)"
  have nm: "q_class q \<noteq> Q_manual" using b by (simp add: backing_off_def)
  have bk: "q_InitialBackoff q * power_int (qe_oor env) (q_Multiplier q) (q_Attempt q + 1) = bk"
    unfolding bk_def by (rule next_back [OF b])
  have f: "1 \<le> next_factor q" unfolding next_factor_def by (rule one_le_power) simp
  have pos: "0 < ?i" "0 < ?m" using b by (auto simp: backing_off_def)
  then have ge: "0 < ?i * next_factor q" using f by simp
  have sb: "sint bk = ?i * next_factor q"
    unfolding bk_def using fits ge by (intro sint_of_int64) auto
  define mx where "mx = (if q_MaxBackoff q <s bk then q_MaxBackoff q else bk)"
  have smx: "sint mx = min ?m (?i * next_factor q)" by (auto simp: mx_def sless_sint sb)
  define r' where "r' = qe_rand env mx"
  have "0 <s mx" using smx pos ge by (simp add: sless_sint)
  then have rr: "0 \<le> sint r'" "sint r' < sint mx" and i63: "Int63n env mx = Inr r'"
    using r by (auto simp: rand_ok_def r'_def sless_sint Int63n_def)
  have "- (2 ^ 63) \<le> sint r' + ?i" "sint r' + ?i < 2 ^ 63"
    using rr smx b pos by (auto simp: backing_off_def)
  then have s: "sint (r' + q_InitialBackoff q) = sint r' + ?i" by (rule sint_add64)
  have "NextBackoff env now q = Inr (now + sint (r' + q_InitialBackoff q),
      q\<lparr>q_Attempt := q_Attempt q + 1, q_CurrentBackoff := r' + q_InitialBackoff q, q_Backoff := now + sint (r' + q_InitialBackoff q)\<rparr>)"
    using nm i63 by (cases "q_MaxBackoff q <s bk") (simp_all add: NextBackoff_def Let_def bk mx_def)
  then show ?thesis using s rr smx by (intro exI [of _ "r' + q_InitialBackoff q"]) auto
qed

lemma next_backoff_overflow:
  assumes b: "backing_off q" and "2 ^ 63 \<le> sint (q_InitialBackoff q) * next_factor q"
    and "sint (q_InitialBackoff q) * next_factor q \<le> 2 ^ 64"
  shows "NextBackoff env now q = Inl InvalidArgument"
proof -
  let ?v = "sint (q_InitialBackoff q) * next_factor q"
  define bk where "bk = (word_of_int ?v :: int64)"
  have nm: "q_class q \<noteq> Q_manual" using b by (simp add: backing_off_def)
  have bk: "q_InitialBackoff q * power_int (qe_oor env) (q_Multiplier q) (q_Attempt q + 1) = bk"
    unfolding bk_def by (rule next_back [OF b])
  have "bk = word_of_int (?v - 2 ^ 64)" by (simp add: bk_def word_of_int_eq_iff take_bit_eq_mod)
  moreover have "sint (word_of_int (?v - 2 ^ 64) :: int64) = ?v - 2 ^ 64" using assms by (intro sint_of_int64) auto
  ultimately have s: "sint bk = ?v - 2 ^ 64" by simp
  then have neg: "sint bk \<le> 0" using assms by simp
  then have "\<not> q_MaxBackoff q <s bk" using b by (simp add: sless_sint backing_off_def)
  then show ?thesis
    using neg nm by (simp add: NextBackoff_def Let_def bk Int63n_def sless_sint)
qed

lemma backoffs_append: "backoffs env (ts @ us) q = go_bind (backoffs env ts q) (backoffs env us)"
proof (induction ts arbitrary: q)
  case (Cons t ts)
  then show ?case by (cases "NextBackoff env t q") auto
qed simp

text \<open>As long as the first backoff, doubled each time, fits into 64 bits, nothing goes wrong.\<close>

lemma backoffs_fit:
  assumes "rand_ok env" and "backing_off q"
    and "sint (q_InitialBackoff q) * (2 ^ nat (sint (q_Attempt q)) * 2 ^ length ts) < 2 ^ 63"
    and "sint (q_Attempt q) + int (length ts) < 62"
  shows "\<exists>q'. backoffs env ts q = Inr q' \<and> backing_off q' \<and> sint (q_Attempt q') = sint (q_Attempt q) + int (length ts) \<and>
    q_InitialBackoff q' = q_InitialBackoff q \<and> q_MaxBackoff q' = q_MaxBackoff q"
  using assms(2-4)
proof (induction ts arbitrary: q)
  case (Cons t ts)
  let ?i = "sint (q_InitialBackoff q)" and ?n = "nat (sint (q_Attempt q))"
  have i: "0 < ?i" and a: "0 \<le> sint (q_Attempt q)" using Cons.prems(1) by (auto simp: backing_off_def)
  have "?i * next_factor q \<le> ?i * (2 ^ ?n * 2 ^ length (t # ts))"
    using i by (simp add: next_factor_def)
  then have fits: "?i * next_factor q < 2 ^ 63" using Cons.prems(2) by linarith
  obtain cur where s: "NextBackoff env t q = Inr (t + sint cur,
      q\<lparr>q_Attempt := q_Attempt q + 1, q_CurrentBackoff := cur, q_Backoff := t + sint cur\<rparr>)"
    using next_backoff_ok [OF assms(1) Cons.prems(1) fits] by blast
  let ?q = "q\<lparr>q_Attempt := q_Attempt q + 1, q_CurrentBackoff := cur, q_Backoff := t + sint cur\<rparr>"
  have at: "sint (q_Attempt ?q) = sint (q_Attempt q) + 1" using attempt_plus_one [OF Cons.prems(1)] by simp
  have b: "backing_off ?q" using Cons.prems(1,3) at by (simp add: backing_off_def)
  have "nat (sint (q_Attempt ?q)) = Suc ?n" using at a by simp
  then have "sint (q_InitialBackoff ?q) * (2 ^ nat (sint (q_Attempt ?q)) * 2 ^ length ts) < 2 ^ 63"
    using Cons.prems(2) by (simp only: power_Suc list.size mult.assoc mult.left_commute mult.commute) simp
  from Cons.IH [OF b this] Cons.prems(3) at s show ?case by auto
qed auto

lemma new_default: "backing_off (NewDefaultQuarantine now vp None reason)"
  "q_Attempt (NewDefaultQuarantine now vp None reason) = 0"
  "sint (q_InitialBackoff (NewDefaultQuarantine now vp None reason)) = 86400000000000"
  by (simp_all add: NewDefaultQuarantine_def new_quarantine_def Let_def hour_def backing_off_def)

section \<open>Properties\<close>

text \<open>
  C18. A quarantine that elapsed with its node still down is prolonged by at least the initial backoff and,
  beyond it, by less than the initial backoff doubled with every attempt and less than the maximum; only
  the attempt and the two backoff fields change. This holds while the doubled backoff fits into 64 bits.
\<close>

theorem next_backoff_bounds:
  assumes "rand_ok env" and "backing_off q" and "sint (q_InitialBackoff q) * 2 ^ (nat (sint (q_Attempt q)) + 1) < 2 ^ 63"
  shows "\<exists>cur. NextBackoff env now q = Inr (now + sint cur,
      q\<lparr>q_Attempt := q_Attempt q + 1, q_CurrentBackoff := cur, q_Backoff := now + sint cur\<rparr>) \<and>
    sint (q_InitialBackoff q) \<le> sint cur \<and>
    sint cur < sint (q_InitialBackoff q) +
      min (sint (q_MaxBackoff q)) (sint (q_InitialBackoff q) * 2 ^ (nat (sint (q_Attempt q)) + 1))"
  using next_backoff_ok [OF assms(1,2), of now] assms(3) by (simp only: next_factor_def)

definition ex_quar_env :: quar_env where
  "ex_quar_env = \<lparr>qe_oor = 0, qe_rand = (\<lambda>n. 0)\<rparr>"

definition ex_vp :: vantage_point where
  "ex_vp = \<lparr>vp_Ip = 7, vp_Hostname = ''node'', vp_Site = ''site'', vp_Timestamp = False, vp_RecordRoute = False,
     vp_Spoof = False, vp_RecSpoof = False, vp_Ping = False, vp_Trace = False\<rparr>"

lemma ex_rand_ok: "rand_ok ex_quar_env"
  by (simp add: rand_ok_def ex_quar_env_def)

theorem next_backoff_bounds_witness:
  "\<exists>cur. NextBackoff ex_quar_env 5 (NewDefaultQuarantine 1 ex_vp None CantRunCode) = Inr (5 + sint cur,
      (NewDefaultQuarantine 1 ex_vp None CantRunCode)\<lparr>q_Attempt := 1, q_CurrentBackoff := cur, q_Backoff := 5 + sint cur\<rparr>)"
  using next_backoff_bounds [OF ex_rand_ok new_default(1), where now = 5 and now1 = 1 and vp1 = ex_vp and reason1 = CantRunCode]
  by (auto simp: new_default)

text \<open>
  C19. The doubling overflows at the seventeenth attempt: a node found down sixteen times in a row stays in
  quarantine, at the seventeenth time the program panics, whatever the random numbers and the clock.
\<close>

theorem seventeenth_backoff_panics:
  assumes "rand_ok env"
  shows "backoffs env ts (NewDefaultQuarantine now vp None reason) = Inl InvalidArgument \<longleftrightarrow> 17 \<le> length ts"
proof -
  let ?q = "NewDefaultQuarantine now vp None reason"
  have fit: "\<exists>q'. backoffs env us ?q = Inr q' \<and> backing_off q' \<and> sint (q_Attempt q') = int (length us) \<and>
      q_InitialBackoff q' = q_InitialBackoff ?q" if "length us \<le> 16" for us
  proof -
    have "(2::int) ^ length us \<le> 2 ^ 16" using that by (intro power_increasing) auto
    then have "86400000000000 * (2::int) ^ length us < 2 ^ 63" by simp
    then show ?thesis using backoffs_fit [OF assms new_default(1), of now vp reason us] that by (auto simp: new_default)
  qed
  show ?thesis
  proof (cases "length ts \<le> 16")
    case True
    then show ?thesis using fit [of ts] by auto
  next
    case False
    obtain q' where q': "backoffs env (take 16 ts) ?q = Inr q'" "backing_off q'" "sint (q_Attempt q') = 16"
      "sint (q_InitialBackoff q') = 86400000000000"
      using fit [of "take 16 ts"] False by (auto simp: new_default)
    obtain t rest where "drop 16 ts = t # rest" using False by (cases "drop 16 ts") auto
    then have "backoffs env ts ?q = go_bind (NextBackoff env t q') (\<lambda>(_, q''). backoffs env rest q'')"
      using backoffs_append [of env "take 16 ts" "drop 16 ts" ?q] q'(1) by (metis append_take_drop_id backoffs.simps(2) go_bind.simps(2))
    moreover have "NextBackoff env t q' = Inl InvalidArgument"
      by (rule next_backoff_overflow [OF q'(2)]) (simp_all add: q' next_factor_def)
    ultimately show ?thesis using False by simp
  qed
qed

theorem seventeenth_backoff_panics_witness:
  "backoffs ex_quar_env (replicate 17 0) (NewDefaultQuarantine 0 ex_vp None CantRunCode) = Inl InvalidArgument"
  using seventeenth_backoff_panics [OF ex_rand_ok, of "replicate 17 0" 0 ex_vp CantRunCode] by simp

end
