(* ===== verification/VpRepo.thy ===== *)
theory VpRepo
  imports Quarantine
begin

text \<open>
  \<open>vpservice/repo/repo.go\<close> over the tables of \<open>doc/sql/vpservice.sql\<close>: a table is the list of its rows in
  the order of insertion, a query or statement what its text says, with the primary keys and the unique
  host name of the schema. Text is compared exactly (the collation is ignored). A transaction either ends
  with its commit or changes nothing; a broken connection is not modelled.
\<close>

section \<open>Tables\<close>

record vp_row =
  vr_vp :: vantage_point
  vr_last_check :: go_time

text \<open>The column \<open>quarantine\<close>: a quarantine as JSON text, or the digits of a number.\<close>

datatype blob = Json quarantine | Digits uint32

record quar_row =
  qr_Ip :: uint32
  qr_Hostname :: string
  qr_Site :: string
  qr_Type :: string
  qr_Quarantine :: blob

record quar_event =
  ev_Type :: string
  ev_Ip :: uint32
  ev_Hostname :: string
  ev_Site :: string
  ev_QType :: string
  ev_Quarantine :: blob

record dist_row =
  dist_Src :: uint32
  dist_Dist :: uint32
  dist_Slash24 :: uint32

record vp_db =
  db_vps :: "vp_row list"
  db_quar :: "quar_row list"
  db_events :: "quar_event list"
  db_vp_events :: "(string \<times> string \<times> string) list"
  db_dist :: "dist_row list"

section \<open>Vantage points\<close>

definition quarantined_host :: "vp_db \<Rightarrow> string \<Rightarrow> bool" where
  "quarantined_host db h = (h \<in> set (map qr_Hostname (db_quar db)))"

definition GetVPs :: "vp_db \<Rightarrow> vantage_point list" where
  "GetVPs db = filter (\<lambda>vp. \<not> quarantined_host db (vp_Hostname vp)) (map vr_vp (db_vps db))"

definition GetAllVPs :: "vp_db \<Rightarrow> vantage_point list" where
  "GetAllVPs db = map vr_vp (db_vps db)"

definition GetVPsForTesting :: "nat \<Rightarrow> vp_db \<Rightarrow> vantage_point list" where
  "GetVPsForTesting limit db = take limit (map vr_vp (sort_key vr_last_check (db_vps db)))"

definition UpdateVP :: "go_time \<Rightarrow> vantage_point \<Rightarrow> vp_db \<Rightarrow> vp_db" where
  "UpdateVP now vp db =
     db\<lparr>db_vps := map (\<lambda>r. if vp_Ip (vr_vp r) = vp_Ip vp then \<lparr>vr_vp = vp, vr_last_check = now\<rparr> else r) (db_vps db)\<rparr>"

text \<open>A vantage point without what it can do is the key by which the lists are compared.\<close>

definition bare :: "vantage_point \<Rightarrow> vantage_point" where
  "bare vp = vp\<lparr>vp_Timestamp := False, vp_RecordRoute := False, vp_Spoof := False, vp_RecSpoof := False,
     vp_Ping := False, vp_Trace := False\<rparr>"

definition vpNotIn :: "(vantage_point list \<Rightarrow> vantage_point list) \<Rightarrow> vantage_point list \<Rightarrow> vantage_point list
    \<Rightarrow> vantage_point list" where
  "vpNotIn ord inn cmp = filter (\<lambda>vp. vp \<notin> set inn) (ord cmp)"

definition generateChanges :: "(vantage_point list \<Rightarrow> vantage_point list) \<Rightarrow> vantage_point list \<Rightarrow> vantage_point list
    \<Rightarrow> vantage_point list \<times> vantage_point list" where
  "generateChanges ord new old =
     (let oldm = remdups (map bare old); newm = remdups new
      in (vpNotIn ord newm oldm, vpNotIn ord oldm newm))"

definition insertEvent :: "string \<Rightarrow> vantage_point \<Rightarrow> vp_db \<Rightarrow> vp_db" where
  "insertEvent event vp db = db\<lparr>db_vp_events := db_vp_events db @ [(event, vp_Hostname vp, vp_Site vp)]\<rparr>"

text \<open>The insertion names address, host and site only: everything else has its default, 0.\<close>

definition addVP :: "go_time \<Rightarrow> vantage_point \<Rightarrow> vp_db \<Rightarrow> vp_db option" where
  "addVP now vp db =
     (if vp_Ip vp \<in> set (map (vp_Ip \<circ> vr_vp) (db_vps db)) then None
      else Some (db\<lparr>db_vps := db_vps db @ [\<lparr>vr_vp = bare vp, vr_last_check = now\<rparr>]\<rparr>))"

definition delVP :: "vantage_point \<Rightarrow> vp_db \<Rightarrow> vp_db" where
  "delVP vp db = db\<lparr>db_vps := filter (\<lambda>r. vp_Ip (vr_vp r) \<noteq> vp_Ip vp) (db_vps db)\<rparr>"

fun add_vps :: "go_time \<Rightarrow> vantage_point list \<Rightarrow> vp_db \<Rightarrow> vp_db option" where
  "add_vps now [] db = Some db"
| "add_vps now (vp # vps) db =
     (case addVP now vp db of None \<Rightarrow> None | Some db \<Rightarrow> add_vps now vps (insertEvent ''ONLINE'' vp db))"

fun del_vps :: "vantage_point list \<Rightarrow> vp_db \<Rightarrow> vp_db" where
  "del_vps [] db = db"
| "del_vps (vp # vps) db = del_vps vps (insertEvent ''OFFLINE'' vp (delVP vp db))"

text \<open>\<open>UpdateActiveVPs\<close>: \<open>None\<close> is the error after the rollback.\<close>

definition UpdateActiveVPs :: "(vantage_point list \<Rightarrow> vantage_point list) \<Rightarrow> go_time \<Rightarrow> vantage_point list \<Rightarrow> vp_db
    \<Rightarrow> vp_db \<times> (vantage_point list \<times> vantage_point list) option" where
  "UpdateActiveVPs ord now vps db =
     (let (rem, add) = generateChanges ord vps (GetAllVPs db)
      in case add_vps now add db of
           None \<Rightarrow> (db, None)
         | Some db' \<Rightarrow> (del_vps rem db', Some (add, rem)))"

section \<open>Spoofers\<close>

record rr_vantage_point = vantage_point +
  rrv_Dist :: uint32
  rrv_Target :: uint32

text \<open>\<open>MAX(IFNULL(dtd.dist, ~0 >>32))\<close> over the rows joined with the vantage point\<close>

definition vp_dist :: "dist_row list \<Rightarrow> uint32 \<Rightarrow> uint32 \<Rightarrow> uint32" where
  "vp_dist ds target ip =
     (case [dist_Dist d. d \<leftarrow> ds, dist_Slash24 d = drop_bit 8 target, dist_Src d = ip] of
        [] \<Rightarrow> 0xFFFFFFFF
      | x # xs \<Rightarrow> fold max xs x)"

text \<open>The queries do not read what the vantage points can do besides.\<close>

definition scanned :: "vantage_point \<Rightarrow> vantage_point" where
  "scanned vp = vp\<lparr>vp_Ping := False, vp_Trace := False\<rparr>"

definition repo_GetRRSpoofers :: "uint32 \<Rightarrow> vp_db \<Rightarrow> rr_vantage_point list" where
  "repo_GetRRSpoofers target db =
     sort_key rrv_Dist
       (map (\<lambda>vp. vantage_point.extend (scanned vp)
               (rr_vantage_point.fields (vp_dist (db_dist db) target (vp_Ip vp)) target))
          (filter (\<lambda>vp. vp_RecordRoute vp \<and> vp_Spoof vp) (GetVPs db)))"

definition repo_GetTSSpoofers :: "vp_db \<Rightarrow> vantage_point list" where
  "repo_GetTSSpoofers db = map scanned (filter (\<lambda>vp. vp_Timestamp vp \<and> vp_Spoof vp) (GetVPs db))"

section \<open>Quarantines\<close>

text \<open>\<open>types.GetQuarantine\<close>: the type decides which structure the text is read into.\<close>

definition GetQuarantine :: "string \<Rightarrow> blob \<Rightarrow> quarantine option" where
  "GetQuarantine t data =
     (case data of
        Digits _ \<Rightarrow> None
      | Json q \<Rightarrow>
          if t = ''DEFAULT'' then Some (q\<lparr>q_class := Q_default\<rparr>)
          else if t = ''MANUAL'' then Some (q\<lparr>q_class := Q_manual\<rparr>)
          else if t = ''MOSTLYDOWN'' then Some (q\<lparr>q_class := Q_mostly_down\<rparr>)
          else None)"

fun all_some :: "'a option list \<Rightarrow> 'a list option" where
  "all_some [] = Some []"
| "all_some (None # xs) = None"
| "all_some (Some x # xs) = (case all_some xs of None \<Rightarrow> None | Some ys \<Rightarrow> Some (x # ys))"

definition GetQuarantined :: "vp_db \<Rightarrow> quarantine list option" where
  "GetQuarantined db = all_some (map (\<lambda>r. GetQuarantine (qr_Type r) (qr_Quarantine r)) (db_quar db))"

definition quar_event_of :: "string \<Rightarrow> quarantine \<Rightarrow> quar_event" where
  "quar_event_of t q = \<lparr>ev_Type = t, ev_Ip = vp_Ip (q_VP q), ev_Hostname = vp_Hostname (q_VP q),
     ev_Site = vp_Site (q_VP q), ev_QType = quarantine_Type (q_class q), ev_Quarantine = Json q\<rparr>"

definition quar_row_of :: "quarantine \<Rightarrow> quar_row" where
  "quar_row_of q = \<lparr>qr_Ip = vp_Ip (q_VP q), qr_Hostname = vp_Hostname (q_VP q), qr_Site = vp_Site (q_VP q),
     qr_Type = quarantine_Type (q_class q), qr_Quarantine = Json q\<rparr>"

text \<open>\<open>insert ignore\<close>: an address or host already quarantined stays as it is.\<close>

fun QuarantineVPs :: "quarantine list \<Rightarrow> vp_db \<Rightarrow> vp_db" where
  "QuarantineVPs [] db = db"
| "QuarantineVPs (q # qs) db =
     (if vp_Ip (q_VP q) \<in> set (map qr_Ip (db_quar db)) \<or> vp_Hostname (q_VP q) \<in> set (map qr_Hostname (db_quar db))
      then QuarantineVPs qs db
      else QuarantineVPs qs (db\<lparr>db_quar := db_quar db @ [quar_row_of q],
                                db_events := db_events db @ [quar_event_of ''ADDED'' q]\<rparr>))"

fun UnquarantineVPs :: "quarantine list \<Rightarrow> vp_db \<Rightarrow> vp_db" where
  "UnquarantineVPs [] db = db"
| "UnquarantineVPs (q # qs) db =
     (let rest = filter (\<lambda>r. qr_Ip r \<noteq> vp_Ip (q_VP q)) (db_quar db)
      in if length rest < length (db_quar db)
         then UnquarantineVPs qs (db\<lparr>db_quar := rest, db_events := db_events db @ [quar_event_of ''REMOVED'' q]\<rparr>)
         else UnquarantineVPs qs db)"

text \<open>
  \<open>update quarantined_vps set quarantine = ? where ip = ?\<close> is given the address first and the text second:
  the column is set to the digits of the address, in the rows whose address equals the text read as a
  number. Text that starts with a brace is 0 as a number; a server in strict mode refuses to use it as one.
\<close>

fun blob_number :: "blob \<Rightarrow> uint32" where
  "blob_number (Json q) = 0"
| "blob_number (Digits n) = n"

definition exec_update :: "blob \<Rightarrow> blob \<Rightarrow> vp_db \<Rightarrow> vp_db" where
  "exec_update value key db =
     db\<lparr>db_quar := map (\<lambda>r. if qr_Ip r = blob_number key then r\<lparr>qr_Quarantine := value\<rparr> else r) (db_quar db)\<rparr>"

fun UpdateQuarantines :: "bool \<Rightarrow> quarantine list \<Rightarrow> vp_db \<Rightarrow> vp_db option" where
  "UpdateQuarantines strict [] db = Some db"
| "UpdateQuarantines strict (q # qs) db =
     (if strict \<and> db_quar db \<noteq> [] then None
      else UpdateQuarantines strict qs (exec_update (Digits (vp_Ip (q_VP q))) (Json q) db))"

text \<open>\<open>order by time limit 1\<close>: the first event of the address.\<close>

definition GetLastQuarantine :: "uint32 \<Rightarrow> vp_db \<Rightarrow> quarantine option" where
  "GetLastQuarantine ip db =
     (case filter (\<lambda>e. ev_Ip e = ip) (db_events db) of
        [] \<Rightarrow> None
      | e # _ \<Rightarrow> GetQuarantine (ev_QType e) (ev_Quarantine e))"

section \<open>The list of active vantage points\<close>

abbreviation ips_of :: "vp_db \<Rightarrow> uint32 list" where
  "ips_of db \<equiv> map (vp_Ip \<circ> vr_vp) (db_vps db)"

lemma bare_Ip [simp]: "vp_Ip (bare vp) = vp_Ip vp" "vp_Hostname (bare vp) = vp_Hostname vp" "vp_Site (bare vp) = vp_Site vp"
  "bare (bare vp) = bare vp"
  by (simp_all add: bare_def)

lemma insertEvent_vps [simp]: "db_vps (insertEvent e vp db) = db_vps db" "db_quar (insertEvent e vp db) = db_quar db"
  by (simp_all add: insertEvent_def)

definition added_row :: "go_time \<Rightarrow> vantage_point \<Rightarrow> vp_row" where
  "added_row now vp = \<lparr>vr_vp = bare vp, vr_last_check = now\<rparr>"

lemma add_vps_spec:
  "case add_vps now vps db of
     Some db' \<Rightarrow> distinct (map vp_Ip vps) \<and> set (map vp_Ip vps) \<inter> set (ips_of db) = {} \<and>
       db_vps db' = db_vps db @ map (added_row now) vps \<and> db_quar db' = db_quar db \<and> db_events db' = db_events db \<and>
       db_dist db' = db_dist db
   | None \<Rightarrow> \<not> (distinct (map vp_Ip vps) \<and> set (map vp_Ip vps) \<inter> set (ips_of db) = {})"
proof (induction vps arbitrary: db)
  case (Cons vp vps)
  show ?case
  proof (cases "vp_Ip vp \<in> set (ips_of db)")
    case True
    then show ?thesis by (auto simp: addVP_def)
  next
    case False
    let ?db = "insertEvent ''ONLINE'' vp (db\<lparr>db_vps := db_vps db @ [added_row now vp]\<rparr>)"
    have "add_vps now (vp # vps) db = add_vps now vps ?db" using False by (simp add: addVP_def added_row_def)
    moreover have "set (ips_of ?db) = insert (vp_Ip vp) (set (ips_of db))" by (auto simp: added_row_def)
    moreover have "db_quar ?db = db_quar db" "db_events ?db = db_events db" "db_dist ?db = db_dist db"
      "db_vps ?db = db_vps db @ [added_row now vp]" by (simp_all add: insertEvent_def)
    ultimately show ?thesis using Cons.IH [of ?db] False by (auto split: option.splits)
  qed
qed simp

lemma del_vps_spec:
  "db_vps (del_vps vps db) = filter (\<lambda>r. vp_Ip (vr_vp r) \<notin> vp_Ip ` set vps) (db_vps db)"
  "db_quar (del_vps vps db) = db_quar db" "db_events (del_vps vps db) = db_events db"
  by (induction vps arbitrary: db) (auto simp: delVP_def insertEvent_def intro!: filter_cong)

text \<open>An address that is announced with another host or site than the one stored.\<close>

definition renamed :: "vantage_point list \<Rightarrow> vp_db \<Rightarrow> bool" where
  "renamed vps db \<longleftrightarrow> (\<exists>vp\<in>set vps. \<exists>old\<in>set (GetAllVPs db). vp_Ip old = vp_Ip vp \<and> bare old \<noteq> vp)"

lemma update_active:
  assumes ord: "rearrangement ord" and dist: "distinct (ips_of db)"
    and bare: "\<forall>vp\<in>set vps. bare vp = vp" and ips: "distinct (map vp_Ip (remdups vps))"
  shows "UpdateActiveVPs ord now vps db = (db, None) \<and> renamed vps db \<or>
    (\<exists>db' add rem. UpdateActiveVPs ord now vps db = (db', Some (add, rem)) \<and> \<not> renamed vps db \<and>
       distinct (ips_of db') \<and> set (map bare (GetAllVPs db')) = set vps \<and>
       db_vps db' = filter (\<lambda>r. bare (vr_vp r) \<in> set vps) (db_vps db) @ map (added_row now) add \<and>
       db_quar db' = db_quar db \<and> db_events db' = db_events db)"
proof -
  define add where "add = filter (\<lambda>vp. vp \<notin> bare ` set (GetAllVPs db)) (ord (remdups vps))"
  define rem where "rem = filter (\<lambda>vp. vp \<notin> set vps) (ord (remdups (map bare (GetAllVPs db))))"
  have so: "set (ord xs) = set xs" for xs by (rule rearrangement.set_ord [OF ord])
  have gen: "generateChanges ord vps (GetAllVPs db) = (rem, add)"
    by (simp add: generateChanges_def vpNotIn_def add_def rem_def)
  have sadd: "set add = set vps - bare ` set (GetAllVPs db)" by (auto simp: add_def so)
  have srem: "set rem = bare ` set (GetAllVPs db) - set vps" by (auto simp: rem_def so)
  have inj: "inj_on vp_Ip (set vps)" using ips by (simp add: distinct_map)
  have da: "distinct add" by (simp add: add_def rearrangement.distinct_ord [OF ord])
  then have dadd: "distinct (map vp_Ip add)" using inj sadd by (auto simp: distinct_map intro: inj_on_subset)
  have row_inj: "inj_on (vp_Ip \<circ> vr_vp) (set (db_vps db))" using dist by (simp add: distinct_map)
  have conflict: "set (map vp_Ip add) \<inter> set (ips_of db) = {} \<longleftrightarrow> \<not> renamed vps db"
  proof
    assume none: "set (map vp_Ip add) \<inter> set (ips_of db) = {}"
    show "\<not> renamed vps db"
    proof
      assume "renamed vps db"
      then obtain vp r where r: "vp \<in> set vps" "r \<in> set (db_vps db)" "vp_Ip (vr_vp r) = vp_Ip vp" "bare (vr_vp r) \<noteq> vp"
        by (auto simp: renamed_def GetAllVPs_def)
      have "vp \<notin> bare ` set (GetAllVPs db)"
      proof
        assume "vp \<in> bare ` set (GetAllVPs db)"
        then obtain r' where r': "r' \<in> set (db_vps db)" "vp = bare (vr_vp r')" by (auto simp: GetAllVPs_def)
        then have "r' = r" using row_inj r by (auto simp: inj_on_def)
        then show False using r r' by simp
      qed
      then have "vp_Ip vp \<in> set (map vp_Ip add)" using sadd r by auto
      then show False using none r by force
    qed
  next
    assume n: "\<not> renamed vps db"
    show "set (map vp_Ip add) \<inter> set (ips_of db) = {}"
    proof (rule ccontr)
      assume "set (map vp_Ip add) \<inter> set (ips_of db) \<noteq> {}"
      then obtain vp r where "vp \<in> set add" "r \<in> set (db_vps db)" "vp_Ip vp = vp_Ip (vr_vp r)" by auto
      moreover from this have "vp \<in> set vps" "bare (vr_vp r) \<noteq> vp" using sadd by (auto simp: GetAllVPs_def)
      ultimately show False using n by (force simp: renamed_def GetAllVPs_def)
    qed
  qed
  show ?thesis
  proof (cases "renamed vps db")
    case True
    then have "add_vps now add db = None" using add_vps_spec [where now = now and vps = add and db = db] conflict by (cases "add_vps now add db") auto
    then show ?thesis using True by (simp add: UpdateActiveVPs_def gen)
  next
    case False
    then obtain db1 where a: "add_vps now add db = Some db1" "db_vps db1 = db_vps db @ map (added_row now) add"
      "db_quar db1 = db_quar db" "db_events db1 = db_events db"
      using add_vps_spec [where now = now and vps = add and db = db] conflict dadd by (cases "add_vps now add db") auto
    let ?db = "del_vps rem db1"
    have keep: "vp_Ip (vr_vp r) \<notin> vp_Ip ` set rem \<longleftrightarrow> bare (vr_vp r) \<in> set vps" if r: "r \<in> set (db_vps db)" for r
    proof
      assume "vp_Ip (vr_vp r) \<notin> vp_Ip ` set rem"
      then have "bare (vr_vp r) \<notin> set rem" using bare_Ip(1) by (metis imageI)
      then show "bare (vr_vp r) \<in> set vps" using r srem by (auto simp: GetAllVPs_def)
    next
      assume i: "bare (vr_vp r) \<in> set vps"
      show "vp_Ip (vr_vp r) \<notin> vp_Ip ` set rem"
      proof
        assume "vp_Ip (vr_vp r) \<in> vp_Ip ` set rem"
        then obtain r' where r': "r' \<in> set (db_vps db)" "bare (vr_vp r') \<notin> set vps" "vp_Ip (vr_vp r') = vp_Ip (vr_vp r)"
          by (auto simp: srem GetAllVPs_def)
        then have "r' = r" using row_inj r by (auto simp: inj_on_def)
        then show False using r' i by simp
      qed
    qed
    have new: "vp_Ip vp \<notin> vp_Ip ` set rem" if "vp \<in> set add" for vp
    proof
      assume "vp_Ip vp \<in> vp_Ip ` set rem"
      then have "vp_Ip vp \<in> set (ips_of db)" by (auto simp: srem GetAllVPs_def)
      then show False using that False conflict by auto
    qed
    have rows: "db_vps ?db = filter (\<lambda>r. bare (vr_vp r) \<in> set vps) (db_vps db) @ map (added_row now) add"
      using keep new by (auto simp: del_vps_spec a added_row_def filter_map comp_def intro!: filter_cong filter_True)
    moreover have "distinct (ips_of ?db)"
    proof -
      have m: "map (vp_Ip \<circ> vr_vp) (map (added_row now) add) = map vp_Ip add" by (simp add: added_row_def)
      have "set (map vp_Ip add) \<inter> set (ips_of db) = {}" using False conflict by simp
      moreover have "distinct (map (vp_Ip \<circ> vr_vp) (filter P (db_vps db)))" for P by (rule distinct_map_filter [OF dist])
      ultimately show ?thesis unfolding rows map_append distinct_append m using dadd by auto
    qed
    moreover have "set (map bare (GetAllVPs ?db)) = set vps"
    proof -
      have "set (map bare (GetAllVPs ?db)) = (bare ` set (GetAllVPs db) \<inter> set vps) \<union> bare ` set add"
        unfolding GetAllVPs_def rows by (auto simp: added_row_def)
      moreover have "bare ` set add = set add" using bare sadd by (auto simp: image_iff)
      ultimately show ?thesis using sadd by auto
    qed
    moreover have "UpdateActiveVPs ord now vps db = (?db, Some (add, rem))" by (simp add: UpdateActiveVPs_def gen a)
    ultimately show ?thesis using False a by (auto simp: del_vps_spec)
  qed
qed

section \<open>What is stored about quarantines\<close>

text \<open>
  A quarantine as it is created: manual, or at its first backoff. Rows hold such quarantines under the
  address, host and type they name.
\<close>

definition fresh_quarantine :: "quarantine \<Rightarrow> bool" where
  "fresh_quarantine q \<longleftrightarrow> q_class q = Q_manual \<or>
     q_Attempt q = 0 \<and> q_Multiplier q = 2 \<and> 0 < sint (q_InitialBackoff q) \<and>
     sint (q_InitialBackoff q) \<le> 302400000000000 \<and> q_CurrentBackoff q = q_InitialBackoff q \<and>
     q_MaxBackoff q = 604800000000000"

lemma fresh_manual: "fresh_quarantine (NewManualQuarantine vp exp)"
  by (simp add: NewManualQuarantine_def fresh_quarantine_def)

lemma fresh_new:
  assumes "cls \<noteq> Q_manual" and "0 < sint initial" and "sint initial \<le> 302400000000000"
    and "\<And>p. prev = Some p \<Longrightarrow> fresh_quarantine p"
  shows "fresh_quarantine (new_quarantine cls reason initial now vp prev)"
proof (cases prev)
  case (Some p)
  then have "fresh_quarantine p" by (rule assms(4))
  then show ?thesis using assms Some
    by (cases "q_class p") (auto simp: new_quarantine_def fresh_quarantine_def Let_def hour_def sless_sint)
qed (use assms in \<open>auto simp: new_quarantine_def fresh_quarantine_def Let_def hour_def\<close>)

lemma fresh_default: "(\<And>p. prev = Some p \<Longrightarrow> fresh_quarantine p) \<Longrightarrow> fresh_quarantine (NewDefaultQuarantine now vp prev reason)"
  unfolding NewDefaultQuarantine_def by (rule fresh_new) (auto simp: hour_def)

lemma fresh_md: "(\<And>p. prev = Some p \<Longrightarrow> fresh_quarantine p) \<Longrightarrow> fresh_quarantine (NewMDQuarantine now vp prev)"
  unfolding NewMDQuarantine_def by (rule fresh_new) (auto simp: hour_def)

lemma fresh_next_backoff:
  assumes "rand_ok env" and "fresh_quarantine q"
  shows "\<exists>r. NextBackoff env now q = Inr r"
proof (cases "q_class q = Q_manual")
  case True
  then show ?thesis by (simp add: NextBackoff_def)
next
  case False
  then have "backing_off q" "sint (q_InitialBackoff q) * next_factor q < 2 ^ 63"
    using assms(2) by (auto simp: fresh_quarantine_def backing_off_def next_factor_def)
  then show ?thesis using next_backoff_ok [OF assms(1)] by blast
qed

definition quar_ok :: "vp_db \<Rightarrow> bool" where
  "quar_ok db \<longleftrightarrow> (\<forall>r\<in>set (db_quar db). \<exists>q. r = quar_row_of q \<and> fresh_quarantine q \<and> vp_Ip (q_VP q) \<noteq> 0) \<and>
     (\<forall>e\<in>set (db_events db). \<exists>t q. e = quar_event_of t q \<and> fresh_quarantine q) \<and>
     distinct (map qr_Ip (db_quar db))"

lemma GetQuarantine_own: "GetQuarantine (quarantine_Type (q_class q)) (Json q) = Some q"
  by (cases "q_class q") (auto simp: GetQuarantine_def)

fun json_of :: "blob \<Rightarrow> quarantine" where
  "json_of (Json q) = q"
| "json_of (Digits n) = undefined"

definition stored :: "quar_row \<Rightarrow> quarantine" where
  "stored r = json_of (qr_Quarantine r)"

lemma stored_row [simp]: "stored (quar_row_of q) = q" "qr_Ip (quar_row_of q) = vp_Ip (q_VP q)"
  "qr_Hostname (quar_row_of q) = vp_Hostname (q_VP q)"
  by (simp_all add: stored_def quar_row_of_def)

lemma all_some_map: "(\<And>x. x \<in> set xs \<Longrightarrow> f x = Some (g x)) \<Longrightarrow> all_some (map f xs) = Some (map g xs)"
  by (induction xs) auto

lemma GetQuarantined_stored: "quar_ok db \<Longrightarrow> GetQuarantined db = Some (map stored (db_quar db))"
  unfolding GetQuarantined_def
proof (rule all_some_map)
  fix r assume "quar_ok db" and "r \<in> set (db_quar db)"
  then obtain q where "r = quar_row_of q" by (auto simp: quar_ok_def)
  then show "GetQuarantine (qr_Type r) (qr_Quarantine r) = Some (stored r)"
    using GetQuarantine_own [of q] by (simp add: quar_row_of_def stored_def)
qed

lemma row_of_stored: "quar_ok db \<Longrightarrow> r \<in> set (db_quar db) \<Longrightarrow> qr_Ip r = vp_Ip (q_VP (stored r)) \<and> fresh_quarantine (stored r) \<and> qr_Ip r \<noteq> 0"
  by (auto simp: quar_ok_def)

lemma GetLastQuarantine_fresh: "quar_ok db \<Longrightarrow> GetLastQuarantine ip db = Some q \<Longrightarrow> fresh_quarantine q"
proof -
  assume ok: "quar_ok db" and g: "GetLastQuarantine ip db = Some q"
  then obtain e es where f: "filter (\<lambda>e. ev_Ip e = ip) (db_events db) = e # es" and q: "GetQuarantine (ev_QType e) (ev_Quarantine e) = Some q"
    by (auto simp: GetLastQuarantine_def split: list.splits)
  have "e \<in> set (filter (\<lambda>e. ev_Ip e = ip) (db_events db))" by (simp add: f)
  then obtain t q' where e: "e = quar_event_of t q'" and "fresh_quarantine q'" using ok by (auto simp: quar_ok_def)
  moreover from e q have "q = q'" using GetQuarantine_own [of q'] by (simp add: quar_event_of_def)
  ultimately show ?thesis by simp
qed

subsection \<open>The operations keep it\<close>

lemma QuarantineVPs_ok:
  "quar_ok db \<Longrightarrow> (\<forall>q\<in>set qs. fresh_quarantine q \<and> vp_Ip (q_VP q) \<noteq> 0) \<Longrightarrow> quar_ok (QuarantineVPs qs db)"
proof (induction qs arbitrary: db)
  case (Cons q qs)
  show ?case
  proof (cases "vp_Ip (q_VP q) \<in> set (map qr_Ip (db_quar db)) \<or> vp_Hostname (q_VP q) \<in> set (map qr_Hostname (db_quar db))")
    case True
    then show ?thesis using Cons by simp
  next
    case False
    then have "quar_ok (db\<lparr>db_quar := db_quar db @ [quar_row_of q], db_events := db_events db @ [quar_event_of ''ADDED'' q]\<rparr>)"
      using Cons.prems by (auto simp: quar_ok_def)
    from Cons.IH [OF this] False Cons.prems show ?thesis by auto
  qed
qed simp

lemma UnquarantineVPs_ok: "quar_ok db \<Longrightarrow> (\<forall>q\<in>set qs. fresh_quarantine q) \<Longrightarrow> quar_ok (UnquarantineVPs qs db)"
proof (induction qs arbitrary: db)
  case (Cons q qs)
  let ?rest = "filter (\<lambda>r. qr_Ip r \<noteq> vp_Ip (q_VP q)) (db_quar db)"
  have "quar_ok (db\<lparr>db_quar := ?rest, db_events := db_events db @ [quar_event_of ''REMOVED'' q]\<rparr>)"
    using Cons.prems by (auto simp: quar_ok_def distinct_map_filter)
  then show ?case using Cons by (simp add: Let_def)
qed simp

lemma filter_same: "\<not> length (filter P xs) < length xs \<Longrightarrow> filter P xs = xs"
  by (metis length_filter_less filter_True)

lemma UnquarantineVPs_rows:
  "db_quar (UnquarantineVPs qs db) = filter (\<lambda>r. qr_Ip r \<notin> (vp_Ip \<circ> q_VP) ` set qs) (db_quar db)"
proof (induction qs arbitrary: db)
  case (Cons q qs)
  let ?P = "\<lambda>r. qr_Ip r \<noteq> vp_Ip (q_VP q)"
  show ?case
  proof (cases "length (filter ?P (db_quar db)) < length (db_quar db)")
    case True
    then show ?thesis using Cons.IH [of "db\<lparr>db_quar := filter ?P (db_quar db), db_events := db_events db @ [quar_event_of ''REMOVED'' q]\<rparr>"]
      by (auto simp: Let_def intro: filter_cong)
  next
    case False
    then have "filter (\<lambda>r. qr_Ip r \<notin> (vp_Ip \<circ> q_VP) ` set (q # qs)) (db_quar db) =
        filter (\<lambda>r. qr_Ip r \<notin> (vp_Ip \<circ> q_VP) ` set qs) (filter ?P (db_quar db))"
      by (auto intro: filter_cong)
    then show ?thesis using Cons.IH [of db] filter_same [OF False] False by (simp add: Let_def)
  qed
qed simp

text \<open>No row has the address 0: the update meets none.\<close>

lemma UpdateQuarantines_lost:
  assumes "quar_ok db" and "UpdateQuarantines strict qs db = Some db'"
  shows "db' = db"
proof -
  have r: "\<forall>r\<in>set (db_quar db). qr_Ip r \<noteq> 0" using assms(1) row_of_stored by blast
  have "exec_update v (Json q) db = db" for v q
  proof -
    have "map (\<lambda>r. if qr_Ip r = 0 then r\<lparr>qr_Quarantine := v\<rparr> else r) (db_quar db) = db_quar db"
      using r by (intro map_idI) auto
    then show ?thesis by (simp add: exec_update_def)
  qed
  then show ?thesis using assms(2) by (induction qs) (auto split: if_splits)
qed

end
