(* ===== verification/VpServer.thy ===== *)
theory VpServer
  imports VpRepo "HOL-Library.AList"
begin

text \<open>
  \<open>vpservice/server/server.go\<close> and \<open>vpservice/filters\<close>: which vantage points may spoof, and when they leave
  quarantine. The repository is that of \<open>VpRepo\<close>. A loop of the server is modelled by the body of one
  tick, with one reading of the clock. What the server reports to the monitoring system is left out.
\<close>

section \<open>Filters\<close>

text \<open>
  One vantage point per site: the map keeps the last one of each site. \<open>ord\<close> is the order in which the
  map is iterated.
\<close>

fun site_map :: "('v \<Rightarrow> string) \<Rightarrow> 'v list \<Rightarrow> (string \<times> 'v) list \<Rightarrow> (string \<times> 'v) list" where
  "site_map site [] m = m"
| "site_map site (vp # vps) m = site_map site vps (AList.update (site vp) vp m)"

definition OnePerSite :: "('v list \<Rightarrow> 'v list) \<Rightarrow> ('v \<Rightarrow> string) \<Rightarrow> 'v list \<Rightarrow> 'v list" where
  "OnePerSite ord site vps = ord (map snd (site_map site vps []))"

definition MakeRRDistanceFilter :: "uint32 \<Rightarrow> uint32 \<Rightarrow> rr_vantage_point list \<Rightarrow> rr_vantage_point list" where
  "MakeRRDistanceFilter mn mx vps = filter (\<lambda>vp. \<not> (mn \<le> rrv_Dist vp \<and> rrv_Dist vp \<le> mx)) vps"

definition OrderRRDistanceFilter :: "rr_vantage_point list \<Rightarrow> rr_vantage_point list" where
  "OrderRRDistanceFilter vps = go_insertion_sort (\<lambda>a b. rrv_Dist a < rrv_Dist b) vps"

definition ComposeFilter :: "('v list \<Rightarrow> 'v list) list \<Rightarrow> 'v list \<Rightarrow> 'v list" where
  "ComposeFilter fs vps = foldl (\<lambda>curr f. f curr) vps fs"

text \<open>The filter the program is started with (\<open>makeFilters\<close> of \<open>cmd/vpservice/main.go\<close>)\<close>

definition rr_filters :: "(rr_vantage_point list \<Rightarrow> rr_vantage_point list) \<Rightarrow> rr_vantage_point list \<Rightarrow> rr_vantage_point list" where
  "rr_filters ord = ComposeFilter [MakeRRDistanceFilter 9 9, OnePerSite ord vp_Site, OrderRRDistanceFilter]"

section \<open>Spoofers\<close>

definition defaultLimit :: uint32 where
  "defaultLimit = 250"

text \<open>\<open>uint32(len(resp.Spoofers)) > max\<close>, then the slice up to it\<close>

definition limited :: "uint32 \<Rightarrow> 'v list \<Rightarrow> 'v list" where
  "limited mx vps = (if mx < word_of_nat (length vps) then take (unat mx) vps else vps)"

definition GetRRSpoofers :: "(rr_vantage_point list \<Rightarrow> rr_vantage_point list) \<Rightarrow> uint32 \<Rightarrow> uint32 \<Rightarrow> vp_db
    \<Rightarrow> vantage_point list" where
  "GetRRSpoofers rrf addr mx db =
     (let mx = (if mx = 0 then defaultLimit else mx)
      in limited mx (map vantage_point.truncate (rrf (repo_GetRRSpoofers addr db))))"

definition GetTSSpoofers :: "(vantage_point list \<Rightarrow> vantage_point list) \<Rightarrow> uint32 \<Rightarrow> vp_db \<Rightarrow> vantage_point list" where
  "GetTSSpoofers tsf mx db =
     (let mx = (if mx = 0 then defaultLimit else mx) in limited mx (tsf (repo_GetTSSpoofers db)))"

section \<open>Active vantage points\<close>

text \<open>What the controller reports of a node is its host, address and site.\<close>

definition addOrUpdateVPs :: "(vantage_point list \<Rightarrow> vantage_point list) \<Rightarrow> go_time \<Rightarrow> vantage_point list \<Rightarrow> vp_db \<Rightarrow> vp_db" where
  "addOrUpdateVPs ord now vps db = fst (UpdateActiveVPs ord now (map bare vps) db)"

section \<open>Leaving quarantine\<close>

definition shouldQuarantine :: "vantage_point \<Rightarrow> bool" where
  "shouldQuarantine vp =
     (if \<not> vp_Ping vp \<and> \<not> vp_Trace vp \<and> \<not> vp_RecordRoute vp \<and> \<not> vp_Timestamp vp \<and> \<not> vp_Spoof vp then True else False)"

text \<open>\<open>vpmap\<close>: the last vantage point of a host name.\<close>

definition vp_of_host :: "vantage_point list \<Rightarrow> string \<Rightarrow> vantage_point option" where
  "vp_of_host vps h = map_of (rev (map (\<lambda>vp. (vp_Hostname vp, vp)) vps)) h"

fun triage :: "quar_env \<Rightarrow> go_time \<Rightarrow> vantage_point list \<Rightarrow> quarantine list \<Rightarrow> quarantine list \<Rightarrow> quarantine list
    \<Rightarrow> (quarantine list \<times> quarantine list) go" where
  "triage env now vps [] unquar updateQuar = Inr (unquar, updateQuar)"
| "triage env now vps (q # qs) unquar updateQuar =
     (if Expired q now then triage env now vps qs (unquar @ [q]) updateQuar
      else if Elapsed q now then
        if (case vp_of_host vps (vp_Hostname (q_VP q)) of Some vp \<Rightarrow> \<not> shouldQuarantine vp | None \<Rightarrow> False)
        then triage env now vps qs (unquar @ [q]) updateQuar
        else go_bind (NextBackoff env now q) (\<lambda>(_, q'). triage env now vps qs unquar (updateQuar @ [q']))
      else triage env now vps qs unquar updateQuar)"

text \<open>One tick of \<open>tryUnquarantine\<close>, over the three operations of the repository it uses.\<close>

definition unquarantine_tick :: "('db \<Rightarrow> quarantine list option) \<Rightarrow> (quarantine list \<Rightarrow> 'db \<Rightarrow> 'db)
    \<Rightarrow> (quarantine list \<Rightarrow> 'db \<Rightarrow> 'db option) \<Rightarrow> quar_env \<Rightarrow> go_time \<Rightarrow> vantage_point list \<Rightarrow> 'db \<Rightarrow> 'db go" where
  "unquarantine_tick quarantined release update env now vps db =
     (case quarantined db of
        None \<Rightarrow> Inr db
      | Some qs \<Rightarrow>
          go_bind (triage env now vps qs [] []) (\<lambda>(unquar, updateQuar).
          let db = (if unquar \<noteq> [] then release unquar db else db)
          in Inr (if updateQuar \<noteq> [] then (case update updateQuar db of None \<Rightarrow> db | Some db' \<Rightarrow> db') else db)))"

definition tryUnquarantine :: "bool \<Rightarrow> quar_env \<Rightarrow> go_time \<Rightarrow> vp_db \<Rightarrow> vp_db go" where
  "tryUnquarantine strict env now db =
     unquarantine_tick GetQuarantined UnquarantineVPs (UpdateQuarantines strict) env now (GetAllVPs db) db"

section \<open>Who leaves quarantine\<close>

definition released :: "go_time \<Rightarrow> vantage_point list \<Rightarrow> quarantine \<Rightarrow> bool" where
  "released now vps q \<longleftrightarrow> Expired q now \<or>
     Elapsed q now \<and> (\<exists>vp. vp_of_host vps (vp_Hostname (q_VP q)) = Some vp \<and> \<not> shouldQuarantine vp)"

lemma triage_spec:
  assumes "\<And>q. q \<in> set qs \<Longrightarrow> \<exists>r. NextBackoff env now q = Inr r"
  shows "\<exists>upd'. triage env now vps qs unq upd = Inr (unq @ filter (released now vps) qs, upd @ upd')"
  using assms
proof (induction qs arbitrary: unq upd)
  case (Cons q qs)
  note IH = Cons.IH [OF Cons.prems [OF list.set_intros(2)]]
  obtain t q' where n: "NextBackoff env now q = Inr (t, q')" using Cons.prems [of q] by fastforce
  consider "released now vps q" | "\<not> released now vps q" "Elapsed q now" "\<not> Expired q now"
    | "\<not> released now vps q" "\<not> Elapsed q now" "\<not> Expired q now" by (auto simp: released_def)
  then show ?case
  proof cases
    case 1
    then have "triage env now vps (q # qs) unq upd = triage env now vps qs (unq @ [q]) upd"
      by (auto simp: released_def)
    then show ?thesis using IH [of "unq @ [q]" upd] 1 by simp
  next
    case 2
    then have "triage env now vps (q # qs) unq upd = triage env now vps qs unq (upd @ [q'])"
      using n by (auto simp: released_def split: option.splits)
    then show ?thesis using IH [of unq "upd @ [q']"] 2 by auto
  next
    case 3
    then show ?thesis using IH [of unq upd] by simp
  qed
qed simp

text \<open>
  What a tick relies on: the repository keeps its invariant, releasing takes away what has the address of
  a released quarantine, and an update keeps the addresses. That an update is kept is not among it.
\<close>

locale quarantine_store =
  fixes quarantined :: "'db \<Rightarrow> quarantine list option"
    and release :: "quarantine list \<Rightarrow> 'db \<Rightarrow> 'db"
    and update :: "quarantine list \<Rightarrow> 'db \<Rightarrow> 'db option"
    and ok :: "'db \<Rightarrow> bool"
  assumes quarantined_ok: "ok db \<Longrightarrow> \<exists>qs. quarantined db = Some qs"
    and release_ok: "ok db \<Longrightarrow> quarantined db = Some qs \<Longrightarrow> set us \<subseteq> set qs \<Longrightarrow> ok (release us db)"
    and release: "ok db \<Longrightarrow> quarantined db = Some qs \<Longrightarrow>
      quarantined (release us db) = Some (filter (\<lambda>q. vp_Ip (q_VP q) \<notin> (vp_Ip \<circ> q_VP) ` set us) qs)"
    and update_ok: "ok db \<Longrightarrow> update us db = Some db' \<Longrightarrow> ok db'"
    and update: "ok db \<Longrightarrow> quarantined db = Some qs \<Longrightarrow> update us db = Some db' \<Longrightarrow>
      \<exists>qs'. quarantined db' = Some qs' \<and> map (vp_Ip \<circ> q_VP) qs' = map (vp_Ip \<circ> q_VP) qs"
begin

lemma filter_released:
  assumes "distinct (map (vp_Ip \<circ> q_VP) qs)"
  shows "filter (\<lambda>q. vp_Ip (q_VP q) \<notin> (vp_Ip \<circ> q_VP) ` set (filter P qs)) qs = filter (\<lambda>q. \<not> P q) qs"
proof (rule filter_cong [OF refl])
  fix q assume q: "q \<in> set qs"
  have "inj_on (vp_Ip \<circ> q_VP) (set qs)" using assms by (simp add: distinct_map)
  then show "(vp_Ip (q_VP q) \<notin> (vp_Ip \<circ> q_VP) ` set (filter P qs)) = (\<not> P q)"
    using q by (auto simp: inj_on_def)
qed

lemma tick_cases:
  assumes "ok db" and "quarantined db = Some qs" and "distinct (map (vp_Ip \<circ> q_VP) qs)"
    and "\<And>q. q \<in> set qs \<Longrightarrow> \<exists>r. NextBackoff env now q = Inr r"
  shows "\<exists>db1 db'. unquarantine_tick quarantined release update env now vps db = Inr db' \<and> ok db1 \<and>
    quarantined db1 = Some (filter (\<lambda>q. \<not> released now vps q) qs) \<and> (db' = db1 \<or> (\<exists>us. update us db1 = Some db'))"
proof -
  obtain upd where t: "triage env now vps qs [] [] = Inr (filter (released now vps) qs, upd)"
    using triage_spec [OF assms(4), where unq = "[]" and upd = "[]"] by fastforce
  let ?unq = "filter (released now vps) qs" and ?rest = "filter (\<lambda>q. \<not> released now vps q) qs"
  define db1 where "db1 = (if ?unq \<noteq> [] then release ?unq db else db)"
  have "ok db1" using assms(1) release_ok [OF assms(1,2), of ?unq] by (auto simp: db1_def)
  moreover have "quarantined db1 = Some ?rest"
  proof (cases "?unq = []")
    case True
    then have "?rest = qs" by (auto simp: filter_empty_conv intro: filter_True)
    then show ?thesis using True assms(2) by (simp add: db1_def)
  next
    case False
    then show ?thesis using release [OF assms(1,2)] by (simp only: db1_def if_True filter_released [OF assms(3)] not_False_eq_True)
  qed
  moreover have "unquarantine_tick quarantined release update env now vps db =
      Inr (if upd \<noteq> [] then (case update upd db1 of None \<Rightarrow> db1 | Some db' \<Rightarrow> db') else db1)"
    unfolding unquarantine_tick_def assms(2) option.case t go_bind.simps prod.case Let_def db1_def by (rule refl)
  ultimately show ?thesis by (cases "update upd db1") auto
qed

text \<open>A tick does not panic, and takes the released quarantines out, no others.\<close>

lemma tick_addresses:
  assumes "ok db" and "quarantined db = Some qs" and "distinct (map (vp_Ip \<circ> q_VP) qs)"
    and "\<And>q. q \<in> set qs \<Longrightarrow> \<exists>r. NextBackoff env now q = Inr r"
  shows "\<exists>db' qs'. unquarantine_tick quarantined release update env now vps db = Inr db' \<and> ok db' \<and>
    quarantined db' = Some qs' \<and>
    map (vp_Ip \<circ> q_VP) qs' = map (vp_Ip \<circ> q_VP) (filter (\<lambda>q. \<not> released now vps q) qs)"
  using tick_cases [OF assms, of vps] update update_ok by blast

end

text \<open>A repository that forgets the updates.\<close>

locale forgetful_store = quarantine_store +
  assumes update_lost: "ok db \<Longrightarrow> update us db = Some db' \<Longrightarrow> db' = db"
begin

lemma tick_exact:
  assumes "ok db" and "quarantined db = Some qs" and "distinct (map (vp_Ip \<circ> q_VP) qs)"
    and "\<And>q. q \<in> set qs \<Longrightarrow> \<exists>r. NextBackoff env now q = Inr r"
  shows "\<exists>db'. unquarantine_tick quarantined release update env now vps db = Inr db' \<and> ok db' \<and>
    quarantined db' = Some (filter (\<lambda>q. \<not> released now vps q) qs)"
  using tick_cases [OF assms, of vps] update_lost by blast

end

interpretation repo_store: forgetful_store GetQuarantined UnquarantineVPs "UpdateQuarantines strict" quar_ok
proof
  fix db :: vp_db and qs us :: "quarantine list" and db'
  assume ok: "quar_ok db"
  show "\<exists>qs. GetQuarantined db = Some qs" using GetQuarantined_stored [OF ok] by blast
  show "quar_ok db'" if "UpdateQuarantines strict us db = Some db'"
    using UpdateQuarantines_lost [OF ok that] ok by simp
  show "db' = db" if "UpdateQuarantines strict us db = Some db'" by (rule UpdateQuarantines_lost [OF ok that])
  assume q: "GetQuarantined db = Some qs"
  then have qs: "qs = map stored (db_quar db)" using GetQuarantined_stored [OF ok] by simp
  show "quar_ok (UnquarantineVPs us db)" if "set us \<subseteq> set qs"
    using UnquarantineVPs_ok [OF ok, of us] that row_of_stored [OF ok] by (fastforce simp: qs)
  show "\<exists>qs'. GetQuarantined db' = Some qs' \<and> map (vp_Ip \<circ> q_VP) qs' = map (vp_Ip \<circ> q_VP) qs"
    if "UpdateQuarantines strict us db = Some db'" using UpdateQuarantines_lost [OF ok that] q by simp
  have rows: "\<forall>r\<in>set (db_quar (UnquarantineVPs us db)). \<exists>q. r = quar_row_of q"
    using ok by (auto simp: UnquarantineVPs_rows quar_ok_def)
  then have "GetQuarantined (UnquarantineVPs us db) = Some (map stored (db_quar (UnquarantineVPs us db)))"
    unfolding GetQuarantined_def
    by (intro all_some_map) (metis GetQuarantine_own quar_row.select_convs(4,5) quar_row_of_def stored_row(1))
  moreover have "map stored (filter (\<lambda>r. qr_Ip r \<notin> (vp_Ip \<circ> q_VP) ` set us) (db_quar db)) =
      filter (\<lambda>q. vp_Ip (q_VP q) \<notin> (vp_Ip \<circ> q_VP) ` set us) (map stored (db_quar db))"
    unfolding filter_map comp_def using row_of_stored [OF ok] by (intro arg_cong [of _ _ "map stored"] filter_cong) auto
  ultimately show "GetQuarantined (UnquarantineVPs us db) = Some (filter (\<lambda>q. vp_Ip (q_VP q) \<notin> (vp_Ip \<circ> q_VP) ` set us) qs)"
    by (simp only: UnquarantineVPs_rows qs)
qed

section \<open>The life of the repository\<close>

text \<open>Where a new quarantine comes from: a failed check, an operator or an alert.\<close>

definition new_for :: "vp_db \<Rightarrow> quarantine \<Rightarrow> bool" where
  "new_for db q \<longleftrightarrow> vp_Ip (q_VP q) \<noteq> 0 \<and>
     (\<exists>now vp reason exp. q = NewDefaultQuarantine now vp (GetLastQuarantine (vp_Ip vp) db) reason \<or>
        q = NewMDQuarantine now vp (GetLastQuarantine (vp_Ip vp) db) \<or> q = NewManualQuarantine vp exp)"

inductive vps_step :: "bool \<Rightarrow> quar_env \<Rightarrow> vp_db \<Rightarrow> vp_db \<Rightarrow> bool" for strict env where
  active: "vps_step strict env db (addOrUpdateVPs ord now vps db)"
| tested: "vps_step strict env db (UpdateVP now vp db)"
| quarantine: "(\<And>q. q \<in> set qs \<Longrightarrow> new_for db q) \<Longrightarrow> vps_step strict env db (QuarantineVPs qs db)"
| unquarantine: "GetQuarantined db = Some qs \<Longrightarrow> set us \<subseteq> set qs \<Longrightarrow> vps_step strict env db (UnquarantineVPs us db)"
| tick: "tryUnquarantine strict env now db = Inr db' \<Longrightarrow> vps_step strict env db db'"

inductive vps_reachable :: "bool \<Rightarrow> quar_env \<Rightarrow> vp_db \<Rightarrow> bool" for strict env where
  start: "db_quar db = [] \<Longrightarrow> db_events db = [] \<Longrightarrow> vps_reachable strict env db"
| step: "vps_reachable strict env db \<Longrightarrow> vps_step strict env db db' \<Longrightarrow> vps_reachable strict env db'"

lemma add_vps_quar: "add_vps now vps db = Some db' \<Longrightarrow> db_quar db' = db_quar db \<and> db_events db' = db_events db"
  using add_vps_spec [where now = now and vps = vps and db = db] by simp

lemma UpdateActiveVPs_quar: "db_quar (fst (UpdateActiveVPs ord now vps db)) = db_quar db"
  "db_events (fst (UpdateActiveVPs ord now vps db)) = db_events db"
  using add_vps_quar [of now _ db] by (auto simp: UpdateActiveVPs_def del_vps_spec split: prod.splits option.splits)

lemma new_for_fresh: "quar_ok db \<Longrightarrow> new_for db q \<Longrightarrow> fresh_quarantine q \<and> vp_Ip (q_VP q) \<noteq> 0"
  using GetLastQuarantine_fresh fresh_default fresh_md fresh_manual by (auto simp: new_for_def)

lemma repo_tick:
  assumes ok: "quar_ok db" and "rand_ok env"
  shows "\<exists>db'. tryUnquarantine strict env now db = Inr db' \<and> quar_ok db' \<and>
    GetQuarantined db' = Some (filter (\<lambda>q. \<not> released now (GetAllVPs db) q) (map stored (db_quar db)))"
proof -
  have "map (vp_Ip \<circ> q_VP) (map stored (db_quar db)) = map qr_Ip (db_quar db)"
    using row_of_stored [OF ok] by auto
  then have "distinct (map (vp_Ip \<circ> q_VP) (map stored (db_quar db)))" using ok by (simp only: quar_ok_def)
  then show ?thesis
    unfolding tryUnquarantine_def
    using GetQuarantined_stored [OF ok] row_of_stored [OF ok] fresh_next_backoff [OF assms(2)]
    by (intro repo_store.tick_exact [OF ok]) auto
qed

lemma vps_step_ok: "vps_step strict env db db' \<Longrightarrow> rand_ok env \<Longrightarrow> quar_ok db \<Longrightarrow> quar_ok db'"
proof (induction rule: vps_step.induct)
  case (active db ord now vps)
  then show ?case by (simp add: quar_ok_def addOrUpdateVPs_def UpdateActiveVPs_quar)
next
  case (tested db now vp)
  then show ?case by (simp add: quar_ok_def UpdateVP_def)
next
  case (quarantine qs db)
  then show ?case using new_for_fresh by (intro QuarantineVPs_ok) auto
next
  case (unquarantine db qs us)
  then show ?case using repo_store.release_ok by blast
next
  case (tick now db db')
  then show ?case using repo_tick by (metis Inr_inject)
qed

lemma vps_reachable_ok: "vps_reachable strict env db \<Longrightarrow> rand_ok env \<Longrightarrow> quar_ok db"
proof (induction rule: vps_reachable.induct)
  case (start db)
  then show ?case by (simp add: quar_ok_def)
next
  case (step db db')
  then show ?case using vps_step_ok by blast
qed

section \<open>Filters\<close>

lemma site_map_distinct: "distinct (map fst m) \<Longrightarrow> distinct (map fst (site_map site vps m))"
  by (induction vps arbitrary: m) (auto simp: distinct_update)

lemma update_subset: "set (AList.update k v m) \<subseteq> insert (k, v) (set m)"
  by (induction m) auto

lemma site_map_entries: "set (site_map site vps m) \<subseteq> set m \<union> (\<lambda>vp. (site vp, vp)) ` set vps"
proof (induction vps arbitrary: m)
  case (Cons vp vps)
  then show ?case using update_subset [of "site vp" vp m] by fastforce
qed simp

lemma site_map_keys: "set (map fst (site_map site vps m)) = set (map fst m) \<union> site ` set vps"
proof (induction vps arbitrary: m)
  case (Cons vp vps)
  have "set (map fst (AList.update (site vp) vp m)) = insert (site vp) (set (map fst m))"
    by (simp add: update_keys) auto
  then show ?case using Cons.IH [of "AList.update (site vp) vp m"] by auto
qed simp

lemma OnePerSite_spec:
  assumes "rearrangement ord"
  shows "distinct (map site (OnePerSite ord site vps))" and "set (OnePerSite ord site vps) \<subseteq> set vps"
    and "site ` set (OnePerSite ord site vps) = site ` set vps"
proof -
  let ?m = "site_map site vps []"
  have e: "set ?m \<subseteq> (\<lambda>vp. (site vp, vp)) ` set vps" using site_map_entries [of site vps "[]"] by simp
  have m: "mset (OnePerSite ord site vps) = mset (map snd ?m)" by (simp add: OnePerSite_def rearrangement.mset_ord [OF assms])
  have keys: "map site (map snd ?m) = map fst ?m" using e by auto
  have "mset (map site (OnePerSite ord site vps)) = mset (map site (map snd ?m))" using m by (metis mset_map)
  then show "distinct (map site (OnePerSite ord site vps))"
    unfolding keys using site_map_distinct [of "[]" site vps] mset_eq_imp_distinct_iff by fastforce
  have s: "set (OnePerSite ord site vps) = set (map snd ?m)" using m by (rule mset_eq_setD)
  then show "set (OnePerSite ord site vps) \<subseteq> set vps" using e by auto
  have "site ` set (map snd ?m) = set (map site (map snd ?m))" by (simp only: set_map)
  then show "site ` set (OnePerSite ord site vps) = site ` set vps"
    unfolding s keys using site_map_keys [of site vps "[]"] by simp
qed

lemma sort_insert_sorted:
  fixes key :: "'a \<Rightarrow> 'b::linorder"
  shows "sorted (rev (map key ys)) \<Longrightarrow> sorted (rev (map key (sort_insert (\<lambda>a b. key a < key b) x ys)))"
proof (induction ys)
  case (Cons y ys)
  have "set (sort_insert (\<lambda>a b. key a < key b) x ys) = insert x (set ys)"
    using mset_sort_insert [of "\<lambda>a b. key a < key b" x ys] by (metis set_mset_add_mset_insert set_mset_mset)
  then show ?case using Cons by (auto simp: sorted_append)
qed simp

lemma insertion_sort_sorted:
  fixes key :: "'a \<Rightarrow> 'b::linorder"
  shows "sorted (map key (go_insertion_sort (\<lambda>a b. key a < key b) xs))"
proof -
  have "sorted (rev (map key acc)) \<Longrightarrow> sorted (rev (map key (fold (sort_insert (\<lambda>a b. key a < key b)) xs acc)))" for acc
    by (induction xs arbitrary: acc) (auto simp: sort_insert_sorted)
  from this [of "[]"] show ?thesis by (simp add: go_insertion_sort_def rev_map)
qed

section \<open>Properties\<close>

text \<open>
  C20. After a round of the server the table of vantage points holds exactly the hosts, addresses and sites the
  controller reports, those known before with what they were found able to do. Unless an address known
  before is reported with another host or site: then the whole round, and every later one until that
  changes, changes nothing.
\<close>

theorem active_list_outcome:
  assumes "rearrangement ord" and "distinct (ips_of db)" and "distinct (map vp_Ip vps)"
  shows "if renamed (map bare vps) db then addOrUpdateVPs ord now vps db = db
    else distinct (ips_of (addOrUpdateVPs ord now vps db)) \<and>
      set (map bare (GetAllVPs (addOrUpdateVPs ord now vps db))) = set (map bare vps) \<and>
      (\<exists>add. db_vps (addOrUpdateVPs ord now vps db) =
         filter (\<lambda>r. bare (vr_vp r) \<in> set (map bare vps)) (db_vps db) @ map (added_row now) add)"
proof -
  have m: "map vp_Ip (map bare vps) = map vp_Ip vps" by simp
  then have "distinct (map bare vps)" using assms(3) by (metis distinct_map)
  then have "distinct (map vp_Ip (remdups (map bare vps)))" using assms(3) m by (simp only: distinct_remdups_id)
  moreover have "\<forall>vp\<in>set (map bare vps). bare vp = vp" by auto
  ultimately show ?thesis
    using update_active [OF assms(1,2), of "map bare vps" now] by (auto simp: addOrUpdateVPs_def)
qed

definition ex_db :: vp_db where
  "ex_db = \<lparr>db_vps = [\<lparr>vr_vp = ex_vp, vr_last_check = 0\<rparr>], db_quar = [], db_events = [], db_vp_events = [], db_dist = []\<rparr>"

theorem active_list_outcome_witness:
  "addOrUpdateVPs insertion_order 1 [ex_vp\<lparr>vp_Hostname := ''renamed''\<rparr>, ex_vp\<lparr>vp_Ip := 9\<rparr>] ex_db = ex_db"
proof -
  have "renamed (map bare [ex_vp\<lparr>vp_Hostname := ''renamed''\<rparr>, ex_vp\<lparr>vp_Ip := 9\<rparr>]) ex_db"
    by (simp add: renamed_def GetAllVPs_def ex_db_def ex_vp_def bare_def)
  then show ?thesis
    using active_list_outcome [OF insertion_order.rearrangement_axioms, of ex_db "[ex_vp\<lparr>vp_Hostname := ''renamed''\<rparr>, ex_vp\<lparr>vp_Ip := 9\<rparr>]" 1]
    by (simp add: ex_db_def ex_vp_def)
qed

text \<open>
  C21. Whatever happened to the repository before, a tick of the unquarantining loop does not panic, and takes
  out exactly the quarantines that expired and those whose backoff elapsed with the node able to measure.
  All others stay exactly as they were: the next backoff is computed, but never stored, so that every
  quarantine that backs off is forever at its first attempt.
\<close>

theorem unquarantine_outcome:
  assumes "vps_reachable strict env db" and "rand_ok env"
  shows "\<exists>qs db'. GetQuarantined db = Some qs \<and> tryUnquarantine strict env now db = Inr db' \<and>
    GetQuarantined db' = Some (filter (\<lambda>q. \<not> released now (GetAllVPs db) q) qs) \<and>
    (\<forall>q\<in>set qs. q_class q = Q_manual \<or> q_Attempt q = 0)"
proof -
  have ok: "quar_ok db" by (rule vps_reachable_ok [OF assms])
  have "\<forall>q\<in>set (map stored (db_quar db)). q_class q = Q_manual \<or> q_Attempt q = 0"
    using row_of_stored [OF ok] by (auto simp: fresh_quarantine_def)
  then show ?thesis using repo_tick [OF ok assms(2)] GetQuarantined_stored [OF ok] by blast
qed

definition ex_quarantined_db :: vp_db where
  "ex_quarantined_db = QuarantineVPs [NewDefaultQuarantine 0 ex_vp None CantRunCode] ex_db"

lemma ex_reachable: "vps_reachable strict env ex_quarantined_db"
proof -
  have "new_for ex_db (NewDefaultQuarantine 0 ex_vp None CantRunCode)"
    unfolding new_for_def
    by (intro conjI exI [of _ 0] exI [of _ ex_vp] exI [of _ CantRunCode] disjI1)
      (simp_all add: NewDefaultQuarantine_def new_quarantine_def Let_def ex_vp_def GetLastQuarantine_def ex_db_def)
  then have "vps_step strict env ex_db ex_quarantined_db"
    unfolding ex_quarantined_db_def by (intro vps_step.quarantine) simp
  moreover have "vps_reachable strict env ex_db" by (rule vps_reachable.start) (simp_all add: ex_db_def)
  ultimately show ?thesis by (rule vps_reachable.step [rotated])
qed

theorem unquarantine_outcome_witness:
  "\<exists>db'. tryUnquarantine False ex_quar_env 100000000000000 ex_quarantined_db = Inr db' \<and>
    GetQuarantined db' = Some [NewDefaultQuarantine 0 ex_vp None CantRunCode]"
proof -
  have "GetQuarantined ex_quarantined_db = Some [NewDefaultQuarantine 0 ex_vp None CantRunCode]"
    by (simp add: ex_quarantined_db_def ex_db_def GetQuarantined_def quar_row_of_def GetQuarantine_own)
  moreover have "\<not> released 100000000000000 (GetAllVPs ex_quarantined_db) (NewDefaultQuarantine 0 ex_vp None CantRunCode)"
    by (simp add: released_def ex_quarantined_db_def ex_db_def GetAllVPs_def vp_of_host_def shouldQuarantine_def
        Expired_def NewDefaultQuarantine_def new_quarantine_def Let_def ex_vp_def)
  ultimately show ?thesis
    using unquarantine_outcome [OF ex_reachable [of False ex_quar_env] ex_rand_ok, of 100000000000000] by auto
qed

definition rr_able :: "uint32 \<Rightarrow> vp_db \<Rightarrow> vantage_point \<Rightarrow> bool" where
  "rr_able target db vp \<longleftrightarrow> vp \<in> set (GetVPs db) \<and> vp_RecordRoute vp \<and> vp_Spoof vp \<and>
     vp_dist (db_dist db) target (vp_Ip vp) \<noteq> 9"

lemma nearest_per_site:
  assumes "rearrangement ord"
  defines "final far \<equiv> OrderRRDistanceFilter (OnePerSite ord vp_Site far)"
  shows "set (final far) \<subseteq> set far" and "vp_Site ` set (final far) = vp_Site ` set far"
    and "distinct (map vp_Site (final far))" and "sorted (map rrv_Dist (final far))" and "length (final far) \<le> length far"
proof -
  note one = OnePerSite_spec [OF assms(1), of vp_Site far]
  have mfinal: "mset (final far) = mset (OnePerSite ord vp_Site far)"
    by (simp add: final_def OrderRRDistanceFilter_def insertion_sort.mset_ord)
  then show "set (final far) \<subseteq> set far" "vp_Site ` set (final far) = vp_Site ` set far"
    using one mset_eq_setD [OF mfinal] by auto
  show "distinct (map vp_Site (final far))"
    using one(1) mset_eq_imp_distinct_iff mfinal by (metis mset_map)
  show "sorted (map rrv_Dist (final far))"
    unfolding final_def OrderRRDistanceFilter_def by (rule insertion_sort_sorted)
  have "length (final far) = card (vp_Site ` set (OnePerSite ord vp_Site far))"
    using distinct_card [OF one(1)] mset_eq_length [OF mfinal] by simp
  also have "\<dots> \<le> card (set far)" unfolding one(3) by (rule card_image_le) simp
  also have "\<dots> \<le> length far" by (rule card_length)
  finally show "length (final far) \<le> length far" .
qed

text \<open>
  C22. The vantage points offered for spoofed record route probes to a target: at most as many as asked for,
  no two of a site, nearest first, each of them not in quarantine, able to spoof and to do record route,
  and not exactly nine hops away; and if fewer than asked for come back, every site that has such a
  vantage point is among them.
\<close>

theorem rr_spoofers_outcome:
  assumes "rearrangement ord" and "length (db_vps db) < 2 ^ 32"
    and "answer = GetRRSpoofers (rr_filters ord) target mx db" and "lim = (if mx = 0 then 250 else unat mx)"
  shows "length answer \<le> lim \<and> distinct (map vp_Site answer) \<and>
    sorted (map (\<lambda>vp. vp_dist (db_dist db) target (vp_Ip vp)) answer) \<and>
    (\<forall>a\<in>set answer. \<exists>vp. rr_able target db vp \<and> a = scanned vp) \<and>
    (length answer < lim \<longrightarrow> vp_Site ` set answer = vp_Site ` {vp. rr_able target db vp})"
proof -
  let ?d = "\<lambda>vp. vp_dist (db_dist db) target (vp_Ip vp)"
  let ?mk = "\<lambda>vp. vantage_point.extend (scanned vp) (rr_vantage_point.fields (?d vp) target)"
  have mk: "vp_Site (?mk vp) = vp_Site vp" "vp_Ip (?mk vp) = vp_Ip vp" "rrv_Dist (?mk vp) = ?d vp"
    "vantage_point.truncate (?mk vp) = scanned vp" for vp
    by (cases vp, simp add: scanned_def vantage_point.defs rr_vantage_point.defs)+
  define repo where "repo = repo_GetRRSpoofers target db"
  define far where "far = MakeRRDistanceFilter 9 9 repo"
  define final where "final = OrderRRDistanceFilter (OnePerSite ord vp_Site far)"
  have answer: "answer = limited (if mx = 0 then defaultLimit else mx) (map vantage_point.truncate final)"
    by (simp add: assms(3) GetRRSpoofers_def rr_filters_def ComposeFilter_def final_def far_def repo_def Let_def)
  have srepo: "set repo = ?mk ` {vp \<in> set (GetVPs db). vp_RecordRoute vp \<and> vp_Spoof vp}"
    by (auto simp: repo_def repo_GetRRSpoofers_def)
  have eq9: "(9 \<le> x \<and> x \<le> 9) = (x = (9 :: uint32))" for x by auto
  have sfar: "set far = ?mk ` {vp. rr_able target db vp}"
    by (auto simp: far_def MakeRRDistanceFilter_def srepo rr_able_def mk eq9)
  note final = nearest_per_site [OF assms(1), of far, folded final_def]
  have "length far \<le> length repo" by (simp add: far_def MakeRRDistanceFilter_def)
  also have "\<dots> \<le> length (GetVPs db)" by (simp add: repo_def repo_GetRRSpoofers_def)
  also have "\<dots> \<le> length (db_vps db)" using length_filter_le [of _ "map vr_vp (db_vps db)"] by (simp add: GetVPs_def)
  finally have len: "length final < 2 ^ 32" using assms(2) final(5) by linarith
  have u: "unat (word_of_nat (length final) :: uint32) = length final" using len by (simp add: unat_of_nat)
  have take: "answer = take lim (map vantage_point.truncate final)"
    unfolding answer assms(4) limited_def defaultLimit_def by (auto simp: word_less_nat_alt u not_less)
  have parts: "vp_Site (vantage_point.truncate f) = vp_Site f \<and> ?d (vantage_point.truncate f) = rrv_Dist f \<and>
      (\<exists>vp. rr_able target db vp \<and> vantage_point.truncate f = scanned vp)" if fin: "f \<in> set final" for f
  proof -
    obtain vp where "f = ?mk vp" "rr_able target db vp" using subsetD [OF final(1) fin] sfar by auto
    then show ?thesis using mk [of vp] by (auto simp: scanned_def)
  qed
  have sites: "map vp_Site (map vantage_point.truncate final) = map vp_Site final"
    and dists: "map ?d (map vantage_point.truncate final) = map rrv_Dist final" using parts by auto
  have "length answer \<le> lim" by (simp add: take)
  moreover have "distinct (map vp_Site answer)" unfolding take take_map [symmetric] sites using final(3) by simp
  moreover have "sorted (map ?d answer)"
    unfolding take take_map [symmetric] dists using final(4) by (rule sorted_wrt_take)
  moreover have "\<forall>a\<in>set answer. \<exists>vp. rr_able target db vp \<and> a = scanned vp"
    using parts set_take_subset [of lim "map vantage_point.truncate final"] unfolding take by fastforce
  moreover have "vp_Site ` set answer = vp_Site ` {vp. rr_able target db vp}" if "length answer < lim"
  proof -
    have "answer = map vantage_point.truncate final" using that by (simp add: take)
    then have "vp_Site ` set answer = set (map vp_Site final)" using sites by (metis set_map)
    also have "\<dots> = vp_Site ` {vp. rr_able target db vp}" using final(2) sfar mk(1) by (auto simp: image_image)
    finally show ?thesis .
  qed
  ultimately show ?thesis by blast
qed

theorem rr_spoofers_outcome_witness:
  "length (GetRRSpoofers (rr_filters insertion_order) 7 0 ex_db) \<le> 250"
proof -
  have "length (db_vps ex_db) < 2 ^ 32" by (simp add: ex_db_def)
  from rr_spoofers_outcome [OF insertion_order.rearrangement_axioms this refl refl, of 7 0] show ?thesis by simp
qed

end
