(* ===== verification/Warts.thy ===== *)
theory Warts
  imports Prelude
begin

text \<open>
  \<open>warts/utils.go\<close>, \<open>flags.go\<close>, \<open>header.go\<close>, \<open>address.go\<close>, \<open>list.go\<close>, \<open>cycle.go\<close>: the parts the readers of
  scamper's binary output are made of. \<open>Parse\<close> reads from a \<open>bytes.Buffer\<close>, so the \<open>io.Reader\<close> all
  functions take is that buffer: \<open>Read\<close> of \<open>n\<close> bytes gives at most \<open>n\<close>, and \<open>io.EOF\<close> when the buffer is
  empty. The state of a reader is the unread part of the buffer and the addresses seen so far
  (\<open>AddressRefs\<close>); Go strings are byte lists.
\<close>

section \<open>Readers\<close>

record Address =
  a_Type :: uint8
  a_Address :: uint64

definition zero_Address :: Address where
  "zero_Address = \<lparr>a_Type = 0, a_Address = 0\<rparr>"

record rstate =
  rs_buf :: "byte list"
  rs_id :: uint32
  rs_addrs :: "uint32 \<rightharpoonup> Address"

text \<open>
  \<open>io.EOF\<close> is told apart by identity; all other errors are formatted messages. A panic is a value as well.
\<close>

datatype rd_error = io_EOF | Errorf string | Panicked go_panic

type_synonym 'a rd = "rstate \<Rightarrow> (rd_error + 'a) \<times> rstate"

definition rd_return :: "'a \<Rightarrow> 'a rd" where
  "rd_return x s = (Inr x, s)"

definition rd_error :: "string \<Rightarrow> 'a rd" where
  "rd_error msg s = (Inl (Errorf msg), s)"

definition rd_bind :: "'a rd \<Rightarrow> ('a \<Rightarrow> 'b rd) \<Rightarrow> 'b rd" where
  "rd_bind m f s = (case m s of (Inl e, s') \<Rightarrow> (Inl e, s') | (Inr x, s') \<Rightarrow> f x s')"

definition rd_map :: "('a \<Rightarrow> 'b) \<Rightarrow> 'a rd \<Rightarrow> 'b rd" where
  "rd_map f m = rd_bind m (\<lambda>x. rd_return (f x))"

definition rd_go :: "'a go \<Rightarrow> 'a rd" where
  "rd_go r s = (case r of Inl p \<Rightarrow> (Inl (Panicked p), s) | Inr x \<Rightarrow> (Inr x, s))"

text \<open>A loop over a list of flags, or over the numbers below a count, that stops at the first error.\<close>

fun rd_fold :: "('x \<Rightarrow> 'a \<Rightarrow> 'a rd) \<Rightarrow> 'x list \<Rightarrow> 'a \<Rightarrow> 'a rd" where
  "rd_fold f [] a = rd_return a"
| "rd_fold f (x # xs) a = rd_bind (f x a) (rd_fold f xs)"

fun rd_times :: "nat \<Rightarrow> 'a rd \<Rightarrow> 'a list rd" where
  "rd_times 0 m = rd_return []"
| "rd_times (Suc n) m = rd_bind m (\<lambda>x. rd_map (Cons x) (rd_times n m))"

definition Buffer_Read :: "nat \<Rightarrow> byte list rd" where
  "Buffer_Read n s =
     (if rs_buf s = [] then (if n = 0 then Inr [] else Inl io_EOF, s)
      else (Inr (take n (rs_buf s)), s\<lparr>rs_buf := drop n (rs_buf s)\<rparr>))"

text \<open>
  The pattern all readers share: read \<open>n\<close> bytes, return the error of \<open>Read\<close> (as it is, or formatted
  into a message), and fail with another message when fewer than \<open>n\<close> bytes came.
\<close>

definition read_exactly :: "nat \<Rightarrow> (rd_error \<Rightarrow> rd_error) \<Rightarrow> string \<Rightarrow> byte list rd" where
  "read_exactly n wrap short s =
     (case Buffer_Read n s of
        (Inl e, s') \<Rightarrow> (Inl (wrap e), s')
      | (Inr xs, s') \<Rightarrow> if length xs \<noteq> n then (Inl (Errorf short), s') else (Inr xs, s'))"

definition wrap :: "string \<Rightarrow> rd_error \<Rightarrow> rd_error" where
  "wrap msg e = Errorf msg"

section \<open>Numbers and strings\<close>

definition isset :: "uint8 \<Rightarrow> uint8 \<Rightarrow> bool" where
  "isset val pos = (val AND push_bit (unat (pos - 1)) 1 \<noteq> 0)"

definition getUint32 :: "byte list \<Rightarrow> uint32 go" where
  "getUint32 xs =
     go_bind (go_index xs 0) (\<lambda>b0. go_bind (go_index xs 1) (\<lambda>b1.
     go_bind (go_index xs 2) (\<lambda>b2. go_bind (go_index xs 3) (\<lambda>b3.
       Inr (push_bit 24 (ucast b0) OR push_bit 16 (ucast b1) OR push_bit 8 (ucast b2) OR ucast b3)))))"

definition readUint32 :: "uint32 rd" where
  "readUint32 = rd_bind (read_exactly 4 (wrap ''Failed to read uint16 flag'') ''Bad Read readUint16'')
     (\<lambda>xs. rd_go (getUint32 xs))"

definition getUint8 :: "byte list \<Rightarrow> uint8 go" where
  "getUint8 xs = go_index xs 0"

definition readUint8 :: "uint8 rd" where
  "readUint8 = rd_bind (read_exactly 1 (wrap ''Failed to read uint16 flag'') ''Bad Read readUint16'')
     (\<lambda>xs. rd_go (getUint8 xs))"

definition getUint16 :: "byte list \<Rightarrow> uint16 go" where
  "getUint16 xs =
     go_bind (go_index xs 0) (\<lambda>b0. go_bind (go_index xs 1) (\<lambda>b1.
       Inr (push_bit 8 (ucast b0) OR ucast b1)))"

definition readUint16 :: "uint16 rd" where
  "readUint16 = rd_bind (read_exactly 2 (wrap ''Failed to read uint16 flag'') ''Bad Read readUint16'')
     (\<lambda>xs. rd_go (getUint16 xs))"

record Timeval =
  tv_Sec :: int64
  tv_Usec :: int64

definition zero_Timeval :: Timeval where
  "zero_Timeval = \<lparr>tv_Sec = 0, tv_Usec = 0\<rparr>"

definition convertTimeval :: "uint32 \<Rightarrow> Timeval" where
  "convertTimeval val = \<lparr>tv_Sec = ucast (val div 1000000), tv_Usec = ucast (val mod 1000000)\<rparr>"

definition setSecond :: "uint32 \<Rightarrow> Timeval \<Rightarrow> Timeval" where
  "setSecond val t = t\<lparr>tv_Sec := ucast val\<rparr>"

definition setUSecond :: "uint32 \<Rightarrow> Timeval \<Rightarrow> Timeval" where
  "setUSecond val t = t\<lparr>tv_Usec := ucast val\<rparr>"

definition readTimeVal :: "Timeval rd" where
  "readTimeVal = rd_bind readUint32 (\<lambda>sec. rd_bind readUint32 (\<lambda>usec.
     rd_return (setUSecond usec (setSecond sec zero_Timeval))))"

definition readOne :: "uint8 rd" where
  "readOne = rd_bind (read_exactly 1 id ''readOne failed'') (\<lambda>xs. rd_go (go_index xs 0))"

definition readBytes :: "nat \<Rightarrow> byte list rd" where
  "readBytes n = read_exactly n id ''Failed to read, readBytes''"

text \<open>The loop of \<open>getString\<close> ends because every round takes a byte from the buffer.\<close>

lemma read_byte_shrinks:
  "read_exactly (Suc n) w short s = (Inr xs, s') \<Longrightarrow> length (rs_buf s') < length (rs_buf s)"
  by (auto simp: read_exactly_def Buffer_Read_def split: if_splits)

function getString_loop :: "byte list \<Rightarrow> byte list rd" where
  "getString_loop buf s =
     (case read_exactly 1 id ''getString bad read length: %d'' s of
        (Inl e, s') \<Rightarrow> (Inl e, s')
      | (Inr temp, s') \<Rightarrow>
          (case go_index temp 0 of
             Inl p \<Rightarrow> (Inl (Panicked p), s')
           | Inr b \<Rightarrow> if b = 0 then (Inr buf, s') else getString_loop (buf @ [b]) s'))"
  by pat_completeness auto
termination by (relation "measure (\<lambda>(_, s). length (rs_buf s))") (auto dest!: sym [THEN read_byte_shrinks [of 0, simplified]])

declare getString_loop.simps [simp del]

definition getString :: "byte list rd" where
  "getString = getString_loop []"

definition sliceToUint64 :: "byte list \<Rightarrow> uint64" where
  "sliceToUint64 xs =
     (if length xs > 8 then 0
      else fold (\<lambda>i ret. ret OR push_bit (8 * (length xs - i - 1)) (ucast (xs ! i))) [0..<length xs] 0)"

section \<open>Flags\<close>

definition flags_of :: "uint8 \<Rightarrow> uint8 \<Rightarrow> uint8 list" where
  "flags_of check byteNum = map (\<lambda>i. i + 7 * (byteNum - 1)) (filter (isset check) [1, 2, 3, 4, 5, 6, 7])"

lemma readOne_shrinks: "readOne s = (Inr x, s') \<Longrightarrow> length (rs_buf s') < length (rs_buf s)"
  by (auto simp: readOne_def rd_bind_def rd_go_def dest: read_byte_shrinks [of 0, simplified]
      split: prod.splits sum.splits)

function getFlags_loop :: "uint8 \<Rightarrow> uint8 \<Rightarrow> uint8 list \<Rightarrow> uint8 list rd" where
  "getFlags_loop check byteNum ret s =
     (let ret = ret @ flags_of check byteNum in
      if \<not> isset check 8 then (Inr ret, s)
      else (case readOne s of
              (Inl e, s') \<Rightarrow> (Inl e, s')
            | (Inr nxt, s') \<Rightarrow> getFlags_loop nxt (byteNum + 1) ret s'))"
  by pat_completeness auto
termination by (relation "measure (\<lambda>(_, _, _, s). length (rs_buf s))") (auto dest: readOne_shrinks [OF sym])

declare getFlags_loop.simps [simp del]

definition getFlags :: "uint8 \<Rightarrow> uint8 list rd" where
  "getFlags first = getFlags_loop first 1 []"

section \<open>Addresses\<close>

text \<open>\<open>NewAddressRefs\<close>: every ping and every traceroute starts with an empty table.\<close>

definition NewAddressRefs :: "unit rd" where
  "NewAddressRefs s = (Inr (), s\<lparr>rs_id := 0, rs_addrs := Map.empty\<rparr>)"

definition AddressRefs_Add :: "Address \<Rightarrow> unit rd" where
  "AddressRefs_Add addr s = (Inr (), s\<lparr>rs_id := rs_id s + 1, rs_addrs := (rs_addrs s)(rs_id s \<mapsto> addr)\<rparr>)"

definition AddressRefs_Get :: "uint32 \<Rightarrow> Address rd" where
  "AddressRefs_Get i s = (Inr (case rs_addrs s i of Some a \<Rightarrow> a | None \<Rightarrow> zero_Address), s)"

definition readReferencedAddress :: "Address rd" where
  "readReferencedAddress = rd_bind readUint32 AddressRefs_Get"

definition readAddress :: "Address rd" where
  "readAddress =
     rd_bind readUint8 (\<lambda>len.
     if len = 0 then rd_bind readUint32 AddressRefs_Get
     else rd_bind readUint8 (\<lambda>t.
          rd_bind (readBytes (unat len)) (\<lambda>res.
          let a = \<lparr>a_Type = t, a_Address = sliceToUint64 res\<rparr> in
          rd_bind (AddressRefs_Add a) (\<lambda>_. rd_return a))))"

section \<open>Headers, lists, cycles\<close>

record Header =
  h_Magic :: uint16
  h_Type :: uint32
  h_Length :: uint32

text \<open>
  A header comes back with an error too; its type is then still 0 and its length too (\<open>parseNext\<close> looks
  at the type before it looks at the error).
\<close>

definition readHeader :: "Header rd" where
  "readHeader =
     rd_bind (read_exactly 8 id ''ReadHeader, short read'') (\<lambda>head.
     rd_bind (rd_go (getUint16 head)) (\<lambda>magic.
     if magic \<noteq> 0x1205 then rd_error ''Incorrect warts magic''
     else rd_bind (rd_go (getUint16 (drop 2 head))) (\<lambda>t.
          rd_bind (rd_go (getUint32 (drop 4 head))) (\<lambda>len.
            rd_return \<lparr>h_Magic = magic, h_Type = ucast t, h_Length = len\<rparr>))))"

record ListFlags =
  lf_Length :: uint16
  lf_Description :: "byte list"
  lf_MonitorName :: "byte list"

definition zero_ListFlags :: ListFlags where
  "zero_ListFlags = \<lparr>lf_Length = 0, lf_Description = [], lf_MonitorName = []\<rparr>"

text \<open>An error of \<open>getString\<close> is dropped here: the flags read so far are returned.\<close>

definition string_or :: "'a \<Rightarrow> (byte list \<Rightarrow> 'a rd) \<Rightarrow> 'a rd" where
  "string_or dflt k s =
     (case getString s of
        (Inl (Panicked p), s') \<Rightarrow> (Inl (Panicked p), s')
      | (Inl e, s') \<Rightarrow> (Inr dflt, s')
      | (Inr x, s') \<Rightarrow> k x s')"

definition readListFlags :: "ListFlags rd" where
  "readListFlags =
     rd_bind (read_exactly 1 (wrap ''Failed to read list flag'') ''Bad Read readListFlags'') (\<lambda>first.
     rd_bind (rd_go (getUint8 first)) (\<lambda>flag.
     let dscIsSet = isset flag 1; monIsSet = isset flag 2; lf = zero_ListFlags in
     if \<not> dscIsSet \<and> \<not> monIsSet then rd_return lf
     else rd_bind readUint16 (\<lambda>l.
       let lf = lf\<lparr>lf_Length := l\<rparr>;
           monitor = (\<lambda>lf. if monIsSet then string_or lf (\<lambda>mon. rd_return (lf\<lparr>lf_MonitorName := mon\<rparr>))
                           else rd_return lf)
       in if dscIsSet then string_or lf (\<lambda>desc. monitor (lf\<lparr>lf_Description := desc\<rparr>))
          else monitor lf)))"

record WList =
  l_ListID :: uint32
  l_CListID :: uint32
  l_ListName :: "byte list"
  l_PLength :: uint16
  l_Description :: "byte list"
  l_MonitorName :: "byte list"

definition readList :: "WList rd" where
  "readList =
     rd_bind (read_exactly 8 id ''readList short read'') (\<lambda>ids.
     rd_bind (rd_go (getUint32 (take 4 ids))) (\<lambda>listID.
     rd_bind (rd_go (getUint32 (drop 4 ids))) (\<lambda>cListID.
     rd_bind getString (\<lambda>name.
     rd_bind readListFlags (\<lambda>flags.
       rd_return \<lparr>l_ListID = listID, l_CListID = cListID, l_ListName = name, l_PLength = lf_Length flags,
         l_Description = lf_Description flags, l_MonitorName = lf_MonitorName flags\<rparr>)))))"

record CycleStartFlags =
  csf_Length :: uint16
  csf_StopTime :: uint32
  csf_Hostname :: "byte list"

definition zero_CycleStartFlags :: CycleStartFlags where
  "zero_CycleStartFlags = \<lparr>csf_Length = 0, csf_StopTime = 0, csf_Hostname = []\<rparr>"

definition readCycleStartFlags :: "CycleStartFlags rd" where
  "readCycleStartFlags =
     rd_bind (read_exactly 1 (wrap ''Failed to read cycle start flag'') ''Bad Read readCycleStartFlags'') (\<lambda>first.
     rd_bind (rd_go (go_index first 0)) (\<lambda>flag.
     let stopTime = isset flag 1; hostname = isset flag 2; csf = zero_CycleStartFlags in
     if \<not> stopTime \<and> \<not> hostname then rd_return csf
     else rd_bind readUint16 (\<lambda>l.
       let csf = csf\<lparr>csf_Length := l\<rparr>;
           host = (\<lambda>csf. if hostname then rd_map (\<lambda>hn. csf\<lparr>csf_Hostname := hn\<rparr>) getString else rd_return csf)
       in if stopTime then rd_bind readUint32 (\<lambda>n. host (csf\<lparr>csf_StopTime := n\<rparr>)) else host csf)))"

record CycleStart =
  cs_CycleID :: uint32
  cs_ListID :: uint32
  cs_CCycleID :: uint32
  cs_StartTime :: uint32
  cs_PLength :: uint16
  cs_StopTime :: uint32
  cs_Hostname :: "byte list"

definition readCycle :: "CycleStart rd" where
  "readCycle =
     rd_bind (read_exactly 16 id ''Failed to read cycle'') (\<lambda>buf.
     rd_bind (rd_go (getUint32 (take 4 buf))) (\<lambda>cycleID.
     rd_bind (rd_go (getUint32 (take 4 (drop 4 buf)))) (\<lambda>listID.
     rd_bind (rd_go (getUint32 (take 4 (drop 8 buf)))) (\<lambda>cCycleID.
     rd_bind (rd_go (getUint32 (drop 12 buf))) (\<lambda>startTime.
     rd_bind readCycleStartFlags (\<lambda>fl.
       rd_return \<lparr>cs_CycleID = cycleID, cs_ListID = listID, cs_CCycleID = cCycleID, cs_StartTime = startTime,
         cs_PLength = csf_Length fl, cs_StopTime = csf_StopTime fl, cs_Hostname = csf_Hostname fl\<rparr>))))))"

record CycleStop =
  cst_CycleID :: uint32
  cst_StopTime :: uint32

definition readCycleStopFlags :: "unit rd" where
  "readCycleStopFlags = rd_map (\<lambda>_. ()) (read_exactly 1 id ''Failed to read, readCycleStopFlags'')"

definition readCycleStop :: "CycleStop rd" where
  "readCycleStop =
     rd_bind (read_exactly 8 id ''Failed to read Cycle stop'') (\<lambda>buf.
     rd_bind (rd_go (getUint32 (take 4 buf))) (\<lambda>cycleID.
     rd_bind (rd_go (getUint32 (drop 4 buf))) (\<lambda>stopTime.
     rd_bind readCycleStopFlags (\<lambda>_.
       rd_return \<lparr>cst_CycleID = cycleID, cst_StopTime = stopTime\<rparr>))))"

section \<open>What every reader keeps\<close>

text \<open>
  A sound reader leaves a suffix of the buffer, whatever it returns, and does not panic. The rules build
  soundness along the structure of a reader; each reader's own soundness joins the collection.
\<close>

named_theorems rd_sound \<open>soundness of readers\<close>

definition sound_reader :: "'a rd \<Rightarrow> bool" where
  "sound_reader m \<longleftrightarrow> (\<forall>s. suffix (rs_buf (snd (m s))) (rs_buf s) \<and> (\<forall>p. fst (m s) \<noteq> Inl (Panicked p)))"

lemma sound_readerD:
  assumes "sound_reader m" and "m s = (r, s')"
  shows "suffix (rs_buf s') (rs_buf s)" and "r \<noteq> Inl (Panicked p)"
  using assms unfolding sound_reader_def by (metis fst_conv snd_conv)+

lemma sound_reader_length: "sound_reader m \<Longrightarrow> m s = (r, s') \<Longrightarrow> length (rs_buf s') \<le> length (rs_buf s)"
  by (rule suffix_length_le, erule sound_readerD)

lemma sound_return [rd_sound]: "sound_reader (rd_return x)"
  by (simp add: sound_reader_def rd_return_def)

lemma sound_error [rd_sound]: "sound_reader (rd_error msg)"
  by (simp add: sound_reader_def rd_error_def)

lemma sound_bind [rd_sound]:
  assumes "sound_reader m" and "\<And>x. sound_reader (f x)"
  shows "sound_reader (rd_bind m f)"
  unfolding sound_reader_def
proof
  fix s
  obtain r s' where m: "m s = (r, s')" by (cases "m s")
  note d = sound_readerD [OF assms(1) m]
  show "suffix (rs_buf (snd (rd_bind m f s))) (rs_buf s) \<and> (\<forall>p. fst (rd_bind m f s) \<noteq> Inl (Panicked p))"
  proof (cases r)
    case (Inl e)
    then show ?thesis using d by (auto simp: rd_bind_def m)
  next
    case (Inr x)
    obtain r2 s2 where f: "f x s' = (r2, s2)" by (cases "f x s'")
    note d2 = sound_readerD [OF assms(2) f]
    from d2(1) d(1) have "suffix (rs_buf s2) (rs_buf s)" by (rule suffix_order.trans)
    then show ?thesis using Inr d2(2) by (simp add: rd_bind_def m f)
  qed
qed

lemma sound_map [rd_sound]: "sound_reader m \<Longrightarrow> sound_reader (rd_map f m)"
  unfolding rd_map_def by (intro rd_sound)

lemma sound_if [rd_sound]: "sound_reader m \<Longrightarrow> sound_reader n \<Longrightarrow> sound_reader (if b then m else n)"
  by simp

lemma sound_fold [rd_sound]: "(\<And>x a. sound_reader (f x a)) \<Longrightarrow> sound_reader (rd_fold f xs a)"
  by (induction xs arbitrary: a) (auto intro!: rd_sound)

lemma sound_times [rd_sound]: "sound_reader m \<Longrightarrow> sound_reader (rd_times n m)"
  by (induction n) (auto intro!: rd_sound)

lemma sound_exactly [rd_sound]: "sound_reader (read_exactly n (wrap msg) short)" "sound_reader (read_exactly n id short)"
  by (auto simp: sound_reader_def read_exactly_def Buffer_Read_def wrap_def suffix_drop)

text \<open>
  The bytes a successful \<open>read_exactly\<close> returns are as many as asked for, so indexing them does not panic.
\<close>

lemma sound_exactly_bind [rd_sound]:
  assumes "sound_reader (read_exactly n w short)" and "\<And>xs. length xs = n \<Longrightarrow> sound_reader (f xs)"
  shows "sound_reader (rd_bind (read_exactly n w short) f)"
proof -
  let ?g = "\<lambda>xs. if length xs = n then f xs else rd_return undefined"
  have "read_exactly n w short s = (Inr xs, s') \<Longrightarrow> length xs = n" for s xs s'
    by (auto simp: read_exactly_def split: if_splits sum.splits prod.splits)
  then have "rd_bind (read_exactly n w short) f = rd_bind (read_exactly n w short) ?g"
    by (auto simp: rd_bind_def fun_eq_iff split: sum.split prod.split)
  moreover have "sound_reader (rd_bind (read_exactly n w short) ?g)"
    using assms by (auto intro!: sound_bind sound_return)
  ultimately show ?thesis by simp
qed

lemma sound_go_index [rd_sound]: "0 \<le> i \<Longrightarrow> i < int (length xs) \<Longrightarrow> sound_reader (rd_go (go_index xs i))"
  by (auto simp: sound_reader_def rd_go_def go_index_def)

lemma getUint32_eq: "4 \<le> length xs \<Longrightarrow> getUint32 xs =
    Inr (push_bit 24 (ucast (xs ! 0)) OR push_bit 16 (ucast (xs ! 1)) OR push_bit 8 (ucast (xs ! 2)) OR ucast (xs ! 3))"
  by (auto simp: getUint32_def go_index_def)

lemma getUint16_eq: "2 \<le> length xs \<Longrightarrow> getUint16 xs = Inr (push_bit 8 (ucast (xs ! 0)) OR ucast (xs ! 1))"
  by (auto simp: getUint16_def go_index_def)

lemma getUint8_eq: "1 \<le> length xs \<Longrightarrow> getUint8 xs = Inr (xs ! 0)"
  by (cases xs) (simp_all add: getUint8_def go_index_def)

lemma sound_go_uint [rd_sound]:
  "4 \<le> length xs \<Longrightarrow> sound_reader (rd_go (getUint32 xs))"
  "2 \<le> length xs \<Longrightarrow> sound_reader (rd_go (getUint16 xs))"
  "1 \<le> length xs \<Longrightarrow> sound_reader (rd_go (getUint8 xs))"
  by (simp_all add: getUint32_eq getUint16_eq getUint8_eq sound_reader_def rd_go_def)

lemma sound_numbers [rd_sound]:
  "sound_reader readUint32" "sound_reader readUint16" "sound_reader readUint8" "sound_reader readOne"
  "sound_reader readTimeVal" "sound_reader (readBytes n)"
proof -
  show u32: "sound_reader readUint32" unfolding readUint32_def by (intro rd_sound) simp
  show "sound_reader readUint16" unfolding readUint16_def by (intro rd_sound) simp
  show "sound_reader readUint8" unfolding readUint8_def by (intro rd_sound) simp
  show "sound_reader readOne" unfolding readOne_def by (intro rd_sound) simp_all
  show "sound_reader readTimeVal" unfolding readTimeVal_def by (intro rd_sound u32)
  show "sound_reader (readBytes n)" unfolding readBytes_def by (intro rd_sound)
qed

lemma exactly_result: "read_exactly n w short s = (Inr xs, s') \<Longrightarrow> length xs = n"
  by (auto simp: read_exactly_def split: if_splits sum.splits prod.splits)

lemma sound_getString_loop:
  "suffix (rs_buf (snd (getString_loop buf s))) (rs_buf s) \<and> fst (getString_loop buf s) \<noteq> Inl (Panicked p)"
proof (induction buf s rule: getString_loop.induct)
  case (1 buf s)
  obtain r s' where r: "read_exactly 1 id ''getString bad read length: %d'' s = (r, s')" by fastforce
  note d = sound_readerD [OF sound_exactly(2) r]
  show ?case
  proof (cases r)
    case (Inl e)
    then show ?thesis using d by (subst (1 2) getString_loop.simps) (simp add: r del: One_nat_def)
  next
    case (Inr temp)
    then obtain b where b: "temp = [b]" using exactly_result [OF r [unfolded Inr]] by (cases temp) auto
    then have i: "go_index temp 0 = Inr b" by (simp add: go_index_def)
    show ?thesis
    proof (cases "b = 0")
      case True
      then show ?thesis using d Inr i by (subst (1 2) getString_loop.simps) (simp add: r del: One_nat_def)
    next
      case False
      from "1.IH" [OF r [symmetric] Inr i False] d(1) show ?thesis
        using Inr i False by (subst (1 2) getString_loop.simps) (auto simp: r simp del: One_nat_def intro: suffix_order.trans)
    qed
  qed
qed

lemma sound_getString [rd_sound]: "sound_reader getString"
  using sound_getString_loop by (simp add: sound_reader_def getString_def)

lemma sound_getFlags_loop:
  "suffix (rs_buf (snd (getFlags_loop check n ret s))) (rs_buf s) \<and> fst (getFlags_loop check n ret s) \<noteq> Inl (Panicked p)"
proof (induction check n ret s rule: getFlags_loop.induct)
  case (1 check n ret s)
  obtain r s' where r: "readOne s = (r, s')" by fastforce
  note d = sound_readerD [OF sound_numbers(4) r]
  show ?case
  proof (cases "isset check 8")
    case False
    then show ?thesis by (subst (1 2) getFlags_loop.simps) (simp add: Let_def)
  next
    case True
    then show ?thesis
    proof (cases r)
      case (Inl e)
      then show ?thesis using d True by (subst (1 2) getFlags_loop.simps) (simp add: r Let_def)
    next
      case (Inr nxt)
      from "1.IH" [OF refl _ r [symmetric] Inr] True d(1) show ?thesis
        using Inr by (subst (1 2) getFlags_loop.simps) (auto simp: r Let_def intro: suffix_order.trans)
    qed
  qed
qed

lemma sound_getFlags [rd_sound]: "sound_reader (getFlags first)"
  using sound_getFlags_loop by (simp add: sound_reader_def getFlags_def)

lemma sound_addresses [rd_sound]:
  "sound_reader NewAddressRefs" "sound_reader (AddressRefs_Get i)" "sound_reader (AddressRefs_Add a)"
  "sound_reader readReferencedAddress" "sound_reader readAddress"
proof -
  show "sound_reader NewAddressRefs" by (simp add: sound_reader_def NewAddressRefs_def)
  show g: "sound_reader (AddressRefs_Get i)" for i by (simp add: sound_reader_def AddressRefs_Get_def)
  show a: "sound_reader (AddressRefs_Add a)" for a by (simp add: sound_reader_def AddressRefs_Add_def)
  show "sound_reader readReferencedAddress" unfolding readReferencedAddress_def by (intro rd_sound g)
  show "sound_reader readAddress" unfolding readAddress_def Let_def by (intro rd_sound g a)
qed

lemma sound_string_or [rd_sound]:
  assumes "\<And>x. sound_reader (k x)"
  shows "sound_reader (string_or d k)"
  unfolding sound_reader_def
proof
  fix s
  obtain r s' where r: "getString s = (r, s')" by fastforce
  note d = sound_readerD [OF sound_getString r]
  have "suffix (rs_buf (snd (k x s'))) (rs_buf s) \<and> fst (k x s') \<noteq> Inl (Panicked p)" for x p
    using assms [of x] d(1) by (auto simp: sound_reader_def intro: suffix_order.trans)
  then show "suffix (rs_buf (snd (string_or d k s))) (rs_buf s) \<and> (\<forall>p. fst (string_or d k s) \<noteq> Inl (Panicked p))"
    using d by (auto simp: string_or_def r split: sum.split rd_error.split)
qed

lemma sound_list [rd_sound]: "sound_reader readList"
proof -
  have "sound_reader readListFlags" unfolding readListFlags_def Let_def by (intro rd_sound) simp_all
  then show ?thesis unfolding readList_def by (intro rd_sound) simp_all
qed

lemma sound_cycle [rd_sound]: "sound_reader readCycle"
proof -
  have "sound_reader readCycleStartFlags" unfolding readCycleStartFlags_def Let_def by (intro rd_sound) simp_all
  then show ?thesis unfolding readCycle_def by (intro rd_sound) simp_all
qed

lemma sound_cycle_stop [rd_sound]: "sound_reader readCycleStop"
proof -
  have "sound_reader readCycleStopFlags" unfolding readCycleStopFlags_def by (intro rd_sound)
  then show ?thesis unfolding readCycleStop_def by (intro rd_sound) simp_all
qed

lemma sound_header [rd_sound]: "sound_reader readHeader"
  unfolding readHeader_def by (intro rd_sound) simp_all

section \<open>Flagged records\<close>

text \<open>
  Pings, replies, traceroutes and hops are all read the same way: a list of flags, and for each flag a
  step that reads one value into the record. What the readers rely on: a step is sound, and it fails
  with a message for a flag it does not know.
\<close>

locale flag_table =
  fixes step :: "uint8 \<Rightarrow> 'r \<Rightarrow> 'r rd" and limit :: uint8
  assumes sound: "sound_reader (step f r)"
    and unknown: "\<not> (1 \<le> f \<and> f \<le> limit) \<Longrightarrow> \<exists>msg. step f r s = (Inl (Errorf msg), s)"
begin

lemma sound_flags: "sound_reader (rd_fold step flags r)"
  by (intro rd_sound sound)

lemma unknown_flag_fails:
  assumes "f \<in> set flags" and "\<not> (1 \<le> f \<and> f \<le> limit)"
  shows "\<exists>e s'. rd_fold step flags r s = (Inl e, s')"
  using assms(1)
proof (induction flags arbitrary: r s)
  case (Cons x xs)
  show ?case
  proof (cases "x = f")
    case True
    from unknown [OF assms(2)] obtain msg where "step f r s = (Inl (Errorf msg), s)" by blast
    with True show ?thesis by (simp add: rd_bind_def)
  next
    case False
    obtain res s' where m: "step x r s = (res, s')" by fastforce
    from False Cons.prems have f: "f \<in> set xs" by simp
    show ?thesis
    proof (cases res)
      case (Inr y)
      from Cons.IH [OF f, of y s'] obtain e s2 where "rd_fold step xs y s' = (Inl e, s2)" by blast
      with Inr show ?thesis by (simp add: rd_bind_def m)
    qed (simp add: rd_bind_def m)
  qed
qed simp

end

section \<open>Reading what was written\<close>

text \<open>\<open>reads m bs v\<close>: from any buffer that begins with \<open>bs\<close>, \<open>m\<close> reads \<open>v\<close> and takes just these bytes.\<close>

definition reads :: "'a rd \<Rightarrow> byte list \<Rightarrow> 'a \<Rightarrow> bool" where
  "reads m bs v \<longleftrightarrow> (\<forall>s rest. rs_buf s = bs @ rest \<longrightarrow> (\<exists>s'. m s = (Inr v, s') \<and> rs_buf s' = rest))"

lemma readsD: "reads m bs v \<Longrightarrow> rs_buf s = bs @ rest \<Longrightarrow> \<exists>s'. m s = (Inr v, s') \<and> rs_buf s' = rest"
  by (simp add: reads_def)

lemma reads_return [simp]: "reads (rd_return x) [] x"
  by (simp add: reads_def rd_return_def)

lemma reads_return_eq: "x = v \<Longrightarrow> reads (rd_return x) [] v"
  by simp

lemma reads_bind:
  assumes "reads m bs v" and "reads (f v) cs w"
  shows "reads (rd_bind m f) (bs @ cs) w"
  unfolding reads_def
proof (intro allI impI)
  fix s :: rstate and rest
  assume "rs_buf s = (bs @ cs) @ rest"
  with assms(1) obtain s' where "m s = (Inr v, s')" "rs_buf s' = cs @ rest" by (auto simp: reads_def)
  with assms(2) show "\<exists>s'. rd_bind m f s = (Inr w, s') \<and> rs_buf s' = rest"
    by (auto simp: reads_def rd_bind_def)
qed

lemma reads_bindI: "reads m bs v \<Longrightarrow> reads (f v) cs w \<Longrightarrow> xs = bs @ cs \<Longrightarrow> reads (rd_bind m f) xs w"
  by (simp add: reads_bind)

lemma reads_bind_Nil: "reads m [] v \<Longrightarrow> reads (f v) cs w \<Longrightarrow> reads (rd_bind m f) cs w"
  using reads_bind [of m "[]" v f cs w] by simp

lemma reads_last: "reads m bs v \<Longrightarrow> reads (f v) [] w \<Longrightarrow> reads (rd_bind m f) bs w"
  using reads_bind [of m bs v f "[]" w] by simp

lemma reads_map: "reads m bs v \<Longrightarrow> reads (rd_map f m) bs (f v)"
  using reads_bind [of m bs v "\<lambda>x. rd_return (f x)" "[]" "f v"] by (simp add: rd_map_def)

lemma reads_map': "reads m bs v \<Longrightarrow> w = f v \<Longrightarrow> reads (rd_map f m) bs w"
  by (simp add: reads_map)

lemma reads_times: "list_all2 (reads m) bss vs \<Longrightarrow> reads (rd_times (length vs) m) (concat bss) vs"
proof (induction rule: list_all2_induct)
  case (Cons bs bss v vs)
  then have "reads (rd_map ((#) v) (rd_times (length vs) m)) (concat bss) (v # vs)" by (intro reads_map)
  with Cons(1) show ?case by (simp add: reads_bind)
qed simp

lemma reads_exactly: "xs \<noteq> [] \<Longrightarrow> length xs = n \<Longrightarrow> reads (read_exactly n w short) xs xs"
  by (auto simp: reads_def read_exactly_def Buffer_Read_def)

lemma reads_exactly_bind:
  "length xs = n \<Longrightarrow> 0 < n \<Longrightarrow> reads (f xs) cs w \<Longrightarrow> reads (rd_bind (read_exactly n wr short) f) (xs @ cs) w"
  by (rule reads_bind [OF reads_exactly]) auto

lemma reads_exactly_go:
  "length xs = n \<Longrightarrow> 0 < n \<Longrightarrow> f xs = Inr v \<Longrightarrow> reads (rd_bind (read_exactly n wr short) (\<lambda>xs. rd_go (f xs))) xs v"
  using reads_exactly_bind [of xs n "\<lambda>xs. rd_go (f xs)" "[]" v] by (simp add: reads_def rd_go_def)

lemma reads_go: "r = Inr v \<Longrightarrow> reads (rd_go r) [] v"
  by (simp add: reads_def rd_go_def)

text \<open>Numbers are written with the most significant byte first.\<close>

definition put8 :: "uint8 \<Rightarrow> byte list" where
  "put8 x = [x]"

definition put16 :: "uint16 \<Rightarrow> byte list" where
  "put16 x = [ucast (drop_bit 8 x), ucast x]"

definition put32 :: "uint32 \<Rightarrow> byte list" where
  "put32 x = [ucast (drop_bit 24 x), ucast (drop_bit 16 x), ucast (drop_bit 8 x), ucast x]"

lemma bytes_of_16: "push_bit 8 (ucast (ucast (drop_bit 8 x) :: byte)) OR ucast (ucast x :: byte) = (x :: uint16)"
  by (rule bit_word_eqI) (auto simp: bit_simps)

lemma bytes_of_32:
  "push_bit 24 (ucast (ucast (drop_bit 24 x) :: byte)) OR push_bit 16 (ucast (ucast (drop_bit 16 x) :: byte)) OR
   push_bit 8 (ucast (ucast (drop_bit 8 x) :: byte)) OR ucast (ucast x :: byte) = (x :: uint32)"
proof (rule bit_word_eqI)
  fix n assume n: "n < LENGTH(32)"
  then consider "n < 8" | "8 \<le> n" "n < 16" | "16 \<le> n" "n < 24" | "24 \<le> n" by linarith
  then show "bit (push_bit 24 (ucast (ucast (drop_bit 24 x) :: byte)) OR push_bit 16 (ucast (ucast (drop_bit 16 x) :: byte)) OR
   push_bit 8 (ucast (ucast (drop_bit 8 x) :: byte)) OR ucast (ucast x :: byte) :: uint32) n = bit x n"
    using n by cases (auto simp: bit_simps)
qed

lemma reads_uint8: "reads readUint8 (put8 x) x"
  unfolding readUint8_def put8_def by (rule reads_exactly_go) (simp_all add: getUint8_eq)

lemma reads_uint16: "reads readUint16 (put16 x) x"
  unfolding readUint16_def put16_def by (rule reads_exactly_go) (simp_all add: getUint16_eq bytes_of_16)

lemma reads_uint32: "reads readUint32 (put32 x) x"
  unfolding readUint32_def put32_def by (rule reads_exactly_go) (simp_all add: getUint32_eq bytes_of_32)

lemma reads_bytes: "xs \<noteq> [] \<Longrightarrow> reads (readBytes (length xs)) xs xs"
  unfolding readBytes_def by (rule reads_exactly) simp_all

lemma reads_one: "reads readOne [b] b"
  unfolding readOne_def by (rule reads_exactly_go) (simp_all add: go_index_def)

text \<open>The bytes of flags: all but the last have their eighth bit set.\<close>

fun mask_ok :: "byte list \<Rightarrow> bool" where
  "mask_ok [] = False"
| "mask_ok [m] = (\<not> isset m 8)"
| "mask_ok (m # ms) = (isset m 8 \<and> mask_ok ms)"

fun mask_flags :: "uint8 \<Rightarrow> byte list \<Rightarrow> uint8 list" where
  "mask_flags n [] = []"
| "mask_flags n (m # ms) = flags_of m n @ mask_flags (n + 1) ms"

lemma reads_getFlags_loop:
  "mask_ok (m # ms) \<Longrightarrow> reads (getFlags_loop m n ret) ms (ret @ mask_flags n (m # ms))"
proof (induction ms arbitrary: m n ret)
  case Nil
  then show ?case by (simp add: reads_def getFlags_loop.simps)
next
  case (Cons m2 ms)
  then have m: "isset m 8" "mask_ok (m2 # ms)" by simp_all
  show ?case
    unfolding reads_def
  proof (intro allI impI)
    fix s :: rstate and rest
    assume "rs_buf s = (m2 # ms) @ rest"
    then obtain s1 where s1: "readOne s = (Inr m2, s1)" "rs_buf s1 = ms @ rest"
      using reads_one [of m2] by (auto simp: reads_def)
    have "reads (getFlags_loop m2 (n + 1) (ret @ flags_of m n)) ms
        ((ret @ flags_of m n) @ mask_flags (n + 1) (m2 # ms))" by (rule Cons.IH [OF m(2)])
    with s1(2) obtain s2 where
      "getFlags_loop m2 (n + 1) (ret @ flags_of m n) s1 = (Inr ((ret @ flags_of m n) @ mask_flags (n + 1) (m2 # ms)), s2)"
      "rs_buf s2 = rest" unfolding reads_def by blast
    then show "\<exists>s'. getFlags_loop m n ret s = (Inr (ret @ mask_flags n (m # m2 # ms)), s') \<and> rs_buf s' = rest"
      using m(1) s1(1) by (subst getFlags_loop.simps) (simp add: Let_def)
  qed
qed

lemma reads_getFlags: "mask_ok (m # ms) \<Longrightarrow> reads (getFlags m) ms (mask_flags 1 (m # ms))"
  using reads_getFlags_loop [of m ms 1 "[]"] by (simp add: getFlags_def)

lemma reads_getString_loop: "0 \<notin> set xs \<Longrightarrow> reads (getString_loop acc) (xs @ [0]) (acc @ xs)"
proof (induction xs arbitrary: acc)
  case Nil
  have "reads (read_exactly 1 id ''getString bad read length: %d'') [0] [0]" by (rule reads_exactly) simp_all
  then show ?case unfolding reads_def
    by (subst getString_loop.simps) (fastforce simp: go_index_def simp del: One_nat_def)
next
  case (Cons b xs)
  have r: "reads (read_exactly 1 id ''getString bad read length: %d'') [b] [b]" by (rule reads_exactly) simp_all
  from Cons.prems have b: "b \<noteq> 0" and "0 \<notin> set xs" by auto
  then have IH: "reads (getString_loop (acc @ [b])) (xs @ [0]) ((acc @ [b]) @ xs)" by (intro Cons.IH)
  show ?case
    unfolding reads_def
  proof (intro allI impI)
    fix s :: rstate and rest
    assume "rs_buf s = ((b # xs) @ [0]) @ rest"
    then obtain s1 where s1: "read_exactly 1 id ''getString bad read length: %d'' s = (Inr [b], s1)"
      "rs_buf s1 = (xs @ [0]) @ rest" using r by (auto simp: reads_def)
    from IH s1(2) obtain s2 where "getString_loop (acc @ [b]) s1 = (Inr (acc @ b # xs), s2)" "rs_buf s2 = rest"
      unfolding reads_def by fastforce
    then show "\<exists>s'. getString_loop acc s = (Inr (acc @ b # xs), s') \<and> rs_buf s' = rest"
      using b s1(1) by (subst getString_loop.simps) (simp add: go_index_def del: One_nat_def)
  qed
qed

lemma reads_string: "0 \<notin> set xs \<Longrightarrow> reads getString (xs @ [0]) xs"
  using reads_getString_loop [of xs "[]"] by (simp add: getString_def)

text \<open>An IPv4 address, written out.\<close>

definition ipv4 :: "Address \<Rightarrow> bool" where
  "ipv4 a \<longleftrightarrow> a_Address a = ucast (ucast (a_Address a) :: uint32)"

definition put_address :: "Address \<Rightarrow> byte list" where
  "put_address a = [4, a_Type a] @ put32 (ucast (a_Address a))"

lemma sliceToUint64_put32: "sliceToUint64 (put32 x) = ucast x"
proof -
  have i: "[0..<4] = [0, 1, 2, 3 :: nat]" by (simp add: upt_rec)
  have "sliceToUint64 (put32 x) =
      ((push_bit 24 (ucast (ucast (drop_bit 24 x) :: byte)) OR push_bit 16 (ucast (ucast (drop_bit 16 x) :: byte))) OR
        push_bit 8 (ucast (ucast (drop_bit 8 x) :: byte))) OR ucast (ucast x :: byte)"
    by (simp add: sliceToUint64_def put32_def i)
  also have "\<dots> = ucast x"
  proof (rule bit_word_eqI)
    fix n assume n: "n < LENGTH(64)"
    then consider "n < 8" | "8 \<le> n" "n < 16" | "16 \<le> n" "n < 24" | "24 \<le> n" "n < 32" | "32 \<le> n" by linarith
    then show "bit (((push_bit 24 (ucast (ucast (drop_bit 24 x) :: byte)) OR push_bit 16 (ucast (ucast (drop_bit 16 x) :: byte))) OR
        push_bit 8 (ucast (ucast (drop_bit 8 x) :: byte))) OR ucast (ucast x :: byte) :: uint64) n = bit (ucast x :: uint64) n"
      using n by cases (auto simp: bit_simps dest: bit_imp_le_length)
  qed
  finally show ?thesis .
qed

lemma reads_address: "ipv4 a \<Longrightarrow> reads readAddress (put_address a) a"
proof -
  assume "ipv4 a"
  then have a: "\<lparr>a_Type = a_Type a, a_Address = sliceToUint64 (put32 (ucast (a_Address a)))\<rparr> = a"
    by (simp add: sliceToUint64_put32 ipv4_def)
  have add: "reads (rd_bind (AddressRefs_Add a) (\<lambda>_. rd_return a)) [] a"
    by (simp add: reads_def rd_bind_def AddressRefs_Add_def rd_return_def)
  have "reads (readBytes (unat (4 :: uint8))) (put32 (ucast (a_Address a))) (put32 (ucast (a_Address a)))"
    unfolding readBytes_def by (rule reads_exactly) (simp_all add: put32_def)
  then show ?thesis
    unfolding readAddress_def put_address_def
    by (intro reads_bindI [OF reads_uint8 [of 4]]) (auto simp: put8_def Let_def a
        intro!: reads_bindI [OF reads_uint8 [of "a_Type a"]] add elim!: reads_bindI)
qed

text \<open>Times: seconds and microseconds, and a round trip time in microseconds.\<close>

definition put_timeval :: "Timeval \<Rightarrow> byte list" where
  "put_timeval t = put32 (ucast (tv_Sec t)) @ put32 (ucast (tv_Usec t))"

definition timeval32 :: "Timeval \<Rightarrow> bool" where
  "timeval32 t \<longleftrightarrow> tv_Sec t = ucast (ucast (tv_Sec t) :: uint32) \<and> tv_Usec t = ucast (ucast (tv_Usec t) :: uint32)"

lemma reads_timeval:
  assumes "timeval32 t"
  shows "reads readTimeVal (put_timeval t) t"
proof -
  have "setUSecond (ucast (tv_Usec t)) (setSecond (ucast (tv_Sec t)) zero_Timeval) = t"
    using assms by (simp add: timeval32_def setUSecond_def setSecond_def zero_Timeval_def)
  then have "reads (rd_return (setUSecond (ucast (tv_Usec t)) (setSecond (ucast (tv_Sec t)) zero_Timeval))) [] t" by simp
  then show ?thesis
    unfolding readTimeVal_def put_timeval_def
    by (rule reads_bindI [OF reads_uint32 reads_bindI [OF reads_uint32]]) simp_all
qed

end
