(* ===== verification/WartsPing.thy ===== *)
theory WartsPing
  imports Warts
begin

text \<open>
  \<open>warts/ping.go\<close>: pings. A ping is a set of flags with a value for each flag that is set, a number of
  replies and the replies, which have flags of their own. Flags come as groups of seven bits.
\<close>

section \<open>Flags of a ping\<close>

record PingFlags =
  pf_ListID :: uint32
  pf_CycleID :: uint32
  pf_SrcID :: uint32
  pf_DstID :: uint32
  pf_StartTime :: Timeval
  pf_StopReason :: uint8
  pf_StopData :: uint8
  pf_DataLength :: uint16
  pf_Data :: "byte list"
  pf_ProbeCount :: uint16
  pf_ProbeSize :: uint16
  pf_ProbeWaitS :: uint8
  pf_ProbeTTL :: uint8
  pf_ReplyCount :: uint16
  pf_PingsSent :: uint16
  pf_PingMethod :: uint8
  pf_ProbeSrcPort :: uint16
  pf_ProbeDstPort :: uint16
  pf_UserID :: uint32
  pf_Src :: Address
  pf_Dst :: Address
  pf_ProbeTOS :: uint8
  pf_TS :: "Address list"
  pf_ICMPChecksum :: uint16
  pf_MTU :: uint16
  pf_ProbeTimeout :: uint8
  pf_ProbeWait :: uint32
  pf_PingFlags :: "uint8 list"
  pf_PF :: uint8

definition zero_PingFlags :: PingFlags where
  "zero_PingFlags = \<lparr>pf_ListID = 0, pf_CycleID = 0, pf_SrcID = 0, pf_DstID = 0, pf_StartTime = zero_Timeval,
     pf_StopReason = 0, pf_StopData = 0, pf_DataLength = 0, pf_Data = [], pf_ProbeCount = 0,
     pf_ProbeSize = 0, pf_ProbeWaitS = 0, pf_ProbeTTL = 0, pf_ReplyCount = 0, pf_PingsSent = 0,
     pf_PingMethod = 0, pf_ProbeSrcPort = 0, pf_ProbeDstPort = 0, pf_UserID = 0,
     pf_Src = zero_Address, pf_Dst = zero_Address, pf_ProbeTOS = 0, pf_TS = [],
     pf_ICMPChecksum = 0, pf_MTU = 0, pf_ProbeTimeout = 0, pf_ProbeWait = 0, pf_PingFlags = [],
     pf_PF = 0\<rparr>"

text \<open>
  The time stamp addresses: the slice is made with \<open>num\<close> elements and the addresses are appended, so
  it holds \<open>num\<close> zero addresses first.
\<close>

definition readTSAddrs :: "Address list rd" where
  "readTSAddrs =
     rd_bind readUint8 (\<lambda>num.
     rd_map (\<lambda>as. replicate (unat num) zero_Address @ as) (rd_times (unat num) readAddress))"

definition ping_flag :: "uint8 \<Rightarrow> PingFlags \<Rightarrow> PingFlags rd" where
  "ping_flag flag pf =
     (if flag = 1 then rd_map (\<lambda>v. pf\<lparr>pf_ListID := v\<rparr>) readUint32
      else if flag = 2 then rd_map (\<lambda>v. pf\<lparr>pf_CycleID := v\<rparr>) readUint32
      else if flag = 3 then rd_map (\<lambda>v. pf\<lparr>pf_SrcID := v\<rparr>) readUint32
      else if flag = 4 then rd_map (\<lambda>v. pf\<lparr>pf_DstID := v\<rparr>) readUint32
      else if flag = 5 then rd_map (\<lambda>v. pf\<lparr>pf_StartTime := v\<rparr>) readTimeVal
      else if flag = 6 then rd_map (\<lambda>v. pf\<lparr>pf_StopReason := v\<rparr>) readUint8
      else if flag = 7 then rd_map (\<lambda>v. pf\<lparr>pf_StopData := v\<rparr>) readUint8
      else if flag = 8 then rd_map (\<lambda>v. pf\<lparr>pf_DataLength := v\<rparr>) readUint16
      else if flag = 9 then rd_map (\<lambda>v. pf\<lparr>pf_Data := v\<rparr>) (readBytes (unat (pf_DataLength pf)))
      else if flag = 10 then rd_map (\<lambda>v. pf\<lparr>pf_ProbeCount := v\<rparr>) readUint16
      else if flag = 11 then rd_map (\<lambda>v. pf\<lparr>pf_ProbeSize := v\<rparr>) readUint16
      else if flag = 12 then rd_map (\<lambda>v. pf\<lparr>pf_ProbeWaitS := v\<rparr>) readUint8
      else if flag = 13 then rd_map (\<lambda>v. pf\<lparr>pf_ProbeTTL := v\<rparr>) readUint8
      else if flag = 14 then rd_map (\<lambda>v. pf\<lparr>pf_ReplyCount := v\<rparr>) readUint16
      else if flag = 15 then rd_map (\<lambda>v. pf\<lparr>pf_PingsSent := v\<rparr>) readUint16
      else if flag = 16 then rd_map (\<lambda>v. pf\<lparr>pf_PingMethod := v\<rparr>) readUint8
      else if flag = 17 then rd_map (\<lambda>v. pf\<lparr>pf_ProbeSrcPort := v\<rparr>) readUint16
      else if flag = 18 then rd_map (\<lambda>v. pf\<lparr>pf_ProbeDstPort := v\<rparr>) readUint16
      else if flag = 19 then rd_map (\<lambda>v. pf\<lparr>pf_UserID := v\<rparr>) readUint32
      else if flag = 20 then rd_map (\<lambda>v. pf\<lparr>pf_Src := v\<rparr>) readAddress
      else if flag = 21 then rd_map (\<lambda>v. pf\<lparr>pf_Dst := v\<rparr>) readAddress
      else if flag = 22 then rd_map (\<lambda>v. pf\<lparr>pf_PF := v\<rparr>) readUint8
      else if flag = 23 then rd_map (\<lambda>v. pf\<lparr>pf_ProbeTOS := v\<rparr>) readUint8
      else if flag = 24 then rd_map (\<lambda>v. pf\<lparr>pf_TS := v\<rparr>) readTSAddrs
      else if flag = 25 then rd_map (\<lambda>v. pf\<lparr>pf_ICMPChecksum := v\<rparr>) readUint16
      else if flag = 26 then rd_map (\<lambda>v. pf\<lparr>pf_MTU := v\<rparr>) readUint16
      else if flag = 27 then rd_map (\<lambda>v. pf\<lparr>pf_ProbeTimeout := v\<rparr>) readUint8
      else if flag = 28 then rd_map (\<lambda>v. pf\<lparr>pf_ProbeWait := v\<rparr>) readUint32
      else rd_error ''Parsed a flag that should not be there: readPingFlags'')"

text \<open>The length that follows set flags is read and ignored.\<close>

definition skip_length :: "uint8 list \<Rightarrow> unit rd" where
  "skip_length flags = (if flags \<noteq> [] then rd_map (\<lambda>_. ()) readUint16 else rd_return ())"

definition readPingFlags :: "PingFlags rd" where
  "readPingFlags =
     rd_bind (read_exactly 1 id ''Failed to read, readPingFlags'') (\<lambda>first.
     rd_bind (rd_go (go_index first 0)) (\<lambda>b.
     rd_bind (getFlags b) (\<lambda>flags.
     rd_bind (skip_length flags) (\<lambda>_.
     rd_map (\<lambda>pf. pf\<lparr>pf_PingFlags := flags\<rparr>) (rd_fold ping_flag flags zero_PingFlags)))))"

section \<open>Replies\<close>

record V4TS =
  ts_Addrs :: "Address list"
  ts_TimeStamps :: "uint32 list"

definition zero_V4TS :: V4TS where
  "zero_V4TS = \<lparr>ts_Addrs = [], ts_TimeStamps = []\<rparr>"

record TSReply =
  tsr_OTimestamp :: uint32
  tsr_RTimestamp :: uint32
  tsr_TTimestamp :: uint32

definition zero_TSReply :: TSReply where
  "zero_TSReply = \<lparr>tsr_OTimestamp = 0, tsr_RTimestamp = 0, tsr_TTimestamp = 0\<rparr>"

record PingReplyFlags =
  pr_DstID :: uint32
  pr_Flags :: uint8
  pr_ReplyTTL :: uint8
  pr_ReplySize :: uint16
  pr_ICMP :: uint16
  pr_RTT :: Timeval
  pr_ProbeID :: uint16
  pr_ReplyIPID :: uint16
  pr_ProbeIPID :: uint16
  pr_ReplyProto :: uint8
  pr_TCPFlags :: uint8
  pr_Addr :: Address
  pr_V4RR :: "Address list"
  pr_V4TS :: V4TS
  pr_ReplyIPID32 :: uint32
  pr_Tx :: Timeval
  pr_TSReply :: TSReply
  pr_ReplyFlags :: "uint8 list"

definition zero_PingReplyFlags :: PingReplyFlags where
  "zero_PingReplyFlags = \<lparr>pr_DstID = 0, pr_Flags = 0, pr_ReplyTTL = 0, pr_ReplySize = 0, pr_ICMP = 0,
     pr_RTT = zero_Timeval, pr_ProbeID = 0, pr_ReplyIPID = 0, pr_ProbeIPID = 0, pr_ReplyProto = 0,
     pr_TCPFlags = 0, pr_Addr = zero_Address, pr_V4RR = [], pr_V4TS = zero_V4TS,
     pr_ReplyIPID32 = 0, pr_Tx = zero_Timeval, pr_TSReply = zero_TSReply, pr_ReplyFlags = []\<rparr>"

definition readTSReply :: "TSReply rd" where
  "readTSReply =
     rd_bind readUint32 (\<lambda>a. rd_bind readUint32 (\<lambda>b. rd_bind readUint32 (\<lambda>c.
       rd_return \<lparr>tsr_OTimestamp = a, tsr_RTimestamp = b, tsr_TTimestamp = c\<rparr>)))"

definition readV4TS :: "V4TS rd" where
  "readV4TS =
     rd_bind readUint8 (\<lambda>tsc. rd_bind readUint8 (\<lambda>ipc.
     rd_bind (rd_times (unat tsc) readUint32) (\<lambda>tss.
     rd_bind (rd_times (unat ipc) readAddress) (\<lambda>as.
       rd_return \<lparr>ts_Addrs = as, ts_TimeStamps = tss\<rparr>))))"

definition readV4RR :: "Address list rd" where
  "readV4RR = rd_bind readUint8 (\<lambda>count. rd_times (unat count) readAddress)"

definition readRTT :: "Timeval rd" where
  "readRTT = rd_map convertTimeval readUint32"

definition ping_reply_flag :: "uint8 \<Rightarrow> PingReplyFlags \<Rightarrow> PingReplyFlags rd" where
  "ping_reply_flag flag pr =
     (if flag = 1 then rd_map (\<lambda>v. pr\<lparr>pr_DstID := v\<rparr>) readUint32
      else if flag = 2 then rd_map (\<lambda>v. pr\<lparr>pr_Flags := v\<rparr>) readUint8
      else if flag = 3 then rd_map (\<lambda>v. pr\<lparr>pr_ReplyTTL := v\<rparr>) readUint8
      else if flag = 4 then rd_map (\<lambda>v. pr\<lparr>pr_ReplySize := v\<rparr>) readUint16
      else if flag = 5 then rd_map (\<lambda>v. pr\<lparr>pr_ICMP := v\<rparr>) readUint16
      else if flag = 6 then rd_map (\<lambda>v. pr\<lparr>pr_RTT := v\<rparr>) readRTT
      else if flag = 7 then rd_map (\<lambda>v. pr\<lparr>pr_ProbeID := v\<rparr>) readUint16
      else if flag = 8 then rd_map (\<lambda>v. pr\<lparr>pr_ReplyIPID := v\<rparr>) readUint16
      else if flag = 9 then rd_map (\<lambda>v. pr\<lparr>pr_ProbeIPID := v\<rparr>) readUint16
      else if flag = 10 then rd_map (\<lambda>v. pr\<lparr>pr_ReplyProto := v\<rparr>) readUint8
      else if flag = 11 then rd_map (\<lambda>v. pr\<lparr>pr_TCPFlags := v\<rparr>) readUint8
      else if flag = 12 then rd_map (\<lambda>v. pr\<lparr>pr_Addr := v\<rparr>) readAddress
      else if flag = 13 then rd_map (\<lambda>v. pr\<lparr>pr_V4RR := v\<rparr>) readV4RR
      else if flag = 14 then rd_map (\<lambda>v. pr\<lparr>pr_V4TS := v\<rparr>) readV4TS
      else if flag = 15 then rd_map (\<lambda>v. pr\<lparr>pr_ReplyIPID32 := v\<rparr>) readUint32
      else if flag = 16 then rd_map (\<lambda>v. pr\<lparr>pr_Tx := v\<rparr>) readTimeVal
      else if flag = 17 then rd_map (\<lambda>v. pr\<lparr>pr_TSReply := v\<rparr>) readTSReply
      else rd_error ''Invalid flag in ping reply'')"

definition readPingReplyFlags :: "PingReplyFlags rd" where
  "readPingReplyFlags =
     rd_bind (readBytes 1) (\<lambda>first.
     rd_bind (rd_go (go_index first 0)) (\<lambda>b.
     rd_bind (getFlags b) (\<lambda>flags.
     rd_bind (skip_length flags) (\<lambda>_.
     rd_map (\<lambda>pr. pr\<lparr>pr_ReplyFlags := flags\<rparr>) (rd_fold ping_reply_flag flags zero_PingReplyFlags)))))"

definition readPingReplies :: "uint16 \<Rightarrow> PingReplyFlags list rd" where
  "readPingReplies cnt = rd_times (unat cnt) readPingReplyFlags"

section \<open>Pings\<close>

record WPing =
  wp_Flags :: PingFlags
  wp_PLength :: uint16
  wp_ReplyCount :: uint16
  wp_PingReplies :: "PingReplyFlags list"
  wp_Version :: string
  wp_Type :: string

definition readPing :: "WPing rd" where
  "readPing =
     rd_bind NewAddressRefs (\<lambda>_.
     rd_bind readPingFlags (\<lambda>flags.
     rd_bind readUint16 (\<lambda>rc.
     rd_bind (readPingReplies rc) (\<lambda>replies.
       rd_return \<lparr>wp_Flags = flags, wp_PLength = 0, wp_ReplyCount = rc, wp_PingReplies = replies,
         wp_Version = ''0.4'', wp_Type = ''ping''\<rparr>))))"

definition IsTsOnly :: "WPing \<Rightarrow> bool" where
  "IsTsOnly p \<longleftrightarrow> pf_PF (wp_Flags p) AND push_bit 3 1 > 0"

definition IsTsAndAddr :: "WPing \<Rightarrow> bool" where
  "IsTsAndAddr p \<longleftrightarrow> length (pf_TS (wp_Flags p)) > 0"

text \<open>The names of methods are indexed by the number read: a number out of range panics.\<close>

definition PingMethod_String :: "uint8 \<Rightarrow> string go" where
  "PingMethod_String pm =
     go_index [''icmp-echo'', ''tcp-ack'', ''tcp-ack-sport'', ''udp'', ''udp-dport'', ''icmp-time'', ''tcp-syn'']
       (int (unat pm))"

definition PingFlag_Strings :: "uint8 \<Rightarrow> string list" where
  "PingFlag_Strings pf =
     map (\<lambda>i. [''v4rr'', ''spoof'', ''payload'', ''tsonly'', ''tsandaddr'', ''icmpsum'', ''dl'', ''8''] ! i)
       (filter (\<lambda>i. pf AND push_bit i 1 \<noteq> 0) [0..<8])"

definition RProto_String :: "uint8 \<Rightarrow> string" where
  "RProto_String rp =
     (if rp = 1 \<or> rp = 58 then ''icmp'' else if rp = 6 then ''tcp'' else if rp = 17 then ''udp'' else ''icmp'')"

section \<open>Statistics\<close>

definition timevalComp :: "Timeval \<Rightarrow> Timeval \<Rightarrow> int" where
  "timevalComp l r =
     (if tv_Sec l <s tv_Sec r then -1
      else if tv_Sec r <s tv_Sec l then 1
      else if tv_Usec l <s tv_Usec r then -1
      else if tv_Usec r <s tv_Usec l then 1
      else 0)"

record PingStats =
  ps_Replies :: uint16
  ps_Loss :: uint16
  ps_Min :: Timeval
  ps_Max :: Timeval
  ps_Sum :: int64

fun stats_loop :: "PingFlags \<Rightarrow> nat \<Rightarrow> PingReplyFlags list \<Rightarrow> Timeval \<Rightarrow> Timeval \<Rightarrow> int64 \<Rightarrow> nat
    \<Rightarrow> Timeval \<times> Timeval \<times> int64 \<times> nat" where
  "stats_loop fl i [] mn mx sm dups = (mn, mx, sm, dups)"
| "stats_loop fl i (rep # reps) mn mx sm dups =
     (let rtt = pr_RTT rep;
          (mn, mx) = (if i = 0 then (rtt, rtt) else (mn, mx));
          sm = sm + (tv_Sec rtt * 1000000 + tv_Usec rtt);
          mn = (if timevalComp mn rtt = 1 then rtt else mn);
          mx = (if timevalComp mx rtt = -1 then rtt else mx);
          dups = (if pf_PingsSent fl \<le> (word_of_nat i :: uint16) then dups + 1 else dups)
      in stats_loop fl (i + 1) reps mn mx sm dups)"

text \<open>
  \<open>GetStats\<close> up to the conversion of its results to floating point numbers: the extreme round trip times
  and the sum of all, from which the average and the deviation are computed.
\<close>

definition GetStats :: "WPing \<Rightarrow> PingStats" where
  "GetStats p =
     (case stats_loop (wp_Flags p) 0 (wp_PingReplies p) zero_Timeval zero_Timeval 0 0 of
        (mn, mx, sm, dups) \<Rightarrow>
          \<lparr>ps_Replies = wp_ReplyCount p,
           ps_Loss = (if dups = 0 then pf_PingsSent (wp_Flags p) - wp_ReplyCount p else 0),
           ps_Min = mn, ps_Max = mx, ps_Sum = sm\<rparr>)"

section \<open>Soundness of the ping reader\<close>

lemma sound_skip_length [rd_sound]: "sound_reader (skip_length flags)"
  unfolding skip_length_def by (intro rd_sound)

lemma sound_ts_addrs [rd_sound]: "sound_reader readTSAddrs" "sound_reader readV4RR" "sound_reader readV4TS"
  "sound_reader readTSReply" "sound_reader readRTT"
  unfolding readTSAddrs_def readV4RR_def readV4TS_def readTSReply_def readRTT_def by (intro rd_sound)+

interpretation ping_flags: flag_table ping_flag 28
proof
  show "sound_reader (ping_flag f r)" for f r unfolding ping_flag_def by (intro rd_sound)
  show "\<exists>msg. ping_flag f r s = (Inl (Errorf msg), s)" if "\<not> (1 \<le> f \<and> f \<le> 28)" for f r s
    using that unfolding ping_flag_def by (auto simp: rd_error_def)
qed

interpretation ping_reply_flags: flag_table ping_reply_flag 17
proof
  show "sound_reader (ping_reply_flag f r)" for f r unfolding ping_reply_flag_def by (intro rd_sound)
  show "\<exists>msg. ping_reply_flag f r s = (Inl (Errorf msg), s)" if "\<not> (1 \<le> f \<and> f \<le> 17)" for f r s
    using that unfolding ping_reply_flag_def by (auto simp: rd_error_def)
qed

lemma sound_ping_flags [rd_sound]: "sound_reader readPingFlags"
  unfolding readPingFlags_def by (intro rd_sound ping_flags.sound_flags) simp_all

lemma sound_ping_replies [rd_sound]: "sound_reader readPingReplyFlags" "sound_reader (readPingReplies n)"
proof -
  show r: "sound_reader readPingReplyFlags"
    unfolding readPingReplyFlags_def readBytes_def by (intro rd_sound ping_reply_flags.sound_flags) simp_all
  show "sound_reader (readPingReplies n)" unfolding readPingReplies_def by (intro rd_sound r)
qed

lemma sound_ping [rd_sound]: "sound_reader readPing"
  unfolding readPing_def by (intro rd_sound)

end
