(* ===== verification/WartsTraceroute.thy ===== *)
theory WartsTraceroute
  imports WartsPing
begin

text \<open>
  \<open>warts/traceroute.go\<close>: traceroutes, their hops and the ICMP extensions of a hop; and \<open>warts/warts.go\<close>:
  the parser that reads objects one behind the other.
\<close>

section \<open>ICMP extensions\<close>

record ICMPExtension =
  ie_Length :: uint16
  ie_ClassNumber :: uint8
  ie_TypeNumber :: uint8
  ie_Data :: "byte list"

definition readICMPExtension :: "ICMPExtension rd" where
  "readICMPExtension =
     rd_bind readUint16 (\<lambda>len. rd_bind readUint8 (\<lambda>class. rd_bind readUint8 (\<lambda>typen.
     rd_bind (readBytes (unat len)) (\<lambda>data.
       rd_return \<lparr>ie_Length = len, ie_ClassNumber = class, ie_TypeNumber = typen, ie_Data = data\<rparr>))))"

record ICMPExtensionList =
  il_Length :: uint16
  il_Extensions :: "ICMPExtension list"

definition zero_ICMPExtensionList :: ICMPExtensionList where
  "zero_ICMPExtensionList = \<lparr>il_Length = 0, il_Extensions = []\<rparr>"

text \<open>
  The loop counts in 16 bits, so the count may wrap around; it ends because every extension takes bytes
  from the buffer.
\<close>

lemma suffix_or_shrink: "read_exactly n w short s = (r, s') \<Longrightarrow> length (rs_buf s') \<le> length (rs_buf s)"
  by (auto simp: read_exactly_def Buffer_Read_def split: if_splits prod.splits sum.splits)

lemma readUint16_shrinks: "readUint16 s = (Inr x, s') \<Longrightarrow> length (rs_buf s') < length (rs_buf s)"
  by (auto simp: readUint16_def rd_bind_def rd_go_def numeral_2_eq_2 dest: read_byte_shrinks
      split: prod.splits sum.splits)

lemma readICMPExtension_shrinks:
  "readICMPExtension s = (Inr x, s') \<Longrightarrow> length (rs_buf s') < length (rs_buf s)"
  by (auto simp: readICMPExtension_def readUint8_def readBytes_def rd_bind_def rd_go_def rd_return_def
      dest!: readUint16_shrinks suffix_or_shrink split: prod.splits sum.splits)

function readExtensions :: "uint16 \<Rightarrow> uint16 \<Rightarrow> ICMPExtension list rd" where
  "readExtensions len i s =
     (if i < len then
        (case readICMPExtension s of
           (Inl e, s') \<Rightarrow> (Inl e, s')
         | (Inr ext, s') \<Rightarrow>
             (case readExtensions len (i + (ie_Length ext + 2 + 2)) s' of
                (Inl e, s'') \<Rightarrow> (Inl e, s'')
              | (Inr exts, s'') \<Rightarrow> (Inr (ext # exts), s'')))
      else (Inr [], s))"
  by pat_completeness auto
termination by (relation "measure (\<lambda>(_, _, s). length (rs_buf s))") (auto dest: readICMPExtension_shrinks [OF sym])

declare readExtensions.simps [simp del]

definition readICMPExtensionList :: "ICMPExtensionList rd" where
  "readICMPExtensionList =
     rd_bind readUint16 (\<lambda>len. rd_map (\<lambda>exts. \<lparr>il_Length = len, il_Extensions = exts\<rparr>) (readExtensions len 0))"

section \<open>Flags of a traceroute\<close>

record TracerouteFlags =
  tf_ListID :: uint32
  tf_CycleID :: uint32
  tf_SrcID :: Address
  tf_DstID :: Address
  tf_StartTime :: Timeval
  tf_StopReason :: uint8
  tf_StopData :: uint8
  tf_TraceFlags :: uint8
  tf_Attempts :: uint8
  tf_HopLimit :: uint8
  tf_TraceType :: uint8
  tf_ProbeSize :: uint16
  tf_SourcePort :: uint16
  tf_DestPort :: uint16
  tf_StartTTL :: uint8
  tf_IPToS :: uint8
  tf_TimeoutS :: uint8
  tf_Loops :: uint8
  tf_HopsProbed :: uint16
  tf_GapLimit :: uint8
  tf_GapAction :: uint8
  tf_LoopAction :: uint8
  tf_ProbesSent :: uint16
  tf_MinWaitCenti :: uint8
  tf_Confidence :: uint8
  tf_Src :: Address
  tf_Dst :: Address
  tf_UserID :: uint32

definition zero_TracerouteFlags :: TracerouteFlags where
  "zero_TracerouteFlags = \<lparr>tf_ListID = 0, tf_CycleID = 0, tf_SrcID = zero_Address, tf_DstID = zero_Address,
     tf_StartTime = zero_Timeval, tf_StopReason = 0, tf_StopData = 0, tf_TraceFlags = 0,
     tf_Attempts = 0, tf_HopLimit = 0, tf_TraceType = 0, tf_ProbeSize = 0, tf_SourcePort = 0,
     tf_DestPort = 0, tf_StartTTL = 0, tf_IPToS = 0, tf_TimeoutS = 0, tf_Loops = 0,
     tf_HopsProbed = 0, tf_GapLimit = 0, tf_GapAction = 0, tf_LoopAction = 0, tf_ProbesSent = 0,
     tf_MinWaitCenti = 0, tf_Confidence = 0, tf_Src = zero_Address, tf_Dst = zero_Address,
     tf_UserID = 0\<rparr>"

definition traceroute_flag :: "uint8 \<Rightarrow> TracerouteFlags \<Rightarrow> TracerouteFlags rd" where
  "traceroute_flag flag tf =
     (if flag = 1 then rd_map (\<lambda>v. tf\<lparr>tf_ListID := v\<rparr>) readUint32
      else if flag = 2 then rd_map (\<lambda>v. tf\<lparr>tf_CycleID := v\<rparr>) readUint32
      else if flag = 3 then rd_map (\<lambda>v. tf\<lparr>tf_SrcID := v\<rparr>) readReferencedAddress
      else if flag = 4 then rd_map (\<lambda>v. tf\<lparr>tf_DstID := v\<rparr>) readReferencedAddress
      else if flag = 5 then rd_map (\<lambda>v. tf\<lparr>tf_StartTime := v\<rparr>) readTimeVal
      else if flag = 6 then rd_map (\<lambda>v. tf\<lparr>tf_StopReason := v\<rparr>) readUint8
      else if flag = 7 then rd_map (\<lambda>v. tf\<lparr>tf_StopData := v\<rparr>) readUint8
      else if flag = 8 then rd_map (\<lambda>v. tf\<lparr>tf_TraceFlags := v\<rparr>) readUint8
      else if flag = 9 then rd_map (\<lambda>v. tf\<lparr>tf_Attempts := v\<rparr>) readUint8
      else if flag = 10 then rd_map (\<lambda>v. tf\<lparr>tf_HopLimit := v\<rparr>) readUint8
      else if flag = 11 then rd_map (\<lambda>v. tf\<lparr>tf_TraceType := v\<rparr>) readUint8
      else if flag = 12 then rd_map (\<lambda>v. tf\<lparr>tf_ProbeSize := v\<rparr>) readUint16
      else if flag = 13 then rd_map (\<lambda>v. tf\<lparr>tf_SourcePort := v\<rparr>) readUint16
      else if flag = 14 then rd_map (\<lambda>v. tf\<lparr>tf_DestPort := v\<rparr>) readUint16
      else if flag = 15 then rd_map (\<lambda>v. tf\<lparr>tf_StartTTL := v\<rparr>) readUint8
      else if flag = 16 then rd_map (\<lambda>v. tf\<lparr>tf_IPToS := v\<rparr>) readUint8
      else if flag = 17 then rd_map (\<lambda>v. tf\<lparr>tf_TimeoutS := v\<rparr>) readUint8
      else if flag = 18 then rd_map (\<lambda>v. tf\<lparr>tf_Loops := v\<rparr>) readUint8
      else if flag = 19 then rd_map (\<lambda>v. tf\<lparr>tf_HopsProbed := v\<rparr>) readUint16
      else if flag = 20 then rd_map (\<lambda>v. tf\<lparr>tf_GapLimit := v\<rparr>) readUint8
      else if flag = 21 then rd_map (\<lambda>v. tf\<lparr>tf_GapAction := v\<rparr>) readUint8
      else if flag = 22 then rd_map (\<lambda>v. tf\<lparr>tf_LoopAction := v\<rparr>) readUint8
      else if flag = 23 then rd_map (\<lambda>v. tf\<lparr>tf_ProbesSent := v\<rparr>) readUint16
      else if flag = 24 then rd_map (\<lambda>v. tf\<lparr>tf_MinWaitCenti := v\<rparr>) readUint8
      else if flag = 25 then rd_map (\<lambda>v. tf\<lparr>tf_Confidence := v\<rparr>) readUint8
      else if flag = 26 then rd_map (\<lambda>v. tf\<lparr>tf_Src := v\<rparr>) readAddress
      else if flag = 27 then rd_map (\<lambda>v. tf\<lparr>tf_Dst := v\<rparr>) readAddress
      else if flag = 28 then rd_map (\<lambda>v. tf\<lparr>tf_UserID := v\<rparr>) readUint32
      else rd_error ''Parsed a flag that should not be there: readTracerouteFlags'')"

text \<open>An error in reading the first byte is dropped, and no flags are returned.\<close>

definition readTracerouteFlags :: "TracerouteFlags rd" where
  "readTracerouteFlags s =
     (case Buffer_Read 1 s of
        (Inl e, s') \<Rightarrow> (Inr zero_TracerouteFlags, s')
      | (Inr first, s') \<Rightarrow>
          if length first \<noteq> 1 then rd_error ''Failed to read, readTracerouteFlags'' s'
          else rd_bind (rd_go (go_index first 0)) (\<lambda>b.
               rd_bind (getFlags b) (\<lambda>flags.
               rd_bind (skip_length flags) (\<lambda>_.
               rd_fold traceroute_flag flags zero_TracerouteFlags))) s')"

section \<open>Hops\<close>

record WTracerouteHop =
  th_HopAddr :: Address
  th_ProbeTTL :: uint8
  th_ReplyTTL :: uint8
  th_Flags :: uint8
  th_ProbeID :: uint8
  th_RTT :: Timeval
  th_ICMPTypeCode :: uint16
  th_ProbeSize :: uint16
  th_ReplySize :: uint16
  th_IPID :: uint16
  th_ToS :: uint8
  th_NextHopMTU :: uint16
  th_QuotedIPLength :: uint16
  th_QuotedTTL :: uint8
  th_TCPFlags :: uint8
  th_QuotesToS :: uint8
  th_ICMPExt :: ICMPExtensionList
  th_Address :: Address

definition zero_WTracerouteHop :: WTracerouteHop where
  "zero_WTracerouteHop = \<lparr>th_HopAddr = zero_Address, th_ProbeTTL = 0, th_ReplyTTL = 0, th_Flags = 0, th_ProbeID = 0,
     th_RTT = zero_Timeval, th_ICMPTypeCode = 0, th_ProbeSize = 0, th_ReplySize = 0, th_IPID = 0,
     th_ToS = 0, th_NextHopMTU = 0, th_QuotedIPLength = 0, th_QuotedTTL = 0, th_TCPFlags = 0,
     th_QuotesToS = 0, th_ICMPExt = zero_ICMPExtensionList, th_Address = zero_Address\<rparr>"

definition traceroute_hop_flag :: "uint8 \<Rightarrow> WTracerouteHop \<Rightarrow> WTracerouteHop rd" where
  "traceroute_hop_flag flag th =
     (if flag = 1 then rd_map (\<lambda>v. th\<lparr>th_HopAddr := v\<rparr>) readReferencedAddress
      else if flag = 2 then rd_map (\<lambda>v. th\<lparr>th_ProbeTTL := v\<rparr>) readUint8
      else if flag = 3 then rd_map (\<lambda>v. th\<lparr>th_ReplyTTL := v\<rparr>) readUint8
      else if flag = 4 then rd_map (\<lambda>v. th\<lparr>th_Flags := v\<rparr>) readUint8
      else if flag = 5 then rd_map (\<lambda>v. th\<lparr>th_ProbeID := v\<rparr>) readUint8
      else if flag = 6 then rd_map (\<lambda>v. th\<lparr>th_RTT := v\<rparr>) readRTT
      else if flag = 7 then rd_map (\<lambda>v. th\<lparr>th_ICMPTypeCode := v\<rparr>) readUint16
      else if flag = 8 then rd_map (\<lambda>v. th\<lparr>th_ProbeSize := v\<rparr>) readUint16
      else if flag = 9 then rd_map (\<lambda>v. th\<lparr>th_ReplySize := v\<rparr>) readUint16
      else if flag = 10 then rd_map (\<lambda>v. th\<lparr>th_IPID := v\<rparr>) readUint16
      else if flag = 11 then rd_map (\<lambda>v. th\<lparr>th_ToS := v\<rparr>) readUint8
      else if flag = 12 then rd_map (\<lambda>v. th\<lparr>th_NextHopMTU := v\<rparr>) readUint16
      else if flag = 13 then rd_map (\<lambda>v. th\<lparr>th_QuotedIPLength := v\<rparr>) readUint16
      else if flag = 14 then rd_map (\<lambda>v. th\<lparr>th_QuotedTTL := v\<rparr>) readUint8
      else if flag = 15 then rd_map (\<lambda>v. th\<lparr>th_TCPFlags := v\<rparr>) readUint8
      else if flag = 16 then rd_map (\<lambda>v. th\<lparr>th_QuotesToS := v\<rparr>) readUint8
      else if flag = 17 then rd_map (\<lambda>v. th\<lparr>th_ICMPExt := v\<rparr>) readICMPExtensionList
      else if flag = 18 then rd_map (\<lambda>v. th\<lparr>th_Address := v\<rparr>) readAddress
      else rd_error ''Invalid flag in traceroute reply'')"

definition readTracerouteHop :: "WTracerouteHop rd" where
  "readTracerouteHop =
     rd_bind (readBytes 1) (\<lambda>first.
     rd_bind (rd_go (go_index first 0)) (\<lambda>b.
     rd_bind (getFlags b) (\<lambda>flags.
     rd_bind (skip_length flags) (\<lambda>_.
     rd_fold traceroute_hop_flag flags zero_WTracerouteHop))))"

definition readTracerouteHops :: "uint16 \<Rightarrow> WTracerouteHop list rd" where
  "readTracerouteHops cnt = rd_times (unat cnt) readTracerouteHop"

record WTraceroute =
  wt_Flags :: TracerouteFlags
  wt_PLength :: uint16
  wt_HopCount :: uint16
  wt_Hops :: "WTracerouteHop list"
  wt_EndOfTrace :: uint16

definition readTraceroute :: "WTraceroute rd" where
  "readTraceroute =
     rd_bind NewAddressRefs (\<lambda>_.
     rd_bind readTracerouteFlags (\<lambda>flags.
     rd_bind readUint16 (\<lambda>hc.
     rd_bind (readTracerouteHops hc) (\<lambda>hops.
     rd_bind readUint16 (\<lambda>_.
       rd_return \<lparr>wt_Flags = flags, wt_PLength = 0, wt_HopCount = hc, wt_Hops = hops, wt_EndOfTrace = 0\<rparr>)))))"

definition TraceType_String :: "uint8 \<Rightarrow> string go" where
  "TraceType_String tt =
     go_index [''NULL'', ''icmp-echo'', ''udp'', ''tcp'', ''icmp-echo-paris'', ''udp-paris'', ''tcp-ack''] (int (unat tt))"

definition StopReason_String :: "uint8 \<Rightarrow> string go" where
  "StopReason_String sr =
     go_index [''NONE'', ''COMPLETED'', ''UNREACH'', ''ICMP'', ''LOOP'', ''GAPLIMIT'', ''ERROR'', ''HOPLIMIT'',
       ''GSS'', ''HALTED''] (int (unat sr))"

section \<open>The parser\<close>

datatype warts_object =
    OPing WPing
  | OCycleStart CycleStart
  | OCycleStop CycleStop
  | OTraceroute WTraceroute
  | OList WList
  | OHeader Header

definition getWartsT :: "warts_object \<Rightarrow> uint32" where
  "getWartsT obj =
     (case obj of
        OPing _ \<Rightarrow> 0x07
      | OCycleStart _ \<Rightarrow> 0x02
      | OCycleStop _ \<Rightarrow> 0x04
      | OTraceroute _ \<Rightarrow> 0x06
      | OList _ \<Rightarrow> 0x01
      | OHeader _ \<Rightarrow> 0x00)"

text \<open>
  The body of an object of another type (addresses, alias resolutions, ...) is not skipped: the header
  itself is the object, and the next header is looked for right behind it.
\<close>

definition parseNext :: "warts_object rd" where
  "parseNext =
     rd_bind readHeader (\<lambda>head.
     if h_Type head = 0x01 then rd_map OList readList
     else if h_Type head = 0x03 \<or> h_Type head = 0x02 then rd_map OCycleStart readCycle
     else if h_Type head = 0x04 then rd_map OCycleStop readCycleStop
     else if h_Type head = 0x06 then rd_map OTraceroute readTraceroute
     else if h_Type head = 0x07 then rd_map OPing readPing
     else rd_return (OHeader head))"

section \<open>Soundness and the loop of the parser\<close>

lemma sound_icmp_extension [rd_sound]: "sound_reader readICMPExtension"
  unfolding readICMPExtension_def by (intro rd_sound)

lemma sound_extensions [rd_sound]: "sound_reader (readExtensions len i)"
proof -
  have "suffix (rs_buf (snd (readExtensions len i s))) (rs_buf s) \<and> fst (readExtensions len i s) \<noteq> Inl (Panicked p)" for s p
  proof (induction len i s rule: readExtensions.induct)
    case (1 len i s)
    obtain r s1 where r: "readICMPExtension s = (r, s1)" by fastforce
    note d = sound_readerD [OF sound_icmp_extension r]
    show ?case
    proof (cases "i < len")
      case False
      then show ?thesis by (subst (1 2) readExtensions.simps) simp
    next
      case True
      show ?thesis
      proof (cases r)
        case (Inl e)
        then show ?thesis using d True by (subst (1 2) readExtensions.simps) (simp add: r)
      next
        case (Inr ext)
        obtain r2 s2 where r2: "readExtensions len (i + (ie_Length ext + 2 + 2)) s1 = (r2, s2)" by fastforce
        from "1.IH" [OF True r [symmetric] Inr, unfolded r2 fst_conv snd_conv] d(1)
        have "suffix (rs_buf s2) (rs_buf s)" "r2 \<noteq> Inl (Panicked p)" by (auto intro: suffix_order.trans)
        then show ?thesis using True Inr by (subst (1 2) readExtensions.simps) (auto simp: r r2 [simplified] split: sum.split)
      qed
    qed
  qed
  then show ?thesis by (simp add: sound_reader_def)
qed

lemma sound_extension_list [rd_sound]: "sound_reader readICMPExtensionList"
  unfolding readICMPExtensionList_def by (intro rd_sound)

interpretation traceroute_flags: flag_table traceroute_flag 28
proof
  show "sound_reader (traceroute_flag f r)" for f r unfolding traceroute_flag_def by (intro rd_sound)
  show "\<exists>msg. traceroute_flag f r s = (Inl (Errorf msg), s)" if "\<not> (1 \<le> f \<and> f \<le> 28)" for f r s
    using that unfolding traceroute_flag_def by (auto simp: rd_error_def)
qed

interpretation hop_flags: flag_table traceroute_hop_flag 18
proof
  show "sound_reader (traceroute_hop_flag f r)" for f r unfolding traceroute_hop_flag_def by (intro rd_sound)
  show "\<exists>msg. traceroute_hop_flag f r s = (Inl (Errorf msg), s)" if "\<not> (1 \<le> f \<and> f \<le> 18)" for f r s
    using that unfolding traceroute_hop_flag_def by (auto simp: rd_error_def)
qed

lemma sound_traceroute_flags [rd_sound]: "sound_reader readTracerouteFlags"
proof -
  let ?rest = "\<lambda>first. rd_bind (rd_go (go_index first 0)) (\<lambda>b. rd_bind (getFlags b) (\<lambda>flags.
               rd_bind (skip_length flags) (\<lambda>_. rd_fold traceroute_flag flags zero_TracerouteFlags)))"
  have rest: "length first = 1 \<Longrightarrow> sound_reader (?rest first)" for first
    by (intro rd_sound traceroute_flags.sound_flags) simp_all
  show ?thesis
    unfolding sound_reader_def
  proof
    fix s
    show "suffix (rs_buf (snd (readTracerouteFlags s))) (rs_buf s) \<and>
        (\<forall>p. fst (readTracerouteFlags s) \<noteq> Inl (Panicked p))"
    proof (cases "rs_buf s")
      case Nil
      then show ?thesis by (simp add: readTracerouteFlags_def Buffer_Read_def)
    next
      case (Cons b bs)
      obtain r s2 where r: "?rest [b] (s\<lparr>rs_buf := bs\<rparr>) = (r, s2)" by fastforce
      have "readTracerouteFlags s = (r, s2)" using r by (simp add: readTracerouteFlags_def Buffer_Read_def Cons)
      moreover have "suffix (rs_buf s2) bs" "\<And>p. r \<noteq> Inl (Panicked p)"
        using sound_readerD [OF rest [of "[b]"] r] by simp_all
      ultimately show ?thesis using Cons by (simp add: suffix_ConsI)
    qed
  qed
qed

lemma sound_traceroute [rd_sound]: "sound_reader readTraceroute"
proof -
  have h: "sound_reader readTracerouteHop"
    unfolding readTracerouteHop_def readBytes_def by (intro rd_sound hop_flags.sound_flags) simp_all
  show ?thesis unfolding readTraceroute_def readTracerouteHops_def by (intro rd_sound h)
qed

lemma sound_parseNext [rd_sound]: "sound_reader parseNext"
  unfolding parseNext_def by (intro rd_sound)

lemma parseNext_shrinks:
  assumes "parseNext s = (Inr obj, s')"
  shows "length (rs_buf s') < length (rs_buf s)"
proof -
  obtain r s1 where h: "readHeader s = (r, s1)" by fastforce
  obtain r0 s0 where r0: "read_exactly 8 id ''ReadHeader, short read'' s = (r0, s0)" by fastforce
  from assms h obtain head where "r = Inr head" by (cases r) (auto simp: parseNext_def rd_bind_def)
  with h r0 obtain xs where "r0 = Inr xs" by (cases r0) (auto simp: readHeader_def rd_bind_def)
  with r0 have "length (rs_buf s0) < length (rs_buf s)" using read_byte_shrinks [of 7] by simp
  moreover have "length (rs_buf s1) \<le> length (rs_buf s0)"
  proof -
    let ?f = "\<lambda>head. rd_bind (rd_go (getUint16 head)) (\<lambda>magic.
     if magic \<noteq> 0x1205 then rd_error ''Incorrect warts magic''
     else rd_bind (rd_go (getUint16 (drop 2 head))) (\<lambda>t.
          rd_bind (rd_go (getUint32 (drop 4 head))) (\<lambda>len.
            rd_return \<lparr>h_Magic = magic, h_Type = ucast t, h_Length = len\<rparr>)))"
    have "length xs = 8" using exactly_result r0 \<open>r0 = Inr xs\<close> by blast
    then have "sound_reader (?f xs)" by (intro rd_sound) simp_all
    moreover have "?f xs s0 = (r, s1)" using h r0 \<open>r0 = Inr xs\<close> by (simp add: readHeader_def rd_bind_def)
    ultimately show ?thesis by (rule sound_reader_length)
  qed
  moreover have "length (rs_buf s') \<le> length (rs_buf s1)"
  proof -
    let ?g = "\<lambda>head. if h_Type head = 0x01 then rd_map OList readList
     else if h_Type head = 0x03 \<or> h_Type head = 0x02 then rd_map OCycleStart readCycle
     else if h_Type head = 0x04 then rd_map OCycleStop readCycleStop
     else if h_Type head = 0x06 then rd_map OTraceroute readTraceroute
     else if h_Type head = 0x07 then rd_map OPing readPing
     else rd_return (OHeader head)"
    have "sound_reader (?g head)" by (intro rd_sound)
    moreover have "?g head s1 = (Inr obj, s')" using assms h \<open>r = Inr head\<close> by (simp add: parseNext_def rd_bind_def)
    ultimately show ?thesis by (rule sound_reader_length)
  qed
  ultimately show ?thesis by linarith
qed

text \<open>
  \<open>Parse\<close> reads objects until the buffer is empty, or until an object ends too early in a place where
  \<open>io.EOF\<close> comes through unchanged, and returns the objects of the types asked for.
\<close>

function Parse_loop :: "uint32 set \<Rightarrow> warts_object list \<Rightarrow> rstate \<Rightarrow> (string + warts_object list) go" where
  "Parse_loop types ret s =
     (case parseNext s of
        (Inl io_EOF, _) \<Rightarrow> Inr (Inr ret)
      | (Inl (Errorf _), _) \<Rightarrow> Inr (Inl ''Failed to parse warts'')
      | (Inl (Panicked p), _) \<Rightarrow> Inl p
      | (Inr obj, s') \<Rightarrow> Parse_loop types (if getWartsT obj \<in> types then ret @ [obj] else ret) s')"
  by pat_completeness auto
termination by (relation "measure (\<lambda>(_, _, s). length (rs_buf s))") (auto dest: parseNext_shrinks [OF sym])

declare Parse_loop.simps [simp del]

definition Parse :: "byte list \<Rightarrow> uint32 list \<Rightarrow> (string + warts_object list) go" where
  "Parse data objs = Parse_loop (set objs) [] \<lparr>rs_buf = data, rs_id = 0, rs_addrs = Map.empty\<rparr>"

lemma Parse_loop_step:
  assumes "parseNext s = (Inr obj, s')"
  shows "Parse_loop types ret s = Parse_loop types (if getWartsT obj \<in> types then ret @ [obj] else ret) s'"
  by (subst Parse_loop.simps) (simp add: assms)

lemma Parse_loop_empty: "rs_buf s = [] \<Longrightarrow> Parse_loop types ret s = Inr (Inr ret)"
  by (subst Parse_loop.simps)
     (simp add: parseNext_def readHeader_def rd_bind_def read_exactly_def Buffer_Read_def)

lemma Parse_loop_sound:
  "\<exists>r. Parse_loop types ret s = Inr r \<and> (\<forall>objs. r = Inr objs \<longrightarrow> (\<exists>new. objs = ret @ new \<and> (\<forall>obj \<in> set new. getWartsT obj \<in> types)))"
proof (induction types ret s rule: Parse_loop.induct)
  case (1 types ret s)
  obtain r s' where r: "parseNext s = (r, s')" by fastforce
  note d = sound_readerD(2) [OF sound_parseNext r]
  show ?case
  proof (cases r)
    case (Inl e)
    then show ?thesis using d by (subst Parse_loop.simps) (cases e; simp add: r)
  next
    case (Inr obj)
    let ?ret = "if getWartsT obj \<in> types then ret @ [obj] else ret"
    from "1.IH" [OF r [symmetric] Inr] obtain x where x: "Parse_loop types ?ret s' = Inr x"
      "\<And>objs. x = Inr objs \<Longrightarrow> \<exists>new. objs = ?ret @ new \<and> (\<forall>obj \<in> set new. getWartsT obj \<in> types)" by blast
    have "\<exists>new. objs = ret @ new \<and> (\<forall>obj \<in> set new. getWartsT obj \<in> types)" if "x = Inr objs" for objs
    proof -
      from x(2) [OF that] obtain new where "objs = ?ret @ new" "\<forall>obj \<in> set new. getWartsT obj \<in> types" by blast
      then show ?thesis by (intro exI [of _ "(if getWartsT obj \<in> types then [obj] else []) @ new"]) auto
    qed
    with x(1) show ?thesis using Parse_loop_step [OF r [unfolded Inr]] by simp
  qed
qed

section \<open>Properties\<close>

text \<open>
  C12. The parser of measurement results is safe for any input: it returns, without a panic, an error or
  a list of objects, all of which have one of the types asked for.
\<close>

theorem parse_is_safe:
  "\<exists>r. Parse data objs = Inr r \<and> (case r of Inl _ \<Rightarrow> True | Inr os \<Rightarrow> list_all (\<lambda>obj. getWartsT obj \<in> set objs) os)"
proof -
  obtain r where r: "Parse data objs = Inr r" "\<And>os. r = Inr os \<Longrightarrow> \<forall>obj \<in> set os. getWartsT obj \<in> set objs"
    using Parse_loop_sound [of "set objs" "[]"] unfolding Parse_def by fastforce
  then show ?thesis by (auto simp: list_all_iff split: sum.split)
qed

end
