(* ===== verification/WartsRoundtrip.thy ===== *)
theory WartsRoundtrip
  imports WartsTraceroute
begin

text \<open>
  What the reader of traceroutes is for: it reads back what scamper writes. The writer is specified
  here, field by field, for addresses that are written out where they occur; flag bytes may be any that
  say which fields follow.
\<close>

section \<open>Fields\<close>

definition put_rtt :: "Timeval \<Rightarrow> byte list" where
  "put_rtt t = put32 (ucast (tv_Sec t) * 1000000 + ucast (tv_Usec t))"

definition rtt32 :: "Timeval \<Rightarrow> bool" where
  "rtt32 t \<longleftrightarrow> convertTimeval (ucast (tv_Sec t) * 1000000 + ucast (tv_Usec t)) = t"

lemma reads_rtt: "rtt32 t \<Longrightarrow> reads readRTT (put_rtt t) t"
  unfolding readRTT_def put_rtt_def rtt32_def by (rule reads_map' [OF reads_uint32]) simp

definition put_trace_field :: "uint8 \<Rightarrow> TracerouteFlags \<Rightarrow> byte list" where
  "put_trace_field f v =
     (if f = 1 then put32 (tf_ListID v)
      else if f = 2 then put32 (tf_CycleID v)
      else if f = 5 then put_timeval (tf_StartTime v)
      else if f = 6 then put8 (tf_StopReason v)
      else if f = 7 then put8 (tf_StopData v)
      else if f = 8 then put8 (tf_TraceFlags v)
      else if f = 9 then put8 (tf_Attempts v)
      else if f = 10 then put8 (tf_HopLimit v)
      else if f = 11 then put8 (tf_TraceType v)
      else if f = 12 then put16 (tf_ProbeSize v)
      else if f = 13 then put16 (tf_SourcePort v)
      else if f = 14 then put16 (tf_DestPort v)
      else if f = 15 then put8 (tf_StartTTL v)
      else if f = 16 then put8 (tf_IPToS v)
      else if f = 17 then put8 (tf_TimeoutS v)
      else if f = 18 then put8 (tf_Loops v)
      else if f = 19 then put16 (tf_HopsProbed v)
      else if f = 20 then put8 (tf_GapLimit v)
      else if f = 21 then put8 (tf_GapAction v)
      else if f = 22 then put8 (tf_LoopAction v)
      else if f = 23 then put16 (tf_ProbesSent v)
      else if f = 24 then put8 (tf_MinWaitCenti v)
      else if f = 25 then put8 (tf_Confidence v)
      else if f = 26 then put_address (tf_Src v)
      else if f = 27 then put_address (tf_Dst v)
      else if f = 28 then put32 (tf_UserID v)
      else [])"

definition copy_trace_field :: "uint8 \<Rightarrow> TracerouteFlags \<Rightarrow> TracerouteFlags \<Rightarrow> TracerouteFlags" where
  "copy_trace_field f v r =
     (if f = 1 then r\<lparr>tf_ListID := tf_ListID v\<rparr>
      else if f = 2 then r\<lparr>tf_CycleID := tf_CycleID v\<rparr>
      else if f = 5 then r\<lparr>tf_StartTime := tf_StartTime v\<rparr>
      else if f = 6 then r\<lparr>tf_StopReason := tf_StopReason v\<rparr>
      else if f = 7 then r\<lparr>tf_StopData := tf_StopData v\<rparr>
      else if f = 8 then r\<lparr>tf_TraceFlags := tf_TraceFlags v\<rparr>
      else if f = 9 then r\<lparr>tf_Attempts := tf_Attempts v\<rparr>
      else if f = 10 then r\<lparr>tf_HopLimit := tf_HopLimit v\<rparr>
      else if f = 11 then r\<lparr>tf_TraceType := tf_TraceType v\<rparr>
      else if f = 12 then r\<lparr>tf_ProbeSize := tf_ProbeSize v\<rparr>
      else if f = 13 then r\<lparr>tf_SourcePort := tf_SourcePort v\<rparr>
      else if f = 14 then r\<lparr>tf_DestPort := tf_DestPort v\<rparr>
      else if f = 15 then r\<lparr>tf_StartTTL := tf_StartTTL v\<rparr>
      else if f = 16 then r\<lparr>tf_IPToS := tf_IPToS v\<rparr>
      else if f = 17 then r\<lparr>tf_TimeoutS := tf_TimeoutS v\<rparr>
      else if f = 18 then r\<lparr>tf_Loops := tf_Loops v\<rparr>
      else if f = 19 then r\<lparr>tf_HopsProbed := tf_HopsProbed v\<rparr>
      else if f = 20 then r\<lparr>tf_GapLimit := tf_GapLimit v\<rparr>
      else if f = 21 then r\<lparr>tf_GapAction := tf_GapAction v\<rparr>
      else if f = 22 then r\<lparr>tf_LoopAction := tf_LoopAction v\<rparr>
      else if f = 23 then r\<lparr>tf_ProbesSent := tf_ProbesSent v\<rparr>
      else if f = 24 then r\<lparr>tf_MinWaitCenti := tf_MinWaitCenti v\<rparr>
      else if f = 25 then r\<lparr>tf_Confidence := tf_Confidence v\<rparr>
      else if f = 26 then r\<lparr>tf_Src := tf_Src v\<rparr>
      else if f = 27 then r\<lparr>tf_Dst := tf_Dst v\<rparr>
      else if f = 28 then r\<lparr>tf_UserID := tf_UserID v\<rparr>
      else r)"

definition coded_trace_field :: "uint8 set" where
  "coded_trace_field = {1, 2, 5, 6, 7, 8, 9, 10, 11, 12, 13, 14, 15, 16, 17, 18, 19, 20, 21, 22, 23, 24, 25, 26, 27, 28}"

definition put_hop_field :: "uint8 \<Rightarrow> WTracerouteHop \<Rightarrow> byte list" where
  "put_hop_field f v =
     (if f = 2 then put8 (th_ProbeTTL v)
      else if f = 3 then put8 (th_ReplyTTL v)
      else if f = 4 then put8 (th_Flags v)
      else if f = 5 then put8 (th_ProbeID v)
      else if f = 6 then put_rtt (th_RTT v)
      else if f = 7 then put16 (th_ICMPTypeCode v)
      else if f = 8 then put16 (th_ProbeSize v)
      else if f = 9 then put16 (th_ReplySize v)
      else if f = 10 then put16 (th_IPID v)
      else if f = 11 then put8 (th_ToS v)
      else if f = 12 then put16 (th_NextHopMTU v)
      else if f = 13 then put16 (th_QuotedIPLength v)
      else if f = 14 then put8 (th_QuotedTTL v)
      else if f = 15 then put8 (th_TCPFlags v)
      else if f = 16 then put8 (th_QuotesToS v)
      else if f = 18 then put_address (th_Address v)
      else [])"

definition copy_hop_field :: "uint8 \<Rightarrow> WTracerouteHop \<Rightarrow> WTracerouteHop \<Rightarrow> WTracerouteHop" where
  "copy_hop_field f v r =
     (if f = 2 then r\<lparr>th_ProbeTTL := th_ProbeTTL v\<rparr>
      else if f = 3 then r\<lparr>th_ReplyTTL := th_ReplyTTL v\<rparr>
      else if f = 4 then r\<lparr>th_Flags := th_Flags v\<rparr>
      else if f = 5 then r\<lparr>th_ProbeID := th_ProbeID v\<rparr>
      else if f = 6 then r\<lparr>th_RTT := th_RTT v\<rparr>
      else if f = 7 then r\<lparr>th_ICMPTypeCode := th_ICMPTypeCode v\<rparr>
      else if f = 8 then r\<lparr>th_ProbeSize := th_ProbeSize v\<rparr>
      else if f = 9 then r\<lparr>th_ReplySize := th_ReplySize v\<rparr>
      else if f = 10 then r\<lparr>th_IPID := th_IPID v\<rparr>
      else if f = 11 then r\<lparr>th_ToS := th_ToS v\<rparr>
      else if f = 12 then r\<lparr>th_NextHopMTU := th_NextHopMTU v\<rparr>
      else if f = 13 then r\<lparr>th_QuotedIPLength := th_QuotedIPLength v\<rparr>
      else if f = 14 then r\<lparr>th_QuotedTTL := th_QuotedTTL v\<rparr>
      else if f = 15 then r\<lparr>th_TCPFlags := th_TCPFlags v\<rparr>
      else if f = 16 then r\<lparr>th_QuotesToS := th_QuotesToS v\<rparr>
      else if f = 18 then r\<lparr>th_Address := th_Address v\<rparr>
      else r)"

definition coded_hop_field :: "uint8 set" where
  "coded_hop_field = {2, 3, 4, 5, 6, 7, 8, 9, 10, 11, 12, 13, 14, 15, 16, 18}"

text \<open>A value can be written if its addresses are IPv4 addresses and its times fit their fields.\<close>

definition valid_trace_fields :: "TracerouteFlags \<Rightarrow> bool" where
  "valid_trace_fields v \<longleftrightarrow> timeval32 (tf_StartTime v) \<and> ipv4 (tf_Src v) \<and> ipv4 (tf_Dst v)"

definition valid_hop_fields :: "WTracerouteHop \<Rightarrow> bool" where
  "valid_hop_fields v \<longleftrightarrow> rtt32 (th_RTT v) \<and> ipv4 (th_Address v)"

lemmas reads_fields = reads_uint8 reads_uint16 reads_uint32 reads_timeval reads_address reads_rtt

section \<open>Flagged records\<close>

locale coded_table = flag_table step limit
  for step :: "uint8 \<Rightarrow> 'r \<Rightarrow> 'r rd" and limit +
  fixes put :: "uint8 \<Rightarrow> 'r \<Rightarrow> byte list" and copy :: "uint8 \<Rightarrow> 'r \<Rightarrow> 'r \<Rightarrow> 'r"
    and coded :: "uint8 set" and valid :: "'r \<Rightarrow> bool"
  assumes reads_field: "f \<in> coded \<Longrightarrow> valid v \<Longrightarrow> reads (step f r) (put f v) (copy f v r)"
begin

lemma reads_fields:
  "set fs \<subseteq> coded \<Longrightarrow> valid v \<Longrightarrow>
    reads (rd_fold step fs r) (concat (map (\<lambda>f. put f v) fs)) (fold (\<lambda>f. copy f v) fs r)"
proof (induction fs arbitrary: r)
  case (Cons f fs)
  then have "reads (rd_fold step fs (copy f v r)) (concat (map (\<lambda>f. put f v) fs)) (fold (\<lambda>f. copy f v) fs (copy f v r))"
    by simp
  moreover have "reads (step f r) (put f v) (copy f v r)" using Cons.prems by (intro reads_field) simp_all
  ultimately show ?case by (simp add: reads_bind)
qed simp

lemma reads_flagged:
  assumes "mask_ok (m # ms)" and "fs = mask_flags 1 (m # ms)" and "set fs \<subseteq> coded" and "valid v"
    and "fold (\<lambda>f. copy f v) fs r = v"
  shows "reads (rd_bind (rd_go (go_index [m] 0)) (\<lambda>b. rd_bind (getFlags b) (\<lambda>flags.
      rd_bind (skip_length flags) (\<lambda>_. rd_fold step flags r))))
    (ms @ (if fs \<noteq> [] then put16 len else []) @ concat (map (\<lambda>f. put f v) fs)) v"
proof -
  have "reads (skip_length fs) (if fs \<noteq> [] then put16 len else []) ()"
    by (auto simp: skip_length_def intro: reads_map [OF reads_uint16, of "\<lambda>_. ()"])
  moreover have "reads (rd_fold step fs r) (concat (map (\<lambda>f. put f v) fs)) v"
    using reads_fields [OF assms(3,4), of r] assms(5) by simp
  ultimately have "reads (rd_bind (skip_length fs) (\<lambda>_. rd_fold step fs r))
      ((if fs \<noteq> [] then put16 len else []) @ concat (map (\<lambda>f. put f v) fs)) v"
    by (rule reads_bind)
  moreover have "reads (getFlags m) ms fs" using reads_getFlags [OF assms(1)] assms(2) by simp
  ultimately have "reads (rd_bind (getFlags m) (\<lambda>flags. rd_bind (skip_length flags) (\<lambda>_. rd_fold step flags r)))
      (ms @ (if fs \<noteq> [] then put16 len else []) @ concat (map (\<lambda>f. put f v) fs)) v"
    by (rule reads_bind [rotated])
  then show ?thesis by (intro reads_bind_Nil [OF reads_go]) (simp_all add: go_index_def)
qed

end

interpretation trace_fields: coded_table traceroute_flag 28 put_trace_field copy_trace_field coded_trace_field valid_trace_fields
proof
  fix f v r
  assume "f \<in> coded_trace_field" and "valid_trace_fields v"
  then show "reads (traceroute_flag f r) (put_trace_field f v) (copy_trace_field f v r)"
    unfolding coded_trace_field_def valid_trace_fields_def
    by (elim conjE insertE emptyE)
       (simp add: traceroute_flag_def put_trace_field_def copy_trace_field_def,
        rule reads_map', rule reads_fields, assumption?, rule refl)+
qed

interpretation hop_fields: coded_table traceroute_hop_flag 18 put_hop_field copy_hop_field coded_hop_field valid_hop_fields
proof
  fix f v r
  assume "f \<in> coded_hop_field" and "valid_hop_fields v"
  then show "reads (traceroute_hop_flag f r) (put_hop_field f v) (copy_hop_field f v r)"
    unfolding coded_hop_field_def valid_hop_fields_def
    by (elim conjE insertE emptyE)
       (simp add: traceroute_hop_flag_def put_hop_field_def copy_hop_field_def,
        rule reads_map', rule reads_fields, assumption?, rule refl)+
qed

section \<open>Traceroutes\<close>

text \<open>What is written of a flagged record: the flag bytes, the length of the values, the values.\<close>

record 'r flagged =
  wr_mask :: "byte list"
  wr_length :: uint16
  wr_value :: 'r

definition set_flags :: "'r flagged \<Rightarrow> uint8 list" where
  "set_flags w = mask_flags 1 (wr_mask w)"

definition put_flagged :: "(uint8 \<Rightarrow> 'r \<Rightarrow> byte list) \<Rightarrow> 'r flagged \<Rightarrow> byte list" where
  "put_flagged put w =
     wr_mask w @ (if set_flags w \<noteq> [] then put16 (wr_length w) else [])
       @ concat (map (\<lambda>f. put f (wr_value w)) (set_flags w))"

text \<open>Fields whose flag is not set must have their default value, and all flags set must be writable.\<close>

definition trace_flags_ok :: "TracerouteFlags flagged \<Rightarrow> bool" where
  "trace_flags_ok w \<longleftrightarrow> mask_ok (wr_mask w) \<and> list_all (\<lambda>f. f \<in> coded_trace_field) (set_flags w)
     \<and> valid_trace_fields (wr_value w)
     \<and> fold (\<lambda>f. copy_trace_field f (wr_value w)) (set_flags w) zero_TracerouteFlags = wr_value w"

definition hop_ok :: "WTracerouteHop flagged \<Rightarrow> bool" where
  "hop_ok w \<longleftrightarrow> mask_ok (wr_mask w) \<and> list_all (\<lambda>f. f \<in> coded_hop_field) (set_flags w)
     \<and> valid_hop_fields (wr_value w)
     \<and> fold (\<lambda>f. copy_hop_field f (wr_value w)) (set_flags w) zero_WTracerouteHop = wr_value w"

lemma mask_nonempty: "mask_ok ms \<Longrightarrow> \<exists>m ms'. ms = m # ms'"
  by (cases ms) auto

lemma reads_hop: "hop_ok w \<Longrightarrow> reads readTracerouteHop (put_flagged put_hop_field w) (wr_value w)"
proof -
  assume ok: "hop_ok w"
  then obtain m ms where m: "wr_mask w = m # ms" using mask_nonempty [of "wr_mask w"] unfolding hop_ok_def by blast
  have "reads (readBytes 1) [m] [m]" unfolding readBytes_def by (rule reads_exactly) simp_all
  moreover have "reads (rd_bind (rd_go (go_index [m] 0)) (\<lambda>b. rd_bind (getFlags b) (\<lambda>flags.
      rd_bind (skip_length flags) (\<lambda>_. rd_fold traceroute_hop_flag flags zero_WTracerouteHop))))
    (ms @ (if set_flags w \<noteq> [] then put16 (wr_length w) else [])
       @ concat (map (\<lambda>f. put_hop_field f (wr_value w)) (set_flags w))) (wr_value w)"
    using ok m by (intro hop_fields.reads_flagged) (auto simp: hop_ok_def set_flags_def list_all_iff)
  ultimately show ?thesis
    unfolding readTracerouteHop_def put_flagged_def m
    by (rule reads_bindI) simp
qed

lemma reads_trace_flags: "trace_flags_ok w \<Longrightarrow> reads readTracerouteFlags (put_flagged put_trace_field w) (wr_value w)"
proof -
  assume ok: "trace_flags_ok w"
  then obtain m ms where m: "wr_mask w = m # ms" using mask_nonempty [of "wr_mask w"] unfolding trace_flags_ok_def by blast
  let ?r = "rd_bind (rd_go (go_index [m] 0)) (\<lambda>b. rd_bind (getFlags b) (\<lambda>flags.
      rd_bind (skip_length flags) (\<lambda>_. rd_fold traceroute_flag flags zero_TracerouteFlags)))"
  let ?bs = "ms @ (if set_flags w \<noteq> [] then put16 (wr_length w) else [])
       @ concat (map (\<lambda>f. put_trace_field f (wr_value w)) (set_flags w))"
  have r: "reads ?r ?bs (wr_value w)"
    using ok m by (intro trace_fields.reads_flagged) (auto simp: trace_flags_ok_def set_flags_def list_all_iff)
  show ?thesis
    unfolding reads_def
  proof (intro allI impI)
    fix s :: rstate and rest
    assume s: "rs_buf s = put_flagged put_trace_field w @ rest"
    then have b: "rs_buf s = m # ?bs @ rest" by (simp add: put_flagged_def m)
    then have "readTracerouteFlags s = ?r (s\<lparr>rs_buf := ?bs @ rest\<rparr>)"
      by (simp add: readTracerouteFlags_def Buffer_Read_def)
    moreover obtain s' where "?r (s\<lparr>rs_buf := ?bs @ rest\<rparr>) = (Inr (wr_value w), s')" "rs_buf s' = rest"
      using readsD [OF r, of "s\<lparr>rs_buf := ?bs @ rest\<rparr>" rest] by auto
    ultimately show "\<exists>s'. readTracerouteFlags s = (Inr (wr_value w), s') \<and> rs_buf s' = rest" by simp
  qed
qed

record written_trace =
  wtr_flags :: "TracerouteFlags flagged"
  wtr_hops :: "WTracerouteHop flagged list"
  wtr_end :: uint16

definition put_trace :: "written_trace \<Rightarrow> byte list" where
  "put_trace w =
     put_flagged put_trace_field (wtr_flags w) @ put16 (word_of_nat (length (wtr_hops w)))
       @ concat (map (put_flagged put_hop_field) (wtr_hops w)) @ put16 (wtr_end w)"

definition trace_ok :: "written_trace \<Rightarrow> bool" where
  "trace_ok w \<longleftrightarrow> trace_flags_ok (wtr_flags w) \<and> list_all hop_ok (wtr_hops w) \<and> length (wtr_hops w) < 65536"

definition trace_value :: "written_trace \<Rightarrow> WTraceroute" where
  "trace_value w =
     \<lparr>wt_Flags = wr_value (wtr_flags w), wt_PLength = 0, wt_HopCount = word_of_nat (length (wtr_hops w)),
      wt_Hops = map wr_value (wtr_hops w), wt_EndOfTrace = 0\<rparr>"

lemma reads_trace:
  assumes "trace_ok w"
  shows "reads readTraceroute (put_trace w) (trace_value w)"
proof -
  let ?n = "word_of_nat (length (wtr_hops w)) :: uint16"
  have n: "unat ?n = length (map wr_value (wtr_hops w))"
    using assms by (simp add: trace_ok_def unat_of_nat take_bit_nat_eq_self)
  have "list_all2 (reads readTracerouteHop) (map (put_flagged put_hop_field) (wtr_hops w)) (map wr_value (wtr_hops w))"
    using assms by (auto simp: trace_ok_def list_all2_conv_all_nth list_all_length reads_hop)
  then have hops: "reads (readTracerouteHops ?n) (concat (map (put_flagged put_hop_field) (wtr_hops w))) (map wr_value (wtr_hops w))"
    unfolding readTracerouteHops_def n by (rule reads_times)
  have new: "reads NewAddressRefs [] ()" by (simp add: reads_def NewAddressRefs_def)
  have flags: "trace_flags_ok (wtr_flags w)" using assms by (simp add: trace_ok_def)
  show ?thesis
    unfolding readTraceroute_def put_trace_def
    by (rule reads_bind_Nil [OF new], rule reads_bind [OF reads_trace_flags [OF flags]],
        rule reads_bind [OF reads_uint16], rule reads_bind [OF hops], rule reads_last [OF reads_uint16])
       (simp_all add: trace_value_def)
qed

section \<open>Lists and cycles\<close>

definition put_string :: "byte list \<Rightarrow> byte list" where
  "put_string xs = xs @ [0]"

definition put_list :: "WList \<Rightarrow> byte list" where
  "put_list l =
     put32 (l_ListID l) @ put32 (l_CListID l) @ put_string (l_ListName l) @ put8 3 @ put16 (l_PLength l)
       @ put_string (l_Description l) @ put_string (l_MonitorName l)"

definition list_ok :: "WList \<Rightarrow> bool" where
  "list_ok l \<longleftrightarrow> 0 \<notin> set (l_ListName l) \<and> 0 \<notin> set (l_Description l) \<and> 0 \<notin> set (l_MonitorName l)"

lemma reads_string_or: "reads getString bs x \<Longrightarrow> reads (k x) cs w \<Longrightarrow> xs = bs @ cs \<Longrightarrow> reads (string_or d k) xs w"
  unfolding reads_def string_or_def by fastforce

lemma reads_string': "0 \<notin> set xs \<Longrightarrow> reads getString (put_string xs) xs"
  unfolding put_string_def by (rule reads_string)

lemma getUint32_put: "getUint32 (put32 x @ rest) = Inr x"
  by (simp add: getUint32_eq put32_def bytes_of_32)

lemma getUint32_put_only: "getUint32 (put32 x) = Inr x"
  using getUint32_put [of x "[]"] by simp

lemma put32_split [simp]:
  "length (put32 x) = 4" "take 4 (put32 x @ ys) = put32 x" "drop 4 (put32 x @ ys) = ys"
  "take 4 (put32 x) = put32 x"
  by (simp_all add: put32_def)

lemma reads_list:
  assumes "list_ok l"
  shows "reads readList (put_list l) l"
proof -
  have isset: "isset 3 1" "isset 3 2" by (simp_all add: isset_def)
  let ?lf = "\<lparr>lf_Length = l_PLength l, lf_Description = l_Description l, lf_MonitorName = l_MonitorName l\<rparr>"
  have flags: "reads readListFlags (put8 3 @ put16 (l_PLength l) @ put_string (l_Description l) @ put_string (l_MonitorName l)) ?lf"
    unfolding readListFlags_def put8_def
    by (rule reads_exactly_bind, simp, simp, rule reads_bind_Nil [OF reads_go [of _ 3]], simp add: getUint8_eq,
        simp add: isset Let_def, rule reads_bind [OF reads_uint16], rule reads_string_or [OF reads_string' _ refl],
        use assms in \<open>simp add: list_ok_def\<close>, rule reads_string_or [OF reads_string' _ append_Nil2 [symmetric]],
        use assms in \<open>simp add: list_ok_def\<close>)
       (simp_all add: zero_ListFlags_def)
  have ids: "put_list l = (put32 (l_ListID l) @ put32 (l_CListID l)) @ put_string (l_ListName l) @
      (put8 3 @ put16 (l_PLength l) @ put_string (l_Description l) @ put_string (l_MonitorName l))"
    by (simp add: put_list_def)
  show ?thesis
    unfolding readList_def ids
    by (rule reads_exactly_bind, simp, simp, rule reads_bind_Nil [OF reads_go], simp add: getUint32_put_only,
        rule reads_bind_Nil [OF reads_go], simp add: getUint32_put_only,
        rule reads_bind [OF reads_string'], use assms in \<open>simp add: list_ok_def\<close>, rule reads_last [OF flags]) (rule reads_return_eq, simp)
qed

definition put_cycle :: "CycleStart \<Rightarrow> byte list" where
  "put_cycle c =
     (put32 (cs_CycleID c) @ put32 (cs_ListID c) @ put32 (cs_CCycleID c) @ put32 (cs_StartTime c))
       @ put8 3 @ put16 (cs_PLength c) @ put32 (cs_StopTime c) @ put_string (cs_Hostname c)"

definition cycle_ok :: "CycleStart \<Rightarrow> bool" where
  "cycle_ok c \<longleftrightarrow> 0 \<notin> set (cs_Hostname c)"

lemma reads_cycle:
  assumes "cycle_ok c"
  shows "reads readCycle (put_cycle c) c"
proof -
  have isset: "isset 3 1" "isset 3 2" by (simp_all add: isset_def)
  let ?fl = "\<lparr>csf_Length = cs_PLength c, csf_StopTime = cs_StopTime c, csf_Hostname = cs_Hostname c\<rparr>"
  have host: "reads getString (put_string (cs_Hostname c)) (cs_Hostname c)"
    using assms by (intro reads_string') (simp add: cycle_ok_def)
  have flags: "reads readCycleStartFlags (put8 3 @ put16 (cs_PLength c) @ put32 (cs_StopTime c) @ put_string (cs_Hostname c)) ?fl"
    unfolding readCycleStartFlags_def put8_def
    by (rule reads_exactly_bind, simp, simp, rule reads_bind_Nil [OF reads_go [of _ 3]], simp add: go_index_def,
        simp add: isset Let_def, rule reads_bind [OF reads_uint16], rule reads_bind [OF reads_uint32],
        rule reads_map' [OF host])
       (simp add: zero_CycleStartFlags_def)
  have drops: "take 4 (drop 8 (put32 a @ put32 b @ put32 c @ put32 d)) = put32 c"
    "drop 12 (put32 a @ put32 b @ put32 c @ put32 d) = put32 d" for a b c d
    by (simp_all add: put32_def)
  show ?thesis
    unfolding readCycle_def put_cycle_def
    by (rule reads_exactly_bind, simp, simp, rule reads_bind_Nil [OF reads_go], simp add: getUint32_put_only,
        rule reads_bind_Nil [OF reads_go], simp add: getUint32_put_only,
        rule reads_bind_Nil [OF reads_go], simp only: drops getUint32_put_only,
        rule reads_bind_Nil [OF reads_go], simp only: drops getUint32_put_only,
        rule reads_last [OF flags]) (rule reads_return_eq, simp)
qed

definition put_cycle_stop :: "CycleStop \<Rightarrow> byte list" where
  "put_cycle_stop c = (put32 (cst_CycleID c) @ put32 (cst_StopTime c)) @ [0]"

lemma reads_cycle_stop: "reads readCycleStop (put_cycle_stop c) c"
proof -
  have "reads readCycleStopFlags [0] ()"
    unfolding readCycleStopFlags_def by (rule reads_map' [OF reads_exactly]) simp_all
  then show ?thesis
    unfolding readCycleStop_def put_cycle_stop_def
    by (intro reads_exactly_bind reads_bind_Nil [OF reads_go] reads_last [of readCycleStopFlags] reads_return_eq)
       (simp_all add: getUint32_put_only, cases c, simp)
qed

section \<open>Objects one behind the other\<close>

text \<open>The length in the header is not used by the reader.\<close>

datatype written =
    WTrace written_trace
  | WLst WList
  | WCycle CycleStart
  | WStop CycleStop

definition put_header :: "uint16 \<Rightarrow> uint32 \<Rightarrow> byte list" where
  "put_header t len = put16 0x1205 @ put16 t @ put32 len"

fun put_object :: "uint32 \<Rightarrow> written \<Rightarrow> byte list" where
  "put_object len (WTrace t) = put_header 6 len @ put_trace t"
| "put_object len (WLst l) = put_header 1 len @ put_list l"
| "put_object len (WCycle c) = put_header 2 len @ put_cycle c"
| "put_object len (WStop c) = put_header 4 len @ put_cycle_stop c"

fun object_ok :: "written \<Rightarrow> bool" where
  "object_ok (WTrace t) = trace_ok t"
| "object_ok (WLst l) = list_ok l"
| "object_ok (WCycle c) = cycle_ok c"
| "object_ok (WStop c) = True"

fun object_value :: "written \<Rightarrow> warts_object" where
  "object_value (WTrace t) = OTraceroute (trace_value t)"
| "object_value (WLst l) = OList l"
| "object_value (WCycle c) = OCycleStart c"
| "object_value (WStop c) = OCycleStop c"

lemma reads_header: "reads readHeader (put_header t len) \<lparr>h_Magic = 0x1205, h_Type = ucast t, h_Length = len\<rparr>"
proof -
  have parts: "getUint16 (put_header t len) = Inr 0x1205" "getUint16 (drop 2 (put_header t len)) = Inr t"
    "getUint32 (drop 4 (put_header t len)) = Inr len"
    by (simp_all add: put_header_def put16_def put32_def getUint16_eq getUint32_eq bytes_of_16 bytes_of_32)
  have "reads readHeader (put_header t len @ []) \<lparr>h_Magic = 0x1205, h_Type = ucast t, h_Length = len\<rparr>"
    unfolding readHeader_def
    by (rule reads_exactly_bind, simp add: put_header_def put16_def, simp,
        rule reads_bind_Nil [OF reads_go, OF parts(1)], simp,
        rule reads_bind_Nil [OF reads_go, OF parts(2)], rule reads_last [OF reads_go, OF parts(3)], simp)
  then show ?thesis by simp
qed

lemma reads_object: "object_ok w \<Longrightarrow> reads parseNext (put_object len w) (object_value w)"
proof -
  assume ok: "object_ok w"
  have nxt: "reads parseNext (put_header t len @ bs) obj"
    if "\<And>head. h_Type head = ucast t \<Longrightarrow> reads (if h_Type head = 0x01 then rd_map OList readList
     else if h_Type head = 0x03 \<or> h_Type head = 0x02 then rd_map OCycleStart readCycle
     else if h_Type head = 0x04 then rd_map OCycleStop readCycleStop
     else if h_Type head = 0x06 then rd_map OTraceroute readTraceroute
     else if h_Type head = 0x07 then rd_map OPing readPing
     else rd_return (OHeader head)) bs obj" for t bs obj
    unfolding parseNext_def by (rule reads_bind [OF reads_header]) (rule that, simp)
  show ?thesis
    using ok by (cases w) (auto intro!: nxt reads_map reads_trace reads_list reads_cycle reads_cycle_stop)
qed

lemma Parse_loop_reads:
  "list_all2 (reads parseNext) bss objs \<Longrightarrow> rs_buf s = concat bss \<Longrightarrow>
    Parse_loop types ret s = Inr (Inr (ret @ filter (\<lambda>obj. getWartsT obj \<in> types) objs))"
proof (induction bss objs arbitrary: s ret rule: list_all2_induct)
  case Nil
  then show ?case by (simp add: Parse_loop_empty)
next
  case (Cons bs bss obj objs)
  from readsD [OF Cons(1), of s "concat bss"] Cons.prems obtain s' where
    s': "parseNext s = (Inr obj, s')" "rs_buf s' = concat bss" by auto
  show ?case unfolding Parse_loop_step [OF s'(1)] Cons.IH [OF s'(2)] by simp
qed

section \<open>Properties\<close>

text \<open>
  C13. Parsing the binary form of any sequence of traceroutes, lists and cycles gives back those of the
  types asked for, in order and with every field that was written.
\<close>

theorem warts_roundtrip:
  assumes "list_all object_ok ws"
  shows "Parse (concat (map (put_object len) ws)) types =
    Inr (Inr (filter (\<lambda>obj. getWartsT obj \<in> set types) (map object_value ws)))"
proof -
  have "list_all2 (reads parseNext) (map (put_object len) ws) (map object_value ws)"
    using assms by (auto simp: list_all2_conv_all_nth list_all_length reads_object)
  from Parse_loop_reads [OF this] show ?thesis by (simp add: Parse_def)
qed

text \<open>One hop and the address of the source, with only these flags set.\<close>

definition ex_hop :: "WTracerouteHop flagged" where
  "ex_hop = \<lparr>wr_mask = [0x82, 0x80, 0x08], wr_length = 7,
     wr_value = zero_WTracerouteHop\<lparr>th_ProbeTTL := 3, th_Address := \<lparr>a_Type = 1, a_Address = 0x0A000001\<rparr>\<rparr>\<rparr>"

definition ex_written :: written_trace where
  "ex_written = \<lparr>wtr_flags = \<lparr>wr_mask = [0x80, 0x80, 0x80, 0x10], wr_length = 6,
       wr_value = zero_TracerouteFlags\<lparr>tf_Src := \<lparr>a_Type = 1, a_Address = 0x0A000002\<rparr>\<rparr>\<rparr>,
     wtr_hops = [ex_hop], wtr_end = 0\<rparr>"

lemma ex_written_ok: "trace_ok ex_written"
  by (simp add: trace_ok_def ex_written_def ex_hop_def trace_flags_ok_def hop_ok_def set_flags_def flags_of_def isset_def
      coded_trace_field_def coded_hop_field_def valid_trace_fields_def valid_hop_fields_def ipv4_def timeval32_def
      rtt32_def convertTimeval_def zero_TracerouteFlags_def zero_WTracerouteHop_def zero_Timeval_def zero_Address_def
      copy_trace_field_def copy_hop_field_def)

theorem warts_roundtrip_witness:
  "Parse (concat (map (put_object 9) [WTrace ex_written, WStop \<lparr>cst_CycleID = 1, cst_StopTime = 2\<rparr>])) [6] =
    Inr (Inr [OTraceroute (trace_value ex_written)])"
  using warts_roundtrip [of "[WTrace ex_written, WStop \<lparr>cst_CycleID = 1, cst_StopTime = 2\<rparr>]" 9 "[6]"] ex_written_ok
  by (simp add: getWartsT_def)

text \<open>The address table: the addresses written out so far, by position.\<close>

lemma address_step:
  "ipv4 a \<Longrightarrow> rs_buf s = put_address a @ rest \<Longrightarrow>
    readAddress s = (Inr a, s\<lparr>rs_buf := rest, rs_id := rs_id s + 1, rs_addrs := (rs_addrs s)(rs_id s \<mapsto> a)\<rparr>)"
proof -
  assume "ipv4 a" and s: "rs_buf s = put_address a @ rest"
  then have a: "\<lparr>a_Type = a_Type a, a_Address = sliceToUint64 (put32 (ucast (a_Address a)))\<rparr> = a"
    by (simp add: sliceToUint64_put32 ipv4_def)
  have r8: "readUint8 t = (Inr x, t\<lparr>rs_buf := xs\<rparr>)" if "rs_buf t = x # xs" for t x xs
    using that by (simp add: readUint8_def rd_bind_def read_exactly_def Buffer_Read_def rd_go_def getUint8_eq)
  have rb: "readBytes 4 t = (Inr (put32 x), t\<lparr>rs_buf := xs\<rparr>)" if "rs_buf t = put32 x @ xs" for t x xs
    using that by (simp add: readBytes_def read_exactly_def Buffer_Read_def put32_def)
  show ?thesis
    using s by (simp add: readAddress_def put_address_def rd_bind_def r8 rb Let_def a AddressRefs_Add_def rd_return_def)
qed

lemma address_table:
  "list_all ipv4 as \<Longrightarrow> rs_buf s = concat (map put_address as) @ rest \<Longrightarrow> unat (rs_id s) + length as \<le> 2 ^ 32 \<Longrightarrow>
    \<exists>s'. rd_times (length as) readAddress s = (Inr as, s') \<and> rs_buf s' = rest \<and>
      (\<forall>k < unat (rs_id s). rs_addrs s' (word_of_nat k) = rs_addrs s (word_of_nat k)) \<and>
      (\<forall>i < length as. rs_addrs s' (word_of_nat (unat (rs_id s) + i)) = Some (as ! i))"
proof (induction as arbitrary: s)
  case Nil
  then show ?case by (simp add: rd_return_def)
next
  case (Cons a as)
  let ?s1 = "s\<lparr>rs_buf := concat (map put_address as) @ rest, rs_id := rs_id s + 1, rs_addrs := (rs_addrs s)(rs_id s \<mapsto> a)\<rparr>"
  have step: "readAddress s = (Inr a, ?s1)" using Cons.prems by (intro address_step) simp_all
  show ?case
  proof (cases as)
    case Nil
    have "word_of_nat k \<noteq> rs_id s" if "k < unat (rs_id s)" for k
      using that unsigned_less [of "rs_id s"] by (metis le_unat_uoi less_imp_le_nat less_irrefl_nat)
    then show ?thesis using Nil step by (simp add: rd_bind_def rd_map_def rd_return_def)
  next
    case (Cons b bs)
    then have "unat (rs_id s) + 1 < 2 ^ 32" using Cons.prems(3) by simp
    then have id1: "unat (rs_id s + 1) = unat (rs_id s) + 1" by (simp add: unat_word_ariths)
    have "rs_buf ?s1 = concat (map put_address as) @ rest" by simp
    with Cons.IH [of ?s1] Cons.prems id1 obtain s' where s':
      "rd_times (length as) readAddress ?s1 = (Inr as, s')" "rs_buf s' = rest"
      "\<forall>k < unat (rs_id s) + 1. rs_addrs s' (word_of_nat k) = rs_addrs ?s1 (word_of_nat k)"
      "\<forall>i < length as. rs_addrs s' (word_of_nat (unat (rs_id s) + 1 + i)) = Some (as ! i)" by auto
    have "rs_addrs s' (word_of_nat k) = rs_addrs s (word_of_nat k)" if "k < unat (rs_id s)" for k
    proof -
      have "word_of_nat k \<noteq> rs_id s"
        using that unsigned_less [of "rs_id s"] by (metis le_unat_uoi less_imp_le_nat less_irrefl_nat)
      then show ?thesis using s'(3) that by simp
    qed
    moreover have "rs_addrs s' (word_of_nat (unat (rs_id s) + i)) = Some ((a # as) ! i)" if "i < length (a # as)" for i
    proof (cases i)
      case 0
      then show ?thesis using s'(3) [rule_format, of "unat (rs_id s)"] by simp
    next
      case (Suc j)
      then show ?thesis using s'(4) that by simp
    qed
    ultimately show ?thesis using step s'(1,2) by (auto simp: rd_bind_def rd_map_def rd_return_def)
  qed
qed

text \<open>
  Address references: after \<open>n\<close> addresses were read in an object, the reference \<open>k < n\<close> stands for
  the address that was read as number \<open>k\<close>.
\<close>

lemma address_reference:
  assumes "list_all ipv4 as" and "k < length as" and "length as \<le> 2 ^ 32"
  shows "reads (rd_bind NewAddressRefs (\<lambda>_. rd_bind (rd_times (length as) readAddress) (\<lambda>_. readReferencedAddress)))
    (concat (map put_address as) @ put32 (word_of_nat k)) (as ! k)"
  unfolding reads_def
proof (intro allI impI)
  fix s :: rstate and rest
  assume "rs_buf s = (concat (map put_address as) @ put32 (word_of_nat k)) @ rest"
  then obtain s1 where s1: "rd_times (length as) readAddress (s\<lparr>rs_id := 0, rs_addrs := Map.empty\<rparr>) = (Inr as, s1)"
    "rs_buf s1 = put32 (word_of_nat k) @ rest" "rs_addrs s1 (word_of_nat k) = Some (as ! k)"
    using address_table [of as "s\<lparr>rs_id := 0, rs_addrs := Map.empty\<rparr>" "put32 (word_of_nat k) @ rest"] assms by auto
  have "readUint32 s1 = (Inr (word_of_nat k), s1\<lparr>rs_buf := rest\<rparr>)"
    using s1(2) getUint32_put_only [of "word_of_nat k"]
    by (simp add: readUint32_def rd_bind_def read_exactly_def Buffer_Read_def rd_go_def put32_def)
  then show "\<exists>s'. rd_bind NewAddressRefs (\<lambda>_. rd_bind (rd_times (length as) readAddress) (\<lambda>_. readReferencedAddress)) s =
      (Inr (as ! k), s') \<and> rs_buf s' = rest"
    using s1 by (simp add: rd_bind_def NewAddressRefs_def readReferencedAddress_def AddressRefs_Get_def)
qed

text \<open>
  The addresses of a time stamp request come back twice as long: the slice starts with as many
  zero addresses as there are addresses, although nothing was written for them.
\<close>

lemma ping_timestamp_addresses_doubled:
  assumes "list_all ipv4 as" and "length as < 256"
  shows "reads (ping_flag 24 pf) (put8 (word_of_nat (length as)) @ concat (map put_address as))
    (pf\<lparr>pf_TS := replicate (length as) zero_Address @ as\<rparr>)"
proof -
  have n: "unat (word_of_nat (length as) :: uint8) = length as"
    using assms(2) by (simp add: unat_of_nat take_bit_nat_eq_self)
  have "list_all2 (reads readAddress) (map put_address as) as"
    using assms(1) by (auto simp: list_all2_conv_all_nth list_all_length reads_address)
  from reads_map [OF reads_times [OF this]]
  have "reads (rd_map (\<lambda>as'. replicate (length as) zero_Address @ as') (rd_times (length as) readAddress))
      (concat (map put_address as)) (replicate (length as) zero_Address @ as)" .
  then have "reads readTSAddrs (put8 (word_of_nat (length as)) @ concat (map put_address as))
      (replicate (length as) zero_Address @ as)"
    unfolding readTSAddrs_def by (intro reads_bind [OF reads_uint8]) (simp only: n)
  then show ?thesis by (simp add: ping_flag_def reads_map')
qed

lemma unat_byte_of_nat: "m < 256 \<Longrightarrow> unat (word_of_nat m :: uint8) = m"
  by (simp add: unat_of_nat take_bit_nat_eq_self)

lemma isset_bit: "i < 8 \<Longrightarrow> isset v (word_of_nat (Suc i)) \<longleftrightarrow> bit v i"
proof -
  assume "i < 8"
  then have "unat (word_of_nat (Suc i) - 1 :: uint8) = i" by (simp add: unat_of_nat take_bit_nat_eq_self)
  then have "isset v (word_of_nat (Suc i)) \<longleftrightarrow> v AND push_bit i 1 \<noteq> 0" by (simp add: isset_def)
  also have "\<dots> \<longleftrightarrow> bit v i" by (simp add: push_bit_of_1 and_exp_eq_0_iff_not_bit)
  finally show ?thesis .
qed

definition bit_flags :: "nat \<Rightarrow> byte \<Rightarrow> nat list" where
  "bit_flags n m = map (\<lambda>i. 7 * n + i + 1) (filter (bit m) [0..<7])"

lemma flags_of_bits: "n < 36 \<Longrightarrow> map unat (flags_of m (word_of_nat (Suc n))) = bit_flags n m"
proof -
  assume n: "n < 36"
  have l: "[1, 2, 3, 4, 5, 6, 7] = map (\<lambda>i. word_of_nat (Suc i) :: uint8) [0..<7]" by (simp add: upt_rec)
  have f: "unat (word_of_nat (Suc i) + 7 * (word_of_nat (Suc n) - 1) :: uint8) = 7 * n + i + 1" if "i < 7" for i
  proof -
    have "word_of_nat (Suc i) + 7 * (word_of_nat (Suc n) - 1) = (word_of_nat (7 * n + i + 1) :: uint8)" by simp
    moreover have "unat (word_of_nat (7 * n + i + 1) :: uint8) = 7 * n + i + 1"
      by (rule unat_byte_of_nat) (use that n in simp)
    ultimately show ?thesis by (simp only:)
  qed
  have flt: "filter (isset m \<circ> (\<lambda>i. word_of_nat (Suc i))) [0..<7] = filter (bit m) [0..<7]"
    by (rule filter_cong) (simp_all add: isset_bit del: of_nat_Suc)
  show ?thesis
    unfolding flags_of_def l bit_flags_def filter_map flt map_map
    by (rule map_cong) (use f in \<open>auto simp del: of_nat_Suc\<close>)
qed

text \<open>
  Flags are the bits of the flag bytes: \<open>getFlags\<close> reads all flag bytes and returns, in ascending order,
  flag \<open>7 n + i + 1\<close> for each bit \<open>i < 7\<close> that is set in byte \<open>n\<close> (up to the 36 bytes flag numbers of 8 bits
  can tell apart).
\<close>

lemma flags_are_bits:
  assumes "mask_ok (m # ms)" and "length ms < 36"
  shows "\<exists>fs. reads (getFlags m) ms fs \<and>
    map unat fs = concat (map (\<lambda>n. bit_flags n ((m # ms) ! n)) [0..<Suc (length ms)])"
proof -
  have "map unat (mask_flags (word_of_nat (Suc k)) bs) = concat (map (\<lambda>n. bit_flags (k + n) (bs ! n)) [0..<length bs])"
    if "k + length bs \<le> 36" for k bs
    using that
  proof (induction bs arbitrary: k)
    case (Cons b bs)
    have "word_of_nat (Suc k) + 1 = (word_of_nat (Suc (Suc k)) :: uint8)" by simp
    moreover have "[0..<length (b # bs)] = 0 # map Suc [0..<length bs]" by (simp add: map_Suc_upt upt_conv_Cons del: upt_Suc)
    ultimately show ?case
      using Cons.IH [of "Suc k"] Cons.prems flags_of_bits [of k b] by (simp add: comp_def del: of_nat_Suc upt_Suc)
  qed simp
  from this [of 0 "m # ms"] assms have
    "map unat (mask_flags 1 (m # ms)) = concat (map (\<lambda>n. bit_flags n ((m # ms) ! n)) [0..<Suc (length ms)])" by simp
  with reads_getFlags [OF assms(1)] show ?thesis by blast
qed

end
