(* ===== verification/DataModel.thy ===== *)
theory DataModel
  imports WartsRoundtrip
begin

text \<open>
  \<open>datamodel/convert_ping.go\<close>, \<open>convert_traceroute.go\<close>: from the objects of the reader to the messages the
  services exchange. Results are indexed by the number of replies or hops the object announces, and
  names are looked up by number, so objects that are not consistent make the conversion panic.
\<close>

section \<open>Pings\<close>

record DMTime =
  t_Sec :: int64
  t_Usec :: int64

record DMTsAndAddr =
  tsa_Ip :: uint32
  tsa_Ts :: uint32

record DMPingResponse =
  dr_From :: uint32
  dr_Seq :: uint32
  dr_ReplySize :: uint32
  dr_ReplyTtl :: uint32
  dr_ReplyProto :: string
  dr_Tx :: DMTime
  dr_Rx :: DMTime
  dr_Rtt :: uint32
  dr_ProbeIpid :: uint32
  dr_ReplyIpid :: uint32
  dr_IcmpType :: uint32
  dr_IcmpCode :: uint32
  dr_Tsonly :: "uint32 list"
  dr_Tsandaddr :: "DMTsAndAddr list"
  dr_RR :: "uint32 list"

record DMPing =
  dp_Src :: uint32
  dp_Dst :: uint32
  dp_Type :: string
  dp_Method :: string
  dp_Start :: DMTime
  dp_PingSent :: uint32
  dp_ProbeSize :: uint32
  dp_UserId :: uint32
  dp_Ttl :: uint32
  dp_Wait :: uint32
  dp_Timeout :: uint32
  dp_Flags :: "string list"
  dp_Responses :: "DMPingResponse option list"
  dp_Statistics :: "PingStats option"

fun ts_and_addrs :: "Address list \<Rightarrow> nat \<Rightarrow> uint32 list \<Rightarrow> DMTsAndAddr list go" where
  "ts_and_addrs as i [] = Inr []"
| "ts_and_addrs as i (ts # tss) =
     go_bind (go_index as (int i)) (\<lambda>a.
     go_bind (ts_and_addrs as (i + 1) tss) (\<lambda>rest.
       Inr (\<lparr>tsa_Ip = ucast (a_Address a), tsa_Ts = ts\<rparr> # rest)))"

definition convert_reply :: "WPing \<Rightarrow> PingReplyFlags \<Rightarrow> DMPingResponse go" where
  "convert_reply p resp =
     go_bind (if IsTsOnly p then Inr []
              else if IsTsAndAddr p then ts_and_addrs (ts_Addrs (pr_V4TS resp)) 0 (ts_TimeStamps (pr_V4TS resp))
              else Inr []) (\<lambda>tsandaddr.
     Inr \<lparr>dr_From = ucast (a_Address (pr_Addr resp)),
          dr_Seq = ucast (pr_ProbeID resp),
          dr_ReplySize = ucast (pr_ReplySize resp),
          dr_ReplyTtl = ucast (pr_ReplyTTL resp),
          dr_ReplyProto = RProto_String (pr_ReplyProto resp),
          dr_Tx = \<lparr>t_Sec = tv_Sec (pr_Tx resp), t_Usec = tv_Usec (pr_Tx resp)\<rparr>,
          dr_Rx = \<lparr>t_Sec = tv_Sec (pr_Tx resp) + tv_Sec (pr_RTT resp), t_Usec = tv_Usec (pr_Tx resp) + tv_Usec (pr_RTT resp)\<rparr>,
          dr_Rtt = ucast (tv_Sec (pr_RTT resp) * 1000000 + tv_Usec (pr_RTT resp)),
          dr_ProbeIpid = ucast (pr_ProbeIPID resp),
          dr_ReplyIpid = ucast (pr_ReplyIPID resp),
          dr_IcmpType = ucast (drop_bit 8 (pr_ICMP resp AND 0xFF00)),
          dr_IcmpCode = ucast (pr_ICMP resp AND 0x00FF),
          dr_Tsonly = (if IsTsOnly p then ts_TimeStamps (pr_V4TS resp) else []),
          dr_Tsandaddr = tsandaddr,
          dr_RR = map (\<lambda>a. ucast (a_Address a)) (pr_V4RR resp)\<rparr>)"

text \<open>\<open>replies[i] = rep\<close>: the slice has \<open>ReplyCount\<close> entries, nil at first.\<close>

fun convert_replies :: "WPing \<Rightarrow> nat \<Rightarrow> PingReplyFlags list \<Rightarrow> DMPingResponse option list \<Rightarrow> DMPingResponse option list go" where
  "convert_replies p i [] replies = Inr replies"
| "convert_replies p i (resp # resps) replies =
     go_bind (convert_reply p resp) (\<lambda>rep.
     if i < length replies then convert_replies p (i + 1) resps (replies[i := Some rep])
     else Inl IndexOutOfRange)"

definition ConvertPing :: "WPing \<Rightarrow> DMPing go" where
  "ConvertPing p =
     (let fl = wp_Flags p in
      go_bind (PingMethod_String (pf_PingMethod fl)) (\<lambda>method.
      go_bind (convert_replies p 0 (wp_PingReplies p) (replicate (unat (wp_ReplyCount p)) None)) (\<lambda>replies.
      Inr \<lparr>dp_Src = ucast (a_Address (pf_Src fl)),
           dp_Dst = ucast (a_Address (pf_Dst fl)),
           dp_Type = wp_Type p,
           dp_Method = method,
           dp_Start = \<lparr>t_Sec = tv_Sec (pf_StartTime fl), t_Usec = tv_Usec (pf_StartTime fl)\<rparr>,
           dp_PingSent = ucast (pf_ProbeCount fl),
           dp_ProbeSize = ucast (pf_ProbeSize fl),
           dp_UserId = pf_UserID fl,
           dp_Ttl = ucast (pf_ProbeTTL fl),
           dp_Wait = ucast (pf_ProbeWaitS fl),
           dp_Timeout = ucast (pf_ProbeTimeout fl),
           dp_Flags = PingFlag_Strings (pf_PF fl)
             @ (if \<not> IsTsOnly p \<and> IsTsAndAddr p then replicate (length (wp_PingReplies p)) ''tsandaddr'' else []),
           dp_Responses = replies,
           dp_Statistics = Some (GetStats p)\<rparr>)))"

section \<open>Traceroutes\<close>

record DMHop =
  dh_Addr :: uint32
  dh_ProbeTtl :: uint32
  dh_ProbeId :: uint32
  dh_ProbeSize :: uint32
  dh_Rtt :: DMTime
  dh_ReplyTtl :: uint32
  dh_ReplyTos :: uint32
  dh_ReplySize :: uint32
  dh_ReplyIpid :: uint32
  dh_IcmpType :: uint32
  dh_IcmpCode :: uint32
  dh_IcmpQTtl :: uint32
  dh_IcmpQIpl :: uint32
  dh_IcmpQTos :: uint32

record DMTraceroute =
  dt_Type :: string
  dt_UserId :: uint32
  dt_Src :: uint32
  dt_Dst :: uint32
  dt_Method :: string
  dt_Sport :: uint32
  dt_Dport :: uint32
  dt_StopReason :: string
  dt_StopData :: uint32
  dt_Start :: DMTime
  dt_Ftime :: string
  dt_HopCount :: uint32
  dt_Attempts :: uint32
  dt_Hoplimit :: uint32
  dt_Firsthop :: uint32
  dt_Wait :: uint32
  dt_WaitProbe :: uint32
  dt_Tos :: uint32
  dt_ProbeSize :: uint32
  dt_Hops :: "DMHop option list"
  dt_GapLimit :: uint32

definition convert_hop :: "WTracerouteHop \<Rightarrow> DMHop" where
  "convert_hop hop =
     \<lparr>dh_Addr = ucast (a_Address (th_Address hop)),
      dh_ProbeTtl = ucast (th_ProbeTTL hop),
      dh_ProbeId = ucast (th_ProbeID hop),
      dh_ProbeSize = ucast (th_ProbeSize hop),
      dh_Rtt = \<lparr>t_Sec = tv_Sec (th_RTT hop), t_Usec = tv_Usec (th_RTT hop)\<rparr>,
      dh_ReplyTtl = ucast (th_ReplyTTL hop),
      dh_ReplyTos = ucast (th_ToS hop),
      dh_ReplySize = ucast (th_ReplySize hop),
      dh_ReplyIpid = ucast (th_IPID hop),
      dh_IcmpType = ucast (drop_bit 8 (th_ICMPTypeCode hop AND 0xFF00)),
      dh_IcmpCode = ucast (th_ICMPTypeCode hop AND 0x00FF),
      dh_IcmpQTtl = ucast (th_QuotedTTL hop),
      dh_IcmpQIpl = ucast (th_QuotedIPLength hop),
      dh_IcmpQTos = ucast (th_QuotesToS hop)\<rparr>"

fun convert_hops :: "nat \<Rightarrow> WTracerouteHop list \<Rightarrow> DMHop option list \<Rightarrow> DMHop option list go" where
  "convert_hops i [] retHops = Inr retHops"
| "convert_hops i (hop # hops) retHops =
     (if i < length retHops then convert_hops (i + 1) hops (retHops[i := Some (convert_hop hop)])
      else Inl IndexOutOfRange)"

definition convertHops :: "WTraceroute \<Rightarrow> DMHop option list go" where
  "convertHops t = convert_hops 0 (wt_Hops t) (replicate (unat (wt_HopCount t)) None)"

text \<open>The formatted start time comes from package time: \<open>ftime\<close> stands for its formatting.\<close>

definition ConvertTraceroute :: "(int64 \<Rightarrow> int64 \<Rightarrow> string) \<Rightarrow> WTraceroute \<Rightarrow> DMTraceroute go" where
  "ConvertTraceroute ftime t =
     (let fl = wt_Flags t; sec = tv_Sec (tf_StartTime fl); usec = tv_Usec (tf_StartTime fl) in
      go_bind (TraceType_String (tf_TraceType fl)) (\<lambda>method.
      go_bind (StopReason_String (tf_StopReason fl)) (\<lambda>reason.
      go_bind (convertHops t) (\<lambda>hops.
      Inr \<lparr>dt_Type = ''trace'', dt_UserId = tf_UserID fl,
           dt_Src = ucast (a_Address (tf_Src fl)), dt_Dst = ucast (a_Address (tf_Dst fl)),
           dt_Method = method, dt_Sport = ucast (tf_SourcePort fl), dt_Dport = ucast (tf_DestPort fl),
           dt_StopReason = reason, dt_StopData = ucast (tf_StopData fl),
           dt_Start = \<lparr>t_Sec = sec, t_Usec = usec\<rparr>, dt_Ftime = ftime sec (usec * 1000),
           dt_HopCount = ucast (wt_HopCount t), dt_Attempts = ucast (tf_Attempts fl),
           dt_Hoplimit = ucast (tf_HopLimit fl), dt_Firsthop = ucast (tf_StartTTL fl),
           dt_Wait = ucast (tf_TimeoutS fl), dt_WaitProbe = ucast (tf_MinWaitCenti fl),
           dt_Tos = ucast (tf_IPToS fl), dt_ProbeSize = ucast (tf_ProbeSize fl),
           dt_Hops = hops, dt_GapLimit = ucast (tf_GapLimit fl)\<rparr>))))"

section \<open>Conversions of what the reader returns\<close>

lemma convert_hops_total:
  "length done + length hops \<le> n \<Longrightarrow>
    convert_hops (length done) hops (done @ replicate (n - length done) None) =
      Inr (done @ map (Some \<circ> convert_hop) hops @ replicate (n - length done - length hops) None)"
proof (induction hops arbitrary: "done")
  case (Cons h hs)
  then obtain k where k: "n - length done = Suc k" by (cases "n - length done") auto
  then have "(done @ replicate (n - length done) None)[length done := Some (convert_hop h)] =
      (done @ [Some (convert_hop h)]) @ replicate (n - length (done @ [Some (convert_hop h)])) None" by simp
  moreover have "length (done @ [Some (convert_hop h)]) + length hs \<le> n" using Cons.prems by simp
  ultimately show ?case using Cons.IH [of "done @ [Some (convert_hop h)]"] Cons.prems by simp
qed simp

lemma rd_times_length: "rd_times n m s = (Inr xs, s') \<Longrightarrow> length xs = n"
  by (induction n arbitrary: s xs)
     (auto simp: rd_return_def rd_bind_def rd_map_def split: prod.splits sum.splits)

lemma rd_bind_Inr: "rd_bind m f s = (Inr y, s') \<longleftrightarrow> (\<exists>x s1. m s = (Inr x, s1) \<and> f x s1 = (Inr y, s'))"
  by (auto simp: rd_bind_def split: prod.splits sum.splits)

lemma read_trace_hops: "readTraceroute s = (Inr t, s') \<Longrightarrow> length (wt_Hops t) = unat (wt_HopCount t)"
  by (auto simp: readTraceroute_def rd_bind_Inr rd_return_def readTracerouteHops_def dest: rd_times_length)

lemma read_ping_replies: "readPing s = (Inr p, s') \<Longrightarrow> length (wp_PingReplies p) = unat (wp_ReplyCount p)"
  by (auto simp: readPing_def rd_bind_Inr rd_return_def readPingReplies_def dest: rd_times_length)

lemma go_index_byte: "go_index xs (int (unat b)) = (if unat b < length xs then Inr (xs ! unat b) else Inl IndexOutOfRange)"
  unfolding go_index_def by (simp only: of_nat_less_iff of_nat_0_le_iff nat_int simp_thms)

lemma name_of_number:
  "TraceType_String b = (if b < 7 then Inr (projr (TraceType_String b)) else Inl IndexOutOfRange)"
  "StopReason_String b = (if b < 10 then Inr (projr (StopReason_String b)) else Inl IndexOutOfRange)"
  "PingMethod_String b = (if b < 7 then Inr (projr (PingMethod_String b)) else Inl IndexOutOfRange)"
  unfolding TraceType_String_def StopReason_String_def PingMethod_String_def go_index_byte word_less_nat_alt by simp_all

lemma ts_and_addrs_ends: "(\<exists>r. ts_and_addrs as i tss = Inr r) \<longleftrightarrow> i + length tss \<le> length as \<or> tss = []"
proof (induction tss arbitrary: i)
  case (Cons ts tss)
  show ?case
  proof (cases "i < length as")
    case True
    then have "(\<exists>r. ts_and_addrs as i (ts # tss) = Inr r) \<longleftrightarrow> (\<exists>r. ts_and_addrs as (i + 1) tss = Inr r)"
      by (auto simp: go_index_def go_bind_Inr_iff)
    then show ?thesis using True Cons.IH [of "i + 1"] by auto
  qed (simp add: go_index_def)
qed simp

text \<open>A reply converts unless time stamps with addresses were asked for and addresses are missing.\<close>

definition reply_ok :: "WPing \<Rightarrow> PingReplyFlags \<Rightarrow> bool" where
  "reply_ok p resp \<longleftrightarrow> IsTsOnly p \<or> \<not> IsTsAndAddr p \<or>
     length (ts_TimeStamps (pr_V4TS resp)) \<le> length (ts_Addrs (pr_V4TS resp))"

lemma convert_reply_ends: "(\<exists>r. convert_reply p resp = Inr r) \<longleftrightarrow> reply_ok p resp"
  using ts_and_addrs_ends [of "ts_Addrs (pr_V4TS resp)" 0 "ts_TimeStamps (pr_V4TS resp)"]
  by (auto simp: convert_reply_def reply_ok_def go_bind_Inr_iff)

lemma convert_replies_ends:
  "i + length resps \<le> length replies \<Longrightarrow>
    (\<exists>r. convert_replies p i resps replies = Inr r) \<longleftrightarrow> list_all (reply_ok p) resps"
proof (induction resps arbitrary: i replies)
  case (Cons resp resps)
  show ?case
  proof (cases "convert_reply p resp")
    case (Inl e)
    then show ?thesis using convert_reply_ends [of p resp] by simp
  next
    case (Inr rep)
    then show ?thesis using convert_reply_ends [of p resp] Cons.IH [of "i + 1" "replies[i := Some rep]"] Cons.prems
      by auto
  qed
qed simp

section \<open>Properties\<close>

text \<open>
  C14. A traceroute that was read converts exactly if its method and its stop reason have a name; the
  result then has one hop for each hop read, in order. Other numbers make the conversion panic.
\<close>

theorem convert_traceroute_outcome:
  assumes "readTraceroute s = (Inr t, s')"
  shows "(if tf_TraceType (wt_Flags t) < 7 \<and> tf_StopReason (wt_Flags t) < 10
     then \<exists>d. ConvertTraceroute ftime t = Inr d \<and> dt_Hops d = map (Some \<circ> convert_hop) (wt_Hops t)
     else ConvertTraceroute ftime t = Inl IndexOutOfRange)"
proof -
  have hops: "convertHops t = Inr (map (Some \<circ> convert_hop) (wt_Hops t))"
    using convert_hops_total [of "[]" "wt_Hops t" "unat (wt_HopCount t)"] read_trace_hops [OF assms]
    by (simp add: convertHops_def)
  show ?thesis
    unfolding ConvertTraceroute_def Let_def
    by (subst (1 2) name_of_number(1), subst (1 2) name_of_number(2)) (simp add: hops)
qed

text \<open>
  A ping that was read converts exactly if its method has a name and no reply lacks an address for a
  time stamp while the request asked for addresses; otherwise the conversion panics.
\<close>

lemma convert_ping_outcome:
  assumes "readPing s = (Inr p, s')"
  shows "(\<exists>d. ConvertPing p = Inr d) \<longleftrightarrow> pf_PingMethod (wp_Flags p) < 7 \<and> list_all (reply_ok p) (wp_PingReplies p)"
proof -
  have "(\<exists>r. convert_replies p 0 (wp_PingReplies p) (replicate (unat (wp_ReplyCount p)) None) = Inr r) \<longleftrightarrow>
      list_all (reply_ok p) (wp_PingReplies p)"
    using read_ping_replies [OF assms] by (intro convert_replies_ends) simp
  then show ?thesis
    unfolding ConvertPing_def Let_def go_bind_Inr_iff by (subst name_of_number(3)) auto
qed

theorem convert_traceroute_outcome_witness:
  "\<exists>d. ConvertTraceroute (\<lambda>_ _. []) (trace_value ex_written) = Inr d \<and>
    dt_Hops d = [Some (convert_hop (wr_value ex_hop))]"
proof -
  obtain s' where "readTraceroute \<lparr>rs_buf = put_trace ex_written, rs_id = 0, rs_addrs = Map.empty\<rparr> =
      (Inr (trace_value ex_written), s')"
    using readsD [OF reads_trace [OF ex_written_ok],
        of "\<lparr>rs_buf = put_trace ex_written, rs_id = 0, rs_addrs = Map.empty\<rparr>" "[]"] by auto
  from convert_traceroute_outcome [OF this, of "\<lambda>_ _. []"] show ?thesis
    by (simp add: trace_value_def ex_written_def zero_TracerouteFlags_def)
qed

definition ex_ping :: WPing where
  "ex_ping = \<lparr>wp_Flags = zero_PingFlags, wp_PLength = 0, wp_ReplyCount = 1,
     wp_PingReplies = [zero_PingReplyFlags], wp_Version = ''0.4'', wp_Type = ''ping''\<rparr>"

lemma ex_ping_read:
  "readPing \<lparr>rs_buf = [0, 0, 1, 0], rs_id = 0, rs_addrs = Map.empty\<rparr> = (Inr ex_ping, \<lparr>rs_buf = [], rs_id = 0, rs_addrs = Map.empty\<rparr>)"
  by (simp add: readPing_def rd_bind_def NewAddressRefs_def readPingFlags_def read_exactly_def Buffer_Read_def rd_go_def
      go_index_def getFlags_def getFlags_loop.simps flags_of_def isset_def skip_length_def rd_return_def rd_map_def
      readUint16_def getUint16_eq readPingReplies_def readPingReplyFlags_def readBytes_def ex_ping_def
      zero_PingFlags_def zero_PingReplyFlags_def)

section \<open>Statistics of a ping\<close>

definition tv_le :: "Timeval \<Rightarrow> Timeval \<Rightarrow> bool" where
  "tv_le a b \<longleftrightarrow> sint (tv_Sec a) < sint (tv_Sec b) \<or>
     (sint (tv_Sec a) = sint (tv_Sec b) \<and> sint (tv_Usec a) \<le> sint (tv_Usec b))"

lemma timevalComp_le: "timevalComp a b = 1 \<longleftrightarrow> \<not> tv_le a b" "timevalComp a b = -1 \<longleftrightarrow> \<not> tv_le b a"
  by (auto simp: timevalComp_def tv_le_def word_sless_alt)

lemma tv_le_trans: "tv_le a b \<Longrightarrow> tv_le b c \<Longrightarrow> tv_le a c"
  by (auto simp: tv_le_def)

lemma tv_le_total: "tv_le a b \<or> tv_le b a"
  by (auto simp: tv_le_def)

lemma stats_loop_extremes:
  assumes "stats_loop fl i reps mn mx sm dups = (mn', mx', sm', dups')" and "i > 0"
  shows "tv_le mn' mn \<and> tv_le mx mx' \<and> (\<forall>r \<in> set reps. tv_le mn' (pr_RTT r) \<and> tv_le (pr_RTT r) mx') \<and>
    mn' \<in> insert mn (pr_RTT ` set reps) \<and> mx' \<in> insert mx (pr_RTT ` set reps)"
  using assms
proof (induction reps arbitrary: i mn mx sm dups)
  case Nil
  then show ?case using tv_le_total by (metis Pair_inject empty_iff insertI1 list.set(1) stats_loop.simps(1))
next
  case (Cons r reps)
  let ?mn = "if timevalComp mn (pr_RTT r) = 1 then pr_RTT r else mn"
    and ?mx = "if timevalComp mx (pr_RTT r) = -1 then pr_RTT r else mx"
  obtain sm2 dups2 where "stats_loop fl (i + 1) reps ?mn ?mx sm2 dups2 = (mn', mx', sm', dups')"
    using Cons.prems by (auto simp: Let_def)
  from Cons.IH [OF this] have IH: "tv_le mn' ?mn" "tv_le ?mx mx'"
    "\<forall>r \<in> set reps. tv_le mn' (pr_RTT r) \<and> tv_le (pr_RTT r) mx'"
    "mn' \<in> insert ?mn (pr_RTT ` set reps)" "mx' \<in> insert ?mx (pr_RTT ` set reps)" by simp_all
  have "tv_le ?mn mn" "tv_le ?mn (pr_RTT r)" "tv_le mx ?mx" "tv_le (pr_RTT r) ?mx"
    using tv_le_total timevalComp_le by (auto split: if_split)
  with IH(1,2) have "tv_le mn' mn" "tv_le mn' (pr_RTT r)" "tv_le mx mx'" "tv_le (pr_RTT r) mx'"
    using tv_le_trans by blast+
  with IH(3-5) show ?case by (auto split: if_splits)
qed

text \<open>
  The extreme round trip times in the statistics of a ping are those of replies, and bound the
  round trip times of all replies.
\<close>

lemma ping_stats_extremes:
  assumes "wp_PingReplies p \<noteq> []"
  shows "ps_Min (GetStats p) \<in> pr_RTT ` set (wp_PingReplies p) \<and> ps_Max (GetStats p) \<in> pr_RTT ` set (wp_PingReplies p) \<and>
    list_all (\<lambda>r. tv_le (ps_Min (GetStats p)) (pr_RTT r) \<and> tv_le (pr_RTT r) (ps_Max (GetStats p))) (wp_PingReplies p)"
proof -
  obtain r reps where reps: "wp_PingReplies p = r # reps" using assms by (cases "wp_PingReplies p") auto
  have refl: "timevalComp t t = 0" for t by (simp add: timevalComp_def)
  obtain mn mx sm dups where l: "stats_loop (wp_Flags p) 0 (r # reps) zero_Timeval zero_Timeval 0 0 = (mn, mx, sm, dups)"
    by (metis surj_pair)
  then obtain sm2 dups2 where "stats_loop (wp_Flags p) 1 reps (pr_RTT r) (pr_RTT r) sm2 dups2 = (mn, mx, sm, dups)"
    by (auto simp: Let_def refl)
  from stats_loop_extremes [OF this]
  have "mn \<in> pr_RTT ` set (r # reps)" "mx \<in> pr_RTT ` set (r # reps)"
    "\<forall>x \<in> set (r # reps). tv_le mn (pr_RTT x) \<and> tv_le (pr_RTT x) mx" by auto
  moreover have "ps_Min (GetStats p) = mn" "ps_Max (GetStats p) = mx"
    unfolding GetStats_def reps l prod.case by simp_all
  ultimately show ?thesis unfolding reps list_all_iff by simp
qed

end
