(* ===== verification/ChannelMap.thy ===== *)
theory ChannelMap
  imports PbTypes "HOL-Library.AList"
begin

text \<open>
  \<open>controller/spoofmap.go\<close>: how the controller hands received spoofed probes to the requests that wait
  for them. A request adds its ids with a channel; a probe is sent on the channel of its id, and the
  channel is closed when as many probes came as ids were added. A request that gives up closes its
  kill channel; a goroutine then removes its ids. Every operation holds the lock of the map.
\<close>

section \<open>Operations\<close>

text \<open>
  A channel object lives in a heap and is named by its position; \<open>ch_cap\<close> is the capacity of the Go
  channel, which the controller makes as large as the number of ids, \<open>ch_sent\<close> what was sent on it.
\<close>

record channel =
  ch_count :: int
  ch_cap :: nat
  ch_sent :: "probe list"
  ch_closed :: bool
  ch_killed :: bool

definition newChannel :: "nat \<Rightarrow> int \<Rightarrow> channel" where
  "newChannel cap cnt = \<lparr>ch_count = cnt, ch_cap = cap, ch_sent = [], ch_closed = False, ch_killed = False\<rparr>"

record channel_map =
  cm_sm :: "(uint32 \<times> nat) list"
  cm_chans :: "channel list"
  cm_watch :: "(nat \<times> uint32 list) list"

text \<open>
  \<open>Send\<close>: the select takes either case if both are ready; \<open>gone\<close> is its choice. Sending on a closed
  channel panics, as does closing it twice.
\<close>

definition channel_Send :: "bool \<Rightarrow> probe \<Rightarrow> channel \<Rightarrow> channel go" where
  "channel_Send gone p c =
     (let c = c\<lparr>ch_count := ch_count c - 1\<rparr> in
      if ch_killed c \<and> gone then Inr c
      else if ch_closed c then Inl (PanicMsg ''send on closed channel'')
      else let c = c\<lparr>ch_sent := ch_sent c @ [p]\<rparr> in
           Inr (if ch_count c = 0 then c\<lparr>ch_closed := True\<rparr> else c))"

definition Add :: "uint32 list \<Rightarrow> channel_map \<Rightarrow> channel_map" where
  "Add ids m =
     (let ch = length (cm_chans m) in
      m\<lparr>cm_chans := cm_chans m @ [newChannel (length ids) (int (length ids))],
        cm_sm := fold (\<lambda>i sm. AList.update i ch sm) ids (cm_sm m),
        cm_watch := (ch, ids) # cm_watch m\<rparr>)"

definition Notify :: "bool \<Rightarrow> probe \<Rightarrow> channel_map \<Rightarrow> channel_map go" where
  "Notify gone p m =
     (case map_of (cm_sm m) (prb_ProbeId p) of
        Some c \<Rightarrow>
          go_bind (channel_Send gone p (cm_chans m ! c)) (\<lambda>ch.
          Inr (m\<lparr>cm_chans := (cm_chans m)[c := ch], cm_sm := AList.delete (prb_ProbeId p) (cm_sm m)\<rparr>))
      | None \<Rightarrow> Inr m)"

text \<open>The request of channel \<open>c\<close> gives up; later its goroutine removes the ids.\<close>

definition close_kill :: "nat \<Rightarrow> channel_map \<Rightarrow> channel_map" where
  "close_kill c m = m\<lparr>cm_chans := (cm_chans m)[c := (cm_chans m ! c)\<lparr>ch_killed := True\<rparr>]\<rparr>"

definition remove_killed :: "nat \<Rightarrow> uint32 list \<Rightarrow> channel_map \<Rightarrow> channel_map" where
  "remove_killed c ids m =
     m\<lparr>cm_sm := fold AList.delete ids (cm_sm m), cm_watch := remove1 (c, ids) (cm_watch m)\<rparr>"

section \<open>The map over time\<close>

inductive cm_step :: "channel_map \<Rightarrow> channel_map \<Rightarrow> bool" where
  add: "cm_step m (Add ids m)"
| notify: "Notify gone p m = Inr m' \<Longrightarrow> cm_step m m'"
| kill: "c < length (cm_chans m) \<Longrightarrow> cm_step m (close_kill c m)"
| clean: "(c, ids) \<in> set (cm_watch m) \<Longrightarrow> ch_killed (cm_chans m ! c) \<Longrightarrow> cm_step m (remove_killed c ids m)"

definition cm_init :: channel_map where
  "cm_init = \<lparr>cm_sm = [], cm_chans = [], cm_watch = []\<rparr>"

inductive cm_reachable :: "channel_map \<Rightarrow> bool" where
  start: "cm_reachable cm_init"
| step: "cm_reachable m \<Longrightarrow> cm_step m m' \<Longrightarrow> cm_reachable m'"

definition ids_of :: "nat \<Rightarrow> (uint32 \<times> nat) list \<Rightarrow> nat" where
  "ids_of c sm = length (filter (\<lambda>x. snd x = c) sm)"

definition channel_ok :: "nat \<Rightarrow> channel \<Rightarrow> bool" where
  "channel_ok n c \<longleftrightarrow>
     int n \<le> ch_count c \<and> ch_count c \<le> int (ch_cap c) \<and>
     int (length (ch_sent c)) \<le> int (ch_cap c) - ch_count c \<and>
     (\<not> ch_killed c \<longrightarrow> int (length (ch_sent c)) = int (ch_cap c) - ch_count c \<and>
        (ch_closed c \<longleftrightarrow> ch_count c = 0 \<and> 0 < ch_cap c)) \<and>
     (ch_closed c \<longrightarrow> ch_count c = 0)"

definition cm_inv :: "channel_map \<Rightarrow> bool" where
  "cm_inv m \<longleftrightarrow> distinct (map fst (cm_sm m)) \<and> (\<forall>x \<in> set (cm_sm m). snd x < length (cm_chans m)) \<and>
     (\<forall>c < length (cm_chans m). channel_ok (ids_of c (cm_sm m)) (cm_chans m ! c))"

lemma ids_of_delete: "ids_of c (AList.delete i sm) \<le> ids_of c sm"
  unfolding ids_of_def AList.delete_eq filter_filter
  by (induction sm) auto

lemma ids_of_delete_own:
  "map_of sm i = Some c \<Longrightarrow> ids_of c (AList.delete i sm) < ids_of c sm"
proof (induction sm)
  case (Cons x sm)
  show ?case
  proof (cases "fst x = i")
    case True
    then have "snd x = c" using Cons.prems by auto
    with True ids_of_delete [of c i sm] show ?thesis
      by (cases x) (simp add: ids_of_def AList.delete_eq)
  next
    case False
    then have "map_of sm i = Some c" using Cons.prems by (cases x) auto
    from Cons.IH [OF this] False show ?thesis by (auto simp: ids_of_def AList.delete_eq)
  qed
qed simp

lemma ids_of_update:
  "ids_of c (AList.update i d sm) \<le> ids_of c sm + (if c = d then 1 else 0)"
  by (induction sm) (auto simp: ids_of_def)

lemma channel_ok_mono: "channel_ok n c \<Longrightarrow> n' \<le> n \<Longrightarrow> channel_ok n' c"
  by (auto simp: channel_ok_def)

lemma channel_Send_ok:
  assumes "channel_ok n c" and "n' < n"
  shows "\<exists>c'. channel_Send gone p c = Inr c' \<and> channel_ok n' c' \<and> ch_cap c' = ch_cap c"
proof -
  have c: "0 < ch_count c" "\<not> ch_closed c" using assms by (auto simp: channel_ok_def)
  with assms show ?thesis by (auto simp: channel_Send_def Let_def channel_ok_def)
qed

lemma updates_spec:
  "distinct (map fst sm) \<Longrightarrow> \<forall>x \<in> set sm. snd x < n \<Longrightarrow>
    distinct (map fst (fold (\<lambda>i sm. AList.update i d sm) is sm)) \<and>
    (\<forall>x \<in> set (fold (\<lambda>i sm. AList.update i d sm) is sm). snd x < max n (Suc d)) \<and>
    (\<forall>c. ids_of c (fold (\<lambda>i sm. AList.update i d sm) is sm) \<le> ids_of c sm + (if c = d then length is else 0))"
proof (induction "is" arbitrary: sm n)
  case (Cons i "is")
  have "snd x < max n (Suc d)" if "x \<in> set (AList.update i d sm)" for x
    using that Cons.prems(2) by (induction sm) (auto split: if_splits)
  with Cons.IH [of "AList.update i d sm" "max n (Suc d)"] Cons.prems(1)
  have IH: "distinct (map fst (fold (\<lambda>i sm. AList.update i d sm) is (AList.update i d sm)))"
    "\<forall>x \<in> set (fold (\<lambda>i sm. AList.update i d sm) is (AList.update i d sm)). snd x < max n (Suc d)"
    "\<And>c. ids_of c (fold (\<lambda>i sm. AList.update i d sm) is (AList.update i d sm)) \<le>
       ids_of c (AList.update i d sm) + (if c = d then length is else 0)"
    by (auto simp: distinct_update)
  have "ids_of c (fold (\<lambda>i sm. AList.update i d sm) is (AList.update i d sm)) \<le>
      ids_of c sm + (if c = d then length (i # is) else 0)" for c
    using IH(3) [of c] ids_of_update [of c i d sm] by (auto split: if_splits)
  with IH(1,2) show ?case by simp
qed (auto simp: less_max_iff_disj)

lemma delete_set_subset: "set (AList.delete i sm) \<subseteq> set sm"
  by (auto simp: AList.delete_eq)

lemma deletes_spec:
  "distinct (map fst sm) \<Longrightarrow>
    distinct (map fst (fold AList.delete is sm)) \<and> set (fold AList.delete is sm) \<subseteq> set sm \<and>
    (\<forall>c. ids_of c (fold AList.delete is sm) \<le> ids_of c sm)"
proof (induction "is" arbitrary: sm)
  case (Cons i "is")
  have "distinct (map fst (AList.delete i sm))" "set (AList.delete i sm) \<subseteq> set sm"
    using Cons.prems distinct_delete delete_set_subset [of i sm] by simp_all
  then show ?case using Cons.IH [of "AList.delete i sm"] ids_of_delete [of _ i sm] by (auto intro: order_trans)
qed simp

lemma Notify_ok:
  assumes "cm_inv m"
  shows "\<exists>m'. Notify gone p m = Inr m' \<and> cm_inv m'"
proof (cases "map_of (cm_sm m) (prb_ProbeId p)")
  case None
  then show ?thesis using assms by (simp add: Notify_def)
next
  case (Some c)
  let ?sm = "AList.delete (prb_ProbeId p) (cm_sm m)"
  have c: "c < length (cm_chans m)" using assms map_of_SomeD [OF Some] by (force simp: cm_inv_def)
  then have "channel_ok (ids_of c (cm_sm m)) (cm_chans m ! c)" using assms by (simp add: cm_inv_def)
  from channel_Send_ok [OF this ids_of_delete_own [OF Some]] obtain ch where
    ch: "channel_Send gone p (cm_chans m ! c) = Inr ch" "channel_ok (ids_of c ?sm) ch" by blast
  have "cm_inv (m\<lparr>cm_chans := (cm_chans m)[c := ch], cm_sm := ?sm\<rparr>)"
    unfolding cm_inv_def
  proof (intro conjI allI impI)
    show "distinct (map fst (cm_sm (m\<lparr>cm_chans := (cm_chans m)[c := ch], cm_sm := ?sm\<rparr>)))"
      using assms by (simp add: cm_inv_def distinct_delete)
    show "\<forall>x \<in> set (cm_sm (m\<lparr>cm_chans := (cm_chans m)[c := ch], cm_sm := ?sm\<rparr>)).
        snd x < length (cm_chans (m\<lparr>cm_chans := (cm_chans m)[c := ch], cm_sm := ?sm\<rparr>))"
      using assms by (auto simp: cm_inv_def AList.delete_eq)
    fix d assume "d < length (cm_chans (m\<lparr>cm_chans := (cm_chans m)[c := ch], cm_sm := ?sm\<rparr>))"
    then show "channel_ok (ids_of d (cm_sm (m\<lparr>cm_chans := (cm_chans m)[c := ch], cm_sm := ?sm\<rparr>)))
        (cm_chans (m\<lparr>cm_chans := (cm_chans m)[c := ch], cm_sm := ?sm\<rparr>) ! d)"
      using assms ch(2) ids_of_delete [of d "prb_ProbeId p" "cm_sm m"]
      by (cases "d = c") (auto simp: cm_inv_def intro: channel_ok_mono)
  qed
  then show ?thesis by (simp add: Notify_def Some ch(1))
qed

lemma Add_ok:
  assumes "cm_inv m"
  shows "cm_inv (Add ids m)"
proof -
  let ?d = "length (cm_chans m)"
  let ?sm = "fold (\<lambda>i sm. AList.update i ?d sm) ids (cm_sm m)"
  have inv: "distinct (map fst (cm_sm m))" "\<forall>x \<in> set (cm_sm m). snd x < ?d"
    "\<And>c. c < ?d \<Longrightarrow> channel_ok (ids_of c (cm_sm m)) (cm_chans m ! c)" using assms by (auto simp: cm_inv_def)
  note u = updates_spec [OF inv(1,2), of ?d ids]
  have "filter (\<lambda>x. snd x = ?d) (cm_sm m) = []" using inv(2) by (auto simp: filter_empty_conv)
  then have "ids_of ?d (cm_sm m) = 0" by (simp add: ids_of_def)
  moreover have le: "ids_of c ?sm \<le> ids_of c (cm_sm m) + (if c = ?d then length ids else 0)" for c using u by blast
  ultimately have new: "ids_of ?d ?sm \<le> length ids" using le [of ?d] by simp
  have "channel_ok (ids_of c ?sm) ((cm_chans m @ [newChannel (length ids) (int (length ids))]) ! c)" if "c < Suc ?d" for c
  proof (cases "c = ?d")
    case True
    then show ?thesis using new by (simp add: channel_ok_def newChannel_def)
  next
    case False
    then have c: "c < ?d" using that by simp
    have "ids_of c ?sm \<le> ids_of c (cm_sm m)" using le [of c] False by simp
    then show ?thesis using channel_ok_mono [OF inv(3) [OF c]] c by (simp add: nth_append)
  qed
  then show ?thesis using u by (auto simp: cm_inv_def Add_def Let_def)
qed

lemma cm_step_inv:
  assumes "cm_step m m'" and "cm_inv m"
  shows "cm_inv m'"
  using assms
proof cases
  case (add ids)
  then show ?thesis using Add_ok [OF assms(2)] by simp
next
  case (notify gone p)
  then show ?thesis using Notify_ok [OF assms(2), of gone p] by simp
next
  case (kill c)
  then show ?thesis using assms(2) by (auto simp: cm_inv_def close_kill_def nth_list_update channel_ok_def)
next
  case (clean c ids)
  have "distinct (map fst (cm_sm m))" using assms(2) by (simp add: cm_inv_def)
  from deletes_spec [OF this, of ids] show ?thesis
    using assms(2) clean(1) by (auto simp: cm_inv_def remove_killed_def intro: channel_ok_mono)
qed

lemma cm_reachable_inv: "cm_reachable m \<Longrightarrow> cm_inv m"
proof (induction rule: cm_reachable.induct)
  case start
  show ?case by (simp add: cm_inv_def cm_init_def)
qed (rule cm_step_inv)

section \<open>Properties\<close>

text \<open>
  C16. However requests, probes and time-outs are interleaved, handing over a probe never sends on a
  closed channel, and never more on a channel than its buffer holds; a channel whose request still waits
  has received one probe for each id that was used up, and is closed exactly when all are.
\<close>

theorem channel_map_safe:
  assumes "cm_reachable m" and "c < length (cm_chans m)"
  shows "(\<exists>m'. Notify gone p m = Inr m') \<and>
    length (ch_sent (cm_chans m ! c)) \<le> ch_cap (cm_chans m ! c) \<and>
    (ch_killed (cm_chans m ! c) \<or>
      int (length (ch_sent (cm_chans m ! c))) = int (ch_cap (cm_chans m ! c)) - ch_count (cm_chans m ! c) \<and>
      (ch_closed (cm_chans m ! c) \<longleftrightarrow> ch_count (cm_chans m ! c) = 0 \<and> 0 < ch_cap (cm_chans m ! c)))"
proof -
  have inv: "cm_inv m" by (rule cm_reachable_inv [OF assms(1)])
  then have "channel_ok (ids_of c (cm_sm m)) (cm_chans m ! c)" using assms(2) by (simp add: cm_inv_def)
  then show ?thesis using Notify_ok [OF inv, of gone p] by (auto simp: channel_ok_def)
qed

theorem channel_map_safe_witness:
  "\<exists>m'. Notify False \<lparr>prb_SpooferIp = 5, prb_ProbeId = 7, prb_Src = 6, prb_Dst = 7, prb_Id = 0, prb_SeqNum = 0,
     prb_RR = None, prb_Ts = None, prb_SenderIp = 0\<rparr> (Add [7] cm_init) = Inr m'"
proof -
  have "cm_reachable (Add [7] cm_init)" using cm_reachable.intros cm_step.add by blast
  from channel_map_safe [OF this, of 0 False] show ?thesis by (simp add: Add_def cm_init_def)
qed

end
