(* ===== verification/Controller.thy ===== *)
theory Controller
  imports DataModel ChannelMap
begin

text \<open>
  \<open>controller/controller.go\<close>: how a batch of ping or traceroute measurements is answered: from the cache,
  from the database, by an error when no service runs the source, or by running it, for pings possibly
  with the spoofed answer arriving at another node. The four look-ups have the same shape in the code;
  here they are two functions over any kind of measurement. Cache, database, router and the services
  behind it are functions; whether a request's deadline passes first is a flag of each wait.
\<close>

section \<open>Keys\<close>

record ctl_ping = DMPing +
  dp_SpoofedFrom :: uint32
  dp_Error :: string
  dp_Id :: int64

definition ping_key :: "string \<Rightarrow> uint32 \<Rightarrow> uint32 \<Rightarrow> uint32 \<Rightarrow> string" where
  "ping_key kind a b c = kind @ ''_'' @ show_nat (unat a) @ ''_'' @ show_nat (unat b) @ ''_'' @ show_nat (unat c)"

definition PingMeasurement_Key :: "ping_measurement \<Rightarrow> string go" where
  "PingMeasurement_Key pm =
     go_bind (ip_int (pm_SAddr pm)) (\<lambda>sa.
     Inr (if pm_RR pm then ping_key ''XRRP'' (pm_Src pm) (pm_Dst pm) sa
          else ping_key ''XXXP'' (pm_Src pm) (pm_Dst pm) sa))"

fun stringIn :: "string list \<Rightarrow> string \<Rightarrow> bool" where
  "stringIn [] i = False"
| "stringIn (a # as) i = (if a = i then True else stringIn as i)"

definition Ping_Key :: "ctl_ping \<Rightarrow> string" where
  "Ping_Key p =
     (if stringIn (dp_Flags p) ''v4rr'' then ping_key ''XRRP'' (dp_SpoofedFrom p) (dp_Dst p) (dp_Src p)
      else ping_key ''XXXP'' (dp_SpoofedFrom p) (dp_Dst p) (dp_Src p))"

definition trace_key :: "uint32 \<Rightarrow> uint32 \<Rightarrow> string" where
  "trace_key s d = ''XXTR_'' @ show_nat (unat s) @ ''_'' @ show_nat (unat d)"

definition TracerouteMeasurement_Key :: "traceroute_measurement \<Rightarrow> string" where
  "TracerouteMeasurement_Key tm = trace_key (tm_Src tm) (tm_Dst tm)"

definition Traceroute_Key :: "DMTraceroute \<Rightarrow> string" where
  "Traceroute_Key t = trace_key (dt_Src t) (dt_Dst t)"

section \<open>Looking up\<close>

text \<open>
  \<open>checkPingCache\<close>, \<open>checkTraceCache\<close>: the items that can be unmarshalled, by key; \<open>expired\<close> says that
  the deadline won the select.
\<close>

definition check_cache :: "bool \<Rightarrow> (string list \<Rightarrow> string + (string \<times> 'p option) list) \<Rightarrow> string list
    \<Rightarrow> string + (string \<rightharpoonup> 'p)" where
  "check_cache expired GetMulti keys =
     (if expired then Inl ''Request timeout''
      else case GetMulti keys of
             Inl e \<Rightarrow> Inl e
           | Inr items \<Rightarrow> Inr (foldl (\<lambda>m (k, item). case item of Some p \<Rightarrow> m(k \<mapsto> p) | None \<Rightarrow> m) Map.empty items))"

text \<open>\<open>checkPingDb\<close>, \<open>checkTraceDb\<close>: the records found, by their own key; the last one wins.\<close>

definition check_db :: "bool \<Rightarrow> ('m list \<Rightarrow> string + 'p list) \<Rightarrow> ('p \<Rightarrow> string) \<Rightarrow> 'm list
    \<Rightarrow> string + (string \<rightharpoonup> 'p)" where
  "check_db expired get key ms =
     (if expired then Inl ''Request timeout''
      else case get ms of
             Inl e \<Rightarrow> Inl e
           | Inr found \<Rightarrow> Inr (foldl (\<lambda>m p. m(key p \<mapsto> p)) Map.empty found))"

text \<open>\<open>found, err = ...; if err != nil { log }\<close>: after an error nothing is found.\<close>

definition or_nothing :: "string + (string \<rightharpoonup> 'p) \<Rightarrow> (string \<rightharpoonup> 'p)" where
  "or_nothing r = (case r of Inl _ \<Rightarrow> Map.empty | Inr m \<Rightarrow> m)"

text \<open>
  Which measurements to look up, by key (a later one with the same key replaces an earlier one), in the
  order of the request, and which not.
\<close>

fun to_check :: "('m \<Rightarrow> bool) \<Rightarrow> ('m \<Rightarrow> string go) \<Rightarrow> 'm list
    \<Rightarrow> (string \<times> 'm) list \<Rightarrow> (string \<times> 'm) list \<Rightarrow> 'm list
    \<Rightarrow> ((string \<times> 'm) list \<times> (string \<times> 'm) list \<times> 'm list) go" where
  "to_check wants key [] check asked remaining = Inr (check, asked, remaining)"
| "to_check wants key (m # ms) check asked remaining =
     (if wants m then
        go_bind (key m) (\<lambda>k. to_check wants key ms (AList.update k m check) (asked @ [(k, m)]) remaining)
      else to_check wants key ms check asked (remaining @ [m]))"

text \<open>What was found is sent back, the rest joins the remaining measurements.\<close>

fun resolve :: "(string \<times> 'm) list \<Rightarrow> (string \<rightharpoonup> 'p) \<Rightarrow> 'p list \<Rightarrow> 'm list \<Rightarrow> 'p list \<times> 'm list" where
  "resolve [] found ret remaining = (ret, remaining)"
| "resolve ((k, m) # ms) found ret remaining =
     (case found k of
        Some p \<Rightarrow> resolve ms found (ret @ [p]) remaining
      | None \<Rightarrow> resolve ms found ret (remaining @ [m]))"

section \<open>Services\<close>

record service_def =
  sd_Addr :: string
  sd_Port :: string
  sd_Service :: nat

text \<open>Grouping by service: \<open>mts[sd] = append(mts[sd], m)\<close>.\<close>

fun group_add :: "'s \<Rightarrow> 'm \<Rightarrow> ('s \<times> 'm list) list \<Rightarrow> ('s \<times> 'm list) list" where
  "group_add sd m [] = [(sd, [m])]"
| "group_add sd m ((s, ms) # gs) = (if s = sd then (s, ms @ [m]) # gs else (s, ms) # group_add sd m gs)"

text \<open>Measurements whose source no service runs are answered with an error.\<close>

fun by_service :: "(string \<Rightarrow> string + service_def) \<Rightarrow> ('m \<Rightarrow> uint32) \<Rightarrow> ('m \<Rightarrow> string \<Rightarrow> 'p) \<Rightarrow> 'm list
    \<Rightarrow> 'p list \<Rightarrow> (service_def \<times> 'm list) list \<Rightarrow> 'p list \<times> (service_def \<times> 'm list) list" where
  "by_service GetService src err [] ret mts = (ret, mts)"
| "by_service GetService src err (m # ms) ret mts =
     (case GetService (ip_str (src m)) of
        Inl e \<Rightarrow> by_service GetService src err ms (ret @ [err m e]) mts
      | Inr sd \<Rightarrow> by_service GetService src err ms ret (group_add sd m mts))"

section \<open>Pings\<close>

definition zero_ctl_ping :: ctl_ping where
  "zero_ctl_ping = \<lparr>dp_Src = 0, dp_Dst = 0, dp_Type = [], dp_Method = [], dp_Start = \<lparr>t_Sec = 0, t_Usec = 0\<rparr>,
     dp_PingSent = 0, dp_ProbeSize = 0, dp_UserId = 0, dp_Ttl = 0, dp_Wait = 0, dp_Timeout = 0, dp_Flags = [],
     dp_Responses = [],
     dp_Statistics = None,
     dp_SpoofedFrom = 0, dp_Error = [], dp_Id = 0\<rparr>"

definition error_ping :: "ping_measurement \<Rightarrow> string \<Rightarrow> ctl_ping" where
  "error_ping pm e = zero_ctl_ping\<lparr>dp_Src := pm_Src pm, dp_Dst := pm_Dst pm, dp_Error := e\<rparr>"

definition errorAllPing :: "string \<Rightarrow> ping_measurement list \<Rightarrow> ctl_ping list" where
  "errorAllPing e ps = map (\<lambda>p. error_ping p e) ps"

definition nextSpoofID :: "uint32 \<Rightarrow> uint32" where
  "nextSpoofID i = i + 1"

definition hex_digit_char :: "nat \<Rightarrow> char" where
  "hex_digit_char d = (if d < 10 then char_of (48 + d) else char_of (87 + d))"

text \<open>\<open>fmt.Sprintf("%08x", id)\<close>\<close>

definition hex8 :: "uint32 \<Rightarrow> string" where
  "hex8 i = map (\<lambda>k. hex_digit_char (unat (drop_bit (4 * k) i AND 0xF))) [7, 6, 5, 4, 3, 2, 1, 0]"

text \<open>
  What a batch of spoofed pings becomes: the pings by the service of their source (\<open>sp_pings\<close>), the
  announcements by the service of the spoofer (\<open>sp_spoofs\<close>), the ids to wait for. An id is taken and
  waited for before the address the answer goes to is parsed; if that fails nothing is announced.
\<close>

record spoof_plan =
  sp_ret :: "ctl_ping list"
  sp_pings :: "(service_def \<times> ping_measurement list) list"
  sp_spoofs :: "(service_def \<times> spoof_request list) list"
  sp_ids :: "uint32 list"
  sp_next :: uint32

fun plan_spoofs :: "(string \<Rightarrow> string + service_def) \<Rightarrow> ping_measurement list \<Rightarrow> spoof_plan \<Rightarrow> spoof_plan go" where
  "plan_spoofs GetService [] pl = Inr pl"
| "plan_spoofs GetService (sp # sps) pl =
     (case GetService (ip_str (pm_Src sp)) of
        Inl e \<Rightarrow> plan_spoofs GetService sps (pl\<lparr>sp_ret := sp_ret pl @ [error_ping sp e]\<rparr>)
      | Inr sd \<Rightarrow>
         (case GetService (ip_str (pm_SpooferAddr sp)) of
            Inl e \<Rightarrow> plan_spoofs GetService sps (pl\<lparr>sp_ret := sp_ret pl @ [error_ping sp e]\<rparr>)
          | Inr sds \<Rightarrow>
              let i = nextSpoofID (sp_next pl);
                  sp' = sp\<lparr>pm_Payload := hex8 i\<rparr>;
                  pl = pl\<lparr>sp_pings := group_add sd sp' (sp_pings pl), sp_next := i, sp_ids := sp_ids pl @ [i]\<rparr>
              in go_bind (IPStringToInt32 (pm_SAddr sp)) (\<lambda>r.
                 case r of
                   Inl _ \<Rightarrow> plan_spoofs GetService sps pl
                 | Inr sa \<Rightarrow> plan_spoofs GetService sps
                     (pl\<lparr>sp_spoofs := group_add sds \<lparr>so_Ip = pm_Src sp, so_Id = i, so_Sip = sa, so_Dst = pm_Dst sp\<rparr>
                        (sp_spoofs pl)\<rparr>))))"

record ping_env =
  pe_GetMulti :: "string list \<Rightarrow> string + (string \<times> ctl_ping option) list"
  pe_cache_expired :: bool
  pe_GetPingsMulti :: "ping_measurement list \<Rightarrow> string + ctl_ping list"
  pe_db_expired :: bool
  pe_GetService :: "string \<Rightarrow> string + service_def"
  pe_ord :: "(string \<times> ping_measurement) list \<Rightarrow> (string \<times> ping_measurement) list"

record ping_plan =
  pp_ret :: "ctl_ping list"
  pp_groups :: "(service_def \<times> ping_measurement list) list"
  pp_spoof :: spoof_plan

definition wants_cache :: "ping_measurement \<Rightarrow> bool" where
  "wants_cache pm \<longleftrightarrow> pm_CheckCache pm \<and> pm_TimeStamp pm = []"

definition wants_db :: "ping_measurement \<Rightarrow> bool" where
  "wants_db pm \<longleftrightarrow> pm_CheckDb pm \<and> pm_TimeStamp pm = []"

text \<open>\<open>doPing\<close> up to the point where the groups are handed to their services.\<close>

definition plan_pings :: "ping_env \<Rightarrow> uint32 \<Rightarrow> ping_measurement list \<Rightarrow> ping_plan go" where
  "plan_pings env spoofID pms =
     go_bind (to_check wants_cache PingMeasurement_Key pms [] [] []) (\<lambda>(checkCache, cacheKeys, remaining).
     let found = (if cacheKeys \<noteq> [] then or_nothing (check_cache (pe_cache_expired env) (pe_GetMulti env) (map fst cacheKeys))
                  else Map.empty);
         (ret, remaining) = resolve (pe_ord env checkCache) found [] remaining
     in go_bind (to_check wants_db PingMeasurement_Key remaining [] [] []) (\<lambda>(checkDb, checkDbArg, remaining).
        let dbs = or_nothing (check_db (pe_db_expired env) (pe_GetPingsMulti env) Ping_Key (map snd checkDbArg));
            (ret, remaining) = resolve (pe_ord env checkDb) dbs ret remaining;
            spoofs = filter pm_Spoof remaining;
            plain = filter (\<lambda>pm. \<not> pm_Spoof pm) remaining;
            (ret, mts) = by_service (pe_GetService env) pm_Src error_ping plain ret []
        in go_bind (plan_spoofs (pe_GetService env) spoofs
              \<lparr>sp_ret = [], sp_pings = [], sp_spoofs = [], sp_ids = [], sp_next = spoofID\<rparr>) (\<lambda>spl.
           Inr \<lparr>pp_ret = ret, pp_groups = mts, pp_spoof = spl\<rparr>)))"

text \<open>
  One group: the service may refuse, else its answers are stored and passed on until it closes the
  stream or sends nil. \<open>StorePing\<close> gives the id, 0 with an error.
\<close>

definition run_ping_group :: "(service_def \<Rightarrow> ping_measurement list \<Rightarrow> string + ctl_ping option list)
    \<Rightarrow> (ctl_ping \<Rightarrow> int64) \<Rightarrow> service_def \<times> ping_measurement list \<Rightarrow> ctl_ping list" where
  "run_ping_group tool store g =
     (case tool (fst g) (snd g) of
        Inl e \<Rightarrow> errorAllPing e (snd g)
      | Inr stream \<Rightarrow> map (\<lambda>p. (the p)\<lparr>dp_Id := store (the p)\<rparr>) (takeWhile (\<lambda>p. p \<noteq> None) stream))"

text \<open>
  A spoofed answer becomes a ping: its source and destination are those of the measurement. \<open>now\<close> is the
  clock.
\<close>

definition zero_response :: DMPingResponse where
  "zero_response = \<lparr>dr_From = 0, dr_Seq = 0, dr_ReplySize = 0, dr_ReplyTtl = 0, dr_ReplyProto = [],
     dr_Tx = \<lparr>t_Sec = 0, t_Usec = 0\<rparr>, dr_Rx = \<lparr>t_Sec = 0, t_Usec = 0\<rparr>, dr_Rtt = 0, dr_ProbeIpid = 0, dr_ReplyIpid = 0,
     dr_IcmpType = 0, dr_IcmpCode = 0, dr_Tsonly = [], dr_Tsandaddr = [], dr_RR = []\<rparr>"

definition toPing :: "int64 \<Rightarrow> probe \<Rightarrow> ctl_ping" where
  "toPing now p =
     (let ping = zero_ctl_ping\<lparr>dp_Src := prb_Dst p, dp_Dst := prb_Src p, dp_SpoofedFrom := prb_SpooferIp p,
             dp_Flags := [''spoof'']\<rparr>;
          pr = zero_response\<lparr>dr_Tx := \<lparr>t_Sec = now, t_Usec = 0\<rparr>, dr_Rx := \<lparr>t_Sec = now, t_Usec = 0\<rparr>, dr_From := prb_Src p\<rparr>;
          flags = dp_Flags ping;
          (flags, pr, some) = (case prb_RR p of
              Some hops \<Rightarrow> (flags @ [''v4rr''], pr\<lparr>dr_RR := hops\<rparr>, True)
            | None \<Rightarrow> (flags, pr, False));
          (flags, pr, some) = (case prb_Ts p of
              None \<Rightarrow> (flags, pr, some)
            | Some ts \<Rightarrow>
                if pts_Type ts = TSOnly then (flags @ [''tsonly''], pr\<lparr>dr_Tsonly := map ta_Ts (pts_Stamps ts)\<rparr>, True)
                else if pts_Stamps ts \<noteq> [] then
                  (flags @ [''tsandaddr''],
                   pr\<lparr>dr_Tsandaddr := map (\<lambda>s. \<lparr>tsa_Ip = ta_Ip s, tsa_Ts = ta_Ts s\<rparr>) (pts_Stamps ts)\<rparr>, True)
                else (flags, pr, True))
      in ping\<lparr>dp_Flags := flags, dp_Responses := (if some then [Some pr] else [])\<rparr>)"

section \<open>Traceroutes\<close>

record trace_env =
  te_GetMulti :: "string list \<Rightarrow> string + (string \<times> DMTraceroute option) list"
  te_cache_expired :: bool
  te_GetTraceMulti :: "traceroute_measurement list \<Rightarrow> string + DMTraceroute list"
  te_db_expired :: bool
  te_GetService :: "string \<Rightarrow> string + service_def"
  te_ord :: "(string \<times> traceroute_measurement) list \<Rightarrow> (string \<times> traceroute_measurement) list"

record trace_answer =
  ta_trace :: "DMTraceroute option"
  ta_Src :: uint32
  ta_Dst :: uint32
  ta_Error :: string

definition found_trace :: "DMTraceroute \<Rightarrow> trace_answer" where
  "found_trace t = \<lparr>ta_trace = Some t, ta_Src = dt_Src t, ta_Dst = dt_Dst t, ta_Error = []\<rparr>"

definition error_trace :: "traceroute_measurement \<Rightarrow> string \<Rightarrow> trace_answer" where
  "error_trace tm e = \<lparr>ta_trace = None, ta_Src = tm_Src tm, ta_Dst = tm_Dst tm, ta_Error = e\<rparr>"

definition errorAllTrace :: "string \<Rightarrow> traceroute_measurement list \<Rightarrow> trace_answer list" where
  "errorAllTrace e ts = map (\<lambda>t. error_trace t e) ts"

definition plan_traceroutes :: "trace_env \<Rightarrow> traceroute_measurement list
    \<Rightarrow> (trace_answer list \<times> (service_def \<times> traceroute_measurement list) list) go" where
  "plan_traceroutes env tms =
     go_bind (to_check tm_CheckCache (Inr \<circ> TracerouteMeasurement_Key) tms [] [] []) (\<lambda>(checkCache, cacheKeys, remaining).
     let found = (if cacheKeys \<noteq> [] then or_nothing (check_cache (te_cache_expired env) (te_GetMulti env) (map fst cacheKeys))
                  else Map.empty);
         (ret, remaining) = resolve (te_ord env checkCache) found [] remaining
     in go_bind (to_check tm_CheckDb (Inr \<circ> TracerouteMeasurement_Key) remaining [] [] []) (\<lambda>(checkDb, checkDbArg, remaining).
        let dbs = or_nothing (check_db (te_db_expired env) (te_GetTraceMulti env) Traceroute_Key (map snd checkDbArg));
            (ret, remaining) = resolve (te_ord env checkDb) dbs ret remaining
        in Inr (by_service (te_GetService env) tm_Src error_trace remaining (map found_trace ret) [])))"

section \<open>Keys tell their parts\<close>

lemma underscore_not_in_show_nat: "CHR ''_'' \<notin> set (show_nat n)"
proof
  assume "CHR ''_'' \<in> set (show_nat n)"
  then have "is_digit (CHR ''_'')" using show_nat_digits by (simp add: list_all_iff)
  then show False by (simp add: is_digit_def)
qed

lemma split_ping_key:
  "CHR ''_'' \<notin> set kind \<Longrightarrow>
    split_on (CHR ''_'') (ping_key kind a b c) = [kind, show_nat (unat a), show_nat (unat b), show_nat (unat c)]"
  by (simp add: ping_key_def split_on_append split_on_single underscore_not_in_show_nat)

lemma ping_key_inject:
  assumes "CHR ''_'' \<notin> set kind" and "CHR ''_'' \<notin> set kind'"
  shows "ping_key kind a b c = ping_key kind' a' b' c' \<longleftrightarrow> kind = kind' \<and> a = a' \<and> b = b' \<and> c = c'"
proof
  assume "ping_key kind a b c = ping_key kind' a' b' c'"
  from arg_cong [OF this, of "split_on (CHR ''_'')"] show "kind = kind' \<and> a = a' \<and> b = b' \<and> c = c'"
    using assms by (simp add: split_ping_key word_unat_eq_iff)
qed auto

lemma ping_kinds:
  "ping_key ''XRRP'' a b c = ping_key ''XRRP'' a' b' c' \<longleftrightarrow> a = a' \<and> b = b' \<and> c = c'"
  "ping_key ''XXXP'' a b c = ping_key ''XXXP'' a' b' c' \<longleftrightarrow> a = a' \<and> b = b' \<and> c = c'"
  "ping_key ''XRRP'' a b c \<noteq> ping_key ''XXXP'' a' b' c'" "ping_key ''XXXP'' a b c \<noteq> ping_key ''XRRP'' a' b' c'"
  by (simp_all add: ping_key_inject)

section \<open>Every measurement is accounted for\<close>

definition group_size :: "('s \<times> 'm list) list \<Rightarrow> nat" where
  "group_size gs = (\<Sum>g \<leftarrow> gs. length (snd g))"

lemma group_size_add: "group_size (group_add sd m gs) = Suc (group_size gs)"
  by (induction gs) (auto simp: group_size_def)

lemma to_check_spec:
  assumes "to_check wants key ms check asked remaining = Inr (check', asked', remaining')"
  shows "remaining' = remaining @ filter (\<lambda>m. \<not> wants m) ms \<and>
    length check' \<le> length check + length (filter wants ms) \<and>
    mset (map snd check') \<subseteq># mset (map snd check) + mset (filter wants ms) \<and>
    (distinct (map Inr (map fst check) @ map key (filter wants ms)) \<longrightarrow>
       length check' = length check + length (filter wants ms))"
  using assms
proof (induction ms arbitrary: check asked remaining)
  case (Cons m ms)
  show ?case
  proof (cases "wants m")
    case False
    with Cons.prems have "to_check wants key ms check asked (remaining @ [m]) = Inr (check', asked', remaining')" by simp
    from Cons.IH [OF this] False show ?thesis by simp
  next
    case True
    then obtain k where k: "key m = Inr k"
      and r: "to_check wants key ms (AList.update k m check) (asked @ [(k, m)]) remaining = Inr (check', asked', remaining')"
      using Cons.prems by (auto simp: go_bind_Inr_iff)
    note IH = Cons.IH [OF r]
    have len: "length (AList.update k m check) \<le> Suc (length check)" by (induction check) auto
    have sub: "mset (map snd (AList.update k m check)) \<subseteq># add_mset m (mset (map snd check))"
      by (induction check) (auto simp: add_mset_commute intro: subset_mset.order_trans)
    have new: "AList.update k m check = check @ [(k, m)]" if "k \<notin> set (map fst check)"
      using that by (induction check) auto
    have "length check' = length check + length (filter wants (m # ms))"
      if d: "distinct (map Inr (map fst check) @ map key (filter wants (m # ms)))"
    proof -
      have "k \<notin> set (map fst check)" using d True k by auto
      moreover from this have "distinct (map Inr (map fst (AList.update k m check)) @ map key (filter wants ms))"
        using d True k new by auto
      ultimately show ?thesis using IH new True by simp
    qed
    moreover have "mset (map snd check') \<subseteq># mset (map snd check) + mset (filter wants (m # ms))"
    proof -
      have "mset (map snd check') \<subseteq># mset (map snd (AList.update k m check)) + mset (filter wants ms)" using IH by blast
      also have "\<dots> \<subseteq># add_mset m (mset (map snd check)) + mset (filter wants ms)" using sub by (intro subset_mset.add_right_mono)
      finally show ?thesis using True by simp
    qed
    ultimately show ?thesis using IH len True by auto
  qed
qed auto

lemma resolve_spec:
  "resolve ms found ret remaining = (ret', remaining') \<Longrightarrow>
    length ret' + length remaining' = length ret + length remaining + length ms \<and>
    mset remaining' \<subseteq># mset remaining + mset (map snd ms)"
proof (induction ms arbitrary: ret remaining)
  case (Cons x ms)
  obtain k m where x: "x = (k, m)" by (cases x)
  show ?case
  proof (cases "found k")
    case None
    with Cons.prems have "resolve ms found ret (remaining @ [m]) = (ret', remaining')" by (simp add: x)
    from Cons.IH [OF this] show ?thesis by (simp add: x)
  next
    case (Some p)
    with Cons.prems have "resolve ms found (ret @ [p]) remaining = (ret', remaining')" by (simp add: x)
    from Cons.IH [OF this] show ?thesis
      by (auto simp: x intro: subset_mset.order_trans)
  qed
qed simp

lemma by_service_spec:
  "by_service GetService src err ms ret mts = (ret', mts') \<Longrightarrow>
    length ret' + group_size mts' = length ret + group_size mts + length ms"
proof (induction ms arbitrary: ret mts)
  case (Cons m ms)
  then show ?case by (cases "GetService (ip_str (src m))") (fastforce simp: group_size_add)+
qed simp

lemma plan_spoofs_spec:
  "plan_spoofs GetService sps pl = Inr pl' \<Longrightarrow>
    length (sp_ret pl') + group_size (sp_pings pl') = length (sp_ret pl) + group_size (sp_pings pl) + length sps"
proof (induction sps arbitrary: pl)
  case (Cons sp sps)
  show ?case
  proof (cases "GetService (ip_str (pm_Src sp))")
    case (Inl e)
    with Cons.prems have "plan_spoofs GetService sps (pl\<lparr>sp_ret := sp_ret pl @ [error_ping sp e]\<rparr>) = Inr pl'" by simp
    from Cons.IH [OF this] show ?thesis by simp
  next
    case sd: (Inr sd)
    show ?thesis
    proof (cases "GetService (ip_str (pm_SpooferAddr sp))")
      case (Inl e)
      with Cons.prems sd have "plan_spoofs GetService sps (pl\<lparr>sp_ret := sp_ret pl @ [error_ping sp e]\<rparr>) = Inr pl'" by simp
      from Cons.IH [OF this] show ?thesis by simp
    next
      case sds: (Inr sds)
      let ?pl = "pl\<lparr>sp_pings := group_add sd (sp\<lparr>pm_Payload := hex8 (nextSpoofID (sp_next pl))\<rparr>) (sp_pings pl),
          sp_next := nextSpoofID (sp_next pl), sp_ids := sp_ids pl @ [nextSpoofID (sp_next pl)]\<rparr>"
      obtain r where r: "IPStringToInt32 (pm_SAddr sp) = Inr r"
        using Cons.prems sd sds by (auto simp: Let_def go_bind_Inr_iff)
      show ?thesis
      proof (cases r)
        case (Inl e)
        with Cons.prems sd sds r have "plan_spoofs GetService sps ?pl = Inr pl'" by (simp add: Let_def)
        from Cons.IH [OF this] show ?thesis by (simp add: group_size_add)
      next
        case (Inr sa)
        with Cons.prems sd sds r have "plan_spoofs GetService sps (?pl\<lparr>sp_spoofs := group_add sds
            \<lparr>so_Ip = pm_Src sp, so_Id = nextSpoofID (sp_next pl), so_Sip = sa, so_Dst = pm_Dst sp\<rparr> (sp_spoofs pl)\<rparr>) = Inr pl'"
          by (simp add: Let_def)
        from Cons.IH [OF this] show ?thesis by (simp add: group_size_add)
      qed
    qed
  qed
qed simp

text \<open>One look-up phase: what is answered and what remains are no more than what was there.\<close>

lemma phase_spec:
  assumes "to_check wants key ms [] [] [] = Inr (check, asked, rest)" and "rearrangement ord"
    and "resolve (ord check) found ret rest = (ret', rest')"
  shows "length ret' + length rest' \<le> length ret + length ms" and "mset rest' \<subseteq># mset ms"
    and "distinct (map key (filter wants ms)) \<Longrightarrow> length ret' + length rest' = length ret + length ms"
proof -
  note c = to_check_spec [OF assms(1)] and r = resolve_spec [OF assms(3)]
  have len: "length (ord check) = length check" by (rule rearrangement.length_ord [OF assms(2)])
  have "mset (map snd (ord check)) = mset (map snd check)" by (simp add: rearrangement.mset_ord [OF assms(2)])
  then have "mset rest' \<subseteq># mset rest + mset (map snd check)" using r by metis
  also have "\<dots> \<subseteq># mset (filter (\<lambda>m. \<not> wants m) ms) + mset (filter wants ms)"
    using c by (intro subset_mset.add_mono) auto
  also have "\<dots> = mset ms" by (induction ms) auto
  finally show "mset rest' \<subseteq># mset ms" .
  have sum: "length (filter (\<lambda>m. \<not> wants m) ms) + length (filter wants ms) = length ms"
    using sum_length_filter_compl [of wants ms] by simp
  then show "length ret' + length rest' \<le> length ret + length ms" using c r len by auto
  assume "distinct (map key (filter wants ms))"
  then show "length ret' + length rest' = length ret + length ms" using c r len sum by auto
qed

lemma distinct_submset: "mset ys \<subseteq># mset xs \<Longrightarrow> distinct xs \<Longrightarrow> distinct ys"
proof -
  assume s: "mset ys \<subseteq># mset xs" and "distinct xs"
  then have one: "count (mset xs) a \<le> 1" for a by (metis distinct_count_atmost_1 le_numeral_extra(4) zero_le_one)
  have "count (mset ys) a = (if a \<in> set ys then 1 else 0)" for a
  proof (cases "a \<in> set ys")
    case True
    then have "0 < count (mset ys) a" by simp
    moreover have "count (mset ys) a \<le> 1" using mset_subset_eq_count [OF s] one order_trans by blast
    ultimately have "count (mset ys) a = 1" by linarith
    then show ?thesis using True by simp
  next
    case False
    then have "a \<notin># mset ys" by simp
    then show ?thesis using False by (simp only: not_in_iff if_False)
  qed
  then show ?thesis unfolding distinct_count_atmost_1 by blast
qed

section \<open>Properties\<close>

definition answered_or_planned :: "ping_plan \<Rightarrow> nat" where
  "answered_or_planned pl = length (pp_ret pl) + group_size (pp_groups pl) + length (sp_ret (pp_spoof pl))
     + group_size (sp_pings (pp_spoof pl))"

lemma plan_pings_accounts:
  assumes ord: "rearrangement (pe_ord env)" and p: "plan_pings env i pms = Inr pl"
  shows "answered_or_planned pl \<le> length pms"
    and "distinct (map PingMeasurement_Key (filter (\<lambda>pm. pm_TimeStamp pm = []) pms)) \<Longrightarrow>
      answered_or_planned pl = length pms"
proof -
  obtain check1 asked1 rest1 where c1: "to_check wants_cache PingMeasurement_Key pms [] [] [] = Inr (check1, asked1, rest1)"
    using p by (auto simp: plan_pings_def go_bind_Inr_iff)
  define found where "found = (if asked1 \<noteq> [] then
    or_nothing (check_cache (pe_cache_expired env) (pe_GetMulti env) (map fst asked1)) else Map.empty)"
  obtain ret1 rem1 where r1: "resolve (pe_ord env check1) found [] rest1 = (ret1, rem1)" by fastforce
  obtain check2 asked2 rest2 where c2: "to_check wants_db PingMeasurement_Key rem1 [] [] [] = Inr (check2, asked2, rest2)"
    using p c1 r1 by (auto simp: plan_pings_def go_bind_Inr_iff found_def [symmetric])
  define dbs where "dbs = or_nothing (check_db (pe_db_expired env) (pe_GetPingsMulti env) Ping_Key (map snd asked2))"
  obtain ret2 rem2 where r2: "resolve (pe_ord env check2) dbs ret1 rest2 = (ret2, rem2)" by fastforce
  obtain ret3 mts where b: "by_service (pe_GetService env) pm_Src error_ping (filter (\<lambda>pm. \<not> pm_Spoof pm) rem2) ret2 [] = (ret3, mts)"
    by fastforce
  obtain spl where s: "plan_spoofs (pe_GetService env) (filter pm_Spoof rem2)
      \<lparr>sp_ret = [], sp_pings = [], sp_spoofs = [], sp_ids = [], sp_next = i\<rparr> = Inr spl"
    and pl: "pl = \<lparr>pp_ret = ret3, pp_groups = mts, pp_spoof = spl\<rparr>"
    using p c1 r1 c2 r2 b
    by (auto simp: plan_pings_def go_bind_Inr_iff found_def [symmetric] dbs_def [symmetric])
  have "answered_or_planned pl = length ret2 + length (filter (\<lambda>pm. \<not> pm_Spoof pm) rem2) + length (filter pm_Spoof rem2)"
    using by_service_spec [OF b] plan_spoofs_spec [OF s] by (simp add: answered_or_planned_def pl group_size_def)
  then have n: "answered_or_planned pl = length ret2 + length rem2"
    using sum_length_filter_compl [of pm_Spoof rem2] by simp
  note ph1 = phase_spec [OF c1 ord r1] and ph2 = phase_spec [OF c2 ord r2]
  show "answered_or_planned pl \<le> length pms" using n ph1(1) ph2(1) by simp
  assume d: "distinct (map PingMeasurement_Key (filter (\<lambda>pm. pm_TimeStamp pm = []) pms))"
  have sub: "mset (map PingMeasurement_Key (filter w ms)) \<subseteq># mset (map PingMeasurement_Key (filter (\<lambda>pm. pm_TimeStamp pm = []) pms))"
    if "mset ms \<subseteq># mset pms" and "\<And>pm. w pm \<Longrightarrow> pm_TimeStamp pm = []" for ms w
  proof -
    have "filter_mset w (mset ms) \<subseteq># filter_mset w (mset pms)" using that(1) by (rule multiset_filter_mono)
    also have "\<dots> \<subseteq># filter_mset (\<lambda>pm. pm_TimeStamp pm = []) (mset pms)"
      using that(2) by (intro mset_subset_eqI) auto
    finally show ?thesis by (simp add: image_mset_subseteq_mono)
  qed
  have "distinct (map PingMeasurement_Key (filter wants_cache pms))"
    by (rule distinct_submset [OF sub d]) (simp_all add: wants_cache_def)
  moreover have "distinct (map PingMeasurement_Key (filter wants_db rem1))"
    by (rule distinct_submset [OF sub [OF ph1(2)] d]) (simp add: wants_db_def)
  ultimately show "answered_or_planned pl = length pms" using n ph1(3) ph2(3) by simp
qed

text \<open>
  C17. A batch of pings loses nothing: whatever cache, database and router answer and in whatever order the
  look-ups are resolved, the pings answered at once and the pings handed to services are no more than
  the pings asked for, and exactly as many if no two pings that may be looked up have the same key. (With
  equal keys only one of them is answered.)
\<close>

theorem ping_batch_accounted:
  assumes "rearrangement (pe_ord env)" and "plan_pings env i pms = Inr pl"
  shows "answered_or_planned pl \<le> length pms \<and>
    (distinct (map PingMeasurement_Key (filter (\<lambda>pm. pm_TimeStamp pm = []) pms)) \<longrightarrow>
      answered_or_planned pl = length pms)"
  using plan_pings_accounts [OF assms] by blast

text \<open>One plain ping that the cache does not know, and a spoofed one whose answer goes to 10.0.0.1.\<close>

definition ex_service :: service_def where
  "ex_service = \<lparr>sd_Addr = ''plc'', sd_Port = ''4380'', sd_Service = 1\<rparr>"

definition ex_ctl_env :: ping_env where
  "ex_ctl_env = \<lparr>pe_GetMulti = (\<lambda>_. Inr []), pe_cache_expired = False, pe_GetPingsMulti = (\<lambda>_. Inr []),
     pe_db_expired = False, pe_GetService = (\<lambda>_. Inr ex_service), pe_ord = insertion_order\<rparr>"

definition ex_pms :: "ping_measurement list" where
  "ex_pms = [zero_ping_measurement\<lparr>pm_Src := 1, pm_Dst := 2, pm_SAddr := ip_str 9, pm_CheckCache := True\<rparr>,
     zero_ping_measurement\<lparr>pm_Src := 3, pm_Dst := 2, pm_SAddr := ip_str 10, pm_Spoof := True\<rparr>]"

lemma ex_plan: "\<exists>pl. plan_pings ex_ctl_env 0 ex_pms = Inr pl \<and> sp_ids (pp_spoof pl) = [1]"
  by (simp add: plan_pings_def ex_ctl_env_def ex_pms_def zero_ping_measurement_def PingMeasurement_Key_def
      wants_cache_def wants_db_def check_cache_def check_db_def or_nothing_def insertion_order_def Let_def nextSpoofID_def)

theorem ping_batch_accounted_witness:
  "\<exists>pl. plan_pings ex_ctl_env 0 ex_pms = Inr pl \<and> answered_or_planned pl = 2"
proof -
  obtain pl where pl: "plan_pings ex_ctl_env 0 ex_pms = Inr pl" using ex_plan by blast
  have "rearrangement (pe_ord ex_ctl_env)" by (simp add: ex_ctl_env_def insertion_order.rearrangement_axioms)
  moreover have "distinct (map PingMeasurement_Key (filter (\<lambda>pm. pm_TimeStamp pm = []) ex_pms))"
    by (simp add: ex_pms_def zero_ping_measurement_def PingMeasurement_Key_def ping_kinds)
  ultimately show ?thesis using ping_batch_accounted [OF _ pl] pl by (auto simp: ex_pms_def)
qed

text \<open>
  The key under which a plain ping is looked up is not the key of its result: the cache and the
  database are asked for source and destination, but the result is stored under 0 (it was not spoofed),
  destination and source. The two agree only for the source address 0.0.0.0.
\<close>

lemma plain_ping_never_cached:
  assumes "pm_SAddr pm = []" and "dp_Src p = pm_Src pm" and "dp_Dst p = pm_Dst pm" and "dp_SpoofedFrom p = 0"
  shows "PingMeasurement_Key pm = Inr (Ping_Key p) \<longleftrightarrow>
    pm_Src pm = 0 \<and> (pm_RR pm \<longleftrightarrow> stringIn (dp_Flags p) ''v4rr'')"
proof -
  have "ParseIP [] = []" by (simp add: ParseIP_def parseIPv4_def)
  then have "ip_int [] = Inr 0" by (simp add: ip_int_def IPStringToInt32_def)
  then show ?thesis using assms by (auto simp: PingMeasurement_Key_def Ping_Key_def ping_kinds)
qed

text \<open>
  The answer of a spoofed ping is stored under the key its measurement is looked up with: the probe
  that came back from the destination to the address the answer was to go to, sent by the spoofing
  source, with a record route exactly if one was asked for.
\<close>

lemma spoofed_ping_key:
  assumes "pm_SAddr pm = ip_str sa" and "prb_Dst pr = sa" and "prb_Src pr = pm_Dst pm" and "prb_SpooferIp pr = pm_Src pm"
    and "pm_RR pm \<longleftrightarrow> prb_RR pr \<noteq> None"
  shows "PingMeasurement_Key pm = Inr (Ping_Key (toPing now pr))"
proof -
  have "stringIn (dp_Flags (toPing now pr)) ''v4rr'' \<longleftrightarrow> prb_RR pr \<noteq> None"
    by (auto simp: toPing_def Let_def split: option.split)
  moreover have "dp_Src (toPing now pr) = prb_Dst pr" "dp_Dst (toPing now pr) = prb_Src pr"
    "dp_SpoofedFrom (toPing now pr) = prb_SpooferIp pr"
    by (auto simp: toPing_def Let_def zero_ctl_ping_def split: option.split)
  ultimately show ?thesis using assms by (simp add: PingMeasurement_Key_def Ping_Key_def)
qed

section \<open>Waiting for spoofed answers\<close>

definition unannounced :: "(string \<Rightarrow> string + service_def) \<Rightarrow> ping_measurement \<Rightarrow> bool" where
  "unannounced GetService sp \<longleftrightarrow>
     (case GetService (ip_str (pm_Src sp)) of Inl _ \<Rightarrow> False | Inr _ \<Rightarrow>
      case GetService (ip_str (pm_SpooferAddr sp)) of Inl _ \<Rightarrow> False | Inr _ \<Rightarrow>
      case IPStringToInt32 (pm_SAddr sp) of Inr (Inl _) \<Rightarrow> True | _ \<Rightarrow> False)"

lemma plan_spoofs_ids:
  "plan_spoofs GetService sps pl = Inr pl' \<Longrightarrow>
    group_size (sp_spoofs pl') + length (filter (unannounced GetService) sps) + length (sp_ids pl) =
      group_size (sp_spoofs pl) + length (sp_ids pl')"
proof (induction sps arbitrary: pl)
  case (Cons sp sps)
  show ?case
  proof (cases "GetService (ip_str (pm_Src sp))")
    case (Inl e)
    with Cons.prems have "plan_spoofs GetService sps (pl\<lparr>sp_ret := sp_ret pl @ [error_ping sp e]\<rparr>) = Inr pl'" by simp
    from Cons.IH [OF this] Inl show ?thesis by (simp add: unannounced_def)
  next
    case sd: (Inr sd)
    show ?thesis
    proof (cases "GetService (ip_str (pm_SpooferAddr sp))")
      case (Inl e)
      with Cons.prems sd have "plan_spoofs GetService sps (pl\<lparr>sp_ret := sp_ret pl @ [error_ping sp e]\<rparr>) = Inr pl'" by simp
      from Cons.IH [OF this] sd Inl show ?thesis by (simp add: unannounced_def)
    next
      case sds: (Inr sds)
      let ?pl = "pl\<lparr>sp_pings := group_add sd (sp\<lparr>pm_Payload := hex8 (nextSpoofID (sp_next pl))\<rparr>) (sp_pings pl),
          sp_next := nextSpoofID (sp_next pl), sp_ids := sp_ids pl @ [nextSpoofID (sp_next pl)]\<rparr>"
      obtain r where r: "IPStringToInt32 (pm_SAddr sp) = Inr r"
        using Cons.prems sd sds by (auto simp: Let_def go_bind_Inr_iff)
      show ?thesis
      proof (cases r)
        case (Inl e)
        with Cons.prems sd sds r have "plan_spoofs GetService sps ?pl = Inr pl'" by (simp add: Let_def)
        from Cons.IH [OF this] Inl sd sds r show ?thesis by (simp add: unannounced_def)
      next
        case (Inr sa)
        with Cons.prems sd sds r have "plan_spoofs GetService sps (?pl\<lparr>sp_spoofs := group_add sds
            \<lparr>so_Ip = pm_Src sp, so_Id = nextSpoofID (sp_next pl), so_Sip = sa, so_Dst = pm_Dst sp\<rparr> (sp_spoofs pl)\<rparr>) = Inr pl'"
          by (simp add: Let_def)
        from Cons.IH [OF this] Inr sd sds r show ?thesis by (simp add: unannounced_def group_size_add)
      qed
    qed
  qed
qed simp

text \<open>
  If one spoofed ping of a batch has an answer address that cannot be parsed, the batch waits until
  its deadline: its id was added to the channel, but no node is told to expect it, so the channel is not
  closed by the probes that can come (as long as the request itself does not give up).
\<close>

lemma unparsable_answer_address_blocks:
  assumes "plan_spoofs GetService sps \<lparr>sp_ret = [], sp_pings = [], sp_spoofs = [], sp_ids = [], sp_next = i\<rparr> = Inr pl"
    and "sp \<in> set sps" and "unannounced GetService sp"
    and "cm_reachable m" and "c < length (cm_chans m)" and "ch_cap (cm_chans m ! c) = length (sp_ids pl)"
    and "\<not> ch_killed (cm_chans m ! c)" and "length (ch_sent (cm_chans m ! c)) \<le> group_size (sp_spoofs pl)"
  shows "\<not> ch_closed (cm_chans m ! c)"
proof -
  have "sp \<in> set (filter (unannounced GetService) sps)" using assms(2,3) by simp
  then have "0 < length (filter (unannounced GetService) sps)" by (rule length_pos_if_in_set)
  moreover have "group_size (sp_spoofs pl) + length (filter (unannounced GetService) sps) = length (sp_ids pl)"
    using plan_spoofs_ids [OF assms(1)] by (simp add: group_size_def)
  ultimately have "group_size (sp_spoofs pl) < length (sp_ids pl)" by linarith
  moreover have "channel_ok (ids_of c (cm_sm m)) (cm_chans m ! c)"
    using cm_reachable_inv [OF assms(4)] assms(5) by (simp add: cm_inv_def)
  ultimately show ?thesis using assms(6-8) by (auto simp: channel_ok_def)
qed

end
