(* ===== verification/VpCheck.thy ===== *)
theory VpCheck
  imports VpServer Controller
begin

text \<open>
  \<open>checkCapabilities\<close> of \<open>vpservice/server/server.go\<close>: vantage points measure each other, and what they are
  seen to be able to do is stored; the ones that can do nothing are quarantined. The client of the
  controller is a function from measurements to answers: an error, or what arrives before the stream
  ends. The measurements of \<open>testPing\<close> and \<open>testTrace\<close> are sent one by one, concurrently; each of them only
  sets a flag of its own source, so their order does not matter.
\<close>

section \<open>The table under test\<close>

text \<open>\<open>vpm\<close>: vantage points by address, as a Go map of pointers; a test sets flags in it.\<close>

type_synonym vp_map = "(uint32 \<times> vantage_point) list"

definition known :: "vp_map \<Rightarrow> uint32 \<Rightarrow> bool" where
  "known vpm ip = (ip \<in> fst ` set vpm)"

definition mark :: "(vantage_point \<Rightarrow> vantage_point) \<Rightarrow> uint32 \<Rightarrow> vp_map \<Rightarrow> vp_map" where
  "mark f ip vpm = AList.map_entry ip f vpm"

definition unable :: "vantage_point \<Rightarrow> vantage_point" where
  "unable vp = vp\<lparr>vp_RecSpoof := False, vp_Spoof := False, vp_RecordRoute := False, vp_Timestamp := False,
     vp_Ping := False, vp_Trace := False\<rparr>"

fun vp_table :: "vantage_point list \<Rightarrow> vp_map \<Rightarrow> vp_map" where
  "vp_table [] vpm = vpm"
| "vp_table (vp # vps) vpm = vp_table vps (AList.update (vp_Ip vp) (unable vp) vpm)"

text \<open>Every pair of different addresses and sites.\<close>

definition pairs :: "vantage_point list \<Rightarrow> (vantage_point \<times> vantage_point) list" where
  "pairs vps = [(vp, d). vp \<leftarrow> vps, d \<leftarrow> vps, \<not> (vp_Ip d = vp_Ip vp \<or> vp_Site d = vp_Site vp)]"

definition ping_tests :: "vantage_point list \<Rightarrow> ping_measurement list" where
  "ping_tests vps = map (\<lambda>(vp, d). zero_ping_measurement\<lparr>pm_Count := ''1'', pm_Src := vp_Ip vp, pm_Dst := vp_Ip d,
     pm_Timeout := 20\<rparr>) (pairs vps)"

text \<open>Source and destination of a traceroute are the same vantage point.\<close>

definition trace_tests :: "vantage_point list \<Rightarrow> traceroute_measurement list" where
  "trace_tests vps = map (\<lambda>(vp, d). zero_traceroute_measurement\<lparr>tm_Dst := vp_Ip vp, tm_Loops := ''3'', tm_LoopAction := ''1'',
     tm_Attempts := ''1'', tm_Src := vp_Ip vp, tm_Wait := ''2'', tm_Timeout := 30\<rparr>) (pairs vps)"

section \<open>The tests\<close>

text \<open>\<open>p.Statistics.Loss\<close> of an answer that fits no vantage point: the value is only logged.\<close>

definition unmatched :: "ctl_ping \<Rightarrow> 'a \<Rightarrow> 'a go" where
  "unmatched p x = (case dp_Statistics p of None \<Rightarrow> Inl NilDereference | Some _ \<Rightarrow> Inr x)"

definition ip_or_zero :: "uint32 list \<Rightarrow> uint32" where
  "ip_or_zero xs = (case xs of [] \<Rightarrow> 0 | x # _ \<Rightarrow> x)"

definition rr_addr :: "DMPingResponse \<Rightarrow> uint32" where
  "rr_addr r1 = ip_or_zero (dr_RR r1)"

definition ts_addr :: "DMPingResponse \<Rightarrow> uint32" where
  "ts_addr r1 = ip_or_zero (map tsa_Ip (dr_Tsandaddr r1))"

fun rr_answers :: "ctl_ping list \<Rightarrow> vp_map \<Rightarrow> vp_map go" where
  "rr_answers [] vpm = Inr vpm"
| "rr_answers (p # ps) vpm =
     (case dp_Responses p of
        [] \<Rightarrow> rr_answers ps vpm
      | None # _ \<Rightarrow> Inl NilDereference
      | Some r1 # _ \<Rightarrow>
          let addr1 = rr_addr r1; f = (\<lambda>vp. vp\<lparr>vp_RecordRoute := True\<rparr>)
          in if known vpm (dp_Src p) then rr_answers ps (mark f (dp_Src p) vpm)
             else if known vpm addr1 then rr_answers ps (mark f addr1 vpm)
             else go_bind (unmatched p vpm) (rr_answers ps))"

fun ts_answers :: "ctl_ping list \<Rightarrow> vp_map \<Rightarrow> vp_map go" where
  "ts_answers [] vpm = Inr vpm"
| "ts_answers (p # ps) vpm =
     (case dp_Responses p of
        [] \<Rightarrow> ts_answers ps vpm
      | None # _ \<Rightarrow> Inl NilDereference
      | Some r1 # _ \<Rightarrow>
          let addr1 = ts_addr r1
          in if known vpm (dp_Src p)
             then ts_answers ps (mark (\<lambda>vp. vp\<lparr>vp_Timestamp := True, vp_RecordRoute := True\<rparr>) (dp_Src p) vpm)
             else if known vpm addr1 then ts_answers ps (mark (\<lambda>vp. vp\<lparr>vp_Timestamp := True\<rparr>) addr1 vpm)
             else go_bind (unmatched p vpm) (ts_answers ps))"

fun spoof_answers :: "ctl_ping list \<Rightarrow> vp_map \<Rightarrow> vp_map go" where
  "spoof_answers [] vpm = Inr vpm"
| "spoof_answers (p # ps) vpm =
     (if known vpm (dp_SpoofedFrom p)
      then spoof_answers ps (mark (\<lambda>vp. vp\<lparr>vp_RecSpoof := True\<rparr>) (dp_Dst p)
             (mark (\<lambda>vp. vp\<lparr>vp_Spoof := True\<rparr>) (dp_SpoofedFrom p) vpm))
      else go_bind (unmatched p vpm) (spoof_answers ps))"

definition ping_answers :: "uint32 \<Rightarrow> ctl_ping list \<Rightarrow> vp_map \<Rightarrow> vp_map" where
  "ping_answers src ps vpm =
     foldl (\<lambda>m p. if dp_Error p = [] \<and> dp_Responses p \<noteq> [] then mark (\<lambda>vp. vp\<lparr>vp_Ping := True\<rparr>) src m else m) vpm ps"

definition trace_answers :: "uint32 \<Rightarrow> trace_answer list \<Rightarrow> vp_map \<Rightarrow> vp_map" where
  "trace_answers src ts vpm =
     foldl (\<lambda>m t. if ta_Error t = [] then mark (\<lambda>vp. vp\<lparr>vp_Trace := True\<rparr>) src m else m) vpm ts"

record test_client =
  tc_Ping :: "ping_measurement list \<Rightarrow> string + ctl_ping list"
  tc_Traceroute :: "traceroute_measurement list \<Rightarrow> string + trace_answer list"

definition received :: "string + 'a list \<Rightarrow> 'a list" where
  "received r = (case r of Inl _ \<Rightarrow> [] | Inr xs \<Rightarrow> xs)"

definition rr_tests :: "ping_measurement list \<Rightarrow> ping_measurement list" where
  "rr_tests pms = map (\<lambda>pm. pm\<lparr>pm_RR := True\<rparr>) pms"

definition testRR :: "test_client \<Rightarrow> ping_measurement list \<Rightarrow> vp_map \<Rightarrow> vp_map go" where
  "testRR cl pms vpm = rr_answers (received (tc_Ping cl (rr_tests pms))) vpm"

definition ts_tests :: "ping_measurement list \<Rightarrow> ping_measurement list" where
  "ts_tests pms = map (\<lambda>pm. pm\<lparr>pm_RR := False,
     pm_TimeStamp := ''tsprespec='' @ ip_str (pm_Src pm) @ '','' @ ip_str (pm_Dst pm)\<rparr>) pms"

definition testTS :: "test_client \<Rightarrow> ping_measurement list \<Rightarrow> vp_map \<Rightarrow> vp_map go" where
  "testTS cl pms vpm = ts_answers (received (tc_Ping cl (ts_tests pms))) vpm"

definition spoof_tests :: "ping_measurement list \<Rightarrow> ping_measurement list" where
  "spoof_tests pms = map (\<lambda>(i, pm). pm\<lparr>pm_RR := False, pm_TimeStamp := [],
     pm_Spoof := True, pm_SAddr := ip_str (pm_Src (pms ! ((i + 1) mod length pms)))\<rparr>) (enumerate 0 pms)"

definition testSpoof :: "test_client \<Rightarrow> ping_measurement list \<Rightarrow> vp_map \<Rightarrow> vp_map go" where
  "testSpoof cl pms vpm = spoof_answers (received (tc_Ping cl (spoof_tests pms))) vpm"

fun testPing :: "test_client \<Rightarrow> ping_measurement list \<Rightarrow> vp_map \<Rightarrow> vp_map" where
  "testPing cl [] vpm = vpm"
| "testPing cl (pm # pms) vpm = testPing cl pms (ping_answers (pm_Src pm) (received (tc_Ping cl [pm])) vpm)"

fun testTrace :: "test_client \<Rightarrow> traceroute_measurement list \<Rightarrow> vp_map \<Rightarrow> vp_map" where
  "testTrace cl [] vpm = vpm"
| "testTrace cl (tm # tms) vpm = testTrace cl tms (trace_answers (tm_Src tm) (received (tc_Traceroute cl [tm])) vpm)"

definition run_tests :: "test_client \<Rightarrow> vantage_point list \<Rightarrow> vp_map go" where
  "run_tests cl vps =
     (let tests = ping_tests vps
      in go_bind (testRR cl tests (vp_table vps [])) (\<lambda>vpm.
         go_bind (testTS cl tests vpm) (\<lambda>vpm.
         go_bind (testSpoof cl tests vpm) (\<lambda>vpm.
         Inr (testTrace cl (trace_tests vps) (testPing cl tests vpm))))))"

section \<open>Storing the outcome\<close>

fun store_tested :: "go_time \<Rightarrow> vantage_point list \<Rightarrow> vp_db \<Rightarrow> vp_db" where
  "store_tested now [] db = db"
| "store_tested now (vp # vps) db = store_tested now vps (UpdateVP now vp db)"

definition quarantines_of :: "go_time \<Rightarrow> vp_db \<Rightarrow> vantage_point list \<Rightarrow> quarantine list" where
  "quarantines_of now db vps =
     map (\<lambda>vp. NewDefaultQuarantine now vp (GetLastQuarantine (vp_Ip vp) db) CantPerformMeasurement)
       (filter shouldQuarantine vps)"

definition checkCapabilities :: "(vantage_point list \<Rightarrow> vantage_point list) \<Rightarrow> test_client \<Rightarrow> go_time \<Rightarrow> vp_db \<Rightarrow> vp_db go" where
  "checkCapabilities ord cl now db =
     go_bind (run_tests cl (GetVPsForTesting 50 db)) (\<lambda>vpm.
     let vps = ord (map snd vpm)
     in Inr (QuarantineVPs (quarantines_of now db vps) (store_tested now vps db)))"

section \<open>What the answers show\<close>

text \<open>From \<open>vpm\<close> to \<open>vpm'\<close> the vantage points stay, and exactly those of \<open>S\<close> become able to do something.\<close>

definition marks :: "uint32 set \<Rightarrow> vp_map \<Rightarrow> vp_map \<Rightarrow> bool" where
  "marks S vpm vpm' \<longleftrightarrow> map fst vpm' = map fst vpm \<and>
     (\<forall>k v. map_of vpm k = Some v \<longrightarrow> (\<exists>v'. map_of vpm' k = Some v' \<and> bare v' = bare v \<and>
        (shouldQuarantine v' \<longleftrightarrow> shouldQuarantine v \<and> k \<notin> S)))"

named_theorems marks_intro

lemma marks_refl [marks_intro]: "marks {} vpm vpm"
  by (simp add: marks_def)

lemma marks_trans:
  assumes "marks S a b" and "marks T b c"
  shows "marks (S \<union> T) a c"
  unfolding marks_def
proof (intro conjI allI impI)
  show "map fst c = map fst a" using assms by (simp add: marks_def)
  fix k v assume "map_of a k = Some v"
  then obtain v' where v': "map_of b k = Some v'" "bare v' = bare v" "shouldQuarantine v' \<longleftrightarrow> shouldQuarantine v \<and> k \<notin> S"
    using assms(1) unfolding marks_def by blast
  then obtain v'' where "map_of c k = Some v''" "bare v'' = bare v'" "shouldQuarantine v'' \<longleftrightarrow> shouldQuarantine v' \<and> k \<notin> T"
    using assms(2) unfolding marks_def by blast
  then show "\<exists>v''. map_of c k = Some v'' \<and> bare v'' = bare v \<and> (shouldQuarantine v'' \<longleftrightarrow> shouldQuarantine v \<and> k \<notin> S \<union> T)"
    using v' by auto
qed

lemma marks_trans_eq: "marks S a b \<Longrightarrow> marks T b c \<Longrightarrow> S \<union> T = U \<Longrightarrow> marks U a c"
  using marks_trans by blast

lemma marks_known: "marks S a b \<Longrightarrow> known b = known a"
  unfolding marks_def known_def by (metis set_map)

lemma map_of_mark: "map_of (mark f ip vpm) k = (if k = ip then map_option f (map_of vpm k) else map_of vpm k)"
  unfolding mark_def by (induction vpm) auto

lemma mark_keys: "map fst (mark f ip vpm) = map fst vpm"
  unfolding mark_def by (induction vpm) auto

lemma marks_mark:
  assumes "\<And>vp. bare (f vp) = bare vp" and "\<And>vp. shouldQuarantine (f vp) \<longleftrightarrow> shouldQuarantine vp \<and> \<not> able"
  shows "marks (if able then {ip} else {}) vpm (mark f ip vpm)"
  using assms by (auto simp: marks_def mark_keys map_of_mark)

lemma marks_able:
  assumes "\<And>vp. bare (f vp) = bare vp" and "\<And>vp. \<not> shouldQuarantine (f vp)"
  shows "marks {ip} vpm (mark f ip vpm)"
  using marks_mark [of f True ip vpm] assms by simp

lemma flags_able [simp]:
  "\<not> shouldQuarantine (vp\<lparr>vp_RecordRoute := True\<rparr>)" "\<not> shouldQuarantine (vp\<lparr>vp_Timestamp := True\<rparr>)"
  "\<not> shouldQuarantine (vp\<lparr>vp_Timestamp := True, vp_RecordRoute := True\<rparr>)" "\<not> shouldQuarantine (vp\<lparr>vp_Spoof := True\<rparr>)"
  "\<not> shouldQuarantine (vp\<lparr>vp_Ping := True\<rparr>)" "\<not> shouldQuarantine (vp\<lparr>vp_Trace := True\<rparr>)"
  "shouldQuarantine (vp\<lparr>vp_RecSpoof := True\<rparr>) = shouldQuarantine vp"
  by (simp_all add: shouldQuarantine_def)

lemma flags_bare [simp]:
  "bare (vp\<lparr>vp_RecordRoute := a\<rparr>) = bare vp" "bare (vp\<lparr>vp_Timestamp := a\<rparr>) = bare vp"
  "bare (vp\<lparr>vp_Timestamp := a, vp_RecordRoute := b\<rparr>) = bare vp" "bare (vp\<lparr>vp_Spoof := a\<rparr>) = bare vp"
  "bare (vp\<lparr>vp_Ping := a\<rparr>) = bare vp" "bare (vp\<lparr>vp_Trace := a\<rparr>) = bare vp" "bare (vp\<lparr>vp_RecSpoof := a\<rparr>) = bare vp"
  by (simp_all add: bare_def)

text \<open>Whom an answer of the record route or the timestamp test is taken to come from, and which answers are a nil dereference.\<close>

definition answer_source :: "(DMPingResponse \<Rightarrow> uint32) \<Rightarrow> (uint32 \<Rightarrow> bool) \<Rightarrow> ctl_ping \<Rightarrow> uint32 set" where
  "answer_source addr kn p =
     (case dp_Responses p of Some r1 # _ \<Rightarrow> if kn (dp_Src p) then {dp_Src p} else {addr r1} | _ \<Rightarrow> {})"

definition answer_fits :: "(DMPingResponse \<Rightarrow> uint32) \<Rightarrow> (uint32 \<Rightarrow> bool) \<Rightarrow> ctl_ping \<Rightarrow> bool" where
  "answer_fits addr kn p =
     (case dp_Responses p of [] \<Rightarrow> True | None # _ \<Rightarrow> False
      | Some r1 # _ \<Rightarrow> kn (dp_Src p) \<or> kn (addr r1) \<or> dp_Statistics p \<noteq> None)"

text \<open>Marking an address that is not in the table changes nothing, so it may be in \<open>S\<close>.\<close>

lemma marks_unknown: "\<not> known vpm ip \<Longrightarrow> marks {ip} vpm vpm"
  by (auto simp: marks_def known_def dest: map_of_SomeD) (metis image_eqI fst_conv map_of_SomeD)

lemma marks_step: "marks S a b \<Longrightarrow> marks (\<Union>p\<in>P. F (known b) p) b c \<Longrightarrow> marks (S \<union> (\<Union>p\<in>P. F (known a) p)) a c"
  using marks_trans marks_known by metis

text \<open>Both tests run the same loop.\<close>

fun answers_loop :: "(DMPingResponse \<Rightarrow> uint32) \<Rightarrow> (vantage_point \<Rightarrow> vantage_point) \<Rightarrow> (vantage_point \<Rightarrow> vantage_point)
    \<Rightarrow> ctl_ping list \<Rightarrow> vp_map \<Rightarrow> vp_map go" where
  "answers_loop addr f g [] vpm = Inr vpm"
| "answers_loop addr f g (p # ps) vpm =
     (case dp_Responses p of
        [] \<Rightarrow> answers_loop addr f g ps vpm
      | None # _ \<Rightarrow> Inl NilDereference
      | Some r1 # _ \<Rightarrow>
          if known vpm (dp_Src p) then answers_loop addr f g ps (mark f (dp_Src p) vpm)
          else if known vpm (addr r1) then answers_loop addr f g ps (mark g (addr r1) vpm)
          else go_bind (unmatched p vpm) (answers_loop addr f g ps))"

lemma rr_answers_loop: "rr_answers ps vpm = answers_loop rr_addr (\<lambda>vp. vp\<lparr>vp_RecordRoute := True\<rparr>) (\<lambda>vp. vp\<lparr>vp_RecordRoute := True\<rparr>) ps vpm"
proof (induction ps arbitrary: vpm)
  case (Cons p ps)
  then have "rr_answers ps = answers_loop rr_addr (\<lambda>vp. vp\<lparr>vp_RecordRoute := True\<rparr>) (\<lambda>vp. vp\<lparr>vp_RecordRoute := True\<rparr>) ps" by blast
  then show ?case by (simp add: Let_def split: list.split option.split)
qed simp

lemma ts_answers_loop: "ts_answers ps vpm = answers_loop ts_addr (\<lambda>vp. vp\<lparr>vp_Timestamp := True, vp_RecordRoute := True\<rparr>)
    (\<lambda>vp. vp\<lparr>vp_Timestamp := True\<rparr>) ps vpm"
proof (induction ps arbitrary: vpm)
  case (Cons p ps)
  then have "ts_answers ps = answers_loop ts_addr (\<lambda>vp. vp\<lparr>vp_Timestamp := True, vp_RecordRoute := True\<rparr>)
    (\<lambda>vp. vp\<lparr>vp_Timestamp := True\<rparr>) ps" by blast
  then show ?case by (simp add: Let_def split: list.split option.split)
qed simp

lemma answers_loop_spec:
  assumes f: "\<And>vp. bare (f vp) = bare vp" "\<And>vp. \<not> shouldQuarantine (f vp)"
    and g: "\<And>vp. bare (g vp) = bare vp" "\<And>vp. \<not> shouldQuarantine (g vp)"
  shows "if list_all (answer_fits addr (known vpm)) ps
   then \<exists>vpm'. answers_loop addr f g ps vpm = Inr vpm' \<and> marks (\<Union>p\<in>set ps. answer_source addr (known vpm) p) vpm vpm'
   else answers_loop addr f g ps vpm = Inl NilDereference"
proof (induction ps arbitrary: vpm)
  case Nil
  then show ?case by (simp add: marks_refl)
next
  case (Cons p ps)
  have go: ?case if "answers_loop addr f g (p # ps) vpm = answers_loop addr f g ps vpm1" "marks S vpm vpm1"
    "answer_source addr (known vpm) p = S" "answer_fits addr (known vpm) p" for S vpm1
    using Cons.IH [of vpm1] marks_step [OF that(2), of "answer_source addr" "set ps"] that
    by (auto simp: marks_known [OF that(2)])
  show ?case
  proof (cases "dp_Responses p")
    case Nil
    then show ?thesis by (intro go [OF _ marks_refl]) (simp_all add: answer_fits_def answer_source_def)
  next
    case r: (Cons r rs)
    show ?thesis
    proof (cases r)
      case None
      then show ?thesis by (simp add: r answer_fits_def)
    next
      case (Some r1)
      consider "known vpm (dp_Src p)" | "\<not> known vpm (dp_Src p)" "known vpm (addr r1)"
        | "\<not> known vpm (dp_Src p)" "\<not> known vpm (addr r1)" "dp_Statistics p \<noteq> None"
        | "\<not> known vpm (dp_Src p)" "\<not> known vpm (addr r1)" "dp_Statistics p = None" by blast
      then show ?thesis
      proof cases
        case 1
        then show ?thesis by (intro go [OF _ marks_able [of f "dp_Src p"]]) (simp_all add: r Some answer_source_def answer_fits_def f)
      next
        case 2
        then show ?thesis by (intro go [OF _ marks_able [of g "addr r1"]]) (simp_all add: r Some answer_source_def answer_fits_def g)
      next
        case 3
        then show ?thesis
          by (intro go [OF _ marks_unknown [of vpm "addr r1"]]) (auto simp: r Some answer_source_def answer_fits_def unmatched_def)
      next
        case 4
        then show ?thesis by (simp add: r Some answer_fits_def unmatched_def)
      qed
    qed
  qed
qed

lemmas rr_answers_spec = answers_loop_spec [of "\<lambda>vp. vp\<lparr>vp_RecordRoute := True\<rparr>" "\<lambda>vp. vp\<lparr>vp_RecordRoute := True\<rparr>" rr_addr,
  folded rr_answers_loop, simplified]
lemmas ts_answers_spec = answers_loop_spec [of "\<lambda>vp. vp\<lparr>vp_Timestamp := True, vp_RecordRoute := True\<rparr>" "\<lambda>vp. vp\<lparr>vp_Timestamp := True\<rparr>" ts_addr,
  folded ts_answers_loop, simplified]

definition spoof_fits :: "(uint32 \<Rightarrow> bool) \<Rightarrow> ctl_ping \<Rightarrow> bool" where
  "spoof_fits kn p \<longleftrightarrow> kn (dp_SpoofedFrom p) \<or> dp_Statistics p \<noteq> None"

lemma spoof_answers_spec:
  "if list_all (spoof_fits (known vpm)) ps
   then \<exists>vpm'. spoof_answers ps vpm = Inr vpm' \<and> marks (dp_SpoofedFrom ` set ps) vpm vpm'
   else spoof_answers ps vpm = Inl NilDereference"
proof (induction ps arbitrary: vpm)
  case Nil
  then show ?case by (simp add: marks_refl)
next
  case (Cons p ps)
  let ?m = "mark (\<lambda>vp. vp\<lparr>vp_Spoof := True\<rparr>) (dp_SpoofedFrom p) vpm"
  let ?m' = "mark (\<lambda>vp. vp\<lparr>vp_RecSpoof := True\<rparr>) (dp_Dst p) ?m"
  have go: ?case if "spoof_answers (p # ps) vpm = spoof_answers ps vpm1" "marks {dp_SpoofedFrom p} vpm vpm1"
    "spoof_fits (known vpm) p" for vpm1
    using Cons.IH [of vpm1] marks_trans [OF that(2), of "dp_SpoofedFrom ` set ps"] that
    by (auto simp: marks_known [OF that(2)])
  have "marks {} ?m ?m'" using marks_mark [of "\<lambda>vp. vp\<lparr>vp_RecSpoof := True\<rparr>" False] by simp
  then have m: "marks {dp_SpoofedFrom p} vpm ?m'"
    using marks_trans [OF marks_able [of "\<lambda>vp. vp\<lparr>vp_Spoof := True\<rparr>" "dp_SpoofedFrom p" vpm]] by fastforce
  show ?case
  proof (cases "known vpm (dp_SpoofedFrom p)")
    case True
    then show ?thesis by (intro go [OF _ m]) (simp_all add: spoof_fits_def)
  next
    case False
    show ?thesis
    proof (cases "dp_Statistics p")
      case None
      then show ?thesis using False by (simp add: spoof_fits_def unmatched_def)
    next
      case (Some st)
      then show ?thesis using False
        by (intro go [OF _ marks_unknown [OF False]]) (simp_all add: spoof_fits_def unmatched_def)
    qed
  qed
qed

text \<open>The tests of single measurements.\<close>

definition ping_shows :: "ctl_ping list \<Rightarrow> bool" where
  "ping_shows ps \<longleftrightarrow> (\<exists>p\<in>set ps. dp_Error p = [] \<and> dp_Responses p \<noteq> [])"

definition trace_shows :: "trace_answer list \<Rightarrow> bool" where
  "trace_shows ts \<longleftrightarrow> (\<exists>t\<in>set ts. ta_Error t = [])"

lemma marks_foldl:
  assumes "\<And>vp. bare (f vp) = bare vp" and "\<And>vp. \<not> shouldQuarantine (f vp)"
  shows "marks (if \<exists>x\<in>set xs. P x then {ip} else {}) vpm (foldl (\<lambda>m x. if P x then mark f ip m else m) vpm xs)"
proof (induction xs arbitrary: vpm)
  case Nil
  then show ?case by (simp add: marks_refl)
next
  case (Cons x xs)
  have "marks (if P x then {ip} else {}) vpm (if P x then mark f ip vpm else vpm)"
    using marks_able [of f ip vpm] marks_refl assms by simp
  then show ?case unfolding foldl_Cons by (rule marks_trans_eq [OF _ Cons.IH]) auto
qed

lemma testPing_spec:
  "marks (pm_Src ` {pm \<in> set pms. ping_shows (received (tc_Ping cl [pm]))}) vpm (testPing cl pms vpm)"
proof (induction pms arbitrary: vpm)
  case Nil
  then show ?case by (simp add: marks_refl)
next
  case (Cons pm pms)
  let ?ps = "received (tc_Ping cl [pm])"
  have "marks (if ping_shows ?ps then {pm_Src pm} else {}) vpm (ping_answers (pm_Src pm) ?ps vpm)"
    unfolding ping_answers_def ping_shows_def by (rule marks_foldl) simp_all
  then show ?case unfolding testPing.simps by (rule marks_trans_eq [OF _ Cons.IH]) auto
qed

lemma testTrace_spec:
  "marks (tm_Src ` {tm \<in> set tms. trace_shows (received (tc_Traceroute cl [tm]))}) vpm (testTrace cl tms vpm)"
proof (induction tms arbitrary: vpm)
  case Nil
  then show ?case by (simp add: marks_refl)
next
  case (Cons tm tms)
  let ?ts = "received (tc_Traceroute cl [tm])"
  have "marks (if trace_shows ?ts then {tm_Src tm} else {}) vpm (trace_answers (tm_Src tm) ?ts vpm)"
    unfolding trace_answers_def trace_shows_def by (rule marks_foldl) simp_all
  then show ?case unfolding testTrace.simps by (rule marks_trans_eq [OF _ Cons.IH]) auto
qed

section \<open>The whole check\<close>

definition tested :: "vantage_point list \<Rightarrow> uint32 \<Rightarrow> bool" where
  "tested vps ip \<longleftrightarrow> ip \<in> vp_Ip ` set vps"

text \<open>The addresses some answer is attributed to, test by test.\<close>

definition shown :: "test_client \<Rightarrow> vantage_point list \<Rightarrow> uint32 set" where
  "shown cl vps =
     (\<Union>p\<in>set (received (tc_Ping cl (rr_tests (ping_tests vps)))). answer_source rr_addr (tested vps) p) \<union>
     (\<Union>p\<in>set (received (tc_Ping cl (ts_tests (ping_tests vps)))). answer_source ts_addr (tested vps) p) \<union>
     dp_SpoofedFrom ` set (received (tc_Ping cl (spoof_tests (ping_tests vps)))) \<union>
     pm_Src ` {pm \<in> set (ping_tests vps). ping_shows (received (tc_Ping cl [pm]))} \<union>
     tm_Src ` {tm \<in> set (trace_tests vps). trace_shows (received (tc_Traceroute cl [tm]))}"

definition answers_fit :: "test_client \<Rightarrow> vantage_point list \<Rightarrow> bool" where
  "answers_fit cl vps \<longleftrightarrow>
     list_all (answer_fits rr_addr (tested vps)) (received (tc_Ping cl (rr_tests (ping_tests vps)))) \<and>
     list_all (answer_fits ts_addr (tested vps)) (received (tc_Ping cl (ts_tests (ping_tests vps)))) \<and>
     list_all (spoof_fits (tested vps)) (received (tc_Ping cl (spoof_tests (ping_tests vps))))"

lemma vp_table_eq:
  "distinct (map vp_Ip vps) \<Longrightarrow> fst ` set vpm \<inter> vp_Ip ` set vps = {} \<Longrightarrow>
    vp_table vps vpm = vpm @ map (\<lambda>vp. (vp_Ip vp, unable vp)) vps"
proof (induction vps arbitrary: vpm)
  case (Cons vp vps)
  have "AList.update (vp_Ip vp) (unable vp) vpm = vpm @ [(vp_Ip vp, unable vp)]"
    using Cons.prems(2) by (induction vpm) auto
  then show ?case using Cons by auto
qed simp

lemma run_tests_spec:
  assumes "distinct (map vp_Ip vps)"
  shows "if answers_fit cl vps then \<exists>vpm. run_tests cl vps = Inr vpm \<and> marks (shown cl vps) (vp_table vps []) vpm
    else run_tests cl vps = Inl NilDereference"
proof -
  let ?t = "vp_table vps []"
  let ?tests = "ping_tests vps"
  let ?rr = "received (tc_Ping cl (rr_tests ?tests))" and ?ts = "received (tc_Ping cl (ts_tests ?tests))"
    and ?sp = "received (tc_Ping cl (spoof_tests ?tests))"
  have k: "known ?t = tested vps"
    by (rule ext) (simp add: vp_table_eq [OF assms] known_def tested_def image_image)
  note rr = rr_answers_spec [of ?t ?rr, unfolded k, folded testRR_def]
  show ?thesis
  proof (cases "list_all (answer_fits rr_addr (tested vps)) ?rr")
    case False
    then show ?thesis using rr by (simp add: run_tests_def answers_fit_def Let_def testRR_def)
  next
    case rrf: True
    then obtain m1 where m1: "testRR cl ?tests ?t = Inr m1" "marks (\<Union>p\<in>set ?rr. answer_source rr_addr (tested vps) p) ?t m1"
      using rr by (auto simp: testRR_def)
    note k1 = marks_known [OF m1(2), unfolded k]
    note ts = ts_answers_spec [of m1 ?ts, unfolded k1]
    show ?thesis
    proof (cases "list_all (answer_fits ts_addr (tested vps)) ?ts")
      case False
      then show ?thesis using ts m1 by (simp add: run_tests_def answers_fit_def Let_def testTS_def)
    next
      case tsf: True
      then obtain m2 where m2: "testTS cl ?tests m1 = Inr m2" "marks (\<Union>p\<in>set ?ts. answer_source ts_addr (tested vps) p) m1 m2"
        using ts by (auto simp: testTS_def)
      note k2 = marks_known [OF m2(2), unfolded k1]
      note sp = spoof_answers_spec [of m2 ?sp, unfolded k2]
      show ?thesis
      proof (cases "list_all (spoof_fits (tested vps)) ?sp")
        case False
        then show ?thesis using sp m1 m2 by (simp add: run_tests_def answers_fit_def Let_def testSpoof_def)
      next
        case True
        then obtain m3 where m3: "testSpoof cl ?tests m2 = Inr m3" "marks (dp_SpoofedFrom ` set ?sp) m2 m3"
          using sp by (auto simp: testSpoof_def)
        have "run_tests cl vps = Inr (testTrace cl (trace_tests vps) (testPing cl ?tests m3))"
          by (simp add: run_tests_def Let_def m1 m2 m3)
        moreover have "marks (shown cl vps) ?t (testTrace cl (trace_tests vps) (testPing cl ?tests m3))"
          unfolding shown_def
          by (rule marks_trans [OF marks_trans [OF marks_trans [OF marks_trans [OF m1(2) m2(2)] m3(2)] testPing_spec] testTrace_spec])
        moreover have "answers_fit cl vps" using rrf tsf True by (simp add: answers_fit_def)
        ultimately show ?thesis by simp
      qed
    qed
  qed
qed

lemma store_tested_quar: "db_quar (store_tested now vps db) = db_quar db \<and>
    map (vp_Ip \<circ> vr_vp) (db_vps (store_tested now vps db)) = map (vp_Ip \<circ> vr_vp) (db_vps db)"
proof (induction vps arbitrary: db)
  case (Cons vp vps)
  have "db_quar (UpdateVP now vp db) = db_quar db \<and> map (vp_Ip \<circ> vr_vp) (db_vps (UpdateVP now vp db)) = map (vp_Ip \<circ> vr_vp) (db_vps db)"
    by (auto simp: UpdateVP_def)
  then show ?case using Cons [of "UpdateVP now vp db"] unfolding store_tested.simps by metis
qed simp

lemma tested_distinct: "distinct (ips_of db) \<Longrightarrow> distinct (map vp_Ip (GetVPsForTesting n db))"
proof -
  assume "distinct (ips_of db)"
  then have "distinct (map (vp_Ip \<circ> vr_vp) (sort_key vr_last_check (db_vps db)))"
    using mset_eq_imp_distinct_iff mset_map mset_sort by metis
  then show ?thesis by (simp add: GetVPsForTesting_def take_map [symmetric] distinct_take)
qed

lemma checked_addresses:
  assumes "rearrangement ord" and "distinct (map vp_Ip vps)" and "marks S (vp_table vps []) vpm"
  shows "(vp_Ip \<circ> q_VP) ` set (quarantines_of now db (ord (map snd vpm))) = vp_Ip ` {vp \<in> set vps. vp_Ip vp \<notin> S}"
proof -
  have t: "vp_table vps [] = map (\<lambda>vp. (vp_Ip vp, unable vp)) vps" using vp_table_eq [OF assms(2), of "[]"] by simp
  have keys: "map fst vpm = map vp_Ip vps" using assms(3) by (simp add: marks_def t comp_def)
  have d: "distinct (map fst vpm)" using keys assms(2) by simp
  have entry: "\<exists>v. (vp_Ip vp, v) \<in> set vpm \<and> vp_Ip v = vp_Ip vp \<and> (shouldQuarantine v \<longleftrightarrow> vp_Ip vp \<notin> S)"
    if "vp \<in> set vps" for vp
  proof -
    have "map_of (vp_table vps []) (vp_Ip vp) = Some (unable vp)"
      using assms(2) that unfolding t by (intro map_of_is_SomeI) (auto simp: comp_def)
    then obtain v where v: "map_of vpm (vp_Ip vp) = Some v" "bare v = bare (unable vp)"
      "shouldQuarantine v \<longleftrightarrow> shouldQuarantine (unable vp) \<and> vp_Ip vp \<notin> S" using assms(3) unfolding marks_def by blast
    moreover have "vp_Ip v = vp_Ip vp" using v(2) bare_Ip(1) [of v] bare_Ip(1) [of "unable vp"] by (simp add: unable_def)
    moreover have "shouldQuarantine (unable vp)" by (simp add: shouldQuarantine_def unable_def)
    ultimately show ?thesis using map_of_SomeD [OF v(1)] by blast
  qed
  have "vp_Ip ` {v \<in> set (map snd vpm). shouldQuarantine v} = vp_Ip ` {vp \<in> set vps. vp_Ip vp \<notin> S}"
  proof (intro equalityI subsetI)
    fix ip assume "ip \<in> vp_Ip ` {v \<in> set (map snd vpm). shouldQuarantine v}"
    then obtain k v where v: "(k, v) \<in> set vpm" "shouldQuarantine v" "ip = vp_Ip v" by auto
    then have "k \<in> set (map vp_Ip vps)" unfolding keys [symmetric] by force
    then obtain vp where vp: "vp \<in> set vps" "k = vp_Ip vp" by auto
    then obtain v' where "(k, v') \<in> set vpm" "vp_Ip v' = k" "shouldQuarantine v' \<longleftrightarrow> k \<notin> S" using entry by blast
    moreover from this have "v' = v" using eq_key_imp_eq_value [OF d] v(1) by blast
    ultimately show "ip \<in> vp_Ip ` {vp \<in> set vps. vp_Ip vp \<notin> S}" using v vp by auto
  next
    fix ip assume "ip \<in> vp_Ip ` {vp \<in> set vps. vp_Ip vp \<notin> S}"
    then obtain vp where "vp \<in> set vps" "ip = vp_Ip vp" "ip \<notin> S" by auto
    then obtain v where v: "(ip, v) \<in> set vpm" "vp_Ip v = ip" "shouldQuarantine v" using entry by blast
    have "v \<in> set (map snd vpm)" using imageI [OF v(1), of snd] by simp
    then show "ip \<in> vp_Ip ` {v \<in> set (map snd vpm). shouldQuarantine v}" using v by blast
  qed
  moreover have "q_VP (NewDefaultQuarantine now vp prev reason) = vp" for vp prev reason
    by (simp add: NewDefaultQuarantine_def new_quarantine_def Let_def)
  ultimately show ?thesis
    by (auto simp: quarantines_of_def rearrangement.set_ord [OF assms(1)] image_image)
qed

lemma check_capabilities:
  assumes "rearrangement ord" and "distinct (ips_of db)"
  shows "if answers_fit cl (GetVPsForTesting 50 db)
    then \<exists>qs db1. checkCapabilities ord cl now db = Inr (QuarantineVPs qs db1) \<and> db_quar db1 = db_quar db \<and>
      ips_of db1 = ips_of db \<and>
      (vp_Ip \<circ> q_VP) ` set qs =
        vp_Ip ` {vp \<in> set (GetVPsForTesting 50 db). vp_Ip vp \<notin> shown cl (GetVPsForTesting 50 db)}
    else checkCapabilities ord cl now db = Inl NilDereference"
proof -
  let ?vps = "GetVPsForTesting 50 db"
  note d = tested_distinct [OF assms(2), of 50] and r = run_tests_spec [OF tested_distinct [OF assms(2), of 50], of cl]
  show ?thesis
  proof (cases "answers_fit cl ?vps")
    case True
    then obtain vpm where vpm: "run_tests cl ?vps = Inr vpm" "marks (shown cl ?vps) (vp_table ?vps []) vpm" using r by auto
    show ?thesis
      using True vpm(1) checked_addresses [OF assms(1) d vpm(2), of now db] store_tested_quar [of now "ord (map snd vpm)" db]
      by (auto simp: checkCapabilities_def Let_def)
  next
    case False
    then show ?thesis using r by (simp add: checkCapabilities_def)
  qed
qed

section \<open>Properties\<close>

text \<open>
  C23. A round of tests quarantines exactly the tested vantage points no answer is attributed to, and keeps who
  is in the table; it panics exactly if an answer fits no tested vantage point and comes without
  statistics, as the errors of the controller do.
\<close>

theorem capability_check_outcome:
  assumes "rearrangement ord" and "distinct (ips_of db)"
  shows "if answers_fit cl (GetVPsForTesting 50 db)
    then \<exists>qs db1. checkCapabilities ord cl now db = Inr (QuarantineVPs qs db1) \<and> db_quar db1 = db_quar db \<and>
      ips_of db1 = ips_of db \<and>
      (vp_Ip \<circ> q_VP) ` set qs =
        vp_Ip ` {vp \<in> set (GetVPsForTesting 50 db). vp_Ip vp \<notin> shown cl (GetVPsForTesting 50 db)}
    else checkCapabilities ord cl now db = Inl NilDereference"
  by (rule check_capabilities [OF assms])

text \<open>A controller without a service for the spoofer answers the spoof test of two sites with errors.\<close>

definition ex_two_sites :: vp_db where
  "ex_two_sites = ex_db\<lparr>db_vps := [\<lparr>vr_vp = ex_vp, vr_last_check = 0\<rparr>,
     \<lparr>vr_vp = ex_vp\<lparr>vp_Ip := 9, vp_Site := ''other''\<rparr>, vr_last_check = 0\<rparr>]\<rparr>"

definition ex_refusing :: test_client where
  "ex_refusing = \<lparr>tc_Ping = (\<lambda>pms. Inr (map (\<lambda>pm. error_ping pm ''no service'') pms)), tc_Traceroute = (\<lambda>_. Inr [])\<rparr>"

lemma ex_testing: "GetVPsForTesting 50 ex_two_sites = [ex_vp, ex_vp\<lparr>vp_Ip := 9, vp_Site := ''other''\<rparr>]"
  by (simp add: GetVPsForTesting_def ex_two_sites_def)

theorem capability_check_outcome_witness:
  "checkCapabilities insertion_order ex_refusing 0 ex_two_sites = Inl NilDereference"
proof -
  have "\<not> answers_fit ex_refusing (GetVPsForTesting 50 ex_two_sites)"
    by (simp add: ex_testing answers_fit_def spoof_fits_def spoof_tests_def ping_tests_def pairs_def ex_vp_def ex_refusing_def
        received_def error_ping_def zero_ctl_ping_def tested_def)
  moreover have "distinct (ips_of ex_two_sites)" by (simp add: ex_two_sites_def ex_vp_def)
  ultimately show ?thesis
    using capability_check_outcome [OF insertion_order.rearrangement_axioms, of ex_two_sites ex_refusing 0] by simp
qed

text \<open>
  Vantage points of one site are not tested against each other: if all tested ones belong to one site,
  each of them is taken to be unable to measure and put into quarantine, whatever they can do.
\<close>

lemma one_site_all_quarantined:
  assumes "rearrangement ord" and "distinct (ips_of db)"
    and "\<forall>vp\<in>set (GetVPsForTesting 50 db). vp_Site vp = s" and "tc_Ping cl [] = Inr []"
  shows "\<exists>qs db1. checkCapabilities ord cl now db = Inr (QuarantineVPs qs db1) \<and> db_quar db1 = db_quar db \<and>
    (vp_Ip \<circ> q_VP) ` set qs = vp_Ip ` set (GetVPsForTesting 50 db)"
proof -
  let ?vps = "GetVPsForTesting 50 db"
  have "pairs ?vps = []" using assms(3) by (auto simp: pairs_def)
  then have t: "ping_tests ?vps = []" "trace_tests ?vps = []" by (simp_all add: ping_tests_def trace_tests_def)
  then have "answers_fit cl ?vps" "shown cl ?vps = {}"
    using assms(4) by (simp_all add: answers_fit_def shown_def rr_tests_def ts_tests_def spoof_tests_def received_def)
  then show ?thesis using check_capabilities [OF assms(1,2), of cl now] by auto
qed

end
