(* ===== verification/AtlasRepo.thy ===== *)
theory AtlasRepo
  imports PbTypes
begin

text \<open>
  \<open>atlas/repo/repo.go\<close> over the tables of \<open>doc/sql/traceroute_atlas.sql\<close>: traceroutes towards a destination,
  their hops, and which addresses are aliases. A table is the list of its rows in the order of insertion,
  a time a number of seconds, and among traceroutes of the same second the first one inserted counts as
  the newest. Broken connections are not modelled.
\<close>

section \<open>Tables\<close>

record atlas_trace =
  at_Id :: nat
  at_Dest :: uint32
  at_Src :: uint32
  at_Date :: int

record atlas_hop_row =
  ahr_Trace :: nat
  ahr_Hop :: uint32
  ahr_Ttl :: uint32

record alias_row =
  al_Cluster :: int
  al_Ip :: uint32

record atlas_db =
  ad_traces :: "atlas_trace list"
  ad_hops :: "atlas_hop_row list"
  ad_aliases :: "alias_row list"
  ad_next :: nat

section \<open>Queries\<close>

record intersection_query =
  iq_Addr :: uint32
  iq_Dst :: uint32
  iq_Src :: uint32
  iq_Stale :: int64
  iq_Alias :: bool
  iq_IgnoreSource :: bool

definition minute :: int64 where
  "minute = 60000000000"

text \<open>\<open>int64(d.Minutes())\<close>: whole minutes, towards zero.\<close>

definition minutes_of :: "int64 \<Rightarrow> int" where
  "minutes_of d = sgn (sint d) * (\<bar>sint d\<bar> div sint minute)"

text \<open>\<open>select ? IP union select b.ip_address from ip_aliases a inner join ip_aliases b\<close>\<close>

definition alias_set :: "atlas_db \<Rightarrow> uint32 \<Rightarrow> uint32 list" where
  "alias_set db ip = ip # [al_Ip b. a \<leftarrow> ad_aliases db, b \<leftarrow> ad_aliases db, al_Cluster a = al_Cluster b, al_Ip a = ip]"

definition hops_of :: "atlas_db \<Rightarrow> nat \<Rightarrow> atlas_hop_row list" where
  "hops_of db i = filter (\<lambda>h. ahr_Trace h = i) (ad_hops db)"

definition recent :: "int \<Rightarrow> int64 \<Rightarrow> atlas_trace \<Rightarrow> bool" where
  "recent now stale t = (now - 60 * minutes_of stale \<le> at_Date t)"

definition matches :: "atlas_db \<Rightarrow> int \<Rightarrow> intersection_query \<Rightarrow> atlas_trace \<Rightarrow> bool" where
  "matches db now iq t \<longleftrightarrow> at_Dest t = iq_Dst iq \<and> recent now (iq_Stale iq) t \<and>
     (iq_IgnoreSource iq \<longrightarrow> at_Src t \<noteq> iq_Src iq) \<and>
     (\<exists>h\<in>set (hops_of db (at_Id t)). ahr_Hop h \<in> set (alias_set db (iq_Addr iq)))"

text \<open>\<open>order by date desc limit 1\<close>\<close>

definition newest :: "atlas_trace list \<Rightarrow> atlas_trace option" where
  "newest ts = (case sort_key (\<lambda>t. - at_Date t) ts of [] \<Rightarrow> None | t # _ \<Rightarrow> Some t)"

text \<open>
  The rows of the outer query: source address asked for, hop and TTL of every hop of the traceroute found,
  by TTL. No rows are \<open>ErrNoIntFound\<close>, here \<open>None\<close>.
\<close>

definition FindIntersectingTraceroute :: "int \<Rightarrow> intersection_query \<Rightarrow> atlas_db \<Rightarrow> atlas_path option" where
  "FindIntersectingTraceroute now iq db =
     (let rows = (case newest (filter (matches db now iq) (ad_traces db)) of
            None \<Rightarrow> [] | Some t \<Rightarrow> sort_key ahr_Ttl (hops_of db (at_Id t)))
      in if rows = [] then None
         else Some \<lparr>ap_Address = iq_Addr iq, ap_Dest = 0,
                ap_Hops = map (\<lambda>r. \<lparr>ah_Ip = ahr_Hop r, ah_Ttl = ahr_Ttl r\<rparr>) rows\<rparr>)"

definition GetAtlasSources :: "int \<Rightarrow> uint32 \<Rightarrow> int64 \<Rightarrow> atlas_db \<Rightarrow> uint32 list" where
  "GetAtlasSources now dst stale db =
     remdups (map at_Src (filter (\<lambda>t. at_Dest t = dst \<and> recent now stale t) (ad_traces db)))"

section \<open>Storing\<close>

text \<open>
  The source is hop 0. The id of the new row is converted to 32 bits with a sign: from \<open>2\<^sup>3\<^sup>1\<close> on it is no id of
  the table of traceroutes, and the insertion of hops fails.
\<close>

definition StoreAtlasTraceroute :: "int \<Rightarrow> traceroute \<Rightarrow> atlas_db \<Rightarrow> atlas_db option" where
  "StoreAtlasTraceroute now trace db =
     (if 2 ^ 31 \<le> ad_next db then None
      else Some (db\<lparr>ad_traces := ad_traces db @ [\<lparr>at_Id = ad_next db, at_Dest = trc_Dst trace, at_Src = trc_Src trace, at_Date = now\<rparr>],
        ad_hops := ad_hops db @ \<lparr>ahr_Trace = ad_next db, ahr_Hop = trc_Src trace, ahr_Ttl = 0\<rparr> #
          map (\<lambda>h. \<lparr>ahr_Trace = ad_next db, ahr_Hop = th_Addr h, ahr_Ttl = th_ProbeTtl h\<rparr>) (trc_Hops trace),
        ad_next := ad_next db + 1\<rparr>))"

section \<open>What is found\<close>

lemma newest_None: "newest ts = None \<longleftrightarrow> ts = []"
proof -
  have "sort_key (\<lambda>t. - at_Date t) ts = [] \<longleftrightarrow> ts = []" by (metis length_0_conv length_sort)
  then show ?thesis unfolding newest_def by (cases "sort_key (\<lambda>t. - at_Date t) ts") auto
qed

lemma newest_Some: "newest ts = Some t \<Longrightarrow> t \<in> set ts \<and> (\<forall>u\<in>set ts. at_Date u \<le> at_Date t)"
proof -
  assume "newest ts = Some t"
  then obtain us where s: "sort_key (\<lambda>t. - at_Date t) ts = t # us" by (auto simp: newest_def split: list.splits)
  have "set ts = set (t # us)" using s by (metis set_sort)
  moreover have "sorted (map (\<lambda>t. - at_Date t) (t # us))" using sorted_sort_key [of "\<lambda>t. - at_Date t" ts] s by simp
  ultimately show ?thesis by auto
qed

lemma newest_unique: "newest ts = Some t \<Longrightarrow> u \<in> set ts \<Longrightarrow> (\<And>v. v \<in> set ts \<Longrightarrow> v \<noteq> u \<Longrightarrow> at_Date v < at_Date u) \<Longrightarrow> t = u"
  using newest_Some by fastforce

text \<open>Every row belongs to one traceroute, and ids are given out in order.\<close>

definition atlas_db_ok :: "atlas_db \<Rightarrow> bool" where
  "atlas_db_ok db \<longleftrightarrow> distinct (map at_Id (ad_traces db)) \<and> (\<forall>t\<in>set (ad_traces db). at_Id t < ad_next db) \<and>
     (\<forall>h\<in>set (ad_hops db). ahr_Trace h < ad_next db)"

lemma StoreAtlasTraceroute_ok: "atlas_db_ok db \<Longrightarrow> StoreAtlasTraceroute now t db = Some db' \<Longrightarrow> atlas_db_ok db'"
  by (auto simp: StoreAtlasTraceroute_def atlas_db_ok_def less_Suc_eq split: if_splits) fastforce+

lemma alias_set_aliases: "ad_aliases db' = ad_aliases db \<Longrightarrow> alias_set db' = alias_set db"
  by (simp add: alias_set_def fun_eq_iff)

definition path_of_rows :: "uint32 \<Rightarrow> atlas_hop_row list \<Rightarrow> atlas_path" where
  "path_of_rows addr rows = \<lparr>ap_Address = addr, ap_Dest = 0,
     ap_Hops = map (\<lambda>r. \<lparr>ah_Ip = ahr_Hop r, ah_Ttl = ahr_Ttl r\<rparr>) (sort_key ahr_Ttl rows)\<rparr>"

lemma find_newest:
  "FindIntersectingTraceroute now iq db =
    (case newest (filter (matches db now iq) (ad_traces db)) of
       None \<Rightarrow> None | Some t \<Rightarrow> Some (path_of_rows (iq_Addr iq) (hops_of db (at_Id t))))"
proof (cases "newest (filter (matches db now iq) (ad_traces db))")
  case None
  then show ?thesis by (simp add: FindIntersectingTraceroute_def)
next
  case (Some t)
  then have "matches db now iq t" using newest_Some [OF Some] by simp
  then have "hops_of db (at_Id t) \<noteq> []" by (auto simp: matches_def)
  then have "sort_key ahr_Ttl (hops_of db (at_Id t)) \<noteq> []" by (metis length_0_conv length_sort)
  then show ?thesis using Some by (simp add: FindIntersectingTraceroute_def path_of_rows_def)
qed

lemma find_outcome:
  "case FindIntersectingTraceroute now iq db of
     None \<Rightarrow> \<not> (\<exists>t\<in>set (ad_traces db). matches db now iq t)
   | Some p \<Rightarrow> \<exists>t\<in>set (ad_traces db). matches db now iq t \<and>
       (\<forall>u\<in>set (ad_traces db). matches db now iq u \<longrightarrow> at_Date u \<le> at_Date t) \<and>
       p = path_of_rows (iq_Addr iq) (hops_of db (at_Id t))"
proof (cases "newest (filter (matches db now iq) (ad_traces db))")
  case None
  then have "\<not> (\<exists>t\<in>set (ad_traces db). matches db now iq t)" by (simp add: newest_None filter_empty_conv)
  then show ?thesis using None by (simp add: find_newest)
next
  case (Some t)
  then show ?thesis using newest_Some [OF Some] by (auto simp: find_newest)
qed

text \<open>The rows a traceroute is stored in, and the path they make.\<close>

definition trace_path :: "uint32 \<Rightarrow> traceroute \<Rightarrow> atlas_path" where
  "trace_path addr t = \<lparr>ap_Address = addr, ap_Dest = 0,
     ap_Hops = \<lparr>ah_Ip = trc_Src t, ah_Ttl = 0\<rparr> # map (\<lambda>h. \<lparr>ah_Ip = th_Addr h, ah_Ttl = th_ProbeTtl h\<rparr>) (trc_Hops t)\<rparr>"

lemma stored_found:
  assumes ok: "atlas_db_ok db" and st: "StoreAtlasTraceroute date t db = Some db'"
    and older: "\<forall>u\<in>set (ad_traces db). at_Dest u = trc_Dst t \<longrightarrow> at_Date u < date"
    and ttls: "sorted (map th_ProbeTtl (trc_Hops t))"
    and iq: "iq_Dst iq = trc_Dst t" "\<not> (iq_IgnoreSource iq \<and> iq_Src iq = trc_Src t)"
      "now - 60 * minutes_of (iq_Stale iq) \<le> date"
    and hop: "set (alias_set db (iq_Addr iq)) \<inter> insert (trc_Src t) (th_Addr ` set (trc_Hops t)) \<noteq> {}"
  shows "FindIntersectingTraceroute now iq db' = Some (trace_path (iq_Addr iq) t)"
proof -
  let ?t = "\<lparr>at_Id = ad_next db, at_Dest = trc_Dst t, at_Src = trc_Src t, at_Date = date\<rparr>"
  let ?rows = "\<lparr>ahr_Trace = ad_next db, ahr_Hop = trc_Src t, ahr_Ttl = 0\<rparr> #
    map (\<lambda>h. \<lparr>ahr_Trace = ad_next db, ahr_Hop = th_Addr h, ahr_Ttl = th_ProbeTtl h\<rparr>) (trc_Hops t)"
  have db': "ad_traces db' = ad_traces db @ [?t]" "ad_hops db' = ad_hops db @ ?rows" "ad_aliases db' = ad_aliases db"
    using st by (auto simp: StoreAtlasTraceroute_def split: if_splits)
  have new: "hops_of db' (ad_next db) = ?rows"
    using ok by (auto simp: hops_of_def db' atlas_db_ok_def filter_empty_conv comp_def)
  have m: "matches db' now iq ?t"
    using iq hop by (auto simp: matches_def recent_def new alias_set_aliases [OF db'(3)])
  have "\<exists>s. newest (filter (matches db' now iq) (ad_traces db')) = Some s"
    using m by (cases "newest (filter (matches db' now iq) (ad_traces db'))") (auto simp: newest_None filter_empty_conv db')
  then obtain s where s: "newest (filter (matches db' now iq) (ad_traces db')) = Some s" by blast
  have "s = ?t"
  proof (rule newest_unique [OF s])
    show "?t \<in> set (filter (matches db' now iq) (ad_traces db'))" using m by (simp add: db')
    fix v assume "v \<in> set (filter (matches db' now iq) (ad_traces db'))" and "v \<noteq> ?t"
    then have "v \<in> set (ad_traces db')" "matches db' now iq v" by auto
    then have "v \<in> set (ad_traces db)" "at_Dest v = trc_Dst t" using \<open>v \<noteq> ?t\<close> iq(1) by (auto simp: db' matches_def)
    then show "at_Date v < at_Date ?t" using older by simp
  qed
  moreover have "sort_key ahr_Ttl ?rows = ?rows" using ttls by (intro sort_key_id_if_sorted) (simp add: comp_def)
  ultimately show ?thesis using s by (simp add: find_newest path_of_rows_def new trace_path_def del: sort_key_simps)
qed

end
