(* ===== verification/TokenCache.thy ===== *)
theory TokenCache
  imports PbTypes "HOL-Library.AList"
begin

text \<open>
  The tokens of the atlas (\<open>tokenCache\<close> of \<open>atlas/server/server.go\<close>): a request that found no path is kept
  under a number in a cache, the vendored least recently used cache \<open>golang-lru\<close>. The cache is the list of
  its entries, the most recently used first. The tokens rely on the interface \<open>request_cache\<close> only.
\<close>

section \<open>The cache\<close>

record 'v lru =
  lru_size :: nat
  lru_entries :: "(string \<times> 'v) list"

definition lru_Add :: "string \<Rightarrow> 'v \<Rightarrow> 'v lru \<Rightarrow> 'v lru" where
  "lru_Add k v c =
     (if k \<in> fst ` set (lru_entries c) then c\<lparr>lru_entries := (k, v) # AList.delete k (lru_entries c)\<rparr>
      else let es = (k, v) # lru_entries c
           in c\<lparr>lru_entries := (if lru_size c < length es then butlast es else es)\<rparr>)"

definition lru_Get :: "string \<Rightarrow> 'v lru \<Rightarrow> 'v option \<times> 'v lru" where
  "lru_Get k c =
     (case map_of (lru_entries c) k of
        Some v \<Rightarrow> (Some v, c\<lparr>lru_entries := (k, v) # AList.delete k (lru_entries c)\<rparr>)
      | None \<Rightarrow> (None, c))"

definition lru_Remove :: "string \<Rightarrow> 'v lru \<Rightarrow> 'v lru" where
  "lru_Remove k c = c\<lparr>lru_entries := AList.delete k (lru_entries c)\<rparr>"

definition lru_New :: "nat \<Rightarrow> 'v lru" where
  "lru_New n = \<lparr>lru_size = n, lru_entries = []\<rparr>"

section \<open>Tokens\<close>

text \<open>
  Over any cache. A token is the counter after its atomic increment; the cache's error is the only one, as
  nothing but requests is ever added.
\<close>

definition token_key :: "uint32 \<Rightarrow> string" where
  "token_key i = show_nat (unat i)"

definition tc_Add :: "(string \<Rightarrow> intersection_request \<Rightarrow> 'c \<Rightarrow> 'c) \<Rightarrow> intersection_request \<Rightarrow> uint32 \<times> 'c
    \<Rightarrow> uint32 \<times> (uint32 \<times> 'c)" where
  "tc_Add add ir tc = (let new = fst tc + 1 in (new, (new, add (token_key new) ir (snd tc))))"

definition tc_Get :: "(string \<Rightarrow> 'c \<Rightarrow> intersection_request option \<times> 'c) \<Rightarrow> uint32 \<Rightarrow> uint32 \<times> 'c
    \<Rightarrow> (string + intersection_request) \<times> (uint32 \<times> 'c)" where
  "tc_Get get i tc =
     (case get (token_key i) (snd tc) of
        (Some ir, c) \<Rightarrow> (Inr ir, (fst tc, c))
      | (None, c) \<Rightarrow> (Inl (''Failed to get cached token for id: '' @ show_nat (unat i)), (fst tc, c)))"

definition tc_Remove :: "(string \<Rightarrow> 'c \<Rightarrow> 'c) \<Rightarrow> uint32 \<Rightarrow> uint32 \<times> 'c \<Rightarrow> uint32 \<times> 'c" where
  "tc_Remove remove i tc = (fst tc, remove (token_key i) (snd tc))"

section \<open>What tokens rely on\<close>

text \<open>
  An entry just added is there, looking up changes no contents, removing takes out one entry; adding may
  push out others.
\<close>

locale request_cache =
  fixes add :: "string \<Rightarrow> intersection_request \<Rightarrow> 'c \<Rightarrow> 'c"
    and get :: "string \<Rightarrow> 'c \<Rightarrow> intersection_request option \<times> 'c"
    and remove :: "string \<Rightarrow> 'c \<Rightarrow> 'c"
    and contents :: "'c \<Rightarrow> string \<rightharpoonup> intersection_request"
    and ok :: "'c \<Rightarrow> bool"
  assumes add_ok: "ok c \<Longrightarrow> ok (add k v c)"
    and get_ok: "ok c \<Longrightarrow> ok (snd (get k c))"
    and remove_ok: "ok c \<Longrightarrow> ok (remove k c)"
    and add_found: "ok c \<Longrightarrow> contents (add k v c) k = Some v"
    and add_other: "ok c \<Longrightarrow> k' \<noteq> k \<Longrightarrow> contents (add k v c) k' \<in> {None, contents c k'}"
    and get_contents: "ok c \<Longrightarrow> fst (get k c) = contents c k"
    and get_same: "ok c \<Longrightarrow> contents (snd (get k c)) = contents c"
    and remove_contents: "ok c \<Longrightarrow> contents (remove k c) = (contents c)(k := None)"
begin

text \<open>
  Which request each token stands for: the last one it was given out for, if it was not redeemed since.
\<close>

definition tokens_ok :: "(uint32 \<rightharpoonup> intersection_request) \<Rightarrow> uint32 \<times> 'c \<Rightarrow> bool" where
  "tokens_ok live tc \<longleftrightarrow> ok (snd tc) \<and> (\<forall>i ir. contents (snd tc) (token_key i) = Some ir \<longrightarrow> live i = Some ir)"

lemma token_key_inject: "token_key i = token_key j \<longleftrightarrow> i = j"
  unfolding token_key_def show_nat_inject by (rule word_unat_eq_iff [symmetric])

lemma tc_Add_ok:
  assumes "tokens_ok live tc" and "tc_Add add ir tc = (i, tc')"
  shows "tokens_ok (live(i \<mapsto> ir)) tc'" and "contents (snd tc') (token_key i) = Some ir"
proof -
  have ok: "ok (snd tc)" using assms(1) by (simp add: tokens_ok_def)
  have i: "i = fst tc + 1" and tc': "tc' = (i, add (token_key i) ir (snd tc))"
    using assms(2) by (auto simp: tc_Add_def Let_def)
  show "contents (snd tc') (token_key i) = Some ir" using add_found [OF ok] by (simp add: tc')
  have "(live(i \<mapsto> ir)) j = Some r" if "contents (snd tc') (token_key j) = Some r" for j r
  proof (cases "j = i")
    case True
    then show ?thesis using that add_found [OF ok] by (simp add: tc')
  next
    case False
    then have "token_key j \<noteq> token_key i" by (simp add: token_key_inject)
    from add_other [OF ok this, of ir] have "contents (snd tc) (token_key j) = Some r"
      using that unfolding tc' by simp
    then show ?thesis using assms(1) False by (simp add: tokens_ok_def)
  qed
  then show "tokens_ok (live(i \<mapsto> ir)) tc'" using add_ok [OF ok] by (simp add: tokens_ok_def tc')
qed

lemma tc_Get_ok:
  assumes "tokens_ok live tc" and "tc_Get get i tc = (r, tc')"
  shows "tokens_ok live tc'" and "r = Inr ir \<Longrightarrow> live i = Some ir"
    and "contents (snd tc) (token_key i) = Some ir \<Longrightarrow> r = Inr ir"
proof -
  have ok: "ok (snd tc)" using assms(1) by (simp add: tokens_ok_def)
  obtain v c where g: "get (token_key i) (snd tc) = (v, c)" by fastforce
  have v: "v = contents (snd tc) (token_key i)" and c: "contents c = contents (snd tc)" "ok c"
    using get_contents [OF ok, of "token_key i"] get_same [OF ok, of "token_key i"] get_ok [OF ok, of "token_key i"] g by simp_all
  have tc': "tc' = (fst tc, c)" using assms(2) g by (auto simp: tc_Get_def split: option.splits)
  then show "tokens_ok live tc'" using assms(1) c by (simp add: tokens_ok_def)
  show "r = Inr ir \<Longrightarrow> live i = Some ir"
    using assms g v by (auto simp: tc_Get_def tokens_ok_def split: option.splits)
  show "contents (snd tc) (token_key i) = Some ir \<Longrightarrow> r = Inr ir"
    using assms(2) g v by (auto simp: tc_Get_def)
qed

lemma tc_Remove_ok: "tokens_ok live tc \<Longrightarrow> tokens_ok (live(i := None)) (tc_Remove remove i tc)"
  using remove_contents remove_ok by (auto simp: tokens_ok_def tc_Remove_def token_key_inject)

end

section \<open>The cache is such a cache\<close>

definition lru_ok :: "'v lru \<Rightarrow> bool" where
  "lru_ok c \<longleftrightarrow> 0 < lru_size c \<and> distinct (map fst (lru_entries c)) \<and> length (lru_entries c) \<le> lru_size c"

definition lru_contents :: "'v lru \<Rightarrow> string \<rightharpoonup> 'v" where
  "lru_contents c = map_of (lru_entries c)"

lemma map_of_butlast: "distinct (map fst es) \<Longrightarrow> map_of (butlast es) k \<in> {None, map_of es k}"
proof (induction es)
  case (Cons e es)
  then show ?case by (cases "k = fst e") auto
qed simp

lemma distinct_butlast_keys: "distinct (map fst es) \<Longrightarrow> distinct (map fst (butlast es))"
  by (metis distinct_butlast map_butlast)

lemma delete_length: "k \<in> fst ` set es \<Longrightarrow> length (AList.delete k es) < length es"
proof -
  assume "k \<in> fst ` set es"
  then obtain v where "(k, v) \<in> set es" by auto
  then show ?thesis by (auto simp: AList.delete_eq intro: length_filter_less)
qed

lemma front_distinct: "distinct (map fst es) \<Longrightarrow> distinct (map fst ((k, v) # AList.delete k es))"
  by (simp add: delete_keys distinct_removeAll)

interpretation lru_cache: request_cache lru_Add lru_Get lru_Remove lru_contents lru_ok
proof
  fix c :: "intersection_request lru" and k k' :: string and v
  assume ok: "lru_ok c"
  then have d: "distinct (map fst (lru_entries c))" and n: "length (lru_entries c) \<le> lru_size c" and s: "0 < lru_size c"
    by (auto simp: lru_ok_def)
  have new: "k \<notin> fst ` set (lru_entries c) \<Longrightarrow> distinct (map fst ((k, v) # lru_entries c))" using d by simp
  show "lru_ok (lru_Add k v c)"
    using ok front_distinct [OF d] delete_length [of k "lru_entries c"] distinct_butlast_keys [OF new]
    by (cases "k \<in> fst ` set (lru_entries c)") (simp_all add: lru_Add_def lru_ok_def Let_def Suc_le_eq del: butlast.simps)
  show "lru_ok (snd (lru_Get k c))"
    using ok front_distinct [OF d] delete_length [of k "lru_entries c"]
    by (cases "map_of (lru_entries c) k") (auto simp: lru_Get_def lru_ok_def rev_image_eqI [OF map_of_SomeD] Suc_le_eq)
  show "lru_ok (lru_Remove k c)"
    using ok length_filter_le [of "\<lambda>(k', _). k \<noteq> k'" "lru_entries c"]
    by (auto simp: lru_Remove_def lru_ok_def distinct_delete AList.delete_eq [symmetric])
  show "lru_contents (lru_Add k v c) k = Some v"
    using s by (cases "lru_entries c") (auto simp: lru_Add_def lru_contents_def Let_def)
  show "lru_contents (lru_Add k v c) k' \<in> {None, lru_contents c k'}" if "k' \<noteq> k"
  proof (cases "k \<in> fst ` set (lru_entries c)")
    case True
    then show ?thesis using that by (simp add: lru_Add_def lru_contents_def delete_conv')
  next
    case False
    then show ?thesis using that map_of_butlast [OF new, of k']
      by (auto simp: lru_Add_def lru_contents_def Let_def)
  qed
  show "fst (lru_Get k c) = lru_contents c k" by (simp add: lru_Get_def lru_contents_def split: option.split)
  show "lru_contents (snd (lru_Get k c)) = lru_contents c"
    by (auto simp: lru_Get_def lru_contents_def delete_conv' split: option.split)
  show "lru_contents (lru_Remove k c) = (lru_contents c)(k := None)"
    by (auto simp: lru_Remove_def lru_contents_def delete_conv')
qed

section \<open>How long an entry stays\<close>

datatype cache_op = C_Add string intersection_request | C_Get string | C_Remove string

fun cache_step :: "cache_op \<Rightarrow> intersection_request lru \<Rightarrow> intersection_request lru" where
  "cache_step (C_Add k v) c = lru_Add k v c"
| "cache_step (C_Get k) c = snd (lru_Get k c)"
| "cache_step (C_Remove k) c = lru_Remove k c"

fun op_key :: "cache_op \<Rightarrow> string" where
  "op_key (C_Add k v) = k"
| "op_key (C_Get k) = k"
| "op_key (C_Remove k) = k"

text \<open>How many entries were used more recently.\<close>

fun before :: "string \<Rightarrow> (string \<times> 'v) list \<Rightarrow> nat" where
  "before k [] = 0"
| "before k (e # es) = (if fst e = k then 0 else Suc (before k es))"

lemma before_delete: "k' \<noteq> k \<Longrightarrow> before k (AList.delete k' es) \<le> before k es"
  by (induction es) (auto simp: AList.delete_eq)

lemma map_of_butlast_before:
  "map_of es k = Some v \<Longrightarrow> before k es + 1 < length es \<Longrightarrow> map_of (butlast es) k = Some v \<and> before k (butlast es) = before k es"
  by (induction es) (auto split: if_splits)

lemma cache_step_keeps:
  assumes "op_key op \<noteq> k" and "map_of (lru_entries c) k = Some v" and "Suc (before k (lru_entries c)) < lru_size c"
  shows "map_of (lru_entries (cache_step op c)) k = Some v \<and>
    before k (lru_entries (cache_step op c)) \<le> Suc (before k (lru_entries c)) \<and> lru_size (cache_step op c) = lru_size c"
proof (cases op)
  case (C_Add k' w)
  then have k': "k' \<noteq> k" using assms(1) by simp
  show ?thesis
  proof (cases "k' \<in> fst ` set (lru_entries c)")
    case True
    then show ?thesis using C_Add k' assms(2) before_delete [OF k', of "lru_entries c"]
      by (simp add: lru_Add_def delete_conv')
  next
    case False
    let ?es = "(k', w) # lru_entries c"
    have "map_of ?es k = Some v" "before k ?es = Suc (before k (lru_entries c))" using assms(2) k' by auto
    then show ?thesis
      using C_Add False assms(3) map_of_butlast_before [of ?es k v]
      by (simp add: lru_Add_def Let_def del: butlast.simps)
  qed
next
  case (C_Get k')
  then show ?thesis using assms before_delete [of k' k "lru_entries c"]
    by (auto simp: lru_Get_def delete_conv' split: option.split)
next
  case (C_Remove k')
  then show ?thesis using assms before_delete [of k' k "lru_entries c"]
    by (auto simp: lru_Remove_def delete_conv')
qed

lemma cache_run_keeps:
  "list_all (\<lambda>op. op_key op \<noteq> k) ops \<Longrightarrow> map_of (lru_entries c) k = Some v \<Longrightarrow>
    before k (lru_entries c) + length ops < lru_size c \<Longrightarrow>
    map_of (lru_entries (fold cache_step ops c)) k = Some v"
proof (induction ops arbitrary: c)
  case (Cons op ops)
  then have "Suc (before k (lru_entries c)) < lru_size c" by simp
  from cache_step_keeps [OF _ Cons.prems(2) this, of op] Cons show ?case by simp
qed simp

text \<open>An entry just added outlives any operations on others that are fewer than the size of the cache.\<close>

lemma added_entry_stays:
  assumes "0 < lru_size c" and "list_all (\<lambda>op. op_key op \<noteq> k) ops" and "length ops < lru_size c"
  shows "lru_contents (fold cache_step ops (lru_Add k v c)) k = Some v"
proof -
  have "\<exists>es. lru_entries (lru_Add k v c) = (k, v) # es"
    using assms(1) by (cases "lru_entries c") (auto simp: lru_Add_def Let_def)
  then obtain es where "lru_entries (lru_Add k v c) = (k, v) # es" by blast
  then have "map_of (lru_entries (lru_Add k v c)) k = Some v" "before k (lru_entries (lru_Add k v c)) = 0" by simp_all
  moreover have "lru_size (lru_Add k v c) = lru_size c" by (simp add: lru_Add_def Let_def)
  ultimately show ?thesis using cache_run_keeps [OF assms(2)] assms(3) by (simp add: lru_contents_def)
qed

end
