(* ===== verification/Atlas.thy ===== *)
theory Atlas
  imports AtlasRepo TokenCache
begin

text \<open>
  \<open>atlas/server/server.go\<close>: a request for a path from an address to a destination is answered from the
  stored traceroutes, or with a token while new traceroutes are run; the token can be redeemed once. Which
  sources run traceroutes to which destination is recorded, so that none runs two to the same one.

  The goroutine \<open>fillAtlas\<close> is split where it waits: it begins by choosing sources and asking the rate
  limiter, and ends when the answers are in. The state holds the goroutines that did not begin yet
  (\<open>as_pending\<close>) and those that wait for answers (\<open>as_jobs\<close>); \<open>as_lost\<close> records, for the statements only,
  what the limiter refused.
\<close>

section \<open>Running traceroutes\<close>

type_synonym running_traces = "uint32 \<rightharpoonup> uint32 list"

text \<open>The merge of two sorted slices: what is in either, and what is only in the second.\<close>

fun merge_sources :: "uint32 list \<Rightarrow> uint32 list \<Rightarrow> uint32 list \<times> uint32 list" where
  "merge_sources [] ds = (ds, ds)"
| "merge_sources (old # olds) [] = (old # olds, [])"
| "merge_sources (old # olds) (d # ds) =
     (if old < d then let (m, a) = merge_sources olds (d # ds) in (old # m, a)
      else if d < old then let (m, a) = merge_sources (old # olds) ds in (d # m, d # a)
      else let (m, a) = merge_sources olds ds in (old # m, a))"

definition TryAdd :: "uint32 \<Rightarrow> uint32 list \<Rightarrow> running_traces \<Rightarrow> uint32 list \<times> running_traces" where
  "TryAdd ip dsts rt =
     (case rt ip of
        Some old \<Rightarrow> let (merged, added) = merge_sources (sort old) (sort dsts) in (added, rt(ip \<mapsto> merged))
      | None \<Rightarrow> (dsts, rt(ip \<mapsto> dsts)))"

definition Remove :: "(uint32 list \<Rightarrow> uint32 list) \<Rightarrow> uint32 \<Rightarrow> uint32 list \<Rightarrow> running_traces \<Rightarrow> running_traces" where
  "Remove ord ip ds rt =
     (case rt ip of
        None \<Rightarrow> rt
      | Some running \<Rightarrow>
          let new = ord (filter (\<lambda>r. r \<notin> set ds) (remdups running))
          in if new \<noteq> [] then rt(ip \<mapsto> new) else rt(ip := None))"

section \<open>Choosing sources\<close>

text \<open>
  One vantage point per site among those not used lately, the last one seen; the hop itself, if it is one
  of them, replaces the one of its site.
\<close>

fun site_sources :: "uint32 list \<Rightarrow> uint32 \<Rightarrow> vantage_point list \<Rightarrow> (string \<times> vantage_point) list \<Rightarrow> vantage_point option
    \<Rightarrow> (string \<times> vantage_point) list \<times> vantage_point option" where
  "site_sources old hop [] sites src = (sites, src)"
| "site_sources old hop (vp # vps) sites src =
     (if vp_Ip vp \<in> set old then site_sources old hop vps sites src
      else site_sources old hop vps (AList.update (vp_Site vp) vp sites) (if vp_Ip vp = hop then Some vp else src))"

definition new_sources :: "(uint32 list \<Rightarrow> uint32 list) \<Rightarrow> uint32 list \<Rightarrow> uint32 \<Rightarrow> vantage_point list \<Rightarrow> uint32 list" where
  "new_sources ord old hop vps =
     (let (sites, srcIsVP) = site_sources old hop vps [] None;
          sites = (case srcIsVP of Some vp \<Rightarrow> AList.update (vp_Site vp) vp sites | None \<Rightarrow> sites)
      in ord (map (\<lambda>(_, vp). vp_Ip vp) sites))"

definition getSrcs :: "(uint32 list \<Rightarrow> uint32 list) \<Rightarrow> int \<Rightarrow> string + vantage_point list \<Rightarrow> uint32 \<Rightarrow> uint32 \<Rightarrow> int64
    \<Rightarrow> atlas_db \<Rightarrow> running_traces \<Rightarrow> uint32 list \<times> running_traces" where
  "getSrcs ord now GetVPs hop dest stale db rt =
     (case GetVPs of
        Inl _ \<Rightarrow> ([], rt)
      | Inr vps \<Rightarrow> TryAdd dest (new_sources ord (GetAtlasSources now dest (minute * stale) db) hop vps) rt)"

section \<open>The server\<close>

record atlas_state =
  as_db :: atlas_db
  as_tokens :: "uint32 \<times> intersection_request lru"
  as_running :: running_traces
  as_pending :: "(uint32 \<times> uint32 \<times> int64) list"
  as_jobs :: "(uint32 \<times> uint32 list) list"
  as_lost :: "(uint32 \<times> uint32 list) list"

definition query_of :: "intersection_request \<Rightarrow> intersection_query" where
  "query_of ir = \<lparr>iq_Addr = ir_Address ir, iq_Dst = ir_Dest ir, iq_Src = ir_Src ir, iq_Stale = ir_Staleness ir * minute,
     iq_Alias = ir_UseAliases ir, iq_IgnoreSource = ir_IgnoreSource ir\<rparr>"

definition with_staleness :: "intersection_request \<Rightarrow> intersection_request" where
  "with_staleness ir = (if ir_Staleness ir = 0 then ir\<lparr>ir_Staleness := 60\<rparr> else ir)"

definition GetIntersectingPath :: "int \<Rightarrow> intersection_request \<Rightarrow> atlas_state \<Rightarrow> intersection_response \<times> atlas_state" where
  "GetIntersectingPath now ir st =
     (let ir = with_staleness ir in
      case FindIntersectingTraceroute now (query_of ir) (as_db st) of
        Some path \<Rightarrow> (\<lparr>irp_Type = IR_PATH, irp_Token = 0, irp_Path = Some path, irp_Error = []\<rparr>, st)
      | None \<Rightarrow>
          let (token, tokens) = tc_Add lru_Add ir (as_tokens st)
          in (\<lparr>irp_Type = IR_TOKEN, irp_Token = token, irp_Path = None, irp_Error = []\<rparr>,
              st\<lparr>as_tokens := tokens, as_pending := as_pending st @ [(ir_Address ir, ir_Dest ir, ir_Staleness ir)]\<rparr>))"

definition GetPathsWithToken :: "int \<Rightarrow> uint32 \<Rightarrow> atlas_state \<Rightarrow> token_response \<times> atlas_state" where
  "GetPathsWithToken now token st =
     (case tc_Get lru_Get token (as_tokens st) of
        (Inl e, tokens) \<Rightarrow> (\<lparr>tr_Token = token, tr_Type = IR_ERROR, tr_Path = None, tr_Error = e\<rparr>, st\<lparr>as_tokens := tokens\<rparr>)
      | (Inr req, tokens) \<Rightarrow>
          let st = st\<lparr>as_tokens := tc_Remove lru_Remove token tokens\<rparr> in
          (case FindIntersectingTraceroute now (query_of req) (as_db st) of
             None \<Rightarrow> (\<lparr>tr_Token = token, tr_Type = IR_NONE_FOUND, tr_Path = None, tr_Error = []\<rparr>, st)
           | Some path \<Rightarrow> (\<lparr>tr_Token = token, tr_Type = IR_PATH, tr_Path = Some path, tr_Error = []\<rparr>, st)))"

text \<open>What the rate limiter says: more than it ever allows at once, never, or after some time.\<close>

datatype reservation = Refused | Never | Granted

definition fill_begin :: "(uint32 list \<Rightarrow> uint32 list) \<Rightarrow> (uint32 list \<Rightarrow> uint32 list) \<Rightarrow> (nat \<Rightarrow> reservation) \<Rightarrow> int
    \<Rightarrow> string + vantage_point list \<Rightarrow> uint32 \<times> uint32 \<times> int64 \<Rightarrow> atlas_state \<Rightarrow> atlas_state" where
  "fill_begin ord ord' reserve now GetVPs req st =
     (case req of (hop, dest, stale) \<Rightarrow>
      let (srcs, running) = getSrcs ord now GetVPs hop dest stale (as_db st) (as_running st)
      in if srcs = [] then st\<lparr>as_running := running\<rparr>
         else (case reserve (length srcs) of
             Refused \<Rightarrow> st\<lparr>as_running := running, as_lost := as_lost st @ [(dest, srcs)]\<rparr>
           | Never \<Rightarrow> st\<lparr>as_running := Remove ord' dest srcs running\<rparr>
           | Granted \<Rightarrow> st\<lparr>as_running := running, as_jobs := as_jobs st @ [(dest, srcs)]\<rparr>))"

text \<open>What is stored of the answers: traceroutes that reached their destination.\<close>

fun store_answers :: "int \<Rightarrow> traceroute list \<Rightarrow> atlas_db \<Rightarrow> atlas_db" where
  "store_answers now [] db = db"
| "store_answers now (t # ts) db =
     (if trc_Hops t = [] then store_answers now ts db
      else if th_Addr (last (trc_Hops t)) \<noteq> trc_Dst t then store_answers now ts db
      else store_answers now ts (case StoreAtlasTraceroute now t db of None \<Rightarrow> db | Some db' \<Rightarrow> db'))"

definition fill_end :: "(uint32 list \<Rightarrow> uint32 list) \<Rightarrow> int \<Rightarrow> string + traceroute list \<Rightarrow> uint32 \<times> uint32 list
    \<Rightarrow> atlas_state \<Rightarrow> atlas_state" where
  "fill_end ord now answers job st =
     (let db = (case answers of Inl _ \<Rightarrow> as_db st | Inr ts \<Rightarrow> store_answers now ts (as_db st))
      in st\<lparr>as_db := db, as_running := Remove ord (fst job) (snd job) (as_running st)\<rparr>)"

section \<open>Events\<close>

datatype atlas_event =
    Ask int intersection_request
  | Redeem int uint32
  | Begin "uint32 list \<Rightarrow> uint32 list" "uint32 list \<Rightarrow> uint32 list" "nat \<Rightarrow> reservation" int "string + vantage_point list" nat
  | End "uint32 list \<Rightarrow> uint32 list" int "string + traceroute list" nat

text \<open>The goroutine that goes on is given by its position.\<close>

definition remove_nth :: "nat \<Rightarrow> 'a list \<Rightarrow> 'a list" where
  "remove_nth n xs = take n xs @ drop (Suc n) xs"

fun apply_event :: "atlas_event \<Rightarrow> atlas_state \<Rightarrow> atlas_state" where
  "apply_event (Ask now ir) st = snd (GetIntersectingPath now ir st)"
| "apply_event (Redeem now i) st = snd (GetPathsWithToken now i st)"
| "apply_event (Begin ord ord' reserve now GetVPs n) st =
     (if n < length (as_pending st)
      then fill_begin ord ord' reserve now GetVPs (as_pending st ! n) (st\<lparr>as_pending := remove_nth n (as_pending st)\<rparr>)
      else st)"
| "apply_event (End ord now answers n) st =
     (if n < length (as_jobs st)
      then fill_end ord now answers (as_jobs st ! n) (st\<lparr>as_jobs := remove_nth n (as_jobs st)\<rparr>)
      else st)"

text \<open>The program starts with what is stored.\<close>

definition atlas_start :: "nat \<Rightarrow> atlas_db \<Rightarrow> atlas_state" where
  "atlas_start n db = \<lparr>as_db = db, as_tokens = (0, lru_New n), as_running = Map.empty, as_pending = [], as_jobs = [],
     as_lost = []\<rparr>"

section \<open>The merge is a union\<close>

lemma merge_sources_spec:
  "sorted_wrt (<) os \<Longrightarrow> sorted_wrt (<) ds \<Longrightarrow>
    sorted_wrt (<) (fst (merge_sources os ds)) \<and> set (fst (merge_sources os ds)) = set os \<union> set ds \<and>
    sorted_wrt (<) (snd (merge_sources os ds)) \<and> set (snd (merge_sources os ds)) = set ds - set os"
proof (induction os ds rule: merge_sources.induct)
  case (3 old olds d ds)
  have p: "(case x of (m, a) \<Rightarrow> (f m, g a)) = (f (fst x), g (snd x))" for f g :: "uint32 list \<Rightarrow> uint32 list" and x
    by (cases x) simp
  consider "old < d" | "d < old" | "old = d" by fastforce
  then show ?case
  proof cases
    case 1
    then show ?thesis using 3 by (auto simp: p)
  next
    case 2
    then show ?thesis using 3 by (auto simp: p)
  next
    case eq: 3
    then show ?thesis using 3 by (auto simp: p)
  qed
qed auto

lemma sorted_distinct_strict: "distinct xs \<Longrightarrow> sorted_wrt (<) (sort xs :: uint32 list)"
  by (simp add: strict_sorted_iff)

definition running_of :: "running_traces \<Rightarrow> uint32 \<Rightarrow> uint32 list" where
  "running_of rt ip = (case rt ip of Some xs \<Rightarrow> xs | None \<Rightarrow> [])"

lemma TryAdd_spec:
  assumes "distinct (running_of rt ip)" and "distinct ds" and "TryAdd ip ds rt = (added, rt')"
  shows "distinct added" and "set added = set ds - set (running_of rt ip)"
    and "distinct (running_of rt' ip)" and "set (running_of rt' ip) = set (running_of rt ip) \<union> set ds"
    and "ip' \<noteq> ip \<Longrightarrow> running_of rt' ip' = running_of rt ip'"
proof -
  have "distinct added \<and> set added = set ds - set (running_of rt ip) \<and> distinct (running_of rt' ip) \<and>
    set (running_of rt' ip) = set (running_of rt ip) \<union> set ds \<and> (ip' \<noteq> ip \<longrightarrow> running_of rt' ip' = running_of rt ip')"
  proof (cases "rt ip")
    case None
    then show ?thesis using assms(2,3) by (auto simp: TryAdd_def running_of_def)
  next
    case (Some old)
    then have "distinct old" using assms(1) by (simp add: running_of_def)
    obtain m a where ma: "merge_sources (sort old) (sort ds) = (m, a)" by fastforce
    then have "added = a" "rt' = rt(ip \<mapsto> m)" using assms(3) Some by (auto simp: TryAdd_def)
    then show ?thesis
      using merge_sources_spec [OF sorted_distinct_strict [OF \<open>distinct old\<close>] sorted_distinct_strict [OF assms(2)]] ma Some
      by (auto simp: running_of_def strict_sorted_iff)
  qed
  then show "distinct added" and "set added = set ds - set (running_of rt ip)"
    and "distinct (running_of rt' ip)" and "set (running_of rt' ip) = set (running_of rt ip) \<union> set ds"
    and "ip' \<noteq> ip \<Longrightarrow> running_of rt' ip' = running_of rt ip'" by blast+
qed

lemma Remove_spec:
  assumes "rearrangement ord"
  shows "distinct (running_of (Remove ord ip ds rt) ip) \<or> rt ip = None"
    and "set (running_of (Remove ord ip ds rt) ip) = set (running_of rt ip) - set ds"
    and "ip' \<noteq> ip \<Longrightarrow> running_of (Remove ord ip ds rt) ip' = running_of rt ip'"
  by (auto simp: Remove_def running_of_def Let_def rearrangement.set_ord [OF assms] rearrangement.distinct_ord [OF assms]
      rearrangement.ord_Nil_iff [OF assms] filter_empty_conv split: option.splits)

section \<open>Sources\<close>

lemma site_sources_entries:
  assumes "site_sources old hop vps sites src = (sites', src')"
  shows "set sites' \<subseteq> set sites \<union> {(vp_Site vp, vp) | vp. vp \<in> set vps \<and> vp_Ip vp \<notin> set old}"
    and "distinct (map fst sites) \<Longrightarrow> distinct (map fst sites')"
    and "src' = src \<or> (\<exists>vp\<in>set vps. vp_Ip vp \<notin> set old \<and> vp_Ip vp = hop \<and> src' = Some vp)"
  using assms
proof (induction vps arbitrary: sites src)
  case (Cons vp vps)
  have upd: "set (AList.update (vp_Site vp) vp sites) \<subseteq> insert (vp_Site vp, vp) (set sites)" for sites
    by (induction sites) auto
  {
    case 1
    then show ?case using Cons.IH(1) upd [of sites] by (fastforce split: if_splits)
  next
    case 2
    then show ?case using Cons.IH(2) by (auto split: if_splits intro: distinct_update)
  next
    case 3
    then show ?case using Cons.IH(3) by (fastforce split: if_splits)
  }
qed auto

lemma new_sources_spec:
  assumes ord: "rearrangement ord" and ips: "distinct (map vp_Ip vps)"
  shows "distinct (new_sources ord old hop vps)"
    and "set (new_sources ord old hop vps) \<subseteq> vp_Ip ` set vps - set old"
proof -
  obtain sites src where s: "site_sources old hop vps [] None = (sites, src)" by fastforce
  let ?new = "{(vp_Site vp, vp) | vp. vp \<in> set vps \<and> vp_Ip vp \<notin> set old}"
  note e = site_sources_entries [OF s]
  define sites' where "sites' = (case src of Some vp \<Rightarrow> AList.update (vp_Site vp) vp sites | None \<Rightarrow> sites)"
  have upd: "set (AList.update (vp_Site vp) vp sites) \<subseteq> insert (vp_Site vp, vp) (set sites)" for vp
    by (induction sites) auto
  have sub: "set sites' \<subseteq> ?new" using e(1,3) upd by (auto simp: sites'_def split: option.splits)
  have d: "distinct (map fst sites')" using e(2) by (auto simp: sites'_def distinct_update split: option.split)
  have "map fst sites' = map vp_Site (map snd sites')" using sub by auto
  then have "distinct (map snd sites')" using d by (metis distinct_map)
  moreover have "inj_on vp_Ip (set (map snd sites'))" 
  proof (rule inj_on_subset)
    show "inj_on vp_Ip (set vps)" using ips by (simp add: distinct_map)
    show "set (map snd sites') \<subseteq> set vps" using sub by auto
  qed
  ultimately have "distinct (map vp_Ip (map snd sites'))" using distinct_map [of vp_Ip "map snd sites'"] by blast
  moreover have n: "new_sources ord old hop vps = ord (map vp_Ip (map snd sites'))"
    by (cases src) (simp_all add: new_sources_def s sites'_def case_prod_unfold comp_def Let_def)
  ultimately show "distinct (new_sources ord old hop vps)" by (simp add: rearrangement.distinct_ord [OF ord])
  show "set (new_sources ord old hop vps) \<subseteq> vp_Ip ` set vps - set old"
    using sub by (auto simp: n rearrangement.set_ord [OF ord])
qed

section \<open>Invariants\<close>

text \<open>The sources of all goroutines, and of what was refused, for one destination.\<close>

definition busy :: "uint32 \<Rightarrow> (uint32 \<times> uint32 list) list \<Rightarrow> uint32 list" where
  "busy dest jobs = concat (map snd (filter (\<lambda>j. fst j = dest) jobs))"

lemma busy_simps [simp]: "busy dest [] = []" "busy dest ((d, srcs) # js) = (if d = dest then srcs @ busy dest js else busy dest js)"
  "busy dest (js @ js') = busy dest js @ busy dest js'"
  by (simp_all add: busy_def)

definition exclusive :: "atlas_state \<Rightarrow> bool" where
  "exclusive st \<longleftrightarrow> (\<forall>dest. distinct (running_of (as_running st) dest) \<and>
     distinct (busy dest (as_jobs st @ as_lost st)) \<and>
     set (running_of (as_running st) dest) = set (busy dest (as_jobs st @ as_lost st)))"

definition event_ok :: "atlas_event \<Rightarrow> bool" where
  "event_ok e \<longleftrightarrow> (case e of
       Ask now ir \<Rightarrow> True | Redeem now i \<Rightarrow> True
     | Begin ord ord' reserve now GetVPs n \<Rightarrow> rearrangement ord \<and> rearrangement ord' \<and>
         (case GetVPs of Inl _ \<Rightarrow> True | Inr vps \<Rightarrow> distinct (map vp_Ip vps))
     | End ord now answers n \<Rightarrow> rearrangement ord)"

lemma getSrcs_spec:
  assumes ord: "rearrangement ord" and vps: "case GetVPs of Inl _ \<Rightarrow> True | Inr vps \<Rightarrow> distinct (map vp_Ip vps)"
    and r: "\<And>d. distinct (running_of rt d)" and g: "getSrcs ord now GetVPs hop dest stale db rt = (srcs, rt')"
  shows "distinct srcs" and "set srcs \<inter> set (running_of rt dest) = {}" and "distinct (running_of rt' d)"
    and "set (running_of rt' dest) = set (running_of rt dest) \<union> set srcs" and "d \<noteq> dest \<Longrightarrow> running_of rt' d = running_of rt d"
proof -
  have "distinct srcs \<and> set srcs \<inter> set (running_of rt dest) = {} \<and> distinct (running_of rt' d) \<and>
    set (running_of rt' dest) = set (running_of rt dest) \<union> set srcs \<and> (d \<noteq> dest \<longrightarrow> running_of rt' d = running_of rt d)"
  proof (cases GetVPs)
    case (Inl e)
    then show ?thesis using g r by (simp add: getSrcs_def)
  next
    case (Inr vps')
    let ?new = "new_sources ord (GetAtlasSources now dest (minute * stale) db) hop vps'"
    have t: "TryAdd dest ?new rt = (srcs, rt')" using g Inr by (simp add: getSrcs_def)
    have "distinct ?new" using new_sources_spec(1) [OF ord] vps Inr by simp
    note T = TryAdd_spec [OF r this t]
    have "distinct (running_of rt' d)" using T(3,5) r by (cases "d = dest") auto
    then show ?thesis using T by auto
  qed
  then show "distinct srcs" and "set srcs \<inter> set (running_of rt dest) = {}" and "distinct (running_of rt' d)"
    and "set (running_of rt' dest) = set (running_of rt dest) \<union> set srcs" and "d \<noteq> dest \<Longrightarrow> running_of rt' d = running_of rt d"
    by blast+
qed

lemma Remove_distinct:
  "rearrangement ord \<Longrightarrow> distinct (running_of rt d) \<Longrightarrow> distinct (running_of (Remove ord ip ds rt) d)"
  by (auto simp: Remove_def running_of_def Let_def rearrangement.distinct_ord split: option.splits)

lemma fill_begin_exclusive:
  assumes ok: "event_ok (Begin ord ord' reserve now GetVPs n)" and ex: "exclusive st"
  shows "exclusive (fill_begin ord ord' reserve now GetVPs req st)"
proof -
  obtain hop dest stale where req: "req = (hop, dest, stale)" by (cases req)
  obtain srcs rt' where g: "getSrcs ord now GetVPs hop dest stale (as_db st) (as_running st) = (srcs, rt')" by fastforce
  have ord: "rearrangement ord" "rearrangement ord'" using ok by (auto simp: event_ok_def)
  have vps: "case GetVPs of Inl _ \<Rightarrow> True | Inr vps \<Rightarrow> distinct (map vp_Ip vps)" using ok by (simp add: event_ok_def)
  have run: "distinct (running_of (as_running st) d)" for d using ex by (simp add: exclusive_def)
  note G = getSrcs_spec [OF ord(1) vps run g]
  have grown: "distinct (busy d (as_jobs st @ as_lost st @ [(dest, srcs)])) \<and>
      set (running_of rt' d) = set (busy d (as_jobs st @ as_lost st @ [(dest, srcs)]))" for d
  proof (cases "d = dest")
    case True
    then show ?thesis using ex G(1,2,4) by (auto simp: exclusive_def)
  next
    case False
    then show ?thesis using ex G(5) [of d] by (simp add: exclusive_def)
  qed
  have perm: "mset (busy d (as_jobs st @ [(dest, srcs)] @ as_lost st)) = mset (busy d (as_jobs st @ as_lost st @ [(dest, srcs)]))" for d
    by simp
  have grown': "distinct (busy d (as_jobs st @ [(dest, srcs)] @ as_lost st)) \<and>
      set (running_of rt' d) = set (busy d (as_jobs st @ [(dest, srcs)] @ as_lost st))" for d
    using grown [of d] mset_eq_imp_distinct_iff [OF perm] mset_eq_setD [OF perm] by blast
  show ?thesis
  proof (cases "srcs = []")
    case True
    have "busy d (as_jobs st @ as_lost st @ [(dest, [])]) = busy d (as_jobs st @ as_lost st)" for d by simp
    then show ?thesis using grown G(3) unfolding True by (simp add: fill_begin_def req g exclusive_def True del: busy_simps)
  next
    case False
    show ?thesis
    proof (cases "reserve (length srcs)")
      case Refused
      then show ?thesis using False grown G(3) by (simp add: fill_begin_def req g exclusive_def del: busy_simps)
    next
      case Granted
      then show ?thesis using False grown' G(3) by (simp add: fill_begin_def req g exclusive_def del: busy_simps)
    next
      case Never
      have "set (running_of (Remove ord' dest srcs rt') d) = set (running_of (as_running st) d)" for d
        using Remove_spec(2,3) [OF ord(2)] G(2,4,5) by (cases "d = dest") auto
      moreover have "distinct (running_of (Remove ord' dest srcs rt') d)" for d by (rule Remove_distinct [OF ord(2) G(3)])
      ultimately show ?thesis using False Never ex by (simp add: fill_begin_def req g exclusive_def)
    qed
  qed
qed

lemma busy_remove_nth:
  assumes "n < length jobs" and "jobs ! n = (dest, srcs)"
  shows "mset (busy d jobs) = mset (busy d (remove_nth n jobs)) + (if d = dest then mset srcs else {#})"
proof -
  have "jobs = take n jobs @ (dest, srcs) # drop (Suc n) jobs" using assms id_take_nth_drop by metis
  then have "busy d jobs = busy d (take n jobs @ (dest, srcs) # drop (Suc n) jobs)" by simp
  then show ?thesis by (simp add: remove_nth_def)
qed

lemma fill_end_exclusive:
  assumes "rearrangement ord" and ex: "exclusive st" and n: "n < length (as_jobs st)"
  shows "exclusive (fill_end ord now answers (as_jobs st ! n) (st\<lparr>as_jobs := remove_nth n (as_jobs st)\<rparr>))"
proof -
  obtain dest srcs where j: "as_jobs st ! n = (dest, srcs)" by (cases "as_jobs st ! n")
  let ?js = "remove_nth n (as_jobs st) @ as_lost st"
  have m: "mset (busy d (as_jobs st @ as_lost st)) = mset (busy d ?js) + (if d = dest then mset srcs else {#})" for d
    using busy_remove_nth [OF n j, of d] by simp
  have d: "distinct (busy d ?js @ (if d = dest then srcs else []))" for d
  proof -
    have "mset (busy d (as_jobs st @ as_lost st)) = mset (busy d ?js @ (if d = dest then srcs else []))" using m [of d] by simp
    moreover have "distinct (busy d (as_jobs st @ as_lost st))" using ex by (simp only: exclusive_def)
    ultimately show ?thesis using mset_eq_imp_distinct_iff by blast
  qed
  have s: "set (busy d (as_jobs st @ as_lost st)) = set (busy d ?js) \<union> (if d = dest then set srcs else {})" for d
    using arg_cong [OF m [of d], of set_mset] by (auto split: if_splits)
  have "set (running_of (Remove ord dest srcs (as_running st)) e) = set (busy e ?js)" for e
  proof (cases "e = dest")
    case True
    then show ?thesis using Remove_spec(2) [OF assms(1)] ex d [of e] s [of e] by (auto simp: exclusive_def)
  next
    case False
    then show ?thesis using Remove_spec(3) [OF assms(1)] ex s [of e] by (simp add: exclusive_def)
  qed
  moreover have "distinct (running_of (Remove ord dest srcs (as_running st)) e)" for e
    using ex by (intro Remove_distinct [OF assms(1)]) (simp add: exclusive_def)
  moreover have "distinct (busy e ?js)" for e using d [of e] unfolding distinct_append by blast
  ultimately show ?thesis by (simp add: fill_end_def j exclusive_def)
qed

lemma exclusive_cong: "as_running st' = as_running st \<Longrightarrow> as_jobs st' = as_jobs st \<Longrightarrow> as_lost st' = as_lost st \<Longrightarrow>
    exclusive st' = exclusive st"
  by (simp add: exclusive_def)

lemma requests_leave: "as_running (snd (GetIntersectingPath now ir st)) = as_running st"
  "as_jobs (snd (GetIntersectingPath now ir st)) = as_jobs st" "as_lost (snd (GetIntersectingPath now ir st)) = as_lost st"
  "as_db (snd (GetIntersectingPath now ir st)) = as_db st"
  "as_running (snd (GetPathsWithToken now i st)) = as_running st"
  "as_jobs (snd (GetPathsWithToken now i st)) = as_jobs st" "as_lost (snd (GetPathsWithToken now i st)) = as_lost st"
  "as_db (snd (GetPathsWithToken now i st)) = as_db st"
  by (auto simp: GetIntersectingPath_def GetPathsWithToken_def Let_def split: option.split prod.split sum.split)

lemma apply_event_exclusive: "event_ok e \<Longrightarrow> exclusive st \<Longrightarrow> exclusive (apply_event e st)"
proof (induction e st rule: apply_event.induct)
  case (1 now ir st)
  then show ?case using exclusive_cong requests_leave by (metis apply_event.simps(1))
next
  case (2 now i st)
  then show ?case using exclusive_cong requests_leave by (metis apply_event.simps(2))
next
  case (3 ord ord' reserve now GetVPs n st)
  have "exclusive (st\<lparr>as_pending := remove_nth n (as_pending st)\<rparr>)" using 3(2) by (simp add: exclusive_def)
  then show ?case using fill_begin_exclusive [OF 3(1)] 3(2) by simp
next
  case (4 ord now answers n st)
  then show ?case using fill_end_exclusive [of ord st n] by (simp add: event_ok_def)
qed

lemma run_exclusive: "list_all event_ok es \<Longrightarrow> exclusive (fold apply_event es (atlas_start n db))"
proof -
  have "list_all event_ok es \<Longrightarrow> exclusive st \<Longrightarrow> exclusive (fold apply_event es st)" for st
    by (induction es arbitrary: st) (auto simp: apply_event_exclusive)
  moreover have "exclusive (atlas_start n db)" by (simp add: exclusive_def atlas_start_def running_of_def)
  ultimately show "list_all event_ok es \<Longrightarrow> exclusive (fold apply_event es (atlas_start n db))" by blast
qed

section \<open>Tokens\<close>

text \<open>What an event does to the cache of tokens.\<close>

fun token_ops :: "atlas_event \<Rightarrow> atlas_state \<Rightarrow> cache_op list" where
  "token_ops (Ask now ir) st =
     (case FindIntersectingTraceroute now (query_of (with_staleness ir)) (as_db st) of
        Some _ \<Rightarrow> [] | None \<Rightarrow> [C_Add (token_key (fst (as_tokens st) + 1)) (with_staleness ir)])"
| "token_ops (Redeem now i) st = [C_Get (token_key i)] @
     (case fst (lru_Get (token_key i) (snd (as_tokens st))) of None \<Rightarrow> [] | Some _ \<Rightarrow> [C_Remove (token_key i)])"
| "token_ops (Begin ord ord' reserve now GetVPs n) st = []"
| "token_ops (End ord now answers n) st = []"

lemma fill_leaves_tokens: "as_tokens (fill_begin ord ord' reserve now GetVPs req st) = as_tokens st"
  "as_tokens (fill_end ord now answers job st) = as_tokens st"
  by (auto simp: fill_begin_def fill_end_def Let_def split: prod.split reservation.split)

lemma apply_event_cache:
  "snd (as_tokens (apply_event e st)) = fold cache_step (token_ops e st) (snd (as_tokens st))"
proof (induction e st rule: apply_event.induct)
  case (2 now i st)
  show ?case
    by (cases "lru_Get (token_key i) (snd (as_tokens st))")
      (auto simp: GetPathsWithToken_def tc_Get_def tc_Remove_def Let_def split: option.split)
qed (auto simp: GetIntersectingPath_def tc_Add_def Let_def fill_leaves_tokens split: option.split)

fun leaves_token :: "uint32 \<Rightarrow> atlas_event \<Rightarrow> bool" where
  "leaves_token i (Redeem now j) = (j \<noteq> i)"
| "leaves_token i _ = True"

lemma apply_event_next:
  "fst (as_tokens (apply_event e st)) = fst (as_tokens st) + of_bool (\<exists>k v. C_Add k v \<in> set (token_ops e st))"
proof (induction e st rule: apply_event.induct)
  case (2 now i st)
  show ?case
    by (cases "lru_Get (token_key i) (snd (as_tokens st))")
      (auto simp: GetPathsWithToken_def tc_Get_def tc_Remove_def Let_def split: option.split)
qed (auto simp: GetIntersectingPath_def tc_Add_def Let_def fill_leaves_tokens split: option.split)

lemma token_ops_length: "length (token_ops e st) \<le> 2"
  by (cases e) (auto split: option.split)

text \<open>
  A token just given out stays in the cache through any events that do not redeem it, as long as they are
  fewer than half the size of the cache and the counter does not come round.
\<close>

fun run_ops :: "atlas_event list \<Rightarrow> atlas_state \<Rightarrow> cache_op list" where
  "run_ops [] st = []"
| "run_ops (e # es) st = token_ops e st @ run_ops es (apply_event e st)"

lemma run_ops_cache: "snd (as_tokens (fold apply_event es st)) = fold cache_step (run_ops es st) (snd (as_tokens st))"
  by (induction es arbitrary: st) (auto simp: apply_event_cache)

lemma run_ops_length: "length (run_ops es st) \<le> 2 * length es"
proof (induction es arbitrary: st)
  case (Cons e es)
  from Cons.IH [of "apply_event e st"] token_ops_length [of e st] show ?case by simp
qed simp

lemma run_ops_keys:
  assumes "list_all (leaves_token i) es" and "fst (as_tokens st) = i + word_of_nat k" and "k + length es < 2 ^ 32"
  shows "list_all (\<lambda>op. op_key op \<noteq> token_key i) (run_ops es st)"
  using assms
proof (induction es arbitrary: st k)
  case (Cons e es)
  have "word_of_nat k + (1 :: uint32) = word_of_nat (Suc k)" by simp
  moreover have "word_of_nat (Suc k) \<noteq> (0 :: uint32)"
    using Cons.prems(3) by (auto simp: word_of_nat_eq_0_iff simp del: of_nat_Suc dest!: dvd_imp_le)
  ultimately have new: "i + word_of_nat k + 1 \<noteq> i" by (metis add.assoc add_cancel_left_right)
  have ops: "list_all (\<lambda>op. op_key op \<noteq> token_key i) (token_ops e st)"
    using Cons.prems(1,2) new by (cases e) (auto simp: lru_cache.token_key_inject split: option.split)
  have "\<exists>k'. fst (as_tokens (apply_event e st)) = i + word_of_nat k' \<and> k' + length es < 2 ^ 32"
  proof (cases "\<exists>k v. C_Add k v \<in> set (token_ops e st)")
    case True
    then show ?thesis using Cons.prems(2,3) by (intro exI [of _ "Suc k"]) (simp add: apply_event_next)
  next
    case False
    then show ?thesis using Cons.prems(2,3) by (intro exI [of _ k]) (simp add: apply_event_next)
  qed
  then show ?case using ops Cons.IH Cons.prems(1) by auto
qed simp

lemma token_stays:
  assumes "0 < lru_size (snd (as_tokens st))" and "GetIntersectingPath now ir st = (resp, st1)" and "irp_Type resp = IR_TOKEN"
    and "list_all (leaves_token (irp_Token resp)) es" and "2 * length es < lru_size (snd (as_tokens st))" and "length es < 2 ^ 32"
  shows "lru_contents (snd (as_tokens (fold apply_event es st1))) (token_key (irp_Token resp)) = Some (with_staleness ir)"
proof -
  have none: "FindIntersectingTraceroute now (query_of (with_staleness ir)) (as_db st) = None"
    and resp: "irp_Token resp = fst (as_tokens st) + 1"
    and st1: "as_tokens st1 = (irp_Token resp, lru_Add (token_key (irp_Token resp)) (with_staleness ir) (snd (as_tokens st)))"
    using assms(2,3) by (auto simp: GetIntersectingPath_def tc_Add_def Let_def split: option.splits)
  have "fst (as_tokens st1) = irp_Token resp + word_of_nat 0" by (simp add: st1)
  then have "list_all (\<lambda>op. op_key op \<noteq> token_key (irp_Token resp)) (run_ops es st1)"
    using run_ops_keys [OF assms(4), of st1 0] assms(6) by simp
  moreover have "length (run_ops es st1) < lru_size (snd (as_tokens st))" using run_ops_length [of es st1] assms(5) by linarith
  ultimately show ?thesis
    unfolding run_ops_cache using added_entry_stays [OF assms(1)] by (simp add: st1)
qed

section \<open>Properties\<close>


text \<open>Two requests for one destination, while the first one's traceroutes run; the second adds one source.\<close>

definition ex_vps :: "uint32 list \<Rightarrow> vantage_point list" where
  "ex_vps ips = map (\<lambda>ip. \<lparr>vp_Ip = ip, vp_Hostname = [], vp_Site = show_nat (unat ip), vp_Timestamp = False, vp_RecordRoute = False,
     vp_Spoof = False, vp_RecSpoof = False, vp_Ping = False, vp_Trace = False\<rparr>) ips"

definition ex_ask :: intersection_request where
  "ex_ask = \<lparr>ir_Address = 5, ir_Dest = 9, ir_Staleness = 0, ir_UseAliases = True, ir_IgnoreSource = False, ir_Src = 0\<rparr>"

definition ex_atlas_db :: atlas_db where
  "ex_atlas_db = \<lparr>ad_traces = [], ad_hops = [], ad_aliases = [], ad_next = 1\<rparr>"

definition ex_events :: "atlas_event list" where
  "ex_events = [Ask 0 ex_ask, Ask 0 ex_ask,
     Begin insertion_order insertion_order (\<lambda>n. Granted) 0 (Inr (ex_vps [1, 2])) 0,
     Begin insertion_order insertion_order (\<lambda>n. Granted) 0 (Inr (ex_vps [1, 3])) 0]"

lemma ex_event_ok: "list_all event_ok ex_events"
  by (simp add: ex_events_def event_ok_def insertion_order.rearrangement_axioms ex_vps_def)


text \<open>
  C25. A token can be redeemed once: as long as it was not and fewer requests than half the size of the cache
  came in between, redeeming it answers the request it was given out for from what is stored by then,
  and redeeming it again is an error.
\<close>

theorem token_redeemed:
  assumes "0 < lru_size (snd (as_tokens st))" and "GetIntersectingPath now ir st = (resp, st1)" and "irp_Type resp = IR_TOKEN"
    and "list_all (leaves_token (irp_Token resp)) es" and "2 * length es < lru_size (snd (as_tokens st))" and "length es < 2 ^ 32"
    and "st2 = fold apply_event es st1" and "found = FindIntersectingTraceroute now' (query_of (with_staleness ir)) (as_db st2)"
  shows "\<exists>st3. GetPathsWithToken now' (irp_Token resp) st2 =
      (\<lparr>tr_Token = irp_Token resp, tr_Type = (if found = None then IR_NONE_FOUND else IR_PATH), tr_Path = found, tr_Error = []\<rparr>, st3) \<and>
    tr_Type (fst (GetPathsWithToken now'' (irp_Token resp) st3)) = IR_ERROR"
proof -
  let ?k = "token_key (irp_Token resp)"
  have m: "map_of (lru_entries (snd (as_tokens st2))) ?k = Some (with_staleness ir)"
    using token_stays [OF assms(1-6)] by (simp add: assms(7) lru_contents_def)
  let ?c = "lru_Remove ?k (snd (lru_Get ?k (snd (as_tokens st2))))"
  let ?st3 = "st2\<lparr>as_tokens := (fst (as_tokens st2), ?c)\<rparr>"
  have "map_of (lru_entries ?c) ?k = None" by (simp add: lru_Remove_def delete_conv')
  then have "tr_Type (fst (GetPathsWithToken now'' (irp_Token resp) ?st3)) = IR_ERROR"
    by (simp add: GetPathsWithToken_def tc_Get_def lru_Get_def)
  moreover have "GetPathsWithToken now' (irp_Token resp) st2 =
      (\<lparr>tr_Token = irp_Token resp, tr_Type = (if found = None then IR_NONE_FOUND else IR_PATH), tr_Path = found, tr_Error = []\<rparr>, ?st3)"
    using m by (simp add: GetPathsWithToken_def tc_Get_def tc_Remove_def lru_Get_def assms(8) Let_def split: option.split)
  ultimately show ?thesis by blast
qed

theorem token_redeemed_witness:
  "tr_Type (fst (GetPathsWithToken 7 1 (snd (GetIntersectingPath 0 ex_ask (atlas_start 10 ex_atlas_db))))) = IR_NONE_FOUND"
proof -
  let ?st = "atlas_start 10 ex_atlas_db"
  have none: "FindIntersectingTraceroute now iq ex_atlas_db = None" for now iq
    by (simp add: FindIntersectingTraceroute_def newest_def ex_atlas_db_def)
  obtain resp st1 where a: "GetIntersectingPath 0 ex_ask ?st = (resp, st1)" by fastforce
  then have r: "irp_Type resp = IR_TOKEN" "irp_Token resp = 1" "as_db st1 = ex_atlas_db"
    by (auto simp: GetIntersectingPath_def atlas_start_def none tc_Add_def Let_def)
  have "0 < lru_size (snd (as_tokens ?st))" "2 * length ([] :: atlas_event list) < lru_size (snd (as_tokens ?st))"
    by (simp_all add: atlas_start_def lru_New_def)
  from token_redeemed [where now' = 7 and now'' = 8, OF this(1) a r(1) _ this(2) _ refl refl] show ?thesis using r none by (auto simp: a)
qed

text \<open>
  C26. What was measured is found: once a traceroute that reached its destination is stored, a request for a
  path from any address on it, or an alias of one, to that destination is answered with the whole
  traceroute, its source in front, unless it is too old, excluded by its source, or not the newest.
\<close>

theorem measured_path_found:
  assumes "atlas_db_ok (as_db st)" and "ad_next (as_db st) < 2 ^ 31"
    and "trc_Hops t \<noteq> []" and "th_Addr (last (trc_Hops t)) = trc_Dst t" and "sorted (map th_ProbeTtl (trc_Hops t))"
    and "\<forall>u\<in>set (ad_traces (as_db st)). at_Dest u = trc_Dst t \<longrightarrow> at_Date u < date"
    and "ir_Dest ir = trc_Dst t" and "\<not> (ir_IgnoreSource ir \<and> ir_Src ir = trc_Src t)"
    and "now - 60 * minutes_of (iq_Stale (query_of (with_staleness ir))) \<le> date"
    and "set (alias_set (as_db st) (ir_Address ir)) \<inter> insert (trc_Src t) (th_Addr ` set (trc_Hops t)) \<noteq> {}"
  shows "fst (GetIntersectingPath now ir (fill_end ord date (Inr [t]) job st)) =
    \<lparr>irp_Type = IR_PATH, irp_Token = 0, irp_Path = Some (trace_path (ir_Address ir) t), irp_Error = []\<rparr>"
proof -
  let ?iq = "query_of (with_staleness ir)"
  have q: "iq_Dst ?iq = trc_Dst t" "\<not> (iq_IgnoreSource ?iq \<and> iq_Src ?iq = trc_Src t)" "iq_Addr ?iq = ir_Address ir"
    using assms(7,8) by (auto simp: query_of_def with_staleness_def)
  obtain db where db: "StoreAtlasTraceroute date t (as_db st) = Some db"
    using assms(2) by (simp add: StoreAtlasTraceroute_def)
  have "as_db (fill_end ord date (Inr [t]) job st) = db" using assms(3,4) db by (simp add: fill_end_def)
  moreover have "FindIntersectingTraceroute now ?iq db = Some (trace_path (ir_Address ir) t)"
    using stored_found [OF assms(1) db assms(6,5) q(1,2) assms(9)] assms(10) unfolding q(3) by blast
  ultimately show ?thesis by (simp add: GetIntersectingPath_def Let_def)
qed

definition ex_trace :: traceroute where
  "ex_trace = \<lparr>trc_Src = 1, trc_Dst = 9, trc_Hops = [\<lparr>th_Addr = 5, th_ProbeTtl = 1\<rparr>, \<lparr>th_Addr = 9, th_ProbeTtl = 2\<rparr>], trc_Error = []\<rparr>"

theorem measured_path_found_witness:
  "fst (GetIntersectingPath 60 ex_ask (fill_end insertion_order 30 (Inr [ex_trace]) (9, [1]) (atlas_start 10 ex_atlas_db))) =
    \<lparr>irp_Type = IR_PATH, irp_Token = 0, irp_Path = Some (trace_path 5 ex_trace), irp_Error = []\<rparr>"
proof -
  have "minutes_of (iq_Stale (query_of (with_staleness ex_ask))) = 60"
    by (simp add: query_of_def with_staleness_def ex_ask_def minutes_of_def minute_def)
  then show ?thesis
    using measured_path_found [of "atlas_start 10 ex_atlas_db" ex_trace 30 ex_ask 60 insertion_order "(9, [1])"]
    by (simp add: atlas_start_def ex_atlas_db_def atlas_db_ok_def ex_trace_def ex_ask_def alias_set_def)
qed

text \<open>
  A request is answered with a stored path exactly if some traceroute to the destination is recent enough,
  not excluded and passes the address or an alias; the path then is that of a newest such traceroute, by
  TTL. Otherwise the answer is a token, and one more goroutine is to measure.
\<close>

lemma atlas_request_outcome:
  "case GetIntersectingPath now ir st of (resp, st') \<Rightarrow>
    (let iq = query_of (with_staleness ir); ts = filter (matches (as_db st) now iq) (ad_traces (as_db st)) in
     if ts = [] then irp_Type resp = IR_TOKEN \<and> irp_Token resp = fst (as_tokens st) + 1 \<and>
         as_pending st' = as_pending st @ [(ir_Address ir, ir_Dest ir, ir_Staleness (with_staleness ir))]
     else st' = st \<and> (\<exists>t\<in>set ts. list_all (\<lambda>u. at_Date u \<le> at_Date t) ts \<and>
         resp = \<lparr>irp_Type = IR_PATH, irp_Token = 0,
           irp_Path = Some (path_of_rows (ir_Address ir) (hops_of (as_db st) (at_Id t))), irp_Error = []\<rparr>))"
proof -
  let ?iq = "query_of (with_staleness ir)"
  let ?ts = "filter (matches (as_db st) now ?iq) (ad_traces (as_db st))"
  have addr: "iq_Addr ?iq = ir_Address ir" "ir_Address (with_staleness ir) = ir_Address ir" "ir_Dest (with_staleness ir) = ir_Dest ir"
    by (simp_all add: query_of_def with_staleness_def)
  show ?thesis
  proof (cases "newest ?ts")
    case None
    then have "?ts = []" by (simp only: newest_None)
    moreover have "FindIntersectingTraceroute now ?iq (as_db st) = None" using None by (simp add: find_newest)
    ultimately show ?thesis by (simp add: GetIntersectingPath_def Let_def tc_Add_def addr)
  next
    case (Some t)
    then have t: "t \<in> set ?ts" "list_all (\<lambda>u. at_Date u \<le> at_Date t) ?ts"
      using newest_Some [OF Some] by (auto simp: list_all_iff)
    have f: "FindIntersectingTraceroute now ?iq (as_db st) = Some (path_of_rows (ir_Address ir) (hops_of (as_db st) (at_Id t)))"
      using Some by (simp add: find_newest addr)
    have "?ts \<noteq> []" using t(1) by (metis empty_iff empty_set)
    moreover have "GetIntersectingPath now ir st = (\<lparr>irp_Type = IR_PATH, irp_Token = 0,
        irp_Path = Some (path_of_rows (ir_Address ir) (hops_of (as_db st) (at_Id t))), irp_Error = []\<rparr>, st)"
      by (simp add: GetIntersectingPath_def Let_def f)
    ultimately show ?thesis using t by (simp only: Let_def prod.case if_False) blast
  qed
qed

end
