(* ===== verification/ScamperCmd.thy ===== *)
theory ScamperCmd
  imports PbTypes
begin

text \<open>
  \<open>scamper/cmd.go\<close>: the command line that asks scamper for a measurement. Every command ends with the
  id under which scamper reports the result (option \<open>-U\<close>) and the destination; so a line tells which
  command it is for, and its words are the options that were asked for.
\<close>

section \<open>Command lines\<close>

text \<open>\<open>if v != "" { buf.WriteString(flag); buf.WriteString(v); buf.WriteByte(' ') }\<close>\<close>

definition write_opt :: "string \<Rightarrow> string \<Rightarrow> string" where
  "write_opt flag v = (if v \<noteq> [] then flag @ '' '' @ v @ '' '' else [])"

definition Cmd_issuePing :: "uint32 \<Rightarrow> ping_measurement \<Rightarrow> util_error + string" where
  "Cmd_issuePing cid p =
     (case Int32ToIPString (pm_Dst p) of
        Inl err \<Rightarrow> Inl err
      | Inr ips \<Rightarrow> Inr (''ping ''
          @ (if pm_RR p then ''-R '' else [])
          @ (if pm_Spoof p then ''-O spoof '' @ ''-S '' @ pm_SAddr p @ '' '' @ ''-F 61681 '' @ ''-d 62195 '' else [])
          @ write_opt ''-B'' (pm_Payload p)
          @ write_opt ''-c'' (pm_Count p)
          @ write_opt ''-C'' (pm_IcmpSum p)
          @ write_opt ''-i'' (pm_Wait p)
          @ write_opt ''-m'' (pm_Ttl p)
          @ write_opt ''-M'' (pm_Mtu p)
          @ write_opt ''-o'' (pm_ReplyCount p)
          @ write_opt ''-p'' (pm_Pattern p)
          @ write_opt ''-P'' (pm_Method p)
          @ write_opt ''-s'' (pm_Size p)
          @ write_opt ''-z'' (pm_Tos p)
          @ write_opt ''-T'' (pm_TimeStamp p)
          @ ''-U '' @ show_nat (unat cid) @ '' '' @ ips @ ''\<newline>''))"

definition Cmd_issueTraceroute :: "uint32 \<Rightarrow> traceroute_measurement \<Rightarrow> util_error + string" where
  "Cmd_issueTraceroute cid t =
     (case Int32ToIPString (tm_Dst t) of
        Inl err \<Rightarrow> Inl err
      | Inr ips \<Rightarrow> Inr (''trace ''
          @ write_opt ''-c'' (tm_Confidence t)
          @ write_opt ''-d'' (tm_Dport t)
          @ write_opt ''-f'' (tm_FirstHop t)
          @ write_opt ''-g'' (tm_GapLimit t)
          @ write_opt ''-G'' (tm_GapAction t)
          @ write_opt ''-m'' (tm_MaxTtl t)
          @ (if tm_PathDiscov t then ''-M '' else [])
          @ write_opt ''-l'' (tm_Loops t)
          @ write_opt ''-L'' (tm_LoopAction t)
          @ write_opt ''-p'' (tm_Payload t)
          @ ''-P '' @ (if tm_Method t \<noteq> [] then tm_Method t else ''ICMP-paris'') @ '' ''
          @ write_opt ''-q'' (tm_Attempts t)
          @ (if tm_SendAll t then ''-Q '' else [])
          @ write_opt ''-s'' (tm_Sport t)
          @ write_opt ''-t'' (tm_Tos t)
          @ (if tm_TimeExceeded t then ''-T '' else [])
          @ write_opt ''-w'' (tm_Wait t)
          @ write_opt ''-W'' (tm_WaitProbe t)
          @ write_opt ''-z'' (tm_GssEntry t)
          @ write_opt ''-Z'' (tm_LssName t)
          @ ''-U '' @ show_nat (unat cid) @ '' '' @ ips @ ''\<newline>''))"

text \<open>The argument of a command; a type the switch does not know is \<open>OtherArg\<close>.\<close>

datatype cmd_arg = PingArg ping_measurement | TracerouteArg traceroute_measurement | OtherArg

record Cmd =
  cmd_ID :: uint32
  cmd_Arg :: cmd_arg

datatype cmd_error = AddrError util_error | UnknownArgType

definition IssueCommand :: "Cmd \<Rightarrow> cmd_error + string" where
  "IssueCommand c =
     (case cmd_Arg c of
        PingArg p \<Rightarrow> (case Cmd_issuePing (cmd_ID c) p of Inl err \<Rightarrow> Inl (AddrError err) | Inr l \<Rightarrow> Inr l)
      | TracerouteArg t \<Rightarrow> (case Cmd_issueTraceroute (cmd_ID c) t of Inl err \<Rightarrow> Inl (AddrError err) | Inr l \<Rightarrow> Inr l)
      | OtherArg \<Rightarrow> Inl UnknownArgType)"

section \<open>The words of a line\<close>

definition unwords :: "string list \<Rightarrow> string" where
  "unwords ws = concat (map (\<lambda>w. w @ '' '') ws)"

definition opt_words :: "string \<Rightarrow> string \<Rightarrow> string list" where
  "opt_words flag v = (if v \<noteq> [] then [flag, v] else [])"

definition ping_words :: "ping_measurement \<Rightarrow> string list" where
  "ping_words p = [''ping''] @ (if pm_RR p then [''-R''] else [])
     @ (if pm_Spoof p then [''-O'', ''spoof'', ''-S'', pm_SAddr p, ''-F'', ''61681'', ''-d'', ''62195''] else [])
     @ concat [opt_words ''-B'' (pm_Payload p), opt_words ''-c'' (pm_Count p), opt_words ''-C'' (pm_IcmpSum p),
         opt_words ''-i'' (pm_Wait p), opt_words ''-m'' (pm_Ttl p), opt_words ''-M'' (pm_Mtu p),
         opt_words ''-o'' (pm_ReplyCount p), opt_words ''-p'' (pm_Pattern p), opt_words ''-P'' (pm_Method p),
         opt_words ''-s'' (pm_Size p), opt_words ''-z'' (pm_Tos p), opt_words ''-T'' (pm_TimeStamp p)]"

definition trace_words :: "traceroute_measurement \<Rightarrow> string list" where
  "trace_words t = [''trace'']
     @ concat [opt_words ''-c'' (tm_Confidence t), opt_words ''-d'' (tm_Dport t), opt_words ''-f'' (tm_FirstHop t),
         opt_words ''-g'' (tm_GapLimit t), opt_words ''-G'' (tm_GapAction t), opt_words ''-m'' (tm_MaxTtl t),
         if tm_PathDiscov t then [''-M''] else [], opt_words ''-l'' (tm_Loops t), opt_words ''-L'' (tm_LoopAction t),
         opt_words ''-p'' (tm_Payload t), [''-P'', if tm_Method t \<noteq> [] then tm_Method t else ''ICMP-paris''],
         opt_words ''-q'' (tm_Attempts t), if tm_SendAll t then [''-Q''] else [], opt_words ''-s'' (tm_Sport t),
         opt_words ''-t'' (tm_Tos t), if tm_TimeExceeded t then [''-T''] else [], opt_words ''-w'' (tm_Wait t),
         opt_words ''-W'' (tm_WaitProbe t), opt_words ''-z'' (tm_GssEntry t), opt_words ''-Z'' (tm_LssName t)]"

fun arg_words :: "cmd_arg \<Rightarrow> string list" where
  "arg_words (PingArg p) = ping_words p"
| "arg_words (TracerouteArg t) = trace_words t"
| "arg_words OtherArg = []"

fun arg_dst :: "cmd_arg \<Rightarrow> uint32" where
  "arg_dst (PingArg p) = pm_Dst p"
| "arg_dst (TracerouteArg t) = tm_Dst t"
| "arg_dst OtherArg = 0"

lemma unwords_simps [simp]:
  "unwords [] = []" "unwords (w # ws) = w @ '' '' @ unwords ws" "unwords (vs @ ws) = unwords vs @ unwords ws"
  by (simp_all add: unwords_def)

lemma unwords_concat: "unwords (concat wss) = concat (map unwords wss)"
  by (induction wss) simp_all

lemma write_opt_words: "write_opt flag v = unwords (opt_words flag v)"
  by (simp add: write_opt_def opt_words_def)

lemma Int32ToIPString_ip_str: "Int32ToIPString x = Inr (ip_str x)"
  by (simp add: ip_str_def Int32ToIPString_def')

lemma ping_line: "Cmd_issuePing cid p =
    Inr (unwords (ping_words p @ [''-U'', show_nat (unat cid)]) @ ip_str (pm_Dst p) @ ''\<newline>'')"
  by (simp only: Cmd_issuePing_def Int32ToIPString_ip_str sum.case write_opt_words)
     (cases "pm_RR p"; cases "pm_Spoof p"; simp add: ping_words_def)

lemma trace_line: "Cmd_issueTraceroute cid t =
    Inr (unwords (trace_words t @ [''-U'', show_nat (unat cid)]) @ ip_str (tm_Dst t) @ ''\<newline>'')"
  by (simp only: Cmd_issueTraceroute_def Int32ToIPString_ip_str sum.case write_opt_words)
     (cases "tm_PathDiscov t"; cases "tm_SendAll t"; cases "tm_TimeExceeded t"; simp add: trace_words_def)

lemma command_line:
  "IssueCommand c = (if cmd_Arg c = OtherArg then Inl UnknownArgType
     else Inr (unwords (arg_words (cmd_Arg c) @ [''-U'', show_nat (unat (cmd_ID c))])
            @ ip_str (arg_dst (cmd_Arg c)) @ ''\<newline>''))"
  by (simp add: IssueCommand_def ping_line trace_line del: unwords_simps split: cmd_arg.split)

lemma show_nat_chars: "c \<in> set (show_nat n) \<Longrightarrow> is_digit c"
  using show_nat_digits by (simp add: list_all_iff)

lemma ip_str_chars: "c \<in> set (ip_str x) \<Longrightarrow> is_digit c \<or> c = CHR ''.''"
  by (auto simp: ip_str_def Int32ToIPString_def' dotted_quad_def dest: show_byte_digits)

lemma blank_free [simp]:
  "CHR '' '' \<notin> set (show_nat n)" "CHR '' '' \<notin> set (ip_str x)"
  "CHR 0x0A \<notin> set (show_nat n)" "CHR 0x0A \<notin> set (ip_str x)"
  by (force dest!: show_nat_chars ip_str_chars simp: is_digit_def)+

lemma split_on_unwords:
  "\<forall>w \<in> set ws. CHR '' '' \<notin> set w \<Longrightarrow> split_on (CHR '' '') (unwords ws @ r) = ws @ split_on (CHR '' '') r"
  by (induction ws) (simp_all add: split_on_append)

lemma separator_inject:
  "c \<notin> set x \<Longrightarrow> c \<notin> set y \<Longrightarrow> x @ c # r = y @ c # s \<longleftrightarrow> x = y \<and> r = s"
proof (induction x arbitrary: y)
  case Nil
  then show ?case by (cases y) auto
next
  case (Cons a x)
  then show ?case by (cases y) auto
qed

lemma last_words_inject:
  assumes "CHR '' '' \<notin> set a \<union> set b \<union> set a' \<union> set b'"
  shows "u @ '' '' @ a @ '' '' @ b @ ''\<newline>'' = v @ '' '' @ a' @ '' '' @ b' @ ''\<newline>'' \<longleftrightarrow> u = v \<and> a = a' \<and> b = b'"
    (is "?l = ?r \<longleftrightarrow> _")
proof -
  have "?l = ?r \<longleftrightarrow> rev b @ CHR '' '' # rev a @ CHR '' '' # rev u = rev b' @ CHR '' '' # rev a' @ CHR '' '' # rev v"
    by (subst rev_is_rev_conv [symmetric]) simp
  also have "\<dots> \<longleftrightarrow> b = b' \<and> a = a' \<and> u = v" using assms by (simp add: separator_inject)
  finally show ?thesis by auto
qed

lemma words_start: "cmd_arg \<noteq> OtherArg \<Longrightarrow> \<exists>r. unwords (arg_words cmd_arg) = (case cmd_arg of PingArg _ \<Rightarrow> ''p'' | _ \<Rightarrow> ''t'') @ r"
  by (cases cmd_arg) (simp_all add: ping_words_def trace_words_def)

fun same_kind :: "cmd_arg \<Rightarrow> cmd_arg \<Rightarrow> bool" where
  "same_kind (PingArg _) (PingArg _) = True"
| "same_kind (TracerouteArg _) (TracerouteArg _) = True"
| "same_kind _ _ = False"

section \<open>Properties\<close>

text \<open>
  A command line tells its command: two commands that issue the same text have the same id, the same
  destination, and are both pings or both traceroutes, whatever their options hold.
\<close>

lemma line_tells_command:
  assumes "IssueCommand c = Inr l" and "IssueCommand d = Inr l"
  shows "cmd_ID c = cmd_ID d \<and> arg_dst (cmd_Arg c) = arg_dst (cmd_Arg d) \<and> same_kind (cmd_Arg c) (cmd_Arg d)"
proof -
  have l: "l = (unwords (arg_words (cmd_Arg c)) @ ''-U'') @ '' '' @ show_nat (unat (cmd_ID c)) @ '' '' @ ip_str (arg_dst (cmd_Arg c)) @ ''\<newline>''"
    "l = (unwords (arg_words (cmd_Arg d)) @ ''-U'') @ '' '' @ show_nat (unat (cmd_ID d)) @ '' '' @ ip_str (arg_dst (cmd_Arg d)) @ ''\<newline>''"
    and known: "cmd_Arg c \<noteq> OtherArg" "cmd_Arg d \<noteq> OtherArg"
    using assms by (auto simp: command_line split: if_splits)
  have "unwords (arg_words (cmd_Arg c)) @ ''-U'' = unwords (arg_words (cmd_Arg d)) @ ''-U'' \<and>
      show_nat (unat (cmd_ID c)) = show_nat (unat (cmd_ID d)) \<and> ip_str (arg_dst (cmd_Arg c)) = ip_str (arg_dst (cmd_Arg d))"
    by (rule iffD1 [OF last_words_inject]) (simp, use l in metis)
  moreover from this known have "same_kind (cmd_Arg c) (cmd_Arg d)"
    using words_start [of "cmd_Arg c"] words_start [of "cmd_Arg d"] by (cases "cmd_Arg c"; cases "cmd_Arg d") auto
  ultimately show ?thesis by (simp add: word_unat_eq_iff)
qed

text \<open>
  C27. What scamper reads is what was asked for: if no option holds a blank or a line break, the text of a
  command is one line whose words are exactly the options of the measurement, the id and the destination.
\<close>

theorem command_words:
  assumes "cmd_Arg c \<noteq> OtherArg" and "\<forall>w \<in> set (arg_words (cmd_Arg c)). CHR '' '' \<notin> set w \<and> CHR 0x0A \<notin> set w"
  shows "\<exists>l. IssueCommand c = Inr (l @ ''\<newline>'') \<and> CHR 0x0A \<notin> set l \<and>
    split_on (CHR '' '') l = arg_words (cmd_Arg c) @ [''-U'', show_nat (unat (cmd_ID c)), ip_str (arg_dst (cmd_Arg c))]"
proof -
  let ?ws = "arg_words (cmd_Arg c) @ [''-U'', show_nat (unat (cmd_ID c))]"
  have "CHR 0x0A \<notin> set (unwords ?ws @ ip_str (arg_dst (cmd_Arg c)))"
    using assms(2) by (auto simp: unwords_def)
  moreover have "split_on (CHR '' '') (unwords ?ws @ ip_str (arg_dst (cmd_Arg c))) = ?ws @ [ip_str (arg_dst (cmd_Arg c))]"
    using assms(2) by (subst split_on_unwords) (simp_all add: split_on_single)
  ultimately show ?thesis
    by (intro exI [of _ "unwords ?ws @ ip_str (arg_dst (cmd_Arg c))"]) (simp add: command_line assms(1))
qed

theorem command_words_witness:
  "\<exists>l. IssueCommand \<lparr>cmd_ID = 5, cmd_Arg = TracerouteArg zero_traceroute_measurement\<rparr> = Inr (l @ ''\<newline>'') \<and>
    split_on (CHR '' '') l = [''trace'', ''-P'', ''ICMP-paris'', ''-U'', show_nat 5, ''0.0.0.0'']"
  using command_words [of "\<lparr>cmd_ID = 5, cmd_Arg = TracerouteArg zero_traceroute_measurement\<rparr>"]
  by (auto simp: trace_words_def opt_words_def zero_traceroute_measurement_def ip_str_0)

end
