(* ===== verification/UUEncode.thy ===== *)
theory UUEncode
  imports Prelude
begin

text \<open>
  \<open>uuencode/uuencode.go\<close>, \<open>uuencode/uudecode.go\<close>: the encoding scamper's results travel in. Slicing
  \<open>s[lo:hi]\<close> is checked against the capacity of \<open>s\<close>, not its length, and both files rely on that; a
  slice whose spare capacity matters is the list of its elements with what the array holds behind them.
\<close>

section \<open>Encoding\<close>

definition enc :: "byte \<Rightarrow> byte" where
  "enc b = (if b = 0 then 96 else b + 32)"

definition uuencodeBytes :: "byte list \<Rightarrow> (byte list) go" where
  "uuencodeBytes by =
     go_bind (go_index by 0) (\<lambda>b0. go_bind (go_index by 1) (\<lambda>b1. go_bind (go_index by 2) (\<lambda>b2.
       Inr [enc (drop_bit 2 b0),
            enc (push_bit 4 (b0 AND 0x3) OR drop_bit 4 b1),
            enc (push_bit 2 (b1 AND 0x0F) OR drop_bit 6 b2),
            enc (b2 AND 0x3F)])))"

text \<open>
  Appending to a full slice of \<open>n\<close> bytes (at most 45 here) doubles the capacity, rounded up to a size
  class of the allocator; the array is cleared behind the elements.
\<close>

definition size_class :: "nat \<Rightarrow> nat" where
  "size_class n = (if n \<le> 8 then 8 else 16 * ((n + 15) div 16))"

text \<open>
  The copy of the line with its padding: \<open>remain\<close> zeros are appended, one too few or one too many, and
  the bytes behind them are the zeros of the new array.
\<close>

definition padded :: "byte list \<Rightarrow> byte list" where
  "padded e =
     (let remain = length e mod 3
      in if remain = 0 then e
         else e @ replicate remain 0 @ replicate (size_class (2 * length e) - length e - remain) 0)"

fun encode_groups :: "byte list \<Rightarrow> nat \<Rightarrow> nat \<Rightarrow> (byte list) go" where
  "encode_groups local i 0 = Inr []"
| "encode_groups local i (Suc k) =
     go_bind (go_slice local (int (i * 3)) (int (i * 3 + 3))) (\<lambda>group.
     go_bind (uuencodeBytes group) (\<lambda>encd.
     go_bind (encode_groups local (Suc i) k) (\<lambda>rest. Inr (encd @ rest))))"

definition uuencodeLine :: "byte list \<Rightarrow> (byte list) go" where
  "uuencodeLine e =
     (let len = length e; remain = len mod 3;
          uselen = (if remain > 0 then len + (3 - remain) else len)
      in go_bind (encode_groups (padded e) 0 (uselen div 3)) (\<lambda>body.
           Inr (enc (word_of_nat len) # body)))"

function UUEncode :: "byte list \<Rightarrow> (byte list) go" where
  "UUEncode p =
     (if p = [] then Inr [96, 10]
      else go_bind (uuencodeLine (take 45 p)) (\<lambda>encl.
           go_bind (UUEncode (drop 45 p)) (\<lambda>rest. Inr (encl @ [10] @ rest))))"
  by pat_completeness auto
termination by (relation "measure length") auto

declare UUEncode.simps [simp del]

section \<open>Decoding\<close>

datatype uu_error = ErrorInvalidByte | UUDecDone

definition in_range :: "byte \<Rightarrow> bool" where
  "in_range b \<longleftrightarrow> \<not> (b > 96 \<or> b < 32)"

definition uudecodeBytes :: "byte list \<Rightarrow> (uu_error + byte list) go" where
  "uudecodeBytes by =
     go_bind (go_index by 0) (\<lambda>b0. go_bind (go_index by 1) (\<lambda>b1.
     go_bind (go_index by 2) (\<lambda>b2. go_bind (go_index by 3) (\<lambda>b3.
       Inr (if \<not> in_range b0 \<or> \<not> in_range b1 \<or> \<not> in_range b2 \<or> \<not> in_range b3 then Inl ErrorInvalidByte
            else Inr [(push_bit 2 ((b0 - 32) AND 0x3F) AND 0xFC) OR (drop_bit 4 ((b1 - 32) AND 0x3F) AND 0x3),
                      (push_bit 4 ((b1 - 32) AND 0x3F) AND 0xF0) OR (drop_bit 2 ((b2 - 32) AND 0x3F) AND 0xF),
                      (push_bit 6 ((b2 - 32) AND 0x3F) AND 0xC0) OR ((b3 - 32) AND 0x3F)])))))"

text \<open>
  The groups of a line: \<open>e\<close> is what is left of the line, \<open>behind\<close> the rest of the input, in which a
  group that is too short continues.
\<close>

function decode_groups :: "byte list \<Rightarrow> byte list \<Rightarrow> (uu_error + byte list) go" where
  "decode_groups e behind =
     (if e = [] then Inr (Inr [])
      else go_bind (go_slice (e @ behind) 0 4) (\<lambda>group.
           go_bind (uudecodeBytes group) (\<lambda>r.
           case r of
             Inl err \<Rightarrow> Inr (Inl err)
           | Inr s \<Rightarrow> go_bind (decode_groups (drop 4 e) (if length e < 4 then drop (4 - length e) behind else behind))
               (\<lambda>rest. Inr (case rest of Inl err \<Rightarrow> Inl err | Inr t \<Rightarrow> Inr (s @ t))))))"
  by pat_completeness auto
termination by (relation "measure (\<lambda>(e, _). length e)") auto

declare decode_groups.simps [simp del]

text \<open>\<open>result[:lenB]\<close>: the slice was made with capacity \<open>lenB\<close>, so missing bytes are zeros.\<close>

definition uudecodeLine :: "byte list \<Rightarrow> byte list \<Rightarrow> (uu_error + byte list) go" where
  "uudecodeLine e behind =
     (if length e = 1 \<and> e ! 0 = 96 then Inr (Inl UUDecDone)
      else go_bind (go_index e 0) (\<lambda>b0.
        let lenB = unat (b0 - 32) in
        go_bind (decode_groups (drop 1 e) behind) (\<lambda>r. Inr (case r of
            Inl err \<Rightarrow> Inl err
          | Inr result \<Rightarrow> Inr (take lenB (result @ replicate lenB 0))))))"

fun split_lines :: "byte list \<Rightarrow> byte list list" where
  "split_lines [] = [[]]"
| "split_lines (b # bs) = (if b = 10 then [] # split_lines bs else (b # hd (split_lines bs)) # tl (split_lines bs))"

fun join_lines :: "byte list list \<Rightarrow> byte list" where
  "join_lines [] = []"
| "join_lines (l # ls) = 10 # l @ join_lines ls"

fun decode_lines :: "byte list list \<Rightarrow> (uu_error + byte list) go" where
  "decode_lines [] = Inr (Inr [])"
| "decode_lines (line # ls) =
     (if length line = 0 \<or> line ! 0 > 96 \<or> line ! 0 < 32 then Inr (Inr [])
      else go_bind (uudecodeLine line (join_lines ls)) (\<lambda>r.
        case r of
          Inl ErrorInvalidByte \<Rightarrow> Inr (Inl ErrorInvalidByte)
        | Inl UUDecDone \<Rightarrow> decode_lines ls
        | Inr ue \<Rightarrow> go_bind (decode_lines ls) (\<lambda>rest.
            Inr (case rest of Inl err \<Rightarrow> Inl err | Inr t \<Rightarrow> Inr (ue @ t)))))"

definition UUDecode :: "byte list \<Rightarrow> (uu_error + byte list) go" where
  "UUDecode e = decode_lines (split_lines e)"

text \<open>\<open>UUDecodingWriter\<close>: \<open>Write\<close> decodes and appends to the buffer; the number is that of decoded bytes.\<close>

definition Writer_Write :: "byte list \<Rightarrow> byte list \<Rightarrow> ((nat \<times> uu_error option) \<times> byte list) go" where
  "Writer_Write p b =
     go_bind (UUDecode p) (\<lambda>r. Inr (case r of
         Inl err \<Rightarrow> ((0, Some err), b)
       | Inr res \<Rightarrow> ((length res, None), b @ res)))"

definition Writer_Bytes :: "byte list \<Rightarrow> byte list" where
  "Writer_Bytes b = b"

section \<open>One group\<close>

definition sextet :: "byte \<Rightarrow> bool" where
  "sextet x \<longleftrightarrow> x AND 0x3F = x"

lemma dec_enc: "sextet x \<Longrightarrow> (enc x - 32) AND 0x3F = x"
  by (cases "x = 0") (auto simp: enc_def sextet_def)

lemma six_bits: "(0x3F :: byte) = mask 6" "(0x3 :: byte) = mask 2" "(0xF :: byte) = mask 4"
  "(0xFC :: byte) = push_bit 2 (mask 6)" "(0xF0 :: byte) = push_bit 4 (mask 4)" "(0xC0 :: byte) = push_bit 6 (mask 2)"
  by (simp_all add: mask_eq_exp_minus_1)

lemma sextet_less: "sextet x \<longleftrightarrow> x < 64"
proof -
  have "x AND 0x3F = take_bit 6 x" by (simp add: take_bit_eq_mask six_bits(1))
  moreover have "take_bit 6 x = x \<longleftrightarrow> unat x < 64"
    unfolding word_unat_eq_iff unsigned_take_bit_eq by (simp add: take_bit_nat_eq_self_iff)
  ultimately show ?thesis by (simp add: sextet_def word_less_nat_alt)
qed

lemma enc_range: "x < 64 \<Longrightarrow> 32 < enc x \<and> enc x \<le> 96"
proof (cases "x = 0")
  case False
  assume "x < 64"
  with False have "0 < unat x" "unat x < 64" by (simp_all add: word_less_nat_alt unat_gt_0)
  then have "unat (x + 32) = unat x + 32" by (simp add: unat_word_ariths)
  with \<open>0 < unat x\<close> \<open>unat x < 64\<close> False show ?thesis
    by (simp add: enc_def word_less_nat_alt word_le_nat_alt)
qed (simp add: enc_def)

lemma byte_bit_high: "8 \<le> n \<Longrightarrow> \<not> bit (b :: byte) n"
  by (auto dest: bit_imp_le_length)

lemma byte_eqI:
  fixes x y :: byte
  assumes "bit x 0 = bit y 0" "bit x 1 = bit y 1" "bit x 2 = bit y 2" "bit x 3 = bit y 3"
    "bit x 4 = bit y 4" "bit x 5 = bit y 5" "bit x 6 = bit y 6" "bit x 7 = bit y 7"
  shows "x = y"
proof (rule bit_word_eqI)
  fix n
  assume "n < LENGTH(8)"
  then have "n = 0 \<or> n = 1 \<or> n = 2 \<or> n = 3 \<or> n = 4 \<or> n = 5 \<or> n = 6 \<or> n = 7" by auto
  with assms show "bit x n = bit y n" by auto
qed

lemma group_sextets:
  "sextet (drop_bit 2 b0)" "sextet (push_bit 4 (b0 AND 0x3) OR drop_bit 4 b1)"
  "sextet (push_bit 2 (b1 AND 0x0F) OR drop_bit 6 b2)" "sextet (b2 AND 0x3F)"
  unfolding sextet_def six_bits
  by (rule byte_eqI; simp add: bit_simps byte_bit_high)+

lemma uudecode_quad:
  "uudecodeBytes [c0, c1, c2, c3] =
     Inr (if \<not> in_range c0 \<or> \<not> in_range c1 \<or> \<not> in_range c2 \<or> \<not> in_range c3 then Inl ErrorInvalidByte
          else Inr [(push_bit 2 ((c0 - 32) AND 0x3F) AND 0xFC) OR (drop_bit 4 ((c1 - 32) AND 0x3F) AND 0x3),
                    (push_bit 4 ((c1 - 32) AND 0x3F) AND 0xF0) OR (drop_bit 2 ((c2 - 32) AND 0x3F) AND 0xF),
                    (push_bit 6 ((c2 - 32) AND 0x3F) AND 0xC0) OR ((c3 - 32) AND 0x3F)])"
proof -
  have "go_index [c0, c1, c2, c3] 0 = Inr c0" "go_index [c0, c1, c2, c3] 1 = Inr c1"
    "go_index [c0, c1, c2, c3] 2 = Inr c2" "go_index [c0, c1, c2, c3] 3 = Inr c3"
    by (simp_all add: go_index_def)
  then show ?thesis by (simp only: uudecodeBytes_def go_bind.simps)
qed

lemma decode_encode_group:
  "go_bind (uuencodeBytes [b0, b1, b2]) uudecodeBytes = Inr (Inr [b0, b1, b2])"
proof -
  let ?x0 = "drop_bit 2 b0" and ?x1 = "push_bit 4 (b0 AND 0x3) OR drop_bit 4 b1"
    and ?x2 = "push_bit 2 (b1 AND 0x0F) OR drop_bit 6 b2" and ?x3 = "b2 AND 0x3F"
  have r: "in_range (enc x)" if "sextet x" for x
    using enc_range [of x] that by (auto simp: in_range_def sextet_less)
  have "(push_bit 2 ?x0 AND 0xFC) OR (drop_bit 4 ?x1 AND 0x3) = b0"
    unfolding six_bits by (rule byte_eqI) (simp_all add: bit_simps byte_bit_high)
  moreover have "(push_bit 4 ?x1 AND 0xF0) OR (drop_bit 2 ?x2 AND 0xF) = b1"
    unfolding six_bits by (rule byte_eqI) (simp_all add: bit_simps byte_bit_high)
  moreover have "(push_bit 6 ?x2 AND 0xC0) OR ?x3 = b2"
    unfolding six_bits by (rule byte_eqI) (simp_all add: bit_simps byte_bit_high)
  moreover have "uuencodeBytes [b0, b1, b2] = Inr [enc ?x0, enc ?x1, enc ?x2, enc ?x3]"
    by (simp add: uuencodeBytes_def go_index_def)
  moreover have "uudecodeBytes [enc ?x0, enc ?x1, enc ?x2, enc ?x3] =
      Inr (Inr [(push_bit 2 ?x0 AND 0xFC) OR (drop_bit 4 ?x1 AND 0x3),
        (push_bit 4 ?x1 AND 0xF0) OR (drop_bit 2 ?x2 AND 0xF), (push_bit 6 ?x2 AND 0xC0) OR ?x3])"
    by (simp only: uudecode_quad group_sextets [THEN r] group_sextets [THEN dec_enc] simp_thms if_False)
  ultimately show ?thesis by simp
qed

section \<open>Lines\<close>

definition uu_char :: "byte \<Rightarrow> bool" where
  "uu_char b \<longleftrightarrow> 32 < b \<and> b \<le> 96"

lemma enc_char: "x < 64 \<Longrightarrow> uu_char (enc x)"
  using enc_range by (simp add: uu_char_def)

lemma encode_group_shape:
  "\<exists>c0 c1 c2 c3. uuencodeBytes [b0, b1, b2] = Inr [c0, c1, c2, c3] \<and> list_all uu_char [c0, c1, c2, c3]"
proof -
  have "uuencodeBytes [b0, b1, b2] =
      Inr [enc (drop_bit 2 b0), enc (push_bit 4 (b0 AND 0x3) OR drop_bit 4 b1),
           enc (push_bit 2 (b1 AND 0x0F) OR drop_bit 6 b2), enc (b2 AND 0x3F)]"
    by (simp add: uuencodeBytes_def go_index_def)
  moreover note group_sextets [unfolded sextet_less, THEN enc_char]
  ultimately show ?thesis by (simp only: list.pred_inject simp_thms) blast
qed

lemma decode_groups_step:
  "decode_groups (c0 # c1 # c2 # c3 # e) behind =
     go_bind (uudecodeBytes [c0, c1, c2, c3]) (\<lambda>r. case r of
         Inl err \<Rightarrow> Inr (Inl err)
       | Inr s \<Rightarrow> go_bind (decode_groups e behind) (\<lambda>rest. Inr (case rest of Inl err \<Rightarrow> Inl err | Inr t \<Rightarrow> Inr (s @ t))))"
  by (subst decode_groups.simps) (simp add: go_slice_def eval_nat_numeral)

lemma nat_of_slice: "nat (int (i * 3)) = 3 * i" "nat (int (i * 3 + 3)) - 3 * i = 3" by simp_all

lemma encode_groups_spec:
  "3 * (i + k) \<le> length local \<Longrightarrow>
     \<exists>body. encode_groups local i k = Inr body \<and> length body = 4 * k \<and> list_all uu_char body \<and>
       decode_groups body behind = Inr (Inr (take (3 * k) (drop (3 * i) local)))"
proof (induction k arbitrary: i)
  case 0
  then show ?case by (simp add: decode_groups.simps)
next
  case (Suc k)
  then have "3 * (Suc i + k) \<le> length local" by simp
  from Suc.IH [OF this] obtain body where body: "encode_groups local (Suc i) k = Inr body" "length body = 4 * k"
    "list_all uu_char body" "decode_groups body behind = Inr (Inr (take (3 * k) (drop (3 * Suc i) local)))" by blast
  have len: "3 \<le> length (drop (3 * i) local)" using Suc.prems by simp
  then obtain b0 b1 b2 rest where d: "drop (3 * i) local = b0 # b1 # b2 # rest"
    by (metis Suc_le_length_iff numeral_3_eq_3)
  then have rest: "drop (3 * Suc i) local = rest"
    by (metis (no_types, lifting) add.commute drop_drop mult_Suc_right numeral_3_eq_3 drop_Suc_Cons drop0)
  have slice: "go_slice local (int (i * 3)) (int (i * 3 + 3)) = Inr [b0, b1, b2]"
    using Suc.prems d unfolding go_slice_def nat_of_slice by simp
  obtain c0 c1 c2 c3 where c: "uuencodeBytes [b0, b1, b2] = Inr [c0, c1, c2, c3]" "list_all uu_char [c0, c1, c2, c3]"
    using encode_group_shape by blast
  with decode_encode_group [of b0 b1 b2] have "uudecodeBytes [c0, c1, c2, c3] = Inr (Inr [b0, b1, b2])" by simp
  then have "decode_groups (c0 # c1 # c2 # c3 # body) behind = Inr (Inr (b0 # b1 # b2 # take (3 * k) rest))"
    using body(4) unfolding rest by (simp add: decode_groups_step)
  moreover have "take (3 * Suc k) (drop (3 * i) local) = b0 # b1 # b2 # take (3 * k) rest"
    unfolding d by (simp add: eval_nat_numeral)
  ultimately show ?case using slice c body by simp
qed

lemma size_class_ge: "n \<le> size_class n"
  unfolding size_class_def by presburger

lemma padded_spec:
  assumes "e \<noteq> []"
  shows "length e + (3 - length e mod 3) mod 3 \<le> length (padded e) \<and> take (length e) (padded e) = e"
proof (cases "length e mod 3 = 0")
  case False
  have "length e + 2 \<le> size_class (2 * length e)"
  proof (cases "length e = 1")
    case True
    then show ?thesis by (simp add: size_class_def)
  next
    case no: False
    have "0 < length e" using assms by simp
    with no have "length e + 2 \<le> 2 * length e" by linarith
    also have "\<dots> \<le> size_class (2 * length e)" by (rule size_class_ge)
    finally show ?thesis .
  qed
  moreover have "length e mod 3 < 3" by simp
  ultimately have "length (padded e) = size_class (2 * length e)"
    using False by (simp add: padded_def Let_def)
  with \<open>length e + 2 \<le> size_class (2 * length e)\<close> False show ?thesis
    by (simp add: padded_def Let_def)
qed (simp add: padded_def)

lemma round_up_3:
  fixes n :: nat
  shows "(if n mod 3 > 0 then n + (3 - n mod 3) else n) = n + (3 - n mod 3) mod 3"
    and "3 dvd (if n mod 3 > 0 then n + (3 - n mod 3) else n)"
    and "n \<le> (if n mod 3 > 0 then n + (3 - n mod 3) else n)"
proof -
  have r: "n mod 3 < 3" by simp
  show "(if n mod 3 > 0 then n + (3 - n mod 3) else n) = n + (3 - n mod 3) mod 3" by simp
  show "n \<le> (if n mod 3 > 0 then n + (3 - n mod 3) else n)"
    by (cases "n mod 3 > 0") (simp_all only: if_True if_False le_add1 order_refl)
  have "n = 3 * (n div 3) + n mod 3" by simp
  moreover have "n = 3 * q + m \<Longrightarrow> m < 3 \<Longrightarrow> n + (3 - m) = 3 * (q + 1)" for q m by arith
  ultimately have "n + (3 - n mod 3) = 3 * (n div 3 + 1)" using r by blast
  then show "3 dvd (if n mod 3 > 0 then n + (3 - n mod 3) else n)"
    by (cases "n mod 3 > 0") (simp_all only: if_True if_False dvd_triv_left, simp add: dvd_eq_mod_eq_0)
qed

lemma line_roundtrip:
  assumes "e \<noteq> []" and "length e \<le> 45"
  shows "\<exists>l. uuencodeLine e = Inr l \<and> l \<noteq> [] \<and> list_all uu_char l \<and> uudecodeLine l behind = Inr (Inr e) \<and> length l \<le> 1 + 4 * length e"
proof -
  let ?n = "length e"
  define use where "use = (if ?n mod 3 > 0 then ?n + (3 - ?n mod 3) else ?n)"
  have "use = ?n + (3 - ?n mod 3) mod 3" "3 dvd use" "?n \<le> use" unfolding use_def by (rule round_up_3)+
  moreover have "0 < ?n" using assms(1) by simp
  ultimately have use: "use = ?n + (3 - ?n mod 3) mod 3" "3 dvd use" "?n \<le> use" "0 < use" by simp_all
  then have "3 * (0 + use div 3) \<le> length (padded e)" using padded_spec [OF assms(1)] by simp
  from encode_groups_spec [OF this, of behind] obtain body where
    b: "encode_groups (padded e) 0 (use div 3) = Inr body" "length body = 4 * (use div 3)"
      "list_all uu_char body" "decode_groups body behind = Inr (Inr (take use (padded e)))"
    using use(2) by auto
  have n: "unat (word_of_nat ?n :: byte) = ?n" using assms(2) by (simp add: unat_of_nat take_bit_nat_eq_self)
  have small: "(word_of_nat ?n :: byte) < 64" using n assms(2) by (simp add: word_less_nat_alt)
  have nz: "(word_of_nat ?n :: byte) \<noteq> 0" using n assms(1) by (metis length_0_conv unat_0)
  have "unat (enc (word_of_nat ?n) - 32) = ?n" using n nz by (simp add: enc_def)
  moreover have "body \<noteq> []" using b(2) use(2,4) by auto
  moreover have "take ?n (take use (padded e)) = e" using padded_spec [OF assms(1)] use(3) by (simp add: min_absorb1)
  ultimately have "uudecodeLine (enc (word_of_nat ?n) # body) behind = Inr (Inr e)"
    using b(4) use(3) padded_spec [OF assms(1)] use(1) by (simp add: uudecodeLine_def go_index_def Let_def)
  moreover have "uuencodeLine e = Inr (enc (word_of_nat ?n) # body)"
    using b(1) by (simp add: uuencodeLine_def Let_def use_def)
  moreover have "use div 3 \<le> ?n" using use(1) assms(1) by (cases ?n) auto
  then have "length (enc (word_of_nat ?n) # body) \<le> 1 + 4 * ?n" using b(2) by simp
  ultimately show ?thesis using b(3) enc_char [OF small] by simp
qed

lemma split_lines_append: "10 \<notin> set l \<Longrightarrow> split_lines (l @ 10 # r) = l # split_lines r"
  by (induction l) auto

section \<open>Decoding inverts encoding\<close>

lemma encode_decodes:
  "\<exists>e. UUEncode p = Inr e \<and> UUDecode e = Inr (Inr p) \<and> list_all (\<lambda>b. b = 10 \<or> uu_char b) e"
proof (induction p rule: UUEncode.induct)
  case (1 p)
  show ?case
  proof (cases "p = []")
    case True
    have "decode_lines [[96], []] = Inr (Inr [])" by (simp add: uudecodeLine_def)
    with True show ?thesis by (simp add: UUEncode.simps UUDecode_def uu_char_def)
  next
    case False
    from 1 [OF False] obtain e where e: "UUEncode (drop 45 p) = Inr e" "UUDecode e = Inr (Inr (drop 45 p))"
      "list_all (\<lambda>b. b = 10 \<or> uu_char b) e"
      using line_roundtrip [of "take 45 p"] False by force
    obtain l where l: "uuencodeLine (take 45 p) = Inr l" "l \<noteq> []" "list_all uu_char l"
      "uudecodeLine l (join_lines (split_lines e)) = Inr (Inr (take 45 p))"
      using line_roundtrip [of "take 45 p" "join_lines (split_lines e)"] False by auto
    have "10 \<notin> set l" using l(3) by (auto simp: list_all_iff uu_char_def)
    then have sp: "split_lines (l @ 10 # e) = l # split_lines e" by (rule split_lines_append)
    have c: "uu_char (l ! 0)" using l(2,3) by (cases l) auto
    then have "\<not> l ! 0 > 96" "\<not> l ! 0 < 32" by (auto simp: uu_char_def)
    with l(2,4) e(2) have "decode_lines (l # split_lines e) = Inr (Inr (take 45 p @ drop 45 p))"
      by (simp add: UUDecode_def del: append_take_drop_id)
    then have "UUDecode (l @ 10 # e) = Inr (Inr p)" by (simp add: UUDecode_def sp)
    moreover have "UUEncode p = Inr (l @ 10 # e)" using False l(1) e(1) by (subst UUEncode.simps) simp
    moreover have "list_all (\<lambda>b. b = 10 \<or> uu_char b) (l @ 10 # e)"
      using l(3) e(3) by (auto simp: list_all_iff)
    ultimately show ?thesis by blast
  qed
qed

text \<open>The text is at most six times as long as the data, and two characters.\<close>

lemma encoded_length: "\<exists>e. UUEncode p = Inr e \<and> length e \<le> 6 * length p + 2"
proof (induction p rule: UUEncode.induct)
  case (1 p)
  show ?case
  proof (cases "p = []")
    case True
    then show ?thesis by (simp add: UUEncode.simps)
  next
    case False
    from 1 [OF False] obtain e where e: "UUEncode (drop 45 p) = Inr e" "length e \<le> 6 * length (drop 45 p) + 2"
      using line_roundtrip [of "take 45 p"] False by force
    obtain l where l: "uuencodeLine (take 45 p) = Inr l" "length l \<le> 1 + 4 * length (take 45 p)"
      using line_roundtrip [of "take 45 p" "[]"] False by auto
    have "length (take 45 p) + length (drop 45 p) = length p" "0 < length (take 45 p)" using False by simp_all
    moreover have "length (l @ [10] @ e) = length l + 1 + length e" by simp
    ultimately have "length (l @ [10] @ e) \<le> 6 * length p + 2" using e(2) l(2) by linarith
    moreover have "UUEncode p = Inr (l @ [10] @ e)" using False l(1) e(1) by (subst UUEncode.simps) simp
    ultimately show ?thesis by blast
  qed
qed

section \<open>Properties\<close>

text \<open>
  C11. Decoding inverts encoding for every byte string, although the encoder pads with the wrong number
  of zeros and slices behind its copy of the line; and the encoded text consists of newlines and
  characters from "!" to "`".
\<close>

theorem uu_roundtrip:
  "\<exists>e. UUEncode p = Inr e \<and> UUDecode e = Inr (Inr p) \<and> list_all (\<lambda>b. b = 10 \<or> uu_char b) e"
  by (rule encode_decodes)

end
