(* ===== verification/Scamper.thy ===== *)
theory Scamper
  imports ScamperCmd DataModel UUEncode "HOL-Library.AList"
begin

text \<open>
  \<open>scamper/socket.go\<close>, \<open>scamper/client.go\<close>: a control socket of scamper. Measurements are numbered and
  queued, a goroutine writes them to the connection, another reads the answers, which are uuencoded
  warts; each answer is decoded by a goroutine of its own and sent on the channel of the measurement
  whose number it carries.

  A socket is a record; what the goroutines do are functions on it, as long as a lock is held or one
  channel operation takes. The connection is the bytes scamper has still to send and the text it was
  sent; writing to it succeeds.
\<close>

section \<open>Responses\<close>

datatype responseT = T_none | T_ok | T_more | T_data | T_err

record Response =
  r_RType :: responseT
  r_Data :: "byte list"
  r_Ret :: "warts_object option"
  r_DS :: int
  r_UserID :: uint32
  r_Err :: "string option"
  r_Header :: bool

definition zero_Response :: Response where
  "zero_Response = \<lparr>r_RType = T_none, r_Data = [], r_Ret = None, r_DS = 0, r_UserID = 0, r_Err = None, r_Header = False\<rparr>"

datatype read_error = ErrorBadResponse | ErrorBadDataResponse | NumError | EOF | ErrUnexpectedEOF

text \<open>What the standard library does with text: \<open>strings.Contains\<close>, \<open>TrimSpace\<close> (of ASCII), \<open>strconv.Atoi\<close>.\<close>

fun strings_Contains :: "string \<Rightarrow> string \<Rightarrow> bool" where
  "strings_Contains [] sub = (sub = [])"
| "strings_Contains (c # s) sub = (take (length sub) (c # s) = sub \<or> strings_Contains s sub)"

definition is_space :: "char \<Rightarrow> bool" where
  "is_space c = (let n = (of_char c :: nat) in n = 32 \<or> 9 \<le> n \<and> n \<le> 13)"

definition TrimSpace :: "string \<Rightarrow> string" where
  "TrimSpace s = rev (dropWhile is_space (rev (dropWhile is_space s)))"

definition Atoi :: "string \<Rightarrow> int option" where
  "Atoi s =
     (let neg = (take 1 s = ''-''); digits = (if neg \<or> take 1 s = ''+'' then drop 1 s else s);
          v = (if neg then - int (dec_value 0 digits) else int (dec_value 0 digits)) in
      if digits = [] \<or> \<not> list_all is_digit digits then None
      else if - (2 ^ 63) \<le> v \<and> v < 2 ^ 63 then Some v else None)"

text \<open>\<open>io.ReadFull(re, buff)\<close> for a buffer of \<open>n\<close> bytes.\<close>

definition ReadFull :: "nat \<Rightarrow> byte list \<Rightarrow> (read_error + byte list) \<times> byte list" where
  "ReadFull n re =
     (if n \<le> length re then (Inr (take n re), drop n re)
      else (Inl (if re = [] then EOF else ErrUnexpectedEOF), []))"

definition parseResponse :: "string \<Rightarrow> byte list \<Rightarrow> ((Response \<times> read_error option) \<times> byte list) go" where
  "parseResponse r re =
     (let resp = zero_Response in
      if strings_Contains r ''OK'' then
        let resp = resp\<lparr>r_RType := T_ok\<rparr>; split = split_on (CHR '' '') (TrimSpace r) in
        go_bind (go_index split 1) (\<lambda>s1.
        go_bind (go_index (split_on (CHR ''-'') s1) 1) (\<lambda>i.
          Inr ((resp, if Atoi i = None then Some ErrorBadResponse else None), re)))
      else if strings_Contains r ''ERR'' then Inr ((resp\<lparr>r_RType := T_err\<rparr>, None), re)
      else if strings_Contains r ''DATA'' then
        let resp = resp\<lparr>r_RType := T_data\<rparr>; split = split_on (CHR '' '') r in
        if length split \<noteq> 2 then Inr ((resp, Some ErrorBadDataResponse), re)
        else
          go_bind (go_index split 1) (\<lambda>s1.
          go_bind (go_slice s1 0 (int (length s1) - 1)) (\<lambda>num.
          case Atoi num of
            None \<Rightarrow> Inr ((resp, Some NumError), re)
          | Some n \<Rightarrow>
              if n < 0 then Inl (PanicMsg ''makeslice: len out of range'')
              else
                let resp = resp\<lparr>r_DS := n\<rparr> in
                (case ReadFull (nat n) re of
                   (Inl err, rest) \<Rightarrow> Inr ((resp, Some err), rest)
                 | (Inr buff, rest) \<Rightarrow> Inr ((resp\<lparr>r_Data := buff\<rparr>, None), rest))))
      else if strings_Contains r ''MORE'' then Inr ((resp\<lparr>r_RType := T_more\<rparr>, None), re)
      else Inr ((resp, Some ErrorBadResponse), re))"

section \<open>The commands of a socket\<close>

text \<open>
  The channel of a measurement has room for one response. It lives in a list and is named by its
  position; \<open>dc_got\<close> is what was received from it, \<open>dc_id\<close> the measurement it was made for.
\<close>

record done_chan =
  dc_id :: uint32
  dc_buf :: "Response list"
  dc_got :: "Response list"
  dc_closed :: bool

record cmdResponse =
  cr_cmd :: Cmd
  cr_done :: nat

type_synonym cmdMap = "(uint32 \<times> cmdResponse) list"

definition getCmd :: "uint32 \<Rightarrow> cmdMap \<Rightarrow> cmdResponse option" where
  "getCmd i cm = map_of cm i"

definition rmCmd :: "uint32 \<Rightarrow> cmdMap \<Rightarrow> cmdMap" where
  "rmCmd i cm = AList.delete i cm"

definition addCmd :: "cmdResponse \<Rightarrow> cmdMap \<Rightarrow> cmdMap option" where
  "addCmd c cm = (case map_of cm (cmd_ID (cr_cmd c)) of
     Some _ \<Rightarrow> None
   | None \<Rightarrow> Some ((cmd_ID (cr_cmd c), c) # cm))"

text \<open>\<open>close(cmd.done)\<close>; closing a channel twice panics.\<close>

definition close_done :: "nat \<Rightarrow> done_chan list \<Rightarrow> done_chan list go" where
  "close_done c chans =
     (if dc_closed (chans ! c) then Inl (PanicMsg ''close of closed channel'')
      else Inr (chans[c := (chans ! c)\<lparr>dc_closed := True\<rparr>]))"

text \<open>\<open>for cmd := range s.cmds.forEach() { close(cmd.done) }\<close>: the map is empty afterwards.\<close>

fun close_all :: "(uint32 \<times> cmdResponse) list \<Rightarrow> done_chan list \<Rightarrow> done_chan list go" where
  "close_all [] chans = Inr chans"
| "close_all ((_, c) # cs) chans = go_bind (close_done (cr_done c) chans) (close_all cs)"

section \<open>The socket\<close>

datatype sockstate = SockOpen | SockClosed

text \<open>
  A goroutine that handles one response: started, or with the command it found (by its id and channel),
  or after it removed the command and about to send, or blocked for ever on the nil channel of a
  \<open>cmdResponse\<close> it never found.
\<close>

datatype answer_task = Started Response | Found Response nat | Sending Response nat | BlockedOnNil Response

text \<open>
  \<open>sk_in\<close> is what scamper has still to send; \<open>sk_buf\<close> and \<open>sk_sent\<close> are the buffer of the writer and the
  text behind it; \<open>sk_issued\<close> is the history of commands that were accepted.
\<close>

record socket =
  sk_fname :: string
  sk_cmds :: cmdMap
  sk_chans :: "done_chan list"
  sk_header :: "Response list"
  sk_rc :: nat
  sk_in :: "byte list"
  sk_reading :: bool
  sk_tasks :: "answer_task list"
  sk_write :: "cmdResponse list"
  sk_buf :: string
  sk_sent :: string
  sk_writes :: nat
  sk_userID :: uint32
  sk_state :: sockstate
  sk_issued :: "Cmd list"

definition NewSocket :: "string \<Rightarrow> byte list \<Rightarrow> socket" where
  "NewSocket fname con = \<lparr>sk_fname = fname, sk_cmds = [], sk_chans = [], sk_header = [zero_Response, zero_Response],
     sk_rc = 0, sk_in = con, sk_reading = True, sk_tasks = [], sk_write = [], sk_buf = [], sk_sent = [],
     sk_writes = 0, sk_userID = 0, sk_state = SockOpen, sk_issued = []\<rparr>"

definition Socket_Stop :: "socket \<Rightarrow> socket go" where
  "Socket_Stop s =
     go_bind (close_all (sk_cmds s) (sk_chans s)) (\<lambda>chans.
       Inr (s\<lparr>sk_cmds := [], sk_chans := chans, sk_state := SockClosed\<rparr>))"

text \<open>\<open>path.Base\<close>\<close>

definition path_Base :: "string \<Rightarrow> string" where
  "path_Base p =
     (if p = [] then ''.''
      else let q = rev (dropWhile (\<lambda>c. c = CHR ''/'') (rev p)) in
           if q = [] then ''/'' else last (split_on (CHR ''/'') q))"

definition Socket_IP :: "socket \<Rightarrow> string" where
  "Socket_IP s = split_on (CHR '':'') (path_Base (sk_fname s)) ! 0"

definition Socket_Port :: "socket \<Rightarrow> string go" where
  "Socket_Port s = go_index (split_on (CHR '':'') (path_Base (sk_fname s))) 1"

section \<open>Issuing measurements\<close>

datatype scamper_error = ErrorDupCommand | ErrSocketClosed | ErrorSocketNotFound

definition getID :: "socket \<Rightarrow> uint32 \<times> socket" where
  "getID s = (sk_userID s + 1, s\<lparr>sk_userID := sk_userID s + 1\<rparr>)"

text \<open>
  The lock of the socket is held. Sending on the queue waits while it holds 50 commands; the function is
  the call from the moment there is room.
\<close>

definition Socket_DoMeasurement :: "cmd_arg \<Rightarrow> socket \<Rightarrow> (scamper_error + nat \<times> uint32) \<times> socket" where
  "Socket_DoMeasurement arg s =
     (if sk_state s = SockOpen then
        let (i, s) = getID s;
            cr = \<lparr>cr_cmd = \<lparr>cmd_ID = i, cmd_Arg = arg\<rparr>, cr_done = length (sk_chans s)\<rparr>
        in case addCmd cr (sk_cmds s) of
             None \<Rightarrow> (Inl ErrorDupCommand, s)
           | Some cmds \<Rightarrow>
               (Inr (cr_done cr, i),
                s\<lparr>sk_cmds := cmds,
                  sk_chans := sk_chans s @ [\<lparr>dc_id = i, dc_buf = [], dc_got = [], dc_closed = False\<rparr>],
                  sk_write := sk_write s @ [cr],
                  sk_issued := sk_issued s @ [cr_cmd cr]\<rparr>)
      else (Inl ErrSocketClosed, s))"

definition Socket_RemoveMeasurement :: "uint32 \<Rightarrow> socket \<Rightarrow> socket" where
  "Socket_RemoveMeasurement i s = s\<lparr>sk_cmds := rmCmd i (sk_cmds s)\<rparr>"

text \<open>\<open>bufio.Writer\<close>: a buffer of 4096 bytes; a write to an empty buffer that does not fit goes straight through.\<close>

function bufio_Write :: "string \<Rightarrow> string \<Rightarrow> string \<Rightarrow> string \<times> string" where
  "bufio_Write p buf sent =
     (if length p \<le> 4096 - length buf then (buf @ p, sent)
      else if buf = [] then ([], sent @ p)
      else bufio_Write (drop (4096 - length buf) p) [] (sent @ buf @ take (4096 - length buf) p))"
  by pat_completeness auto
termination by (relation "measure (\<lambda>(p, buf, _). length p + length buf)") auto

declare bufio_Write.simps [simp del]

definition flushWrite :: "socket \<Rightarrow> socket" where
  "flushWrite s = s\<lparr>sk_sent := sk_sent s @ sk_buf s, sk_buf := []\<rparr>"

text \<open>One turn of \<open>writeConn\<close> that takes a command from the queue, and one on a tick of its clock.\<close>

definition writeConn_cmd :: "cmdResponse \<Rightarrow> socket \<Rightarrow> socket" where
  "writeConn_cmd w s =
     (let s = s\<lparr>sk_writes := sk_writes s + 1\<rparr> in
      case IssueCommand (cr_cmd w) of
        Inl err \<Rightarrow> s\<lparr>sk_buf := [], sk_writes := 0\<rparr>
      | Inr l \<Rightarrow>
          let (buf, sent) = bufio_Write l (sk_buf s) (sk_sent s);
              s = s\<lparr>sk_buf := buf, sk_sent := sent\<rparr>
          in if sk_writes s > 10 then (flushWrite s)\<lparr>sk_writes := 0\<rparr> else s)"

definition writeConn_tick :: "socket \<Rightarrow> socket" where
  "writeConn_tick s = (if length (sk_buf s) > 0 then flushWrite s else s)"

section \<open>Reading answers\<close>

text \<open>\<open>ReadString('\n')\<close>: the line with its end, or the end of the stream.\<close>

definition ReadString :: "byte list \<Rightarrow> (read_error + string) \<times> byte list" where
  "ReadString bs =
     (case dropWhile (\<lambda>b. b \<noteq> 10) bs of
        [] \<Rightarrow> (Inl EOF, [])
      | nl # rest \<Rightarrow> (Inr (map (\<lambda>b. char_of (unat b)) (takeWhile (\<lambda>b. b \<noteq> 10) bs @ [nl])), rest))"

definition readResponse :: "socket \<Rightarrow> ((read_error + Response) \<times> socket) go" where
  "readResponse s =
     (case ReadString (sk_in s) of
        (Inl err, rest) \<Rightarrow> Inr (Inl err, s\<lparr>sk_in := rest\<rparr>)
      | (Inr line, rest) \<Rightarrow>
          go_bind (parseResponse line rest) (\<lambda>((resp, err), rest).
          let s = s\<lparr>sk_in := rest\<rparr> in
          case err of
            Some e \<Rightarrow> Inr (Inl e, s)
          | None \<Rightarrow>
              if r_RType resp \<noteq> T_data then Inr (Inr resp, s)
              else if sk_rc s < 2 then
                Inr (Inr (resp\<lparr>r_Header := True\<rparr>),
                     s\<lparr>sk_header := (sk_header s)[sk_rc s := resp], sk_rc := sk_rc s + 1\<rparr>)
              else Inr (Inr resp, s)))"

text \<open>One turn of \<open>readConn\<close>: an error closes the socket and ends the loop, a result starts a goroutine.\<close>

definition readConn_turn :: "socket \<Rightarrow> socket go" where
  "readConn_turn s =
     go_bind (readResponse s) (\<lambda>(r, s).
     case r of
       Inl err \<Rightarrow> go_bind (Socket_Stop s) (\<lambda>s. Inr (s\<lparr>sk_reading := False\<rparr>))
     | Inr resp \<Rightarrow>
         Inr (if r_Header resp then s
              else if r_RType resp = T_data then s\<lparr>sk_tasks := sk_tasks s @ [Started resp]\<rparr>
              else s))"

text \<open>
  The goroutine of a response: the two headers and the response are decoded, errors of the decoder are
  dropped, and the first object of type ping or traceroute is the result. Without one, \<open>res[0]\<close> panics.
\<close>

definition WriteTo :: "Response \<Rightarrow> byte list \<Rightarrow> byte list go" where
  "WriteTo r w = go_bind (Writer_Write (r_Data r) w) (\<lambda>(_, w). Inr w)"

definition decoded :: "Response list \<Rightarrow> Response \<Rightarrow> byte list go" where
  "decoded header r =
     go_bind (go_index header 0) (\<lambda>h0. go_bind (WriteTo h0 []) (\<lambda>dec.
     go_bind (go_index header 1) (\<lambda>h1. go_bind (WriteTo h1 dec) (\<lambda>dec.
     go_bind (WriteTo r dec) (\<lambda>dec. Inr (Writer_Bytes dec))))))"

definition object_UserID :: "uint32 \<Rightarrow> warts_object \<Rightarrow> uint32" where
  "object_UserID i obj =
     (case obj of
        OTraceroute t \<Rightarrow> tf_UserID (wt_Flags t)
      | OPing p \<Rightarrow> pf_UserID (wp_Flags p)
      | _ \<Rightarrow> i)"

text \<open>Up to the lookup of the command; a goroutine that ends is gone.\<close>

definition answer_lookup :: "cmdMap \<Rightarrow> Response list \<Rightarrow> Response \<Rightarrow> answer_task list go" where
  "answer_lookup cmds header r =
     go_bind (decoded header r) (\<lambda>dec.
     go_bind (Parse dec [7, 6]) (\<lambda>res.
     case res of
       Inl err \<Rightarrow> Inr [BlockedOnNil (r\<lparr>r_Err := Some err\<rparr>)]
     | Inr res \<Rightarrow>
         go_bind (go_index res 0) (\<lambda>obj.
         let r = r\<lparr>r_UserID := object_UserID (r_UserID r) obj, r_Ret := Some obj\<rparr> in
         case getCmd (r_UserID r) cmds of
           None \<Rightarrow> Inr []
         | Some cr \<Rightarrow> Inr [Found r (cr_done cr)])))"

text \<open>\<open>cr.done <- r\<close> on a channel with room; a closed channel panics, a full one waits.\<close>

definition send_done :: "nat \<Rightarrow> Response \<Rightarrow> done_chan list \<Rightarrow> done_chan list go" where
  "send_done c r chans =
     (if dc_closed (chans ! c) then Inl (PanicMsg ''send on closed channel'')
      else Inr (chans[c := (chans ! c)\<lparr>dc_buf := dc_buf (chans ! c) @ [r]\<rparr>]))"

text \<open>\<open>task_turn k s\<close>: the next operation of goroutine \<open>k\<close>, if it is not waiting.\<close>

definition replace_task :: "nat \<Rightarrow> answer_task list \<Rightarrow> answer_task list \<Rightarrow> answer_task list" where
  "replace_task k new ts = take k ts @ new @ drop (Suc k) ts"

definition task_turn :: "nat \<Rightarrow> socket \<Rightarrow> socket go" where
  "task_turn k s =
     (case sk_tasks s ! k of
        Started r \<Rightarrow>
          go_bind (answer_lookup (sk_cmds s) (sk_header s) r) (\<lambda>new.
            Inr (s\<lparr>sk_tasks := replace_task k new (sk_tasks s)\<rparr>))
      | Found r c \<Rightarrow>
          Inr (s\<lparr>sk_cmds := rmCmd (r_UserID r) (sk_cmds s), sk_tasks := replace_task k [Sending r c] (sk_tasks s)\<rparr>)
      | Sending r c \<Rightarrow>
          if length (dc_buf (sk_chans s ! c)) < 1 \<or> dc_closed (sk_chans s ! c) then
            go_bind (send_done c r (sk_chans s)) (\<lambda>chans.
              Inr (s\<lparr>sk_chans := chans, sk_tasks := replace_task k [] (sk_tasks s)\<rparr>))
          else Inr s
      | BlockedOnNil r \<Rightarrow> Inr s)"

text \<open>\<open>r := <-resp\<close>: a response, the zero response of a closed channel, or nothing yet.\<close>

definition receive_done :: "nat \<Rightarrow> socket \<Rightarrow> (Response \<times> socket) option" where
  "receive_done c s =
     (let ch = sk_chans s ! c in
      case dc_buf ch of
        r # rs \<Rightarrow> Some (r, s\<lparr>sk_chans := (sk_chans s)[c := ch\<lparr>dc_buf := rs, dc_got := dc_got ch @ [r]\<rparr>]\<rparr>)
      | [] \<Rightarrow> if dc_closed ch then Some (zero_Response, s) else None)"

section \<open>The socket over time\<close>

text \<open>
  Every step is one goroutine's: a caller, the reader, the writer or the goroutine of a response. The
  reader and the writer leave their loops some time after the socket was closed.
\<close>

inductive sk_step :: "socket \<Rightarrow> socket \<Rightarrow> bool" where
  measure: "length (sk_write s) < 50 \<Longrightarrow> sk_step s (snd (Socket_DoMeasurement arg s))"
| remove: "sk_step s (Socket_RemoveMeasurement i s)"
| stop: "Socket_Stop s = Inr s' \<Longrightarrow> sk_step s s'"
| read: "sk_reading s \<Longrightarrow> readConn_turn s = Inr s' \<Longrightarrow> sk_step s s'"
| leave: "sk_state s = SockClosed \<Longrightarrow> sk_step s (s\<lparr>sk_reading := False\<rparr>)"
| send: "sk_write s = w # ws \<Longrightarrow> sk_step s (writeConn_cmd w (s\<lparr>sk_write := ws\<rparr>))"
| tick: "sk_step s (writeConn_tick s)"
| task: "k < length (sk_tasks s) \<Longrightarrow> task_turn k s = Inr s' \<Longrightarrow> sk_step s s'"
| receive: "c < length (sk_chans s) \<Longrightarrow> receive_done c s = Some (r, s') \<Longrightarrow> sk_step s s'"

inductive sk_reachable :: "socket \<Rightarrow> bool" where
  start: "sk_reachable (NewSocket fname con)"
| step: "sk_reachable s \<Longrightarrow> sk_step s s' \<Longrightarrow> sk_reachable s'"

section \<open>Invariant\<close>

text \<open>A response carries \<open>i\<close> if it holds a ping or traceroute that scamper ran under this number.\<close>

definition object_for :: "uint32 \<Rightarrow> warts_object \<Rightarrow> bool" where
  "object_for i obj = (case obj of OTraceroute t \<Rightarrow> tf_UserID (wt_Flags t) = i | OPing p \<Rightarrow> pf_UserID (wp_Flags p) = i | _ \<Rightarrow> False)"

definition carries :: "uint32 \<Rightarrow> Response \<Rightarrow> bool" where
  "carries i r \<longleftrightarrow> r_UserID r = i \<and> (case r_Ret r of None \<Rightarrow> False | Some obj \<Rightarrow> object_for i obj)"

definition owns :: "uint32 list \<Rightarrow> uint32 \<Rightarrow> nat \<Rightarrow> bool" where
  "owns ids i c \<longleftrightarrow> c < length ids \<and> ids ! c = i"

fun task_ok :: "uint32 list \<Rightarrow> answer_task \<Rightarrow> bool" where
  "task_ok ids (Found r c) \<longleftrightarrow> carries (r_UserID r) r \<and> owns ids (r_UserID r) c"
| "task_ok ids (Sending r c) \<longleftrightarrow> carries (r_UserID r) r \<and> owns ids (r_UserID r) c"
| "task_ok ids _ \<longleftrightarrow> True"

definition cmds_ok :: "cmdMap \<Rightarrow> done_chan list \<Rightarrow> bool" where
  "cmds_ok cmds chans \<longleftrightarrow> distinct (map fst cmds) \<and> distinct (map (cr_done \<circ> snd) cmds) \<and>
     (\<forall>(i, cr) \<in> set cmds. cmd_ID (cr_cmd cr) = i \<and> owns (map dc_id chans) i (cr_done cr) \<and> \<not> dc_closed (chans ! cr_done cr))"

definition chan_ok :: "done_chan \<Rightarrow> bool" where
  "chan_ok ch \<longleftrightarrow> length (dc_buf ch) \<le> 1 \<and> (\<forall>r \<in> set (dc_buf ch @ dc_got ch). carries (dc_id ch) r)"

definition sk_inv :: "socket \<Rightarrow> bool" where
  "sk_inv s \<longleftrightarrow> cmds_ok (sk_cmds s) (sk_chans s) \<and> list_all (task_ok (map dc_id (sk_chans s))) (sk_tasks s) \<and>
     list_all chan_ok (sk_chans s) \<and> (sk_state s = SockClosed \<longrightarrow> sk_cmds s = [])"

lemma cmds_okD:
  "cmds_ok cmds chans \<Longrightarrow> (i, cr) \<in> set cmds \<Longrightarrow>
     cmd_ID (cr_cmd cr) = i \<and> owns (map dc_id chans) i (cr_done cr) \<and> \<not> dc_closed (chans ! cr_done cr)"
  by (auto simp: cmds_ok_def)

lemma owns_snoc: "owns ids i c \<Longrightarrow> owns (ids @ [j]) i c"
  by (simp add: owns_def nth_append)

lemma task_ok_snoc: "task_ok ids t \<Longrightarrow> task_ok (ids @ [j]) t"
  by (cases t) (simp_all add: owns_snoc)

lemma cmds_ok_subset:
  "cmds_ok cmds chans \<Longrightarrow> cmds_ok (AList.delete i cmds) chans"
  unfolding cmds_ok_def AList.delete_eq
  by (auto simp: distinct_map inj_on_def)

text \<open>Closing the channels of the commands: none is closed twice, and nothing else changes.\<close>

lemma close_all_ok:
  "cmds_ok cs chans \<Longrightarrow> \<exists>chans'. close_all cs chans = Inr chans' \<and> map dc_id chans' = map dc_id chans \<and>
     (\<forall>c < length chans. chans' ! c = (chans ! c)\<lparr>dc_closed := dc_closed (chans ! c) \<or> c \<in> set (map (cr_done \<circ> snd) cs)\<rparr>)"
proof (induction cs arbitrary: chans)
  case (Cons x cs)
  obtain i cr where x: "x = (i, cr)" by (cases x)
  let ?c = "cr_done cr"
  let ?chans = "chans[?c := (chans ! ?c)\<lparr>dc_closed := True\<rparr>]"
  have c: "?c < length chans" "\<not> dc_closed (chans ! ?c)" "?c \<notin> set (map (cr_done \<circ> snd) cs)"
    using Cons.prems by (auto simp: cmds_ok_def x owns_def)
  have ids: "map dc_id ?chans = map dc_id chans" by (rule map_update_same) (use c in simp_all)
  have "cmds_ok cs ?chans"
    unfolding cmds_ok_def ids
  proof (intro conjI ballI; clarify?)
    fix j cr' assume m: "(j, cr') \<in> set cs"
    then have "cr_done cr' \<noteq> ?c" using c(3) by force
    moreover have "cmd_ID (cr_cmd cr') = j \<and> owns (map dc_id chans) j (cr_done cr') \<and> \<not> dc_closed (chans ! cr_done cr')"
      by (rule cmds_okD [OF Cons.prems]) (simp add: m)
    ultimately show "cmd_ID (cr_cmd cr') = j \<and> owns (map dc_id chans) j (cr_done cr') \<and> \<not> dc_closed (?chans ! cr_done cr')"
      by simp
  qed (use Cons.prems in \<open>simp_all add: cmds_ok_def\<close>)
  from Cons.IH [OF this] obtain chans' where ch: "close_all cs ?chans = Inr chans'" "map dc_id chans' = map dc_id ?chans"
    "\<And>c. c < length ?chans \<Longrightarrow> chans' ! c = (?chans ! c)\<lparr>dc_closed := dc_closed (?chans ! c) \<or> c \<in> set (map (cr_done \<circ> snd) cs)\<rparr>"
    by blast
  have "chans' ! j = (chans ! j)\<lparr>dc_closed := dc_closed (chans ! j) \<or> j \<in> set (map (cr_done \<circ> snd) (x # cs))\<rparr>"
    if "j < length chans" for j
    using ch(3) [of j] that by (cases "j = ?c") (simp_all add: x)
  then show ?case using ch(1,2) c(2) by (simp add: x close_done_def ids)
qed simp

lemma ids_length: "map dc_id chans' = map dc_id chans \<Longrightarrow> length chans' = length chans"
  by (metis length_map)

lemma Stop_ok:
  assumes "sk_inv s"
  shows "\<exists>s'. Socket_Stop s = Inr s' \<and> sk_inv s' \<and> sk_state s' = SockClosed \<and> sk_cmds s' = [] \<and>
    (\<forall>(i, cr) \<in> set (sk_cmds s). dc_closed (sk_chans s' ! cr_done cr))"
proof -
  have cm: "cmds_ok (sk_cmds s) (sk_chans s)" using assms by (simp add: sk_inv_def)
  from close_all_ok [OF cm] obtain chans' where ch: "close_all (sk_cmds s) (sk_chans s) = Inr chans'"
    "map dc_id chans' = map dc_id (sk_chans s)"
    "\<And>c. c < length (sk_chans s) \<Longrightarrow> chans' ! c = (sk_chans s ! c)\<lparr>dc_closed := dc_closed (sk_chans s ! c) \<or> c \<in> set (map (cr_done \<circ> snd) (sk_cmds s))\<rparr>"
    by blast
  have l: "length chans' = length (sk_chans s)" by (rule ids_length [OF ch(2)])
  have "list_all chan_ok chans'"
    using assms ch(3) by (auto simp: sk_inv_def list_all_length l chan_ok_def)
  moreover have "dc_closed (chans' ! cr_done cr)" if "(i, cr) \<in> set (sk_cmds s)" for i cr
  proof -
    have "cr_done cr < length (sk_chans s)" using cm that by (auto simp: cmds_ok_def owns_def)
    moreover have "cr_done cr \<in> set (map (cr_done \<circ> snd) (sk_cmds s))" using that by force
    ultimately show ?thesis using ch(3) by simp
  qed
  ultimately show ?thesis
    using assms ch(1,2) by (auto simp: Socket_Stop_def sk_inv_def cmds_ok_def)
qed

lemma NewSocket_ok: "sk_inv (NewSocket fname con)"
  by (simp add: sk_inv_def NewSocket_def cmds_ok_def)

lemma cmds_ok_add:
  assumes "cmds_ok cmds chans" and "map_of cmds i = None" and "cmd_ID (cr_cmd cr) = i" and "cr_done cr = length chans"
    and "dc_id ch = i" and "\<not> dc_closed ch"
  shows "cmds_ok ((i, cr) # cmds) (chans @ [ch])"
  unfolding cmds_ok_def
proof (intro conjI ballI; clarify?)
  show "distinct (map fst ((i, cr) # cmds))"
    using assms(1,2) by (simp add: cmds_ok_def map_of_eq_None_iff)
  have "cr_done cr' < length chans" if "(j, cr') \<in> set cmds" for j cr'
    using cmds_okD [OF assms(1) that] by (simp add: owns_def)
  then show "distinct (map (cr_done \<circ> snd) ((i, cr) # cmds))"
    using assms(1,4) by (fastforce simp: cmds_ok_def)
  fix j cr' assume "(j, cr') \<in> set ((i, cr) # cmds)"
  then consider "j = i" "cr' = cr" | "(j, cr') \<in> set cmds" by auto
  then show "cmd_ID (cr_cmd cr') = j \<and> owns (map dc_id (chans @ [ch])) j (cr_done cr') \<and> \<not> dc_closed ((chans @ [ch]) ! cr_done cr')"
  proof cases
    case 1
    then show ?thesis using assms by (simp add: owns_def nth_append)
  next
    case 2
    from cmds_okD [OF assms(1) this] show ?thesis by (simp add: owns_def nth_append)
  qed
qed

lemma DoMeasurement_ok: "sk_inv s \<Longrightarrow> sk_inv (snd (Socket_DoMeasurement arg s))"
  unfolding Socket_DoMeasurement_def sk_inv_def
  by (auto simp: getID_def addCmd_def Let_def chan_ok_def list_all_iff
      intro!: cmds_ok_add task_ok_snoc split: option.split)

text \<open>A channel that gets or gives up a response of its own keeps the invariant.\<close>

lemma sk_inv_chan:
  assumes "sk_inv s" and "c < length (sk_chans s)" and "chan_ok ch" and "dc_id ch = dc_id (sk_chans s ! c)"
    and "dc_closed ch = dc_closed (sk_chans s ! c)"
  shows "sk_inv (s\<lparr>sk_chans := (sk_chans s)[c := ch]\<rparr>)"
proof -
  have ids: "map dc_id ((sk_chans s)[c := ch]) = map dc_id (sk_chans s)" by (rule map_update_same) (use assms in simp_all)
  have cl: "dc_closed ((sk_chans s)[c := ch] ! j) = dc_closed (sk_chans s ! j)" for j
    using assms(2,5) by (cases "j = c") simp_all
  have "cmds_ok (sk_cmds s) ((sk_chans s)[c := ch])" using assms(1) by (simp add: sk_inv_def cmds_ok_def ids cl)
  moreover have "list_all chan_ok ((sk_chans s)[c := ch])"
    using assms(1-3) by (auto simp: sk_inv_def list_all_length nth_list_update)
  ultimately show ?thesis using assms(1) by (simp add: sk_inv_def ids)
qed

lemma receive_ok:
  assumes "sk_inv s" and "c < length (sk_chans s)" and "receive_done c s = Some (r, s')"
  shows "sk_inv s'"
proof -
  have "chan_ok (sk_chans s ! c)" using assms(1,2) by (simp add: sk_inv_def list_all_length)
  then show ?thesis
    using assms by (auto simp: receive_done_def Let_def chan_ok_def split: list.splits if_splits intro!: sk_inv_chan)
qed

lemma object_UserID_for: "getWartsT obj \<in> {7, 6} \<Longrightarrow> object_for (object_UserID i obj) obj"
  by (cases obj) (simp_all add: object_for_def object_UserID_def getWartsT_def)

lemma Parse_types: "Parse data ts = Inr (Inr objs) \<Longrightarrow> obj \<in> set objs \<Longrightarrow> getWartsT obj \<in> set ts"
  using Parse_loop_sound [of "set ts" "[]" "\<lparr>rs_buf = data, rs_id = 0, rs_addrs = Map.empty\<rparr>"]
  by (auto simp: Parse_def)

lemma answer_lookup_ok:
  assumes "answer_lookup cmds header r = Inr new" and "cmds_ok cmds chans"
  shows "list_all (task_ok (map dc_id chans)) new"
proof -
  from assms(1) obtain dec res where p: "Parse dec [7, 6] = Inr res"
    and l: "(case res of Inl err \<Rightarrow> Inr [BlockedOnNil (r\<lparr>r_Err := Some err\<rparr>)]
     | Inr res \<Rightarrow>
         go_bind (go_index res 0) (\<lambda>obj.
         let r = r\<lparr>r_UserID := object_UserID (r_UserID r) obj, r_Ret := Some obj\<rparr> in
         case getCmd (r_UserID r) cmds of None \<Rightarrow> Inr [] | Some cr \<Rightarrow> Inr [Found r (cr_done cr)])) = Inr new"
    unfolding answer_lookup_def go_bind_Inr_iff by blast
  show ?thesis
  proof (cases res)
    case (Inl err)
    then show ?thesis using l by auto
  next
    case (Inr objs)
    then obtain obj where obj: "objs \<noteq> []" "obj = hd objs"
      and l': "(case getCmd (object_UserID (r_UserID r) obj) cmds of None \<Rightarrow> Inr []
        | Some cr \<Rightarrow> Inr [Found (r\<lparr>r_UserID := object_UserID (r_UserID r) obj, r_Ret := Some obj\<rparr>) (cr_done cr)]) = (Inr new :: answer_task list go)"
      using l by (auto simp: go_bind_Inr_iff go_index_Inr_iff Let_def hd_conv_nth)
    have "getWartsT obj \<in> {7, 6}"
      using Parse_types [OF p [unfolded Inr], of obj] obj by simp
    from object_UserID_for [OF this] have u: "object_for (object_UserID (r_UserID r) obj) obj" .
    show ?thesis
      using l' u assms(2)
      by (auto simp: getCmd_def carries_def dest!: map_of_SomeD cmds_okD split: option.splits)
  qed
qed

lemma list_all_replace: "list_all P ts \<Longrightarrow> list_all P new \<Longrightarrow> list_all P (replace_task k new ts)"
  unfolding list_all_iff replace_task_def by (auto dest: in_set_takeD in_set_dropD)

lemma task_turn_ok:
  assumes "sk_inv s" and "k < length (sk_tasks s)" and "task_turn k s = Inr s'"
  shows "sk_inv s'"
proof -
  have t: "task_ok (map dc_id (sk_chans s)) (sk_tasks s ! k)" using assms by (simp add: sk_inv_def list_all_length)
  show ?thesis
  proof (cases "sk_tasks s ! k")
    case (Started r)
    then show ?thesis
      using assms answer_lookup_ok [of "sk_cmds s" "sk_header s" r _ "sk_chans s"]
      by (auto simp: task_turn_def go_bind_Inr_iff sk_inv_def intro!: list_all_replace)
  next
    case (Found r c)
    then show ?thesis
      using assms t by (auto simp: task_turn_def sk_inv_def rmCmd_def intro!: list_all_replace cmds_ok_subset)
  next
    case (Sending r c)
    let ?ch = "(sk_chans s ! c)\<lparr>dc_buf := dc_buf (sk_chans s ! c) @ [r]\<rparr>"
    have c: "c < length (sk_chans s)" "carries (dc_id (sk_chans s ! c)) r" using t Sending by (auto simp: owns_def)
    have chok: "chan_ok (sk_chans s ! c)" using assms(1) c(1) by (simp add: sk_inv_def list_all_length)
    show ?thesis
    proof (cases "length (dc_buf (sk_chans s ! c)) < 1 \<and> \<not> dc_closed (sk_chans s ! c)")
      case True
      then have "s' = s\<lparr>sk_chans := (sk_chans s)[c := ?ch], sk_tasks := replace_task k [] (sk_tasks s)\<rparr>"
        using assms(3) Sending by (simp add: task_turn_def send_done_def)
      moreover have "sk_inv (s\<lparr>sk_chans := (sk_chans s)[c := ?ch]\<rparr>)"
        by (rule sk_inv_chan) (use True assms(1) c chok in \<open>simp_all add: chan_ok_def\<close>)
      ultimately show ?thesis by (auto simp: sk_inv_def intro!: list_all_replace)
    next
      case False
      then show ?thesis using assms Sending by (auto simp: task_turn_def send_done_def split: if_splits)
    qed
  next
    case (BlockedOnNil r)
    then show ?thesis using assms by (simp add: task_turn_def)
  qed
qed

lemma sk_inv_cong:
  "sk_cmds s' = sk_cmds s \<Longrightarrow> sk_chans s' = sk_chans s \<Longrightarrow> sk_tasks s' = sk_tasks s \<Longrightarrow> sk_state s' = sk_state s \<Longrightarrow>
     sk_inv s' = sk_inv s"
  by (simp add: sk_inv_def)

lemma readResponse_frame:
  "readResponse s = Inr (r, s') \<Longrightarrow>
     sk_cmds s' = sk_cmds s \<and> sk_chans s' = sk_chans s \<and> sk_tasks s' = sk_tasks s \<and> sk_state s' = sk_state s \<and>
     sk_write s' = sk_write s \<and> sk_buf s' = sk_buf s \<and> sk_sent s' = sk_sent s \<and> sk_issued s' = sk_issued s \<and> sk_userID s' = sk_userID s \<and> sk_fname s' = sk_fname s"
proof -
  assume r: "readResponse s = Inr (r, s')"
  obtain l rest where l: "ReadString (sk_in s) = (l, rest)" by fastforce
  show ?thesis
  proof (cases l)
    case (Inl err)
    then show ?thesis using r l by (auto simp: readResponse_def)
  next
    case (Inr line)
    then obtain resp err rest' where p: "parseResponse line rest = Inr ((resp, err), rest')"
      using r l by (cases "parseResponse line rest") (auto simp: readResponse_def)
    then show ?thesis
      using r l Inr by (cases err) (auto simp: readResponse_def Let_def split: if_splits)
  qed
qed

lemma readConn_ok: "sk_inv s \<Longrightarrow> readConn_turn s = Inr s' \<Longrightarrow> sk_inv s'"
proof -
  assume inv: "sk_inv s" and turn: "readConn_turn s = Inr s'"
  then obtain r s1 where r: "readResponse s = Inr (r, s1)" by (auto simp: readConn_turn_def go_bind_Inr_iff)
  from readResponse_frame [OF r] inv have inv1: "sk_inv s1" using sk_inv_cong by blast
  from Stop_ok [OF inv1] obtain s2 where "Socket_Stop s1 = Inr s2" "sk_inv s2" by blast
  then show "sk_inv s'"
    using turn r inv1 by (cases r) (auto simp: readConn_turn_def sk_inv_def split: if_splits)
qed

lemma writeConn_frame:
  "sk_cmds (writeConn_cmd w s) = sk_cmds s" "sk_chans (writeConn_cmd w s) = sk_chans s"
  "sk_tasks (writeConn_cmd w s) = sk_tasks s" "sk_state (writeConn_cmd w s) = sk_state s"
  "sk_issued (writeConn_cmd w s) = sk_issued s" "sk_userID (writeConn_cmd w s) = sk_userID s"
  "sk_write (writeConn_cmd w s) = sk_write s" "sk_fname (writeConn_cmd w s) = sk_fname s"
  by (simp_all add: writeConn_cmd_def Let_def flushWrite_def split: sum.split prod.split)

lemma sk_step_ok: "sk_step s s' \<Longrightarrow> sk_inv s \<Longrightarrow> sk_inv s'"
proof (induction rule: sk_step.induct)
  case (stop s s')
  then show ?case using Stop_ok by fastforce
next
  case (remove s i)
  then show ?case by (auto simp: Socket_RemoveMeasurement_def sk_inv_def rmCmd_def intro: cmds_ok_subset)
next
  case (send s w ws)
  then show ?case by (subst sk_inv_cong [of _ s]) (simp_all add: writeConn_frame)
next
  case (tick s)
  then show ?case by (subst sk_inv_cong [of _ s]) (simp_all add: writeConn_tick_def flushWrite_def)
next
  case (leave s)
  then show ?case by (subst sk_inv_cong [of _ s]) simp_all
qed (auto intro: DoMeasurement_ok readConn_ok task_turn_ok receive_ok)

lemma reachable_ok: "sk_reachable s \<Longrightarrow> sk_inv s"
  by (induction rule: sk_reachable.induct) (auto intro: NewSocket_ok sk_step_ok)

section \<open>What scamper is sent\<close>

definition cmd_line :: "Cmd \<Rightarrow> string" where
  "cmd_line c = (case IssueCommand c of Inl _ \<Rightarrow> [] | Inr l \<Rightarrow> l)"

definition wire_inv :: "socket \<Rightarrow> bool" where
  "wire_inv s \<longleftrightarrow> (\<forall>c \<in> set (sk_issued s). cmd_Arg c \<noteq> OtherArg) \<longrightarrow>
     sk_sent s @ sk_buf s @ concat (map (cmd_line \<circ> cr_cmd) (sk_write s)) = concat (map cmd_line (sk_issued s)) \<and>
     cr_cmd ` set (sk_write s) \<subseteq> set (sk_issued s)"

definition ids_inv :: "socket \<Rightarrow> bool" where
  "ids_inv s \<longleftrightarrow> length (sk_issued s) < 2 ^ 32 \<longrightarrow>
     sk_userID s = word_of_nat (length (sk_issued s)) \<and>
     map cmd_ID (sk_issued s) = map word_of_nat [1 ..< Suc (length (sk_issued s))] \<and>
     fst ` set (sk_cmds s) \<subseteq> set (map cmd_ID (sk_issued s))"

lemma bufio_text: "bufio_Write p buf sent = (buf', sent') \<Longrightarrow> sent' @ buf' = sent @ buf @ p"
proof (induction p buf sent arbitrary: buf' sent' rule: bufio_Write.induct)
  case (1 p buf sent)
  show ?case
  proof (cases "length p \<le> 4096 - length buf \<or> buf = []")
    case True
    then show ?thesis using 1(2) by (simp add: bufio_Write.simps [of p buf sent] split: if_splits)
  next
    case False
    then have "bufio_Write (drop (4096 - length buf) p) [] (sent @ buf @ take (4096 - length buf) p) = (buf', sent')"
      using 1(2) by (simp add: bufio_Write.simps [of p buf sent])
    with 1(1) False have "sent' @ buf' = (sent @ buf @ take (4096 - length buf) p) @ [] @ drop (4096 - length buf) p"
      by blast
    then show ?thesis by simp
  qed
qed

lemma flush_text: "sk_sent (flushWrite s) @ sk_buf (flushWrite s) = sk_sent s @ sk_buf s"
  by (simp add: flushWrite_def)

lemma writeConn_text:
  assumes "cmd_Arg (cr_cmd w) \<noteq> OtherArg"
  shows "sk_sent (writeConn_cmd w s) @ sk_buf (writeConn_cmd w s) = sk_sent s @ sk_buf s @ cmd_line (cr_cmd w)"
proof -
  obtain l where l: "IssueCommand (cr_cmd w) = Inr l" using assms by (simp add: command_line)
  obtain buf sent where b: "bufio_Write l (sk_buf s) (sk_sent s) = (buf, sent)" by fastforce
  show ?thesis using bufio_text [OF b] by (simp add: writeConn_cmd_def l b cmd_line_def flushWrite_def Let_def)
qed

lemma wire_cong:
  "sk_issued s' = sk_issued s \<Longrightarrow> sk_sent s' @ sk_buf s' = sk_sent s @ sk_buf s \<Longrightarrow> sk_write s' = sk_write s \<Longrightarrow> wire_inv s' = wire_inv s"
  unfolding wire_inv_def by (metis append.assoc)

lemma DoMeasurement_cases:
  obtains (closed) "sk_state s = SockClosed" "Socket_DoMeasurement arg s = (Inl ErrSocketClosed, s)"
  | (dup) "sk_state s = SockOpen" "map_of (sk_cmds s) (sk_userID s + 1) \<noteq> None"
      "Socket_DoMeasurement arg s = (Inl ErrorDupCommand, s\<lparr>sk_userID := sk_userID s + 1\<rparr>)"
  | (issued) cr where "sk_state s = SockOpen" "map_of (sk_cmds s) (sk_userID s + 1) = None"
      "cr = \<lparr>cr_cmd = \<lparr>cmd_ID = sk_userID s + 1, cmd_Arg = arg\<rparr>, cr_done = length (sk_chans s)\<rparr>"
      "Socket_DoMeasurement arg s = (Inr (length (sk_chans s), sk_userID s + 1),
         s\<lparr>sk_userID := sk_userID s + 1, sk_cmds := (sk_userID s + 1, cr) # sk_cmds s,
           sk_chans := sk_chans s @ [\<lparr>dc_id = sk_userID s + 1, dc_buf = [], dc_got = [], dc_closed = False\<rparr>],
           sk_write := sk_write s @ [cr], sk_issued := sk_issued s @ [cr_cmd cr]\<rparr>)"
proof (cases "sk_state s")
  case SockClosed
  then show ?thesis using closed by (simp add: Socket_DoMeasurement_def)
next
  case SockOpen
  then show ?thesis
    using dup issued by (cases "map_of (sk_cmds s) (sk_userID s + 1)") (simp_all add: Socket_DoMeasurement_def getID_def addCmd_def Let_def)
qed

lemma close_all_frame: "Socket_Stop s = Inr s' \<Longrightarrow> sk_issued s' = sk_issued s \<and> sk_sent s' = sk_sent s \<and> sk_buf s' = sk_buf s \<and>
    sk_write s' = sk_write s \<and> sk_userID s' = sk_userID s \<and> sk_cmds s' = [] \<and> sk_fname s' = sk_fname s \<and> (sk_state s = SockClosed \<longrightarrow> sk_state s' = SockClosed)"
  by (auto simp: Socket_Stop_def go_bind_Inr_iff)

lemma readConn_frame: "readConn_turn s = Inr s' \<Longrightarrow> sk_issued s' = sk_issued s \<and> sk_sent s' = sk_sent s \<and> sk_buf s' = sk_buf s \<and>
    sk_write s' = sk_write s \<and> sk_userID s' = sk_userID s \<and> set (sk_cmds s') \<subseteq> set (sk_cmds s) \<and> sk_fname s' = sk_fname s \<and> (sk_state s = SockClosed \<longrightarrow> sk_state s' = SockClosed)"
proof -
  assume turn: "readConn_turn s = Inr s'"
  then obtain r s1 where r: "readResponse s = Inr (r, s1)" by (auto simp: readConn_turn_def go_bind_Inr_iff)
  show ?thesis
    using turn r readResponse_frame [OF r] close_all_frame [of s1]
    by (cases r) (auto simp: readConn_turn_def go_bind_Inr_iff split: if_splits)
qed

lemma task_turn_frame: "task_turn k s = Inr s' \<Longrightarrow> sk_issued s' = sk_issued s \<and> sk_sent s' = sk_sent s \<and> sk_buf s' = sk_buf s \<and>
    sk_write s' = sk_write s \<and> sk_userID s' = sk_userID s \<and> set (sk_cmds s') \<subseteq> set (sk_cmds s) \<and> sk_fname s' = sk_fname s \<and> (sk_state s = SockClosed \<longrightarrow> sk_state s' = SockClosed)"
  by (auto simp: task_turn_def go_bind_Inr_iff rmCmd_def AList.delete_eq split: answer_task.splits if_splits)

lemma receive_frame: "receive_done c s = Some (r, s') \<Longrightarrow> sk_issued s' = sk_issued s \<and> sk_sent s' = sk_sent s \<and> sk_buf s' = sk_buf s \<and>
    sk_write s' = sk_write s \<and> sk_userID s' = sk_userID s \<and> sk_cmds s' = sk_cmds s \<and> sk_fname s' = sk_fname s \<and> (sk_state s = SockClosed \<longrightarrow> sk_state s' = SockClosed)"
  by (auto simp: receive_done_def Let_def split: list.splits if_splits)

lemma wire_measure: "wire_inv s \<Longrightarrow> wire_inv (snd (Socket_DoMeasurement arg s))"
  by (cases arg s rule: DoMeasurement_cases) (auto simp: wire_inv_def)

lemma ids_invD:
  assumes "ids_inv s" and "length (sk_issued s) < 2 ^ 32"
  shows "sk_userID s = word_of_nat (length (sk_issued s))"
    and "map cmd_ID (sk_issued s) = map word_of_nat [1 ..< Suc (length (sk_issued s))]"
    and "fst ` set (sk_cmds s) \<subseteq> set (map cmd_ID (sk_issued s))"
  using assms unfolding ids_inv_def by blast+

lemma fresh_id: "n < 2 ^ 32 \<Longrightarrow> k \<in> set [1 ..< Suc n] \<Longrightarrow> (word_of_nat (Suc n) :: uint32) \<noteq> word_of_nat k"
proof
  assume n: "n < 2 ^ 32" "k \<in> set [1 ..< Suc n]" and eq: "(word_of_nat (Suc n) :: uint32) = word_of_nat k"
  from arg_cong [OF eq, of unat] n(1) have "Suc n mod 2 ^ 32 = k mod 2 ^ 32" by (simp add: unat_of_nat take_bit_eq_mod del: of_nat_Suc)
  moreover have "k mod 2 ^ 32 = k" using n by auto
  ultimately show False using n by (cases "Suc n = 2 ^ 32") auto
qed

lemma unused_id: "ids_inv s \<Longrightarrow> length (sk_issued s) < 2 ^ 32 \<Longrightarrow> sk_userID s + 1 \<notin> set (map cmd_ID (sk_issued s))"
proof
  assume inv: "ids_inv s" and n: "length (sk_issued s) < 2 ^ 32" and m: "sk_userID s + 1 \<in> set (map cmd_ID (sk_issued s))"
  then have "word_of_nat (Suc (length (sk_issued s))) \<in> set (map word_of_nat [1 ..< Suc (length (sk_issued s))] :: uint32 list)"
    by (simp add: ids_inv_def add.commute del: upt_Suc)
  with fresh_id [OF n] show False by (force simp del: upt_Suc)
qed

lemma ids_measure: "ids_inv s \<Longrightarrow> ids_inv (snd (Socket_DoMeasurement arg s))"
proof (cases arg s rule: DoMeasurement_cases)
  case dup
  assume inv: "ids_inv s"
  have "\<not> length (sk_issued s) < 2 ^ 32"
  proof
    assume n: "length (sk_issued s) < 2 ^ 32"
    from dup(2) have "sk_userID s + 1 \<in> fst ` set (sk_cmds s)" by (simp add: map_of_eq_None_iff)
    moreover have "fst ` set (sk_cmds s) \<subseteq> set (map cmd_ID (sk_issued s))" by (rule ids_invD [OF inv n])
    ultimately show False using unused_id [OF inv n] by blast
  qed
  then show ?thesis using dup by (simp add: ids_inv_def)
next
  case (issued cr)
  let ?n = "length (sk_issued s)"
  assume inv: "ids_inv s"
  have "sk_userID s + 1 = word_of_nat (Suc ?n) \<and>
      map cmd_ID (sk_issued s @ [cr_cmd cr]) = map word_of_nat [1 ..< Suc (Suc ?n)] \<and>
      fst ` set ((sk_userID s + 1, cr) # sk_cmds s) \<subseteq> set (map cmd_ID (sk_issued s @ [cr_cmd cr]))" if "Suc ?n < 2 ^ 32"
  proof -
    have old: "sk_userID s = word_of_nat ?n" "map cmd_ID (sk_issued s) = map word_of_nat [1 ..< Suc ?n]"
      "fst ` set (sk_cmds s) \<subseteq> set (map cmd_ID (sk_issued s))" by (rule ids_invD [OF inv]; use that in simp)+
    have u: "sk_userID s + 1 = word_of_nat (Suc ?n)" unfolding old(1) by (simp add: add.commute)
    have "[1 ..< Suc (Suc ?n)] = [1 ..< Suc ?n] @ [Suc ?n]" by simp
    then have "map cmd_ID (sk_issued s @ [cr_cmd cr]) = map word_of_nat [1 ..< Suc (Suc ?n)]"
      using old(2) u issued(3) by (simp del: upt_Suc of_nat_Suc)
    moreover have "fst ` set ((sk_userID s + 1, cr) # sk_cmds s) \<subseteq> set (map cmd_ID (sk_issued s @ [cr_cmd cr]))"
      using old(3) unfolding issued(3) map_append set_append by (simp add: image_subset_iff del: set_map)
    ultimately show ?thesis using u by blast
  qed
  moreover have "sk_userID (snd (Socket_DoMeasurement arg s)) = sk_userID s + 1"
    "sk_issued (snd (Socket_DoMeasurement arg s)) = sk_issued s @ [cr_cmd cr]"
    "sk_cmds (snd (Socket_DoMeasurement arg s)) = (sk_userID s + 1, cr) # sk_cmds s"
    "length (sk_issued s @ [cr_cmd cr]) = Suc ?n" by (simp_all add: issued(4))
  ultimately show ?thesis unfolding ids_inv_def by metis
qed simp

lemma wire_step: "sk_step s s' \<Longrightarrow> wire_inv s \<Longrightarrow> wire_inv s'"
proof (induction rule: sk_step.induct)
  case (measure s arg)
  then show ?case by (rule_tac wire_measure)
next
  case (stop s s')
  then show ?case using close_all_frame [OF stop(1)] by (subst wire_cong [of _ s]) simp_all
next
  case (read s s')
  then show ?case using readConn_frame [OF read(2)] by (subst wire_cong [of _ s]) simp_all
next
  case (task k s s')
  then show ?case using task_turn_frame [OF task(2)] by (subst wire_cong [of _ s]) simp_all
next
  case (receive c s r s')
  then show ?case using receive_frame [OF receive(2)] by (subst wire_cong [of _ s]) simp_all
next
  case (remove s i)
  then show ?case by (subst wire_cong [of _ s]) (simp_all add: Socket_RemoveMeasurement_def)
next
  case (leave s)
  then show ?case by (subst wire_cong [of _ s]) simp_all
next
  case (tick s)
  then show ?case by (subst wire_cong [of _ s]) (simp_all add: writeConn_tick_def flushWrite_def)
next
  case (send s w ws)
  show ?case
  proof (unfold wire_inv_def, intro impI)
    let ?s = "s\<lparr>sk_write := ws\<rparr>"
    assume "\<forall>c \<in> set (sk_issued (writeConn_cmd w ?s)). cmd_Arg c \<noteq> OtherArg"
    then have known: "\<forall>c \<in> set (sk_issued s). cmd_Arg c \<noteq> OtherArg" by (simp add: writeConn_frame)
    with send have w: "sk_sent s @ sk_buf s @ concat (map (cmd_line \<circ> cr_cmd) (w # ws)) = concat (map cmd_line (sk_issued s))"
      "cr_cmd ` set (w # ws) \<subseteq> set (sk_issued s)" unfolding wire_inv_def by simp_all
    with known have "cmd_Arg (cr_cmd w) \<noteq> OtherArg" by auto
    from writeConn_text [OF this, of ?s] w
    show "sk_sent (writeConn_cmd w ?s) @ sk_buf (writeConn_cmd w ?s) @ concat (map (cmd_line \<circ> cr_cmd) (sk_write (writeConn_cmd w ?s)))
        = concat (map cmd_line (sk_issued (writeConn_cmd w ?s))) \<and> cr_cmd ` set (sk_write (writeConn_cmd w ?s)) \<subseteq> set (sk_issued (writeConn_cmd w ?s))"
      by (simp add: writeConn_frame) (metis append.assoc)
  qed
qed

lemma ids_cong:
  "sk_issued s' = sk_issued s \<Longrightarrow> sk_userID s' = sk_userID s \<Longrightarrow> set (sk_cmds s') \<subseteq> set (sk_cmds s) \<Longrightarrow> ids_inv s \<Longrightarrow> ids_inv s'"
  unfolding ids_inv_def by (metis (no_types, lifting) image_mono order_trans)

lemma ids_step: "sk_step s s' \<Longrightarrow> ids_inv s \<Longrightarrow> ids_inv s'"
proof (induction rule: sk_step.induct)
  case (measure s arg)
  then show ?case by (rule_tac ids_measure)
next
  case (stop s s')
  then show ?case using close_all_frame [OF stop(1)] by (rule_tac ids_cong [of _ s]) simp_all
next
  case (read s s')
  then show ?case using readConn_frame [OF read(2)] by (rule_tac ids_cong [of _ s]) simp_all
next
  case (task k s s')
  then show ?case using task_turn_frame [OF task(2)] by (rule_tac ids_cong [of _ s]) simp_all
next
  case (receive c s r s')
  then show ?case using receive_frame [OF receive(2)] by (rule_tac ids_cong [of _ s]) simp_all
next
  case (remove s i)
  then show ?case
    by (rule_tac ids_cong [of _ s]) (auto simp: Socket_RemoveMeasurement_def rmCmd_def AList.delete_eq)
next
  case (leave s)
  then show ?case by (rule_tac ids_cong [of _ s]) simp_all
next
  case (tick s)
  then show ?case by (rule_tac ids_cong [of _ s]) (simp_all add: writeConn_tick_def flushWrite_def)
next
  case (send s w ws)
  then show ?case by (rule_tac ids_cong [of _ s]) (simp_all add: writeConn_frame)
qed

lemma reachable_history: "sk_reachable s \<Longrightarrow> wire_inv s \<and> ids_inv s"
proof (induction rule: sk_reachable.induct)
  case (start fname con)
  show ?case by (simp add: wire_inv_def ids_inv_def NewSocket_def)
next
  case (step s s')
  then show ?case using wire_step ids_step by blast
qed

section \<open>From the wire to the channel\<close>

text \<open>How scamper sends data: a line with the number of bytes, then the bytes.\<close>

definition bytes_of_text :: "string \<Rightarrow> byte list" where
  "bytes_of_text t = map (\<lambda>c. word_of_nat (of_char c)) t"

definition put_data :: "byte list \<Rightarrow> byte list" where
  "put_data bs = bytes_of_text (''DATA '' @ show_nat (length bs)) @ 10 # bs"

lemma char_byte: "(char_of (unat (word_of_nat (of_char c) :: byte)) :: char) = c"
proof -
  have "(of_char c :: nat) < 256" by simp
  then show ?thesis by (simp add: unat_of_nat take_bit_eq_mod)
qed

lemma byte_newline: "(word_of_nat (of_char c) :: byte) = 10 \<longleftrightarrow> c = CHR 0x0A"
proof -
  have "(word_of_nat (of_char c) :: byte) = 10 \<longleftrightarrow> unat (word_of_nat (of_char c) :: byte) = unat (10 :: byte)"
    by (simp only: word_unat_eq_iff)
  also have "\<dots> \<longleftrightarrow> (of_char c :: nat) = of_char (CHR 0x0A)"
    by (simp add: unat_of_nat take_bit_eq_mod)
  finally show ?thesis by (metis of_char_eq_iff)
qed

lemma ReadString_text:
  assumes "CHR 0x0A \<notin> set t"
  shows "ReadString (bytes_of_text t @ 10 # rest) = (Inr (t @ [CHR 0x0A]), rest)"
proof -
  have nl: "\<forall>b \<in> set (bytes_of_text t). b \<noteq> 10" using assms by (auto simp: bytes_of_text_def byte_newline)
  have "dropWhile (\<lambda>b. b \<noteq> 10) (bytes_of_text t @ 10 # rest) = 10 # rest"
    using nl by (subst dropWhile_append2) auto
  moreover have "takeWhile (\<lambda>b. b \<noteq> 10) (bytes_of_text t @ 10 # rest) = bytes_of_text t"
    using nl by (subst takeWhile_append2) auto
  moreover have "map (\<lambda>b. char_of (unat b)) (bytes_of_text t) = t"
    by (simp add: bytes_of_text_def comp_def char_byte)
  moreover have "(char_of (10 :: nat) :: char) = CHR 0x0A" by code_simp
  ultimately show ?thesis by (simp add: ReadString_def)
qed

lemma Contains_set: "strings_Contains s sub \<Longrightarrow> set sub \<subseteq> set s"
proof (induction s)
  case (Cons c s)
  show ?case
  proof (cases "take (length sub) (c # s) = sub")
    case True
    then show ?thesis by (metis set_take_subset)
  next
    case False
    then show ?thesis using Cons by auto
  qed
qed simp

lemma Atoi_show_nat: "int n < 2 ^ 63 \<Longrightarrow> Atoi (show_nat n) = Some (int n)"
proof -
  assume n: "int n < 2 ^ 63"
  obtain c cs where c: "show_nat n = c # cs" using show_nat_nonempty by (meson neq_Nil_conv)
  then have "is_digit c" using show_nat_chars [of c n] by simp
  then have "c \<noteq> CHR ''-''" "c \<noteq> CHR ''+''" by (auto simp: is_digit_def)
  then have "take 1 (show_nat n) \<noteq> ''-''" "take 1 (show_nat n) \<noteq> ''+''" by (simp_all add: c)
  moreover have "- (2 ^ 63) \<le> int n" by simp
  ultimately show ?thesis using n by (simp add: Atoi_def Let_def show_nat_nonempty)
qed

lemma parse_data:
  assumes "int n < 2 ^ 63" and "n \<le> length re"
  shows "parseResponse (''DATA '' @ show_nat n @ [CHR 0x0A]) re =
     Inr ((zero_Response\<lparr>r_RType := T_data, r_DS := int n, r_Data := take n re\<rparr>, None), drop n re)"
proof -
  let ?l = "''DATA '' @ show_nat n @ [CHR 0x0A]"
  have digits: "CHR ''O'' \<notin> set (show_nat n)" "CHR ''E'' \<notin> set (show_nat n)"
    by (force dest: show_nat_chars simp: is_digit_def)+
  have no: "\<not> strings_Contains ?l ''OK''" "\<not> strings_Contains ?l ''ERR''"
    using Contains_set [of ?l "''OK''"] Contains_set [of ?l "''ERR''"] digits by auto
  have yes: "strings_Contains ?l ''DATA''" by simp
  have split: "split_on (CHR '' '') ?l = [''DATA'', show_nat n @ [CHR 0x0A]]"
    by (simp add: split_on_single)
  have num: "go_slice (show_nat n @ [CHR 0x0A]) 0 (int (length (show_nat n @ [CHR 0x0A])) - 1) = Inr (show_nat n)"
    by (simp add: go_slice_def)
  show ?thesis
    unfolding parseResponse_def Let_def if_not_P [OF no(1)] if_not_P [OF no(2)] if_P [OF yes] split
    using num Atoi_show_nat [OF assms(1)] assms(2) by (simp add: go_index_def ReadFull_def)
qed

lemma read_put_data:
  assumes "sk_in s = put_data bs @ rest" and "int (length bs) < 2 ^ 63"
  defines "r \<equiv> zero_Response\<lparr>r_RType := T_data, r_DS := int (length bs), r_Data := bs\<rparr>"
  shows "readResponse s =
     (if sk_rc s < 2 then
        Inr (Inr (r\<lparr>r_Header := True\<rparr>), s\<lparr>sk_in := rest, sk_header := (sk_header s)[sk_rc s := r], sk_rc := sk_rc s + 1\<rparr>)
      else Inr (Inr r, s\<lparr>sk_in := rest\<rparr>))"
proof -
  have "CHR 0x0A \<notin> set (''DATA '' @ show_nat (length bs))" by simp
  from ReadString_text [OF this, of "bs @ rest"]
  have line: "ReadString (sk_in s) = (Inr (''DATA '' @ show_nat (length bs) @ [CHR 0x0A]), bs @ rest)"
    by (simp add: assms(1) put_data_def)
  show ?thesis
    unfolding readResponse_def line
    using parse_data [OF assms(2), of "bs @ rest"] by (simp add: r_def Let_def)
qed

lemma turn_header:
  assumes "sk_in s = put_data bs @ rest" and "int (length bs) < 2 ^ 63" and "sk_rc s < 2"
  shows "readConn_turn s = Inr (s\<lparr>sk_in := rest,
     sk_header := (sk_header s)[sk_rc s := zero_Response\<lparr>r_RType := T_data, r_DS := int (length bs), r_Data := bs\<rparr>],
     sk_rc := sk_rc s + 1\<rparr>)"
  unfolding readConn_turn_def read_put_data [OF assms(1,2)] using assms(3) by simp

lemma turn_data:
  assumes "sk_in s = put_data bs @ rest" and "int (length bs) < 2 ^ 63" and "2 \<le> sk_rc s"
  shows "readConn_turn s = Inr (s\<lparr>sk_in := rest,
     sk_tasks := sk_tasks s @ [Started (zero_Response\<lparr>r_RType := T_data, r_DS := int (length bs), r_Data := bs\<rparr>)]\<rparr>)"
  unfolding readConn_turn_def read_put_data [OF assms(1,2)] using assms(3) by (simp add: zero_Response_def)

lemma WriteTo_encoded: "UUEncode p = Inr (r_Data r) \<Longrightarrow> WriteTo r w = Inr (w @ p)"
  using encode_decodes [of p] by (auto simp: WriteTo_def Writer_Write_def)

lemma Parse_written:
  "list_all object_ok (map snd ws) \<Longrightarrow> Parse (concat (map (\<lambda>(len, w). put_object len w) ws)) types =
    Inr (Inr (filter (\<lambda>obj. getWartsT obj \<in> set types) (map (object_value \<circ> snd) ws)))"
proof -
  assume ok: "list_all object_ok (map snd ws)"
  have "list_all2 (reads parseNext) (map (\<lambda>(len, w). put_object len w) ws) (map (object_value \<circ> snd) ws)"
    using ok by (auto simp: list_all2_conv_all_nth list_all_length reads_object split: prod.splits)
  from Parse_loop_reads [OF this] show ?thesis by (simp add: Parse_def)
qed

text \<open>A goroutine whose response is an encoded traceroute, behind headers that are a list and a cycle.\<close>

definition header_for :: "Response list \<Rightarrow> bool" where
  "header_for h \<longleftrightarrow> (\<exists>n0 l n1 c h0 h1. h = [h0, h1] \<and> list_ok l \<and> cycle_ok c \<and>
     UUEncode (put_object n0 (WLst l)) = Inr (r_Data h0) \<and> UUEncode (put_object n1 (WCycle c)) = Inr (r_Data h1))"

lemma object_UserID_simps:
  "object_UserID i (OTraceroute w) = tf_UserID (wt_Flags w)" "object_UserID i (OPing p) = pf_UserID (wp_Flags p)"
  by (simp_all add: object_UserID_def)

lemma lookup_trace:
  assumes "header_for h" and "UUEncode (put_object n (WTrace t)) = Inr (r_Data r)" and "trace_ok t"
  shows "answer_lookup cmds h r =
     (let i = tf_UserID (wt_Flags (trace_value t)) in
      case getCmd i cmds of
        None \<Rightarrow> Inr []
      | Some cr \<Rightarrow> Inr [Found (r\<lparr>r_UserID := i, r_Ret := Some (OTraceroute (trace_value t))\<rparr>) (cr_done cr)])"
proof -
  from assms(1) obtain n0 l n1 c h0 h1 where h: "h = [h0, h1]" "list_ok l" "cycle_ok c"
    "UUEncode (put_object n0 (WLst l)) = Inr (r_Data h0)" "UUEncode (put_object n1 (WCycle c)) = Inr (r_Data h1)"
    unfolding header_for_def by blast
  let ?ws = "[(n0, WLst l), (n1, WCycle c), (n, WTrace t)]"
  have dec: "decoded h r = Inr (concat (map (\<lambda>(len, w). put_object len w) ?ws))"
    using WriteTo_encoded [OF h(4)] WriteTo_encoded [OF h(5)] WriteTo_encoded [OF assms(2)]
    by (simp add: decoded_def h(1) go_index_def Writer_Bytes_def del: put_object.simps)
  have "list_all object_ok (map snd ?ws)" using h assms by simp
  from Parse_written [OF this, of "[7, 6]"]
  have parse: "Parse (concat (map (\<lambda>(len, w). put_object len w) ?ws)) [7, 6] = Inr (Inr [OTraceroute (trace_value t)])"
    by (simp add: getWartsT_def del: put_object.simps)
  show ?thesis unfolding answer_lookup_def dec go_bind.simps parse by (simp add: go_index_def object_UserID_simps Let_def split: option.split)
qed

lemma replace_task_nth: "k < length ts \<Longrightarrow> replace_task k [t] ts ! k = t"
  by (simp add: replace_task_def nth_append min_def)

lemma replace_task_length: "k < length ts \<Longrightarrow> length (replace_task k [t] ts) = length ts"
  by (simp add: replace_task_def min_def)

text \<open>The last two operations of a goroutine that found its command.\<close>

lemma found_sends:
  assumes "k < length (sk_tasks s)" and "sk_tasks s ! k = Found r c" and "\<not> dc_closed (sk_chans s ! c)"
    and "dc_buf (sk_chans s ! c) = []" and "c < length (sk_chans s)"
  shows "\<exists>s'. go_bind (task_turn k s) (task_turn k) = Inr s' \<and> receive_done c s' \<noteq> None \<and>
    fst (the (receive_done c s')) = r \<and> sk_cmds s' = rmCmd (r_UserID r) (sk_cmds s)"
proof -
  let ?s = "s\<lparr>sk_cmds := rmCmd (r_UserID r) (sk_cmds s), sk_tasks := replace_task k [Sending r c] (sk_tasks s)\<rparr>"
  have "task_turn k s = Inr ?s" using assms(2) by (simp add: task_turn_def)
  moreover have "sk_tasks ?s ! k = Sending r c" using assms(1) by (simp add: replace_task_nth)
  ultimately show ?thesis using assms(3-5) by (simp add: task_turn_def send_done_def receive_done_def Let_def)
qed

section \<open>Properties\<close>

text \<open>
  C28. Answers reach the measurement they belong to: whatever the order in which goroutines run,
  responses arrive, measurements are given up and sockets are closed, a response that was sent on the
  channel of a measurement holds a ping or traceroute that scamper ran under the number of this
  measurement, and no channel holds more than the one it has room for.
\<close>

theorem answers_match:
  assumes "sk_reachable s" and "ch \<in> set (sk_chans s)"
  shows "length (dc_buf ch) \<le> 1 \<and> list_all (carries (dc_id ch)) (dc_buf ch @ dc_got ch)"
  using reachable_ok [OF assms(1)] assms(2) by (auto simp: sk_inv_def chan_ok_def list_all_iff)

theorem answers_match_witness:
  "\<exists>s ch. sk_reachable s \<and> sk_chans s = [ch] \<and> dc_id ch = 1 \<and> length (dc_buf ch) \<le> 1"
proof -
  let ?s = "NewSocket ''/s/10.0.0.1:80'' []"
  let ?s' = "snd (Socket_DoMeasurement (PingArg zero_ping_measurement) ?s)"
  let ?ch = "\<lparr>dc_id = 1, dc_buf = [], dc_got = [], dc_closed = False\<rparr>"
  have r: "sk_reachable ?s'"
    by (rule sk_reachable.step [OF sk_reachable.start sk_step.measure]) (simp add: NewSocket_def)
  have ch: "sk_chans ?s' = [?ch]"
    by (simp add: Socket_DoMeasurement_def NewSocket_def getID_def addCmd_def Let_def)
  with answers_match [OF r, of ?ch] r show ?thesis by (intro exI [of _ ?s'] exI [of _ ?ch]) simp
qed

text \<open>
  C29. A socket can always be closed: in every reachable state \<open>Stop\<close> ends without a panic, because no channel
  is closed twice; then the channel of every measurement that was waiting is closed, none is left in the map,
  and another measurement is refused.
\<close>

theorem stop_releases:
  assumes "sk_reachable s"
  shows "\<exists>s'. Socket_Stop s = Inr s' \<and> (\<forall>(i, cr) \<in> set (sk_cmds s). dc_closed (sk_chans s' ! cr_done cr)) \<and>
    sk_cmds s' = [] \<and> fst (Socket_DoMeasurement arg s') = Inl ErrSocketClosed"
  using Stop_ok [OF reachable_ok [OF assms]] by (auto simp: Socket_DoMeasurement_def)

theorem stop_releases_witness:
  "\<exists>s'. Socket_Stop (NewSocket ''/s/10.0.0.1:80'' []) = Inr s' \<and> sk_cmds s' = [] \<and>
    fst (Socket_DoMeasurement OtherArg s') = Inl ErrSocketClosed"
  using stop_releases [OF sk_reachable.start, of "''/s/10.0.0.1:80''" "[]" OtherArg] by blast



text \<open>A list, a cycle and a traceroute with the number 1, as scamper sends them.\<close>

lemma encoded: "\<exists>e. UUEncode p = Inr e"
  using encode_decodes [of p] by blast

text \<open>Three turns of the reader and three operations of the goroutine it starts.\<close>

definition read_and_answer :: "socket \<Rightarrow> socket go" where
  "read_and_answer s =
     (let k = length (sk_tasks s) in
      go_bind (readConn_turn s) (\<lambda>s. go_bind (readConn_turn s) (\<lambda>s. go_bind (readConn_turn s) (\<lambda>s.
      go_bind (task_turn k s) (\<lambda>s. go_bind (task_turn k s) (task_turn k))))))"

lemma three_turns:
  assumes "UUEncode (put_object n0 (WLst l)) = Inr e0" and "list_ok l"
    and "UUEncode (put_object n1 (WCycle c)) = Inr e1" and "cycle_ok c"
    and "UUEncode (put_object n (WTrace t)) = Inr e" and "trace_ok t"
    and "\<forall>b \<in> {e0, e1, e}. int (length b) < 2 ^ 63"
    and "sk_rc s = 0" and "length (sk_header s) = 2" and "sk_in s = put_data e0 @ put_data e1 @ put_data e @ rest"
    and "map_of (sk_cmds s) (tf_UserID (wt_Flags (trace_value t))) = Some cr"
  shows "\<exists>s3 s4. go_bind (readConn_turn s) (\<lambda>s. go_bind (readConn_turn s) readConn_turn) = Inr s3 \<and>
    task_turn (length (sk_tasks s)) s3 = Inr s4 \<and> sk_cmds s3 = sk_cmds s \<and> sk_chans s3 = sk_chans s \<and>
    length (sk_tasks s4) = Suc (length (sk_tasks s)) \<and> sk_cmds s4 = sk_cmds s \<and> sk_chans s4 = sk_chans s \<and>
    (\<exists>r. sk_tasks s4 ! length (sk_tasks s) = Found r (cr_done cr) \<and> r_Ret r = Some (OTraceroute (trace_value t)) \<and>
       r_UserID r = tf_UserID (wt_Flags (trace_value t))) \<and>
    (sk_reachable s \<and> sk_reading s \<longrightarrow> sk_reachable s4)"
proof -
  let ?k = "length (sk_tasks s)"
  let ?r = "\<lambda>bs. zero_Response\<lparr>r_RType := T_data, r_DS := int (length bs), r_Data := bs\<rparr>"
  let ?s1 = "s\<lparr>sk_in := put_data e1 @ put_data e @ rest, sk_header := (sk_header s)[0 := ?r e0], sk_rc := 1\<rparr>"
  let ?s2 = "s\<lparr>sk_in := put_data e @ rest, sk_header := [?r e0, ?r e1], sk_rc := 2\<rparr>"
  let ?s3 = "s\<lparr>sk_in := rest, sk_header := [?r e0, ?r e1], sk_rc := 2, sk_tasks := sk_tasks s @ [Started (?r e)]\<rparr>"
  have l: "int (length e0) < 2 ^ 63" "int (length e1) < 2 ^ 63" "int (length e) < 2 ^ 63" using assms(7) by simp_all
  have t1: "readConn_turn s = Inr ?s1" using turn_header [OF assms(10) l(1)] assms(8) by simp
  obtain a b where h: "sk_header s = [a, b]" using assms(9) by (auto simp: length_Suc_conv numeral_2_eq_2)
  have t2: "readConn_turn ?s1 = Inr ?s2"
    using turn_header [of ?s1 e1 "put_data e @ rest", OF _ l(2)] by (simp add: h)
  have t3: "readConn_turn ?s2 = Inr ?s3"
    using turn_data [of ?s2 e rest, OF _ l(3)] by simp
  have "header_for [?r e0, ?r e1]"
    unfolding header_for_def using assms(1-4) by (auto simp del: put_object.simps)
  from lookup_trace [OF this, of n t "?r e"] assms(5,6,11)
  have look: "answer_lookup (sk_cmds s) [?r e0, ?r e1] (?r e) =
      Inr [Found ((?r e)\<lparr>r_UserID := tf_UserID (wt_Flags (trace_value t)), r_Ret := Some (OTraceroute (trace_value t))\<rparr>) (cr_done cr)]"
    by (simp add: getCmd_def Let_def del: put_object.simps)
  let ?s4 = "?s3\<lparr>sk_tasks := replace_task ?k
      [Found ((?r e)\<lparr>r_UserID := tf_UserID (wt_Flags (trace_value t)), r_Ret := Some (OTraceroute (trace_value t))\<rparr>) (cr_done cr)] (sk_tasks ?s3)\<rparr>"
  have t4: "task_turn ?k ?s3 = Inr ?s4"
    by (simp add: task_turn_def look)
  have "go_bind (readConn_turn s) (\<lambda>s. go_bind (readConn_turn s) readConn_turn) = Inr ?s3"
    unfolding t1 go_bind.simps t2 t3 ..
  moreover note t4
  moreover have "sk_cmds ?s3 = sk_cmds s \<and> sk_chans ?s3 = sk_chans s" by simp
  moreover have "sk_reachable ?s4" if r: "sk_reachable s \<and> sk_reading s"
  proof -
    have "sk_reachable ?s1" by (rule sk_reachable.step [OF _ sk_step.read [OF _ t1]]) (use r in simp_all)
    then have "sk_reachable ?s2" by (rule sk_reachable.step [OF _ sk_step.read [OF _ t2]]) (use r in simp)
    then have "sk_reachable ?s3" by (rule sk_reachable.step [OF _ sk_step.read [OF _ t3]]) (use r in simp)
    then show ?thesis by (rule sk_reachable.step [OF _ sk_step.task [OF _ t4]]) simp
  qed
  ultimately show ?thesis by (intro exI conjI) (assumption | simp add: replace_task_length replace_task_nth)+
qed

text \<open>
  Through text encoding, binary format and numbering: if scamper sends its two headers and a traceroute
  with the number of a waiting measurement, the measurement's channel gets this traceroute.
\<close>

lemma answer_delivered:
  assumes "UUEncode (put_object n0 (WLst l)) = Inr e0" and "list_ok l"
    and "UUEncode (put_object n1 (WCycle c)) = Inr e1" and "cycle_ok c"
    and "UUEncode (put_object n (WTrace t)) = Inr e" and "trace_ok t"
    and "\<forall>b \<in> {e0, e1, e}. int (length b) < 2 ^ 63"
    and "sk_inv s" and "sk_rc s = 0" and "length (sk_header s) = 2"
    and "sk_in s = put_data e0 @ put_data e1 @ put_data e @ rest"
    and "map_of (sk_cmds s) (tf_UserID (wt_Flags (trace_value t))) = Some cr"
    and "dc_buf (sk_chans s ! cr_done cr) = []"
  shows "\<exists>s' r s''. read_and_answer s = Inr s' \<and> receive_done (cr_done cr) s' = Some (r, s'') \<and>
    r_Ret r = Some (OTraceroute (trace_value t)) \<and> map_of (sk_cmds s') (tf_UserID (wt_Flags (trace_value t))) = None"
proof -
  let ?i = "tf_UserID (wt_Flags (trace_value t))"
  let ?k = "length (sk_tasks s)"
  from three_turns [OF assms(1-7,9-12)] obtain s3 s4 r where
    s: "go_bind (readConn_turn s) (\<lambda>s. go_bind (readConn_turn s) readConn_turn) = Inr s3" "task_turn ?k s3 = Inr s4"
      "length (sk_tasks s4) = Suc ?k" "sk_cmds s4 = sk_cmds s" "sk_chans s4 = sk_chans s"
    and r: "sk_tasks s4 ! ?k = Found r (cr_done cr)" "r_Ret r = Some (OTraceroute (trace_value t))" "r_UserID r = ?i"
    by blast
  have c: "cr_done cr < length (sk_chans s)" "\<not> dc_closed (sk_chans s ! cr_done cr)"
    using assms(8) cmds_okD map_of_SomeD [OF assms(12)] by (fastforce simp: sk_inv_def owns_def)+
  from found_sends [of ?k s4 r "cr_done cr"] s r c assms(13) obtain s' where
    s': "go_bind (task_turn ?k s4) (task_turn ?k) = Inr s'" "receive_done (cr_done cr) s' \<noteq> None"
      "fst (the (receive_done (cr_done cr) s')) = r" "sk_cmds s' = rmCmd ?i (sk_cmds s)"
    by auto
  have "read_and_answer s = Inr s'"
    using s(1,2) s'(1) by (auto simp: read_and_answer_def Let_def go_bind_Inr_iff)
  moreover obtain s'' where "receive_done (cr_done cr) s' = Some (r, s'')" using s'(2,3) by auto
  ultimately show ?thesis using r(2) s'(4) by (auto simp: rmCmd_def AList.delete_conv')
qed

definition ex_list :: WList where
  "ex_list = \<lparr>l_ListID = 0, l_CListID = 0, l_ListName = [65], l_PLength = 0, l_Description = [], l_MonitorName = []\<rparr>"

definition ex_cycle :: CycleStart where
  "ex_cycle = \<lparr>cs_CycleID = 1, cs_ListID = 0, cs_CCycleID = 0, cs_StartTime = 5, cs_PLength = 0, cs_StopTime = 0, cs_Hostname = [66]\<rparr>"

definition ex_answer :: written_trace where
  "ex_answer = \<lparr>wtr_flags = \<lparr>wr_mask = [0x80, 0x80, 0x80, 0x40], wr_length = 4,
       wr_value = zero_TracerouteFlags\<lparr>tf_UserID := 1\<rparr>\<rparr>, wtr_hops = [], wtr_end = 0\<rparr>"

lemma ex_answer_ok: "trace_ok ex_answer" "tf_UserID (wt_Flags (trace_value ex_answer)) = 1"
  by (simp_all add: trace_ok_def trace_value_def ex_answer_def trace_flags_ok_def set_flags_def flags_of_def isset_def
      coded_trace_field_def valid_trace_fields_def ipv4_def timeval32_def convertTimeval_def zero_TracerouteFlags_def
      zero_Timeval_def zero_Address_def copy_trace_field_def)

lemma ex_headers_ok: "list_ok ex_list" "cycle_ok ex_cycle"
  by (simp_all add: list_ok_def ex_list_def cycle_ok_def ex_cycle_def)

lemma put_lengths [simp]: "length (put8 x) = 1" "length (put16 y) = 2" "length (put32 z) = 4"
  by (simp_all add: put8_def put16_def put32_def)

lemma ex_lengths:
  "length (put_object 0 (WLst ex_list)) \<le> 100" "length (put_object 0 (WCycle ex_cycle)) \<le> 100"
  "length (put_object 0 (WTrace ex_answer)) \<le> 100"
  by (simp_all add: put_header_def put_list_def put_string_def ex_list_def put_cycle_def ex_cycle_def put_trace_def
      ex_answer_def put_flagged_def set_flags_def flags_of_def isset_def put_trace_field_def)

lemma ex_encoded:
  "\<exists>e0 e1 e. UUEncode (put_object 0 (WLst ex_list)) = Inr e0 \<and> UUEncode (put_object 0 (WCycle ex_cycle)) = Inr e1 \<and>
     UUEncode (put_object 0 (WTrace ex_answer)) = Inr e \<and> (\<forall>b \<in> {e0, e1, e}. int (length b) < 2 ^ 63)"
proof -
  obtain e0 e1 e where e: "UUEncode (put_object 0 (WLst ex_list)) = Inr e0" "UUEncode (put_object 0 (WCycle ex_cycle)) = Inr e1"
    "UUEncode (put_object 0 (WTrace ex_answer)) = Inr e"
    and l: "length e0 \<le> 6 * length (put_object 0 (WLst ex_list)) + 2" "length e1 \<le> 6 * length (put_object 0 (WCycle ex_cycle)) + 2"
      "length e \<le> 6 * length (put_object 0 (WTrace ex_answer)) + 2"
    using encoded_length by blast
  have "length e0 \<le> 602" "length e1 \<le> 602" "length e \<le> 602" using l ex_lengths by linarith+
  then show ?thesis using e by auto
qed

text \<open>A socket on which the traceroute is waiting, and what scamper is about to send.\<close>

definition ex_socket :: "byte list \<Rightarrow> byte list \<Rightarrow> byte list \<Rightarrow> socket" where
  "ex_socket e0 e1 e = snd (Socket_DoMeasurement (TracerouteArg zero_traceroute_measurement)
     (NewSocket ''/s/10.0.0.1:80'' (put_data e0 @ put_data e1 @ put_data e)))"

lemma ex_socket_simps:
  "sk_reachable (ex_socket e0 e1 e)" "sk_rc (ex_socket e0 e1 e) = 0" "length (sk_header (ex_socket e0 e1 e)) = 2"
  "sk_in (ex_socket e0 e1 e) = put_data e0 @ put_data e1 @ put_data e @ []" "sk_tasks (ex_socket e0 e1 e) = []"
  "sk_chans (ex_socket e0 e1 e) = [\<lparr>dc_id = 1, dc_buf = [], dc_got = [], dc_closed = False\<rparr>]"
  "sk_reading (ex_socket e0 e1 e)" "sk_cmds (ex_socket e0 e1 e) =
     [(1, \<lparr>cr_cmd = \<lparr>cmd_ID = 1, cmd_Arg = TracerouteArg zero_traceroute_measurement\<rparr>, cr_done = 0\<rparr>)]"
proof -
  show "sk_reachable (ex_socket e0 e1 e)"
    unfolding ex_socket_def by (rule sk_reachable.step [OF sk_reachable.start sk_step.measure]) (simp add: NewSocket_def)
qed (simp_all add: ex_socket_def Socket_DoMeasurement_def NewSocket_def getID_def addCmd_def Let_def)

text \<open>
  C31. A race between \<open>Stop\<close> and an answer brings the program down: once a goroutine has looked up the
  command of its answer and has not removed it yet, stopping the socket closes the channel that the
  goroutine still holds, and its send panics.
\<close>

theorem stop_race_panics:
  assumes "sk_reachable s" and "k < length (sk_tasks s)" and "sk_tasks s ! k = Found r (cr_done cr)"
    and "(i, cr) \<in> set (sk_cmds s)"
  shows "\<exists>s1 s2. Socket_Stop s = Inr s1 \<and> task_turn k s1 = Inr s2 \<and>
    task_turn k s2 = Inl (PanicMsg ''send on closed channel'')"
proof -
  from Stop_ok [OF reachable_ok [OF assms(1)]] obtain s1 where s1: "Socket_Stop s = Inr s1"
    "dc_closed (sk_chans s1 ! cr_done cr)" using assms(4) by blast
  have t: "sk_tasks s1 = sk_tasks s" using s1(1) by (auto simp: Socket_Stop_def go_bind_Inr_iff)
  let ?s2 = "s1\<lparr>sk_cmds := rmCmd (r_UserID r) (sk_cmds s1), sk_tasks := replace_task k [Sending r (cr_done cr)] (sk_tasks s1)\<rparr>"
  have "task_turn k s1 = Inr ?s2" using assms(3) by (simp add: task_turn_def t)
  moreover have "task_turn k ?s2 = Inl (PanicMsg ''send on closed channel'')"
    using s1(2) assms(2) by (simp add: task_turn_def replace_task_nth t send_done_def)
  ultimately show ?thesis using s1(1) by blast
qed

theorem stop_race_panics_witness:
  "\<exists>s s1 s2. sk_reachable s \<and> Socket_Stop s = Inr s1 \<and> task_turn 0 s1 = Inr s2 \<and>
    task_turn 0 s2 = Inl (PanicMsg ''send on closed channel'')"
proof -
  from ex_encoded obtain e0 e1 e where
    e: "UUEncode (put_object 0 (WLst ex_list)) = Inr e0" "UUEncode (put_object 0 (WCycle ex_cycle)) = Inr e1"
     "UUEncode (put_object 0 (WTrace ex_answer)) = Inr e" "\<forall>b \<in> {e0, e1, e}. int (length b) < 2 ^ 63" by blast
  let ?cr = "\<lparr>cr_cmd = \<lparr>cmd_ID = 1, cmd_Arg = TracerouteArg zero_traceroute_measurement\<rparr>, cr_done = 0\<rparr>"
  have w: "map_of (sk_cmds (ex_socket e0 e1 e)) (tf_UserID (wt_Flags (trace_value ex_answer))) = Some ?cr"
    by (simp add: ex_socket_simps ex_answer_ok)
  from three_turns [OF e(1) ex_headers_ok(1) e(2) ex_headers_ok(2) e(3) ex_answer_ok(1) e(4) ex_socket_simps(2-4) w]
  obtain s3 s4 r where s: "go_bind (readConn_turn (ex_socket e0 e1 e)) (\<lambda>s. go_bind (readConn_turn s) readConn_turn) = Inr s3"
    "task_turn 0 s3 = Inr s4" "length (sk_tasks s4) = Suc 0" "sk_cmds s4 = [(1, ?cr)]"
    "sk_tasks s4 ! 0 = Found r (cr_done ?cr)" "sk_reachable s4"
    by (simp only: ex_socket_simps list.size simp_thms) blast
  from stop_race_panics [OF s(6) _ s(5), of 1] s(3,4,6) show ?thesis by auto
qed

end
