(* ===== verification/SpoofMap.thy ===== *)
theory SpoofMap
  imports PbTypes "HOL-Library.AList"
begin

text \<open>
  \<open>spoofmap/spoofMap.go\<close>: the receiving side of spoofed measurements. A node registers the ids of spoofed
  probes it expects; a probe that arrives is kept with its id until the next tick, when all probes
  received are sent to their senders and their ids are free again. All operations hold one lock, so
  they are atomic, in any order. The map is a list of pairs with distinct ids; every loop over it visits
  a rearrangement of the list.
\<close>

section \<open>Operations\<close>

record spoof_entry =
  se_probe :: "probe option"
  se_t :: int
  se_spoof :: spoof_request

type_synonym spoof_map = "(uint32 \<times> spoof_entry) list"

datatype sm_error = ErrorIDInUse | ErrorSpoofNotFound

text \<open>Times are nanoseconds.\<close>

definition too_old :: "int \<Rightarrow> spoof_entry \<Rightarrow> bool" where
  "too_old now e \<longleftrightarrow> now - se_t e > 60 * 1000000000"

definition Register :: "int \<Rightarrow> spoof_request \<Rightarrow> spoof_map \<Rightarrow> sm_error option \<times> spoof_map" where
  "Register now sp s =
     (let fresh = \<lparr>se_probe = None, se_t = now, se_spoof = sp\<rparr> in
      case map_of s (so_Id sp) of
        Some spf \<Rightarrow>
          if too_old now spf then (None, AList.update (so_Id sp) fresh s)
          else (Some ErrorIDInUse, s)
      | None \<Rightarrow> (None, AList.update (so_Id sp) fresh s))"

definition Receive :: "probe \<Rightarrow> spoof_map \<Rightarrow> sm_error option \<times> spoof_map" where
  "Receive p s =
     (case map_of s (prb_ProbeId p) of
        Some sp \<Rightarrow> (None, AList.update (prb_ProbeId p) (sp\<lparr>se_probe := Some p\<rparr>) s)
      | None \<Rightarrow> (Some ErrorSpoofNotFound, s))"

text \<open>One tick of \<open>sendSpoofs\<close>: the probes by sender, and the map without them.\<close>

fun add_dest :: "uint32 \<Rightarrow> probe \<Rightarrow> (uint32 \<times> probe list) list \<Rightarrow> (uint32 \<times> probe list) list" where
  "add_dest ip p [] = [(ip, [p])]"
| "add_dest ip p ((i, ps) # ds) = (if i = ip then (i, ps @ [p]) # ds else (i, ps) # add_dest ip p ds)"

fun collect_loop :: "(uint32 \<times> spoof_entry) list \<Rightarrow> (uint32 \<times> probe list) list \<Rightarrow> spoof_map
    \<Rightarrow> (uint32 \<times> probe list) list \<times> spoof_map" where
  "collect_loop [] dests s = (dests, s)"
| "collect_loop ((i, e) # es) dests s =
     (case se_probe e of
        Some p \<Rightarrow> collect_loop es (add_dest (prb_SenderIp p) p dests) (AList.delete i s)
      | None \<Rightarrow> collect_loop es dests s)"

text \<open>
  Then each group is handed to the transport, in an order the runtime picks. Groups the transport
  refuses are logged and dropped with the rest: \<open>dests\<close> is local to the tick.
\<close>

fun send_loop :: "(probe list \<Rightarrow> uint32 \<Rightarrow> bool) \<Rightarrow> (uint32 \<times> probe list) list \<Rightarrow> (uint32 \<times> probe list) list" where
  "send_loop send [] = []"
| "send_loop send ((ip, probes) # ds) =
     (if send probes ip then (ip, probes) # send_loop send ds else send_loop send ds)"

definition sendSpoofs_tick ::
  "((uint32 \<times> spoof_entry) list \<Rightarrow> (uint32 \<times> spoof_entry) list) \<Rightarrow>
   ((uint32 \<times> probe list) list \<Rightarrow> (uint32 \<times> probe list) list) \<Rightarrow>
   (probe list \<Rightarrow> uint32 \<Rightarrow> bool) \<Rightarrow> spoof_map \<Rightarrow> (uint32 \<times> probe list) list \<times> spoof_map" where
  "sendSpoofs_tick ord ord2 send s =
     (case collect_loop (ord s) [] s of (dests, s') \<Rightarrow> (send_loop send (ord2 dests), s'))"

text \<open>One tick of \<open>cleanOld\<close>: at most 10000 entries are looked at.\<close>

fun clean_loop :: "int \<Rightarrow> nat \<Rightarrow> (uint32 \<times> spoof_entry) list \<Rightarrow> spoof_map \<Rightarrow> spoof_map" where
  "clean_loop now cnt [] s = s"
| "clean_loop now cnt ((i, e) # es) s =
     (let s' = (if too_old now e then AList.delete i s else s) in
      if cnt + 1 = 10000 then s' else clean_loop now (cnt + 1) es s')"

definition cleanOld_tick ::
  "((uint32 \<times> spoof_entry) list \<Rightarrow> (uint32 \<times> spoof_entry) list) \<Rightarrow> int \<Rightarrow> spoof_map \<Rightarrow> spoof_map" where
  "cleanOld_tick ord now s = clean_loop now 0 (ord s) s"

section \<open>Effects of a tick\<close>

definition sm_ok :: "spoof_map \<Rightarrow> bool" where
  "sm_ok s \<longleftrightarrow> distinct (map fst s) \<and> (\<forall>x \<in> set s. \<forall>p. se_probe (snd x) = Some p \<longrightarrow> prb_ProbeId p = fst x)"

definition probes_of :: "(uint32 \<times> spoof_entry) list \<Rightarrow> probe list" where
  "probes_of es = List.map_filter (\<lambda>(_, e). se_probe e) es"

lemma probes_of_simps [simp]:
  "probes_of [] = []"
  "probes_of ((i, e) # es) = (case se_probe e of Some p \<Rightarrow> p # probes_of es | None \<Rightarrow> probes_of es)"
  by (simp_all add: probes_of_def map_filter_simps split: option.split)

definition group_probes :: "(uint32 \<times> probe list) list \<Rightarrow> probe list" where
  "group_probes ds = concat (map snd ds)"

definition grouped :: "(uint32 \<times> probe list) list \<Rightarrow> bool" where
  "grouped ds \<longleftrightarrow> distinct (map fst ds) \<and> (\<forall>d \<in> set ds. snd d \<noteq> [] \<and> (\<forall>p \<in> set (snd d). prb_SenderIp p = fst d))"

lemma add_dest_keys: "set (map fst (add_dest ip p ds)) = insert ip (set (map fst ds))"
proof (induction ds)
  case (Cons d ds)
  then show ?case by (cases d) (simp add: insert_commute insert_absorb)
qed simp

lemma grouped_add_dest: "grouped ds \<Longrightarrow> grouped (add_dest (prb_SenderIp p) p ds)"
proof (induction ds)
  case (Cons d ds)
  obtain i ps where d: "d = (i, ps)" by (cases d)
  with Cons.prems have g: "grouped ds" "i \<notin> set (map fst ds)" "ps \<noteq> []" "\<forall>q \<in> set ps. prb_SenderIp q = i"
    by (auto simp: grouped_def)
  from Cons.IH [OF g(1)] g add_dest_keys [of "prb_SenderIp p" p ds] show ?case
    by (auto simp: grouped_def d)
qed (simp add: grouped_def)

lemma group_probes_add_dest: "mset (group_probes (add_dest ip p ds)) = add_mset p (mset (group_probes ds))"
  by (induction ds) (auto simp: group_probes_def)

definition received_ids :: "(uint32 \<times> spoof_entry) list \<Rightarrow> uint32 list" where
  "received_ids es = map fst (filter (\<lambda>(_, e). se_probe e \<noteq> None) es)"

lemma collect_loop_spec:
  "grouped ds \<Longrightarrow> collect_loop es ds s = (ds', s') \<Longrightarrow>
    grouped ds' \<and> mset (group_probes ds') = mset (probes_of es) + mset (group_probes ds) \<and>
    s' = filter (\<lambda>x. fst x \<notin> set (received_ids es)) s"
proof (induction es arbitrary: ds s)
  case Nil
  then show ?case by (simp add: received_ids_def)
next
  case (Cons x es)
  obtain i e where x: "x = (i, e)" by (cases x)
  show ?case
  proof (cases "se_probe e")
    case None
    with Cons.prems Cons.IH [of ds s] show ?thesis by (simp add: x received_ids_def)
  next
    case (Some p)
    with Cons.prems have "collect_loop es (add_dest (prb_SenderIp p) p ds) (AList.delete i s) = (ds', s')"
      by (simp add: x)
    from Cons.IH [OF grouped_add_dest [OF Cons.prems(1)] this] show ?thesis
      using Some
      by (auto simp: x group_probes_add_dest AList.delete_eq received_ids_def case_prod_unfold intro!: filter_cong)
  qed
qed

lemma send_loop_subset: "set (send_loop send ds) \<subseteq> set ds"
  by (induction ds) (auto split: if_splits)

lemma send_loop_all: "(\<And>ps ip. send ps ip) \<Longrightarrow> send_loop send ds = ds"
  by (induction ds) auto

lemma clean_loop_subset: "set (clean_loop now cnt es s) \<subseteq> set s \<and>
    (distinct (map fst s) \<longrightarrow> distinct (map fst (clean_loop now cnt es s)))"
proof (induction es arbitrary: cnt s)
  case (Cons x es)
  obtain i e where x: "x = (i, e)" by (cases x)
  have d: "set (AList.delete i s) \<subseteq> set s" "distinct (map fst s) \<longrightarrow> distinct (map fst (AList.delete i s))"
    by (auto simp: AList.delete_eq distinct_map_filter)
  show ?case using Cons.IH [of "cnt + 1" "AList.delete i s"] Cons.IH [of "cnt + 1" s] d
    by (auto simp: x Let_def)
qed simp

section \<open>The map over time\<close>

text \<open>
  The map with a record of what happened: the ids registered, the probes accepted, the groups the
  transport took. The order of iteration, the clock and the transport are arbitrary in every step.
\<close>

record sm_sys =
  sys_map :: spoof_map
  sys_regs :: "uint32 list"
  sys_recv :: "probe list"
  sys_sent :: "(uint32 \<times> probe list) list"

definition sm_init :: sm_sys where
  "sm_init = \<lparr>sys_map = [], sys_regs = [], sys_recv = [], sys_sent = []\<rparr>"

inductive sm_step :: "sm_sys \<Rightarrow> sm_sys \<Rightarrow> bool" where
  registered: "Register now sp (sys_map x) = (None, s) \<Longrightarrow>
    sm_step x (x\<lparr>sys_map := s, sys_regs := sys_regs x @ [so_Id sp]\<rparr>)"
| refused: "Register now sp (sys_map x) = (Some e, s) \<Longrightarrow> sm_step x (x\<lparr>sys_map := s\<rparr>)"
| received: "Receive p (sys_map x) = (None, s) \<Longrightarrow>
    sm_step x (x\<lparr>sys_map := s, sys_recv := sys_recv x @ [p]\<rparr>)"
| unknown: "Receive p (sys_map x) = (Some e, s) \<Longrightarrow> sm_step x (x\<lparr>sys_map := s\<rparr>)"
| sent: "rearrangement ord \<Longrightarrow> rearrangement ord2 \<Longrightarrow> sendSpoofs_tick ord ord2 send (sys_map x) = (out, s) \<Longrightarrow>
    sm_step x (x\<lparr>sys_map := s, sys_sent := sys_sent x @ out\<rparr>)"
| cleaned: "rearrangement ord \<Longrightarrow> sm_step x (x\<lparr>sys_map := cleanOld_tick ord now (sys_map x)\<rparr>)"

inductive sm_reachable :: "sm_sys \<Rightarrow> bool" where
  start: "sm_reachable sm_init"
| step: "sm_reachable x \<Longrightarrow> sm_step x y \<Longrightarrow> sm_reachable y"

definition sent_for :: "uint32 \<Rightarrow> sm_sys \<Rightarrow> nat" where
  "sent_for i x = length (filter (\<lambda>p. prb_ProbeId p = i) (group_probes (sys_sent x)))"

definition open_for :: "uint32 \<Rightarrow> spoof_map \<Rightarrow> nat" where
  "open_for i s = (if i \<in> fst ` set s then 1 else 0)"

definition sm_inv :: "sm_sys \<Rightarrow> bool" where
  "sm_inv x \<longleftrightarrow> sm_ok (sys_map x) \<and>
     (\<forall>p \<in> set (probes_of (sys_map x)) \<union> set (group_probes (sys_sent x)). p \<in> set (sys_recv x)) \<and>
     (\<forall>d \<in> set (sys_sent x). \<forall>p \<in> set (snd d). prb_SenderIp p = fst d) \<and>
     (\<forall>i. sent_for i x + open_for i (sys_map x) \<le> count_list (sys_regs x) i)"

lemma probes_of_set: "p \<in> set (probes_of es) \<longleftrightarrow> (\<exists>x \<in> set es. se_probe (snd x) = Some p)"
proof (induction es)
  case (Cons x es)
  then show ?case by (cases x; cases "se_probe (snd x)") auto
qed simp

lemma sm_ok_subset:
  "sm_ok s \<Longrightarrow> set s' \<subseteq> set s \<Longrightarrow> distinct (map fst s') \<Longrightarrow> sm_ok s'"
  by (auto simp: sm_ok_def)

lemma update_set: "distinct (map fst s) \<Longrightarrow> set (AList.update k v s) \<subseteq> insert (k, v) {x \<in> set s. fst x \<noteq> k}"
proof
  fix x
  assume d: "distinct (map fst s)" and x: "x \<in> set (AList.update k v s)"
  from d have d2: "distinct (map fst (AList.update k v s))" by (rule distinct_update)
  obtain j w where jw: "x = (j, w)" by (cases x)
  with x d2 have "map_of (AList.update k v s) j = Some w" by simp
  then have "(if j = k then Some v else map_of s j) = Some w" by (simp add: update_conv')
  then show "x \<in> insert (k, v) {x \<in> set s. fst x \<noteq> k}"
    by (auto simp: jw split: if_splits dest: map_of_SomeD)
qed

lemma update_keys: "fst ` set (AList.update k v s) = insert k (fst ` set s)"
  using dom_update [of k v s] by (simp add: dom_map_of_conv_image_fst)

text \<open>A probe that was collected was in the map, and leaves it; at most one for each id.\<close>

lemma received_ids_set: "i \<in> set (received_ids es) \<longleftrightarrow> (\<exists>x \<in> set es. fst x = i \<and> se_probe (snd x) \<noteq> None)"
  by (force simp: received_ids_def)

lemma sm_ok_Cons: "sm_ok ((i, e) # es) \<longleftrightarrow>
    sm_ok es \<and> i \<notin> fst ` set es \<and> (\<forall>p. se_probe e = Some p \<longrightarrow> prb_ProbeId p = i)"
  by (auto simp: sm_ok_def)

lemma one_probe:
  "sm_ok es \<Longrightarrow> length (filter (\<lambda>p. prb_ProbeId p = i) (probes_of es)) = (if i \<in> set (received_ids es) then 1 else 0)"
proof (induction es)
  case (Cons x es)
  obtain j e where x: "x = (j, e)" by (cases x)
  from Cons.prems have ok: "sm_ok es" "j \<notin> fst ` set es" "\<And>p. se_probe e = Some p \<Longrightarrow> prb_ProbeId p = j"
    by (auto simp: x sm_ok_Cons)
  have "j \<notin> set (received_ids es)" using ok(2) by (force simp: received_ids_set)
  with Cons.IH [OF ok(1)] ok(3) show ?case by (cases "se_probe e") (auto simp: x received_ids_def)
qed (simp add: received_ids_def)

lemma sm_ok_ord:
  assumes "sm_ok s" and "rearrangement ord"
  shows "sm_ok (ord s)"
proof -
  have "mset (map fst (ord s)) = mset (map fst s)" by (simp add: rearrangement.mset_ord [OF assms(2)])
  then have "distinct (map fst (ord s)) = distinct (map fst s)" by (rule mset_eq_imp_distinct_iff)
  with assms(1) show ?thesis by (simp add: sm_ok_def rearrangement.set_ord [OF assms(2)])
qed

lemma collected:
  assumes ok: "sm_ok s" and ord: "rearrangement ord" and c: "collect_loop (ord s) [] s = (ds, s')"
  shows "grouped ds" and "set (group_probes ds) = set (probes_of s)" and "sm_ok s'" and "probes_of s' = []"
    and "length (filter (\<lambda>p. prb_ProbeId p = i) (group_probes ds)) + open_for i s' = open_for i s"
    and "fst ` set s' = fst ` set s - set (received_ids s)"
proof -
  have "grouped ([] :: (uint32 \<times> probe list) list)" by (simp add: grouped_def)
  from collect_loop_spec [OF this c] have g: "grouped ds" and m: "mset (group_probes ds) = mset (probes_of (ord s))"
    and s': "s' = filter (\<lambda>x. fst x \<notin> set (received_ids (ord s))) s" by (auto simp: group_probes_def)
  have r: "set (received_ids (ord s)) = set (received_ids s)"
    by (auto simp: received_ids_set rearrangement.set_ord [OF ord])
  show "grouped ds" by (rule g)
  have "set (probes_of (ord s)) = set (probes_of s)"
    by (auto simp: probes_of_set rearrangement.set_ord [OF ord])
  with mset_eq_setD [OF m] show "set (group_probes ds) = set (probes_of s)" by simp
  show "sm_ok s'" using ok by (auto simp: sm_ok_def s' distinct_map_filter)
  have "p \<notin> set (probes_of s')" for p
    by (auto simp: probes_of_set s' r received_ids_set)
  then show "probes_of s' = []" by (metis list.set_intros(1) neq_Nil_conv)
  show keys: "fst ` set s' = fst ` set s - set (received_ids s)" by (auto simp: s' r)
  have "length (filter (\<lambda>p. prb_ProbeId p = i) (group_probes ds)) =
      length (filter (\<lambda>p. prb_ProbeId p = i) (probes_of (ord s)))"
    by (metis m mset_filter size_mset)
  also have "\<dots> = (if i \<in> set (received_ids s) then 1 else 0)" using one_probe [OF sm_ok_ord [OF ok ord]] r by simp
  finally show "length (filter (\<lambda>p. prb_ProbeId p = i) (group_probes ds)) + open_for i s' = open_for i s"
    using keys by (auto simp: open_for_def received_ids_set intro: rev_image_eqI)
qed

section \<open>The invariant\<close>

lemma group_filter_le:
  "length (filter P (group_probes (send_loop send ds))) \<le> length (filter P (group_probes ds))"
  by (induction ds) (auto simp: group_probes_def)

lemma group_probes_rearrange:
  assumes "rearrangement ord2"
  shows "mset (group_probes (ord2 ds)) = mset (group_probes ds)"
proof -
  have "mset (group_probes xs) = (\<Sum>x \<in># mset xs. mset (snd x))" for xs :: "(uint32 \<times> probe list) list"
    by (induction xs) (auto simp: group_probes_def)
  then show ?thesis by (simp add: rearrangement.mset_ord [OF assms])
qed

lemma sent_step:
  assumes ok: "sm_ok s" and ord: "rearrangement ord" "rearrangement ord2"
    and t: "sendSpoofs_tick ord ord2 send s = (out, s')"
  shows "sm_ok s'" and "probes_of s' = []" and "set (group_probes out) \<subseteq> set (probes_of s)"
    and "\<forall>d \<in> set out. \<forall>p \<in> set (snd d). prb_SenderIp p = fst d"
    and "length (filter (\<lambda>p. prb_ProbeId p = i) (group_probes out)) + open_for i s' \<le> open_for i s"
proof -
  obtain ds where c: "collect_loop (ord s) [] s = (ds, s')" and out: "out = send_loop send (ord2 ds)"
    using t by (auto simp: sendSpoofs_tick_def split: prod.splits)
  note col = collected [OF ok ord(1) c]
  show "sm_ok s'" "probes_of s' = []" by (fact col(3), fact col(4))
  have sub: "set out \<subseteq> set ds" unfolding out using send_loop_subset rearrangement.set_ord [OF ord(2)] by blast
  then have "set (group_probes out) \<subseteq> set (group_probes ds)" by (auto simp: group_probes_def)
  then show "set (group_probes out) \<subseteq> set (probes_of s)" using col(2) by simp
  show "\<forall>d \<in> set out. \<forall>p \<in> set (snd d). prb_SenderIp p = fst d" using sub col(1) by (auto simp: grouped_def)
  have "length (filter (\<lambda>p. prb_ProbeId p = i) (group_probes out)) \<le>
      length (filter (\<lambda>p. prb_ProbeId p = i) (group_probes (ord2 ds)))"
    unfolding out by (rule group_filter_le)
  also have "\<dots> = length (filter (\<lambda>p. prb_ProbeId p = i) (group_probes ds))"
    by (metis group_probes_rearrange [OF ord(2)] mset_filter size_mset)
  finally show "length (filter (\<lambda>p. prb_ProbeId p = i) (group_probes out)) + open_for i s' \<le> open_for i s"
    using col(5) [of i] by linarith
qed

lemma sm_step_inv:
  assumes "sm_step x y" and "sm_inv x"
  shows "sm_inv y"
proof -
  from assms(2) have ok: "sm_ok (sys_map x)" and recv: "set (probes_of (sys_map x)) \<subseteq> set (sys_recv x)"
      "set (group_probes (sys_sent x)) \<subseteq> set (sys_recv x)"
    and groups: "\<forall>d \<in> set (sys_sent x). \<forall>p \<in> set (snd d). prb_SenderIp p = fst d"
    and cnt: "\<And>i. sent_for i x + open_for i (sys_map x) \<le> count_list (sys_regs x) i"
    by (auto simp: sm_inv_def)
  show ?thesis
    using assms(1)
  proof cases
    case (registered now sp s)
    let ?e = "\<lparr>se_probe = None, se_t = now, se_spoof = sp\<rparr>"
    have s: "s = AList.update (so_Id sp) ?e (sys_map x)"
      using registered(2) by (auto simp: Register_def Let_def split: option.splits if_splits)
    have sub: "set s \<subseteq> insert (so_Id sp, ?e) (set (sys_map x))" and d: "distinct (map fst s)"
      using update_set [of "sys_map x" "so_Id sp" ?e] ok distinct_update [of "sys_map x"] by (auto simp: s sm_ok_def)
    then have "sm_ok s" using ok by (auto simp: sm_ok_def)
    moreover have "set (probes_of s) \<subseteq> set (probes_of (sys_map x))"
      using sub by (fastforce simp: probes_of_set)
    moreover have "open_for i s \<le> open_for i (sys_map x) + (if i = so_Id sp then 1 else 0)" for i
      by (auto simp: open_for_def s update_keys)
    moreover have "sent_for i x + open_for i s \<le> count_list (sys_regs x @ [so_Id sp]) i" for i
      using cnt [of i] calculation(3) [of i] by (auto split: if_splits)
    ultimately show ?thesis
      using recv groups unfolding sm_inv_def registered(1) sent_for_def by simp blast
  next
    case (refused now sp e s)
    then have "s = sys_map x" by (auto simp: Register_def Let_def split: option.splits if_splits)
    then show ?thesis using refused(1) assms(2) by simp
  next
    case (received p s)
    then obtain sp where sp: "map_of (sys_map x) (prb_ProbeId p) = Some sp"
      and s: "s = AList.update (prb_ProbeId p) (sp\<lparr>se_probe := Some p\<rparr>) (sys_map x)"
      by (auto simp: Receive_def split: option.splits)
    have sub: "set s \<subseteq> insert (prb_ProbeId p, sp\<lparr>se_probe := Some p\<rparr>) (set (sys_map x))" and d: "distinct (map fst s)"
      using update_set [of "sys_map x"] ok distinct_update [of "sys_map x"] by (auto simp: s sm_ok_def)
    then have "sm_ok s" using ok by (auto simp: sm_ok_def)
    moreover have "set (probes_of s) \<subseteq> insert p (set (probes_of (sys_map x)))"
      using sub by (fastforce simp: probes_of_set)
    moreover have "open_for i s = open_for i (sys_map x)" for i
      using map_of_SomeD [OF sp] by (force simp: open_for_def s update_keys)
    ultimately show ?thesis
      using recv groups cnt unfolding sm_inv_def received(1) sent_for_def by simp blast
  next
    case (unknown p e s)
    then have "s = sys_map x" by (auto simp: Receive_def split: option.splits)
    then show ?thesis using unknown(1) assms(2) by simp
  next
    case (sent ord ord2 send out s)
    note st = sent_step [OF ok sent(2,3,4)]
    have "sent_for i y + open_for i s \<le> sent_for i x + open_for i (sys_map x)" for i
      using st(5) [of i] sent(1) by (simp add: sent_for_def group_probes_def)
    moreover have "sys_regs y = sys_regs x" "sys_map y = s" "sys_recv y = sys_recv x" using sent(1) by simp_all
    moreover have "set (group_probes (sys_sent y)) = set (group_probes (sys_sent x)) \<union> set (group_probes out)"
      using sent(1) by (simp add: group_probes_def)
    moreover have "set (sys_sent y) = set (sys_sent x) \<union> set out" using sent(1) by simp
    moreover have "sent_for i y + open_for i s \<le> count_list (sys_regs x) i" for i
      using cnt [of i] calculation(1) [of i] by linarith
    ultimately show ?thesis
      using recv groups st(1-4) unfolding sm_inv_def by auto
  next
    case (cleaned ord now)
    let ?s = "cleanOld_tick ord now (sys_map x)"
    have sub: "set ?s \<subseteq> set (sys_map x)" and d: "distinct (map fst ?s)"
      using clean_loop_subset [of now 0 "ord (sys_map x)" "sys_map x"] ok by (auto simp: cleanOld_tick_def sm_ok_def)
    have "sm_ok ?s" using sm_ok_subset [OF ok sub d] .
    moreover have "set (probes_of ?s) \<subseteq> set (probes_of (sys_map x))" using sub by (fastforce simp: probes_of_set)
    moreover have "open_for i ?s \<le> open_for i (sys_map x)" for i using sub by (force simp: open_for_def)
    moreover have "sent_for i x + open_for i ?s \<le> count_list (sys_regs x) i" for i
      using cnt [of i] calculation(3) [of i] by linarith
    ultimately show ?thesis
      using recv groups unfolding sm_inv_def cleaned(1) sent_for_def by simp blast
  qed
qed

lemma sm_reachable_inv: "sm_reachable x \<Longrightarrow> sm_inv x"
proof (induction rule: sm_reachable.induct)
  case start
  then show ?case by (simp add: sm_inv_def sm_init_def sm_ok_def sent_for_def open_for_def group_probes_def)
qed (rule sm_step_inv)

section \<open>Properties\<close>

text \<open>
  C15. Whatever the order of registrations, arrivals and ticks: every probe handed to the transport was
  received and goes to its own sender, and for no id are more probes sent than there were successful
  registrations of that id.
\<close>

theorem spoof_map_sends:
  assumes "sm_reachable x" and "(ip, ps) \<in> set (sys_sent x)" and "p \<in> set ps"
  shows "p \<in> set (sys_recv x) \<and> prb_SenderIp p = ip \<and>
    sent_for (prb_ProbeId p) x \<le> count_list (sys_regs x) (prb_ProbeId p)"
proof -
  note inv = sm_reachable_inv [OF assms(1), unfolded sm_inv_def]
  have "p \<in> set (group_probes (sys_sent x))" using assms(2,3) by (force simp: group_probes_def)
  moreover have "prb_SenderIp p = ip" using inv assms(2,3) by fastforce
  moreover have "sent_for (prb_ProbeId p) x + open_for (prb_ProbeId p) (sys_map x) \<le> count_list (sys_regs x) (prb_ProbeId p)"
    using inv by blast
  then have "sent_for (prb_ProbeId p) x \<le> count_list (sys_regs x) (prb_ProbeId p)" by linarith
  ultimately show ?thesis using inv by blast
qed

definition ex_spoof :: spoof_request where
  "ex_spoof = \<lparr>so_Ip = 1, so_Id = 7, so_Sip = 2, so_Dst = 3\<rparr>"

definition ex_probe :: probe where
  "ex_probe = \<lparr>prb_SpooferIp = 1, prb_ProbeId = 7, prb_Src = 3, prb_Dst = 2, prb_Id = 0, prb_SeqNum = 0,
     prb_RR = None, prb_Ts = None, prb_SenderIp = 9\<rparr>"

definition ex_entry :: spoof_entry where
  "ex_entry = \<lparr>se_probe = None, se_t = 0, se_spoof = ex_spoof\<rparr>"

lemma ex_sent_reachable:
  "sm_reachable \<lparr>sys_map = [], sys_regs = [7], sys_recv = [ex_probe], sys_sent = [(9, [ex_probe])]\<rparr>"
proof -
  let ?x1 = "\<lparr>sys_map = [(7, ex_entry)], sys_regs = [7], sys_recv = [], sys_sent = []\<rparr>"
  let ?x2 = "\<lparr>sys_map = [(7, ex_entry\<lparr>se_probe := Some ex_probe\<rparr>)], sys_regs = [7], sys_recv = [ex_probe], sys_sent = []\<rparr>"
  have "sm_step sm_init ?x1"
    using sm_step.registered [of 0 ex_spoof sm_init "[(7, ex_entry)]"]
    by (simp add: sm_init_def Register_def ex_spoof_def ex_entry_def)
  moreover have "sm_step ?x1 ?x2"
    using sm_step.received [of ex_probe ?x1 "[(7, ex_entry\<lparr>se_probe := Some ex_probe\<rparr>)]"]
    by (simp add: Receive_def ex_probe_def)
  moreover have "sm_step ?x2 \<lparr>sys_map = [], sys_regs = [7], sys_recv = [ex_probe], sys_sent = [(9, [ex_probe])]\<rparr>"
    using sm_step.sent [OF insertion_order.rearrangement_axioms insertion_order.rearrangement_axioms,
        of "\<lambda>_ _. True" ?x2 "[(9, [ex_probe])]" "[]"]
    by (simp add: sendSpoofs_tick_def insertion_order_def ex_probe_def)
  ultimately show ?thesis using sm_reachable.intros by blast
qed

theorem spoof_map_sends_witness:
  "sent_for 7 \<lparr>sys_map = [], sys_regs = [7], sys_recv = [ex_probe], sys_sent = [(9, [ex_probe])]\<rparr> \<le> 1"
  using spoof_map_sends [OF ex_sent_reachable, of 9 "[ex_probe]" ex_probe] by (simp add: ex_probe_def)

text \<open>
  A probe that was accepted is sent at the next tick, in the group of its sender, whatever the order
  of the loops, if the transport takes it; afterwards its id is free: a second probe with the id is
  rejected and a registration of the id succeeds.
\<close>

lemma received_probe_is_sent:
  assumes "sm_reachable x" and "Receive p (sys_map x) = (None, s1)" and "rearrangement ord" and "rearrangement ord2"
    and "sendSpoofs_tick ord ord2 (\<lambda>_ _. True) s1 = (out, s2)"
  shows "(\<exists>ps. (prb_SenderIp p, ps) \<in> set out \<and> p \<in> set ps) \<and>
    fst (Receive (q\<lparr>prb_ProbeId := prb_ProbeId p\<rparr>) s2) = Some ErrorSpoofNotFound \<and>
    fst (Register now (sp\<lparr>so_Id := prb_ProbeId p\<rparr>) s2) = None"
proof -
  have "sm_inv (x\<lparr>sys_map := s1, sys_recv := sys_recv x @ [p]\<rparr>)"
    using sm_step_inv [OF sm_step.received [OF assms(2)] sm_reachable_inv [OF assms(1)]] .
  then have ok: "sm_ok s1" by (simp add: sm_inv_def)
  obtain sp where "s1 = AList.update (prb_ProbeId p) (sp\<lparr>se_probe := Some p\<rparr>) (sys_map x)"
    using assms(2) by (auto simp: Receive_def split: option.splits)
  then have "map_of s1 (prb_ProbeId p) = Some (sp\<lparr>se_probe := Some p\<rparr>)" by (simp add: update_conv')
  then have e: "(prb_ProbeId p, sp\<lparr>se_probe := Some p\<rparr>) \<in> set s1" by (rule map_of_SomeD)
  obtain ds where c: "collect_loop (ord s1) [] s1 = (ds, s2)" and out: "out = send_loop (\<lambda>_ _. True) (ord2 ds)"
    using assms(5) by (auto simp: sendSpoofs_tick_def split: prod.splits)
  note col = collected [OF ok assms(3) c]
  have "p \<in> set (group_probes ds)" using col(2) e by (force simp: probes_of_set)
  then obtain d where d: "d \<in> set ds" "p \<in> set (snd d)" by (auto simp: group_probes_def)
  then have "fst d = prb_SenderIp p" using col(1) by (auto simp: grouped_def)
  moreover have "out = ord2 ds" unfolding out by (rule send_loop_all) simp
  ultimately have "\<exists>ps. (prb_SenderIp p, ps) \<in> set out \<and> p \<in> set ps"
    using d rearrangement.set_ord [OF assms(4)] by (metis prod.collapse)
  moreover have "prb_ProbeId p \<in> set (received_ids s1)" using e by (force simp: received_ids_set)
  then have "prb_ProbeId p \<notin> fst ` set s2" using col(6) by blast
  then have "map_of s2 (prb_ProbeId p) = None" by (simp add: map_of_eq_None_iff)
  ultimately show ?thesis by (simp add: Receive_def Register_def Let_def)
qed

text \<open>
  Registering fails exactly while an entry of the same id is at most a minute old; nothing changes
  then. Otherwise the id belongs to the new request, without a probe.
\<close>

lemma register_outcome:
  "(case Register now sp s of
      (Some e, s') \<Rightarrow> e = ErrorIDInUse \<and> s' = s \<and> (\<exists>spf. map_of s (so_Id sp) = Some spf \<and> now - se_t spf \<le> 60000000000)
    | (None, s') \<Rightarrow> map_of s' = (map_of s)(so_Id sp \<mapsto> \<lparr>se_probe = None, se_t = now, se_spoof = sp\<rparr>) \<and>
        (case map_of s (so_Id sp) of None \<Rightarrow> True | Some spf \<Rightarrow> now - se_t spf > 60000000000))"
  by (auto simp: Register_def Let_def too_old_def update_conv' split: option.splits)

end
