(* ===== verification/PlController.thy ===== *)
theory PlController
  imports Scamper SpoofMap Controller
begin

text \<open>
  \<open>scamper/client.go\<close> and \<open>plcontroller\<close>: the node's controller. It keeps a socket for every connected node,
  by address, as the files in a directory come and go; notes in its database which nodes it controls;
  runs pings and traceroutes on the sockets, and gives each measurement of a batch an answer. The
  directory's events are handled one after the other by one goroutine, beside the sockets' own.
\<close>

section \<open>The client of scamper\<close>

text \<open>Sockets live in a heap; the map holds positions in it.\<close>

record Client =
  cl_heap :: "socket list"
  cl_socks :: "(string \<times> nat) list"

definition NewClient :: Client where
  "NewClient = \<lparr>cl_heap = [], cl_socks = []\<rparr>"

text \<open>\<open>so.Stop()\<close> for the socket at position \<open>k\<close>\<close>

definition stop_at :: "nat \<Rightarrow> Client \<Rightarrow> Client go" where
  "stop_at k cl = go_bind (Socket_Stop (cl_heap cl ! k)) (\<lambda>s. Inr (cl\<lparr>cl_heap := (cl_heap cl)[k := s]\<rparr>))"

definition AddSocket :: "nat \<Rightarrow> Client \<Rightarrow> Client go" where
  "AddSocket k cl =
     (let ip = Socket_IP (cl_heap cl ! k) in
      go_bind (case map_of (cl_socks cl) ip of Some so \<Rightarrow> stop_at so cl | None \<Rightarrow> Inr cl) (\<lambda>cl.
        Inr (cl\<lparr>cl_socks := AList.update ip k (cl_socks cl)\<rparr>)))"

definition RemoveSocket :: "string \<Rightarrow> Client \<Rightarrow> Client" where
  "RemoveSocket addr cl = cl\<lparr>cl_socks := AList.delete addr (cl_socks cl)\<rparr>"

definition GetSocket :: "string \<Rightarrow> Client \<Rightarrow> scamper_error + nat" where
  "GetSocket addr cl = (case map_of (cl_socks cl) addr of Some k \<Rightarrow> Inr k | None \<Rightarrow> Inl ErrorSocketNotFound)"

text \<open>The order of a map's iteration is an argument.\<close>

definition GetAllSockets :: "(nat list \<Rightarrow> nat list) \<Rightarrow> Client \<Rightarrow> nat list" where
  "GetAllSockets order cl = order (map snd (cl_socks cl))"

definition RemoveMeasurement :: "string \<Rightarrow> uint32 \<Rightarrow> Client \<Rightarrow> Client" where
  "RemoveMeasurement addr i cl =
     (case GetSocket addr cl of
        Inl _ \<Rightarrow> cl
      | Inr k \<Rightarrow> cl\<lparr>cl_heap := (cl_heap cl)[k := Socket_RemoveMeasurement i (cl_heap cl ! k)]\<rparr>)"

text \<open>The channel that is returned is named by its socket and its position there.\<close>

definition DoMeasurement :: "string \<Rightarrow> cmd_arg \<Rightarrow> Client \<Rightarrow> (scamper_error + nat \<times> nat \<times> uint32) \<times> Client" where
  "DoMeasurement addr arg cl =
     (case GetSocket addr cl of
        Inl err \<Rightarrow> (Inl err, cl)
      | Inr k \<Rightarrow>
          (case Socket_DoMeasurement arg (cl_heap cl ! k) of
             (Inl err, s) \<Rightarrow> (Inl err, cl\<lparr>cl_heap := (cl_heap cl)[k := s]\<rparr>)
           | (Inr (c, i), s) \<Rightarrow> (Inr (k, c, i), cl\<lparr>cl_heap := (cl_heap cl)[k := s]\<rparr>)))"

section \<open>Running measurements\<close>

fun scamper_text :: "scamper_error \<Rightarrow> string" where
  "scamper_text ErrorDupCommand = ''Command already exists with the give Id''"
| "scamper_text ErrSocketClosed = ''Socket closed.''"
| "scamper_text ErrorSocketNotFound = ''No socket found''"

fun util_text :: "util_error \<Rightarrow> string" where
  "util_text IpOutOfRange = ''Ip out of range''"
| "util_text InvalidIP = ''Invalid IP''"
| "util_text NilIp = ''Nil ip in IpToInt32''"

text \<open>
  A measurement first is handed to the socket of its source. The select that follows takes a response
  of the channel, or the time is up, or the request was cancelled (with the error of its context).
\<close>

datatype select_case = Received Response | TimedOut | Cancelled string

definition time_limit :: "int64 \<Rightarrow> int64 \<Rightarrow> int64" where
  "time_limit timeout conf = (if timeout = 0 then conf else timeout)"

definition start_measurement :: "uint32 \<Rightarrow> cmd_arg \<Rightarrow> Client \<Rightarrow> (string + string \<times> nat \<times> nat \<times> uint32) \<times> Client" where
  "start_measurement src arg cl =
     (case Int32ToIPString src of
        Inl err \<Rightarrow> (Inl (util_text err), cl)
      | Inr src \<Rightarrow>
          (case DoMeasurement src arg cl of
             (Inl err, cl) \<Rightarrow> (Inl (scamper_text err), cl)
           | (Inr (k, c, i), cl) \<Rightarrow> (Inr (src, k, c, i), cl)))"

definition finish_ping :: "select_case \<Rightarrow> string \<times> nat \<times> nat \<times> uint32 \<Rightarrow> Client \<Rightarrow> ((string + DMPing) \<times> Client) go" where
  "finish_ping ev h cl =
     (case h of (src, k, c, i) \<Rightarrow>
      case ev of
        Received r \<Rightarrow>
          (case r_Ret r of
             Some (OPing t) \<Rightarrow> go_bind (ConvertPing t) (\<lambda>p. Inr (Inr p, cl))
           | _ \<Rightarrow> Inr (Inl ''Wrong type in ping response'', cl))
      | TimedOut \<Rightarrow> Inr (Inl ''Ping timed out'', RemoveMeasurement src i cl)
      | Cancelled err \<Rightarrow> Inr (Inl err, RemoveMeasurement src i cl))"

definition runPing :: "int64 \<Rightarrow> (int64 \<Rightarrow> string \<times> nat \<times> nat \<times> uint32 \<Rightarrow> Client \<Rightarrow> select_case \<times> Client) \<Rightarrow> ping_measurement \<Rightarrow> Client
    \<Rightarrow> ((string + DMPing) \<times> Client) go" where
  "runPing conf wait pa cl =
     (case start_measurement (pm_Src pa) (PingArg pa) cl of
        (Inl err, cl) \<Rightarrow> Inr (Inl err, cl)
      | (Inr h, cl) \<Rightarrow> (case wait (time_limit (pm_Timeout pa) conf) h cl of (ev, cl) \<Rightarrow> finish_ping ev h cl))"

definition finish_traceroute :: "(int64 \<Rightarrow> int64 \<Rightarrow> string) \<Rightarrow> select_case \<Rightarrow> string \<times> nat \<times> nat \<times> uint32 \<Rightarrow> Client
    \<Rightarrow> ((string + DMTraceroute) \<times> Client) go" where
  "finish_traceroute ftime ev h cl =
     (case h of (src, k, c, i) \<Rightarrow>
      case ev of
        Received r \<Rightarrow>
          (case r_Ret r of
             Some (OTraceroute t) \<Rightarrow> go_bind (ConvertTraceroute ftime t) (\<lambda>p. Inr (Inr p, cl))
           | _ \<Rightarrow> Inr (Inl ''Wrong type in traceroute response'', cl))
      | TimedOut \<Rightarrow> Inr (Inl ''Traceroute timed out'', RemoveMeasurement src i cl)
      | Cancelled err \<Rightarrow> Inr (Inl err, RemoveMeasurement src i cl))"

definition runTraceroute :: "(int64 \<Rightarrow> int64 \<Rightarrow> string) \<Rightarrow> int64 \<Rightarrow> (int64 \<Rightarrow> string \<times> nat \<times> nat \<times> uint32 \<Rightarrow> Client \<Rightarrow> select_case \<times> Client)
    \<Rightarrow> traceroute_measurement \<Rightarrow> Client \<Rightarrow> ((string + DMTraceroute) \<times> Client) go" where
  "runTraceroute ftime conf wait ta cl =
     (case start_measurement (tm_Src ta) (TracerouteArg ta) cl of
        (Inl err, cl) \<Rightarrow> Inr (Inl err, cl)
      | (Inr h, cl) \<Rightarrow> (case wait (time_limit (tm_Timeout ta) conf) h cl of (ev, cl) \<Rightarrow> finish_traceroute ftime ev h cl))"

text \<open>
  A batch: every measurement has its goroutine; a failure becomes an answer with the error and the
  measurement's addresses. \<open>start\<close> is the clock, as seconds of the minute and nanoseconds.
\<close>

definition to_answer :: "DMPing \<Rightarrow> ctl_ping" where
  "to_answer p = DMPing.extend p (ctl_ping.fields 0 [] 0)"

definition ping_answer :: "int64 \<times> int64 \<Rightarrow> ping_measurement \<Rightarrow> string + DMPing \<Rightarrow> ctl_ping" where
  "ping_answer start p r =
     (case r of
        Inr pr \<Rightarrow> to_answer pr
      | Inl err \<Rightarrow> zero_ctl_ping\<lparr>dp_Error := err, dp_Src := pm_Src p, dp_Dst := pm_Dst p,
                      dp_Start := \<lparr>t_Sec = fst start, t_Usec = word_of_int (sint (snd start) div 1000)\<rparr>\<rparr>)"

definition trace_answer_of :: "traceroute_measurement \<Rightarrow> string + DMTraceroute \<Rightarrow> trace_answer" where
  "trace_answer_of t r =
     (case r of
        Inr tr \<Rightarrow> found_trace tr
      | Inl err \<Rightarrow> error_trace t err)"

text \<open>Answers go out in the order the goroutines end, until the stream breaks or the request is cancelled.\<close>

fun send_answers :: "('a \<Rightarrow> bool) \<Rightarrow> 'a list \<Rightarrow> string option \<times> 'a list" where
  "send_answers sends [] = (None, [])"
| "send_answers sends (p # ps) =
     (if sends p then (let (err, out) = send_answers sends ps in (err, p # out)) else (Some ''send failed'', []))"

text \<open>
  What a stream of requests brings: its end, an error, or a batch; a batch that is empty arrives as nil.
  After the first batch the handler returns.
\<close>

datatype 'm request = End | Broken string | Batch "'m list"

definition serve_batch :: "('a list \<Rightarrow> 'a list) \<Rightarrow> ('m \<Rightarrow> 'a) \<Rightarrow> ('a \<Rightarrow> bool) \<Rightarrow> 'm request \<Rightarrow> string option \<times> 'a list" where
  "serve_batch order answer sends req =
     (case req of
        End \<Rightarrow> (None, [])
      | Broken err \<Rightarrow> (Some err, [])
      | Batch ms \<Rightarrow> if ms = [] then (Some ''Nil argument list.'', []) else send_answers sends (order (map answer ms)))"

definition PlController_Ping :: "(ctl_ping list \<Rightarrow> ctl_ping list) \<Rightarrow> (ping_measurement \<Rightarrow> int64 \<times> int64) \<Rightarrow> (ping_measurement \<Rightarrow> string + DMPing)
    \<Rightarrow> (ctl_ping \<Rightarrow> bool) \<Rightarrow> ping_measurement request \<Rightarrow> string option \<times> ctl_ping list" where
  "PlController_Ping order start run sends req = serve_batch order (\<lambda>p. ping_answer (start p) p (run p)) sends req"

definition PlController_Traceroute :: "(trace_answer list \<Rightarrow> trace_answer list) \<Rightarrow> (traceroute_measurement \<Rightarrow> string + DMTraceroute)
    \<Rightarrow> (trace_answer \<Rightarrow> bool) \<Rightarrow> traceroute_measurement request \<Rightarrow> string option \<times> trace_answer list" where
  "PlController_Traceroute order run sends req = serve_batch order (\<lambda>t. trace_answer_of t (run t)) sends req"

section \<open>Spoofed probes\<close>

text \<open>\<open>recSpoof\<close> of the released code only answers; nothing is registered in the spoof map.\<close>

definition recSpoof :: "spoof_request \<Rightarrow> spoof_map \<Rightarrow> string \<times> spoof_map" where
  "recSpoof rs spoofs = ([], spoofs)"

fun ReceiveSpoof_loop :: "spoof_request list \<Rightarrow> spoof_map \<Rightarrow> string list \<times> spoof_map" where
  "ReceiveSpoof_loop [] spoofs = ([], spoofs)"
| "ReceiveSpoof_loop (sp # sps) spoofs =
     (let (ret, spoofs) = recSpoof sp spoofs; (rets, spoofs) = ReceiveSpoof_loop sps spoofs in (ret # rets, spoofs))"

definition ReceiveSpoof :: "spoof_request list \<Rightarrow> spoof_map \<Rightarrow> (string + string list) \<times> spoof_map" where
  "ReceiveSpoof sps spoofs =
     (if sps = [] then (Inl ''Nil argument list.'', spoofs)
      else (let (rets, spoofs) = ReceiveSpoof_loop sps spoofs in (Inr rets, spoofs)))"

definition acceptProbe :: "probe \<Rightarrow> spoof_map \<Rightarrow> sm_error option \<times> spoof_map" where
  "acceptProbe p spoofs = Receive p spoofs"

definition AcceptProbes :: "probe list \<Rightarrow> spoof_map \<Rightarrow> string option \<times> spoof_map" where
  "AcceptProbes ps spoofs =
     (if ps = [] then (Some ''Nil argument list.'', spoofs)
      else (None, fold (\<lambda>p s. snd (acceptProbe p s)) ps spoofs))"

section \<open>The table of nodes\<close>

text \<open>\<open>dataaccess/sql\<close>, as far as the controller of the nodes uses it. A nullable column is an option.\<close>

record pl_row =
  pv_ip :: uint32
  pv_controller :: "uint32 option"
  pv_hostname :: string
  pv_site :: string
  pv_timestamp :: bool
  pv_record_route :: bool
  pv_can_spoof :: bool
  pv_receive_spoof :: bool
  pv_port :: uint32
  pv_last_updated :: int64
  pv_spoof_checked :: "int64 option"
  pv_last_health_check :: "string option"

definition ClearAllVPs :: "pl_row list \<Rightarrow> pl_row list" where
  "ClearAllVPs db = map (\<lambda>r. if pv_controller r \<noteq> None then r\<lparr>pv_controller := None\<rparr> else r) db"

definition UpdateController :: "uint32 \<Rightarrow> uint32 \<Rightarrow> uint32 \<Rightarrow> pl_row list \<Rightarrow> pl_row list" where
  "UpdateController ip newc con db =
     (if newc = 0
      then map (\<lambda>r. if pv_ip r = ip then r\<lparr>pv_controller := if pv_controller r = Some con then None else pv_controller r\<rparr> else r) db
      else map (\<lambda>r. if pv_ip r = ip then r\<lparr>pv_controller := Some newc\<rparr> else r) db)"

definition UpdateCanSpoof :: "int64 \<Rightarrow> uint32 \<Rightarrow> bool \<Rightarrow> pl_row list \<Rightarrow> pl_row list" where
  "UpdateCanSpoof now ip canSpoof db =
     map (\<lambda>r. if pv_ip r = ip then r\<lparr>pv_can_spoof := canSpoof, pv_spoof_checked := Some now\<rparr> else r) db"

definition UpdateCheckStatus :: "uint32 \<Rightarrow> string \<Rightarrow> pl_row list \<Rightarrow> pl_row list" where
  "UpdateCheckStatus ip result db = map (\<lambda>r. if pv_ip r = ip then r\<lparr>pv_last_health_check := Some result\<rparr> else r) db"

text \<open>A row as the queries read it (\<open>spoof_checked\<close> is not among their columns), and as a message.\<close>

record dm_vp =
  dv_Hostname :: string
  dv_Ip :: uint32
  dv_Timestamp :: bool
  dv_RecordRoute :: bool
  dv_LastUpdated :: int64
  dv_CanSpoof :: bool
  dv_Controller :: uint32
  dv_ReceiveSpoof :: bool
  dv_Site :: string
  dv_SpoofChecked :: int64
  dv_Port :: uint32

definition scan_row :: "pl_row \<Rightarrow> pl_row" where
  "scan_row r = r\<lparr>pv_spoof_checked := None, pv_last_health_check := None\<rparr>"

definition ToDataModel :: "pl_row \<Rightarrow> dm_vp" where
  "ToDataModel vp =
     \<lparr>dv_Hostname = pv_hostname vp, dv_Ip = pv_ip vp, dv_Timestamp = pv_timestamp vp, dv_RecordRoute = pv_timestamp vp,
      dv_LastUpdated = pv_last_updated vp, dv_CanSpoof = pv_can_spoof vp,
      dv_Controller = (case pv_controller vp of None \<Rightarrow> 0 | Some c \<Rightarrow> c), dv_ReceiveSpoof = pv_receive_spoof vp,
      dv_Site = pv_site vp, dv_SpoofChecked = (if pv_spoof_checked vp \<noteq> None then pv_last_updated vp else 0),
      dv_Port = pv_port vp\<rparr>"

definition DB_GetVPs :: "pl_row list \<Rightarrow> dm_vp list" where
  "DB_GetVPs db = map (ToDataModel \<circ> scan_row) db"

definition GetActiveVPs :: "pl_row list \<Rightarrow> dm_vp list" where
  "GetActiveVPs db = map (ToDataModel \<circ> scan_row) (filter (\<lambda>r. pv_controller r \<noteq> None) db)"

text \<open>The handler: an error of the database ends the stream without one.\<close>

definition PlController_GetVPs :: "string + dm_vp list \<Rightarrow> (dm_vp list \<Rightarrow> bool) \<Rightarrow> string option \<times> dm_vp list list" where
  "PlController_GetVPs vps sends =
     (case vps of
        Inl err \<Rightarrow> (None, [])
      | Inr vps \<Rightarrow> if sends vps then (None, [vps]) else (Some ''send failed'', []))"

section \<open>Nodes come and go\<close>

record plc =
  pl_client :: Client
  pl_ip :: uint32
  pl_db :: "pl_row list"
  pl_spoofs :: spoof_map

text \<open>
  \<open>handlEvents\<close>: the file of a node's socket was created (dialling it may fail) or removed. \<open>updated\<close> says
  whether the update of the database succeeds.
\<close>

datatype event = CreateEv string "byte list option" | RemoveEv string

definition pl_update :: "bool \<Rightarrow> uint32 \<Rightarrow> uint32 \<Rightarrow> plc \<Rightarrow> plc" where
  "pl_update updated ip newc c = (if updated then c\<lparr>pl_db := UpdateController ip newc (pl_ip c) (pl_db c)\<rparr> else c)"

definition create_event :: "bool \<Rightarrow> string \<Rightarrow> byte list option \<Rightarrow> plc \<Rightarrow> plc go" where
  "create_event updated name dial c =
     (case dial of
        None \<Rightarrow> Inr c
      | Some con \<Rightarrow>
          let cl = pl_client c; s = NewSocket name con; k = length (cl_heap cl);
              cl = cl\<lparr>cl_heap := cl_heap cl @ [s]\<rparr>
          in go_bind (IPStringToInt32 (Socket_IP s)) (\<lambda>r.
             case r of
               Inl err \<Rightarrow> go_bind (stop_at k cl) (\<lambda>cl. Inr (c\<lparr>pl_client := cl\<rparr>))
             | Inr ip \<Rightarrow>
                 if \<not> updated then go_bind (stop_at k cl) (\<lambda>cl. Inr (c\<lparr>pl_client := cl\<rparr>))
                 else go_bind (AddSocket k cl) (\<lambda>cl. Inr ((pl_update updated ip (pl_ip c) c)\<lparr>pl_client := cl\<rparr>))))"

definition remove_event :: "bool \<Rightarrow> string \<Rightarrow> plc \<Rightarrow> plc go" where
  "remove_event updated name c =
     (let ip = split_on (CHR '':'') (path_Base name) ! 0 in
      go_bind (IPStringToInt32 ip) (\<lambda>r.
      case r of
        Inl err \<Rightarrow> Inr c
      | Inr nip \<Rightarrow>
          let c = pl_update updated nip 0 c in
          go_bind (case GetSocket ip (pl_client c) of Inl _ \<Rightarrow> Inr (pl_client c) | Inr k \<Rightarrow> stop_at k (pl_client c)) (\<lambda>cl.
            Inr (c\<lparr>pl_client := RemoveSocket ip cl\<rparr>))))"

definition handle_event :: "bool \<Rightarrow> event \<Rightarrow> plc \<Rightarrow> plc go" where
  "handle_event updated ev c =
     (case ev of CreateEv name dial \<Rightarrow> create_event updated name dial c | RemoveEv name \<Rightarrow> remove_event updated name c)"

text \<open>\<open>removeAllVps\<close>, when the server goes down.\<close>

fun release_nodes :: "socket list \<Rightarrow> uint32 \<Rightarrow> pl_row list \<Rightarrow> pl_row list go" where
  "release_nodes [] me db = Inr db"
| "release_nodes (s # ss) me db =
     go_bind (IPStringToInt32 (Socket_IP s)) (\<lambda>r.
     case r of
       Inl err \<Rightarrow> release_nodes ss me db
     | Inr ip \<Rightarrow> release_nodes ss me (UpdateController ip 0 me db))"

definition removeAllVps :: "(nat list \<Rightarrow> nat list) \<Rightarrow> plc \<Rightarrow> plc go" where
  "removeAllVps order c =
     go_bind (release_nodes (map (\<lambda>k. cl_heap (pl_client c) ! k) (GetAllSockets order (pl_client c))) (pl_ip c) (pl_db c))
       (\<lambda>db. Inr (c\<lparr>pl_db := db\<rparr>))"

text \<open>The controller starts without sockets, and clears the table of all controllers.\<close>

definition plc_start :: "uint32 \<Rightarrow> pl_row list \<Rightarrow> plc" where
  "plc_start ip db = \<lparr>pl_client = NewClient, pl_ip = ip, pl_db = ClearAllVPs db, pl_spoofs = []\<rparr>"

inductive pl_step :: "bool \<Rightarrow> plc \<Rightarrow> plc \<Rightarrow> bool" for updated where
  event: "handle_event updated ev c = Inr c' \<Longrightarrow> pl_step updated c c'"
| socket: "k < length (cl_heap (pl_client c)) \<Longrightarrow> sk_step (cl_heap (pl_client c) ! k) s \<Longrightarrow>
    pl_step updated c (c\<lparr>pl_client := (pl_client c)\<lparr>cl_heap := (cl_heap (pl_client c))[k := s]\<rparr>\<rparr>)"
| spoofs: "pl_step updated c (c\<lparr>pl_spoofs := snd (ReceiveSpoof sps (pl_spoofs c))\<rparr>)"
| probes: "pl_step updated c (c\<lparr>pl_spoofs := snd (AcceptProbes ps (pl_spoofs c))\<rparr>)"

text \<open>Reachable, with database updates that always succeed (\<open>ups = {True}\<close>) or may fail.\<close>

inductive pl_reachable :: "bool set \<Rightarrow> plc \<Rightarrow> bool" for ups where
  start: "pl_reachable ups (plc_start ip db)"
| step: "pl_reachable ups c \<Longrightarrow> u \<in> ups \<Longrightarrow> pl_step u c c' \<Longrightarrow> pl_reachable ups c'"

section \<open>Addresses in file names\<close>

lemma split_on_no_sep: "f \<in> set (split_on c s) \<Longrightarrow> c \<notin> set f"
proof (induction s arbitrary: f)
  case (Cons x xs)
  show ?case
  proof (cases "x = c")
    case True
    then show ?thesis using Cons by auto
  next
    case False
    then show ?thesis using Cons by (cases "split_on c xs") auto
  qed
qed simp

lemma Socket_IP_no_colon: "CHR '':'' \<notin> set (split_on (CHR '':'') f ! 0)"
  using split_on_no_sep [of "split_on (CHR '':'') f ! 0" "CHR '':''" f] split_on_not_Nil [of "CHR '':''" f] by simp

section \<open>Sockets and the map agree\<close>

lemma socket_frame: "sk_step s s' \<Longrightarrow> sk_fname s' = sk_fname s \<and> (sk_state s = SockClosed \<longrightarrow> sk_state s' = SockClosed)"
proof (induction rule: sk_step.induct)
  case (measure s arg)
  show ?case by (cases arg s rule: DoMeasurement_cases) simp_all
qed (use close_all_frame readConn_frame task_turn_frame receive_frame in
      \<open>auto simp: Socket_RemoveMeasurement_def writeConn_frame writeConn_tick_def flushWrite_def\<close>)

lemma Socket_IP_cong: "sk_fname s' = sk_fname s \<Longrightarrow> Socket_IP s' = Socket_IP s"
  by (simp add: Socket_IP_def)

text \<open>
  Every socket satisfies its own invariant, the map holds positions of sockets with the address of their
  key, and a socket that is not in the map is closed, unless it is one of \<open>X\<close>.
\<close>

definition client_inv :: "nat set \<Rightarrow> Client \<Rightarrow> bool" where
  "client_inv X cl \<longleftrightarrow> list_all sk_inv (cl_heap cl) \<and>
     (\<forall>a k. map_of (cl_socks cl) a = Some k \<longrightarrow> k < length (cl_heap cl) \<and> Socket_IP (cl_heap cl ! k) = a) \<and>
     (\<forall>k < length (cl_heap cl). k \<notin> X \<longrightarrow> sk_state (cl_heap cl ! k) = SockOpen \<longrightarrow>
        map_of (cl_socks cl) (Socket_IP (cl_heap cl ! k)) = Some k)"

lemma client_invD:
  assumes "client_inv X cl"
  shows "k < length (cl_heap cl) \<Longrightarrow> sk_inv (cl_heap cl ! k)"
    and "map_of (cl_socks cl) a = Some k \<Longrightarrow> k < length (cl_heap cl)"
    and "map_of (cl_socks cl) a = Some k \<Longrightarrow> Socket_IP (cl_heap cl ! k) = a"
    and "k < length (cl_heap cl) \<Longrightarrow> k \<notin> X \<Longrightarrow> sk_state (cl_heap cl ! k) = SockOpen \<Longrightarrow> map_of (cl_socks cl) (Socket_IP (cl_heap cl ! k)) = Some k"
  using assms by (simp_all add: client_inv_def list_all_length)

text \<open>A socket is replaced by one of the same file that is open only if the old one was.\<close>

lemma client_inv_update:
  assumes "client_inv X cl" and "k < length (cl_heap cl)" and "sk_inv s" and "sk_fname s = sk_fname (cl_heap cl ! k)"
    and "sk_state (cl_heap cl ! k) = SockClosed \<longrightarrow> sk_state s = SockClosed"
  shows "client_inv X (cl\<lparr>cl_heap := (cl_heap cl)[k := s]\<rparr>)"
proof -
  have ip: "Socket_IP ((cl_heap cl)[k := s] ! j) = Socket_IP (cl_heap cl ! j)" for j
    using assms(2,4) by (cases "j = k") (simp_all add: Socket_IP_def)
  have op: "sk_state ((cl_heap cl)[k := s] ! j) = SockOpen \<Longrightarrow> sk_state (cl_heap cl ! j) = SockOpen" for j
    using assms(2,5) by (cases "j = k"; cases "sk_state (cl_heap cl ! k)") auto
  have "list_all sk_inv ((cl_heap cl)[k := s])"
    using assms(1-3) by (simp add: client_inv_def list_all_length nth_list_update)
  then show ?thesis using assms(1) op by (simp add: client_inv_def ip)
qed

lemma stop_at_ok:
  assumes "client_inv X cl" and "k < length (cl_heap cl)"
  shows "\<exists>cl'. stop_at k cl = Inr cl' \<and> client_inv (X - {k}) cl' \<and> cl_socks cl' = cl_socks cl \<and>
    length (cl_heap cl') = length (cl_heap cl) \<and> sk_state (cl_heap cl' ! k) = SockClosed \<and>
    (\<forall>j. j \<noteq> k \<longrightarrow> cl_heap cl' ! j = cl_heap cl ! j) \<and> sk_fname (cl_heap cl' ! k) = sk_fname (cl_heap cl ! k)"
proof -
  from Stop_ok [OF client_invD(1) [OF assms]] obtain s where s: "Socket_Stop (cl_heap cl ! k) = Inr s" "sk_inv s"
    "sk_state s = SockClosed" by blast
  have f: "sk_fname s = sk_fname (cl_heap cl ! k)" using close_all_frame [OF s(1)] by simp
  let ?cl = "cl\<lparr>cl_heap := (cl_heap cl)[k := s]\<rparr>"
  have "client_inv X ?cl" by (rule client_inv_update [OF assms s(2) f]) (simp add: s(3))
  then have "client_inv (X - {k}) ?cl" using s(3) assms(2) by (auto simp: client_inv_def)
  moreover have "stop_at k cl = Inr ?cl" by (simp add: stop_at_def s(1))
  ultimately show ?thesis using s(3) f assms(2) by (intro exI [of _ ?cl]) simp
qed

lemma RemoveSocket_ok:
  assumes "client_inv X cl" and "\<And>k. map_of (cl_socks cl) a = Some k \<Longrightarrow> sk_state (cl_heap cl ! k) = SockClosed"
  shows "client_inv X (RemoveSocket a cl)"
proof -
  have "map_of (cl_socks cl) (Socket_IP (cl_heap cl ! k)) = Some k \<and> Socket_IP (cl_heap cl ! k) \<noteq> a"
    if "k < length (cl_heap cl)" "k \<notin> X" "sk_state (cl_heap cl ! k) = SockOpen" for k
    using client_invD(4) [OF assms(1) that] assms(2) [of k] that(3) by auto
  then show ?thesis using assms(1) by (auto simp: client_inv_def RemoveSocket_def AList.delete_conv')
qed

lemma AddSocket_ok:
  assumes "client_inv {k} cl" and "k < length (cl_heap cl)" and "\<And>a. map_of (cl_socks cl) a \<noteq> Some k"
  shows "\<exists>cl'. AddSocket k cl = Inr cl' \<and> client_inv {} cl' \<and>
    map_of (cl_socks cl') = (map_of (cl_socks cl))(Socket_IP (cl_heap cl ! k) \<mapsto> k)"
proof -
  let ?ip = "Socket_IP (cl_heap cl ! k)"
  have "\<exists>cl1. (case map_of (cl_socks cl) ?ip of Some so \<Rightarrow> stop_at so cl | None \<Rightarrow> Inr cl) = Inr cl1 \<and> client_inv {k} cl1 \<and>
      cl_socks cl1 = cl_socks cl \<and> length (cl_heap cl1) = length (cl_heap cl) \<and> cl_heap cl1 ! k = cl_heap cl ! k \<and>
      (\<forall>so. map_of (cl_socks cl) ?ip = Some so \<longrightarrow> sk_state (cl_heap cl1 ! so) = SockClosed)"
  proof (cases "map_of (cl_socks cl) ?ip")
    case None
    then show ?thesis using assms(1) by simp
  next
    case (Some so)
    have so: "so < length (cl_heap cl)" "so \<noteq> k" using client_invD(2) [OF assms(1) Some] assms(3) Some by auto
    from stop_at_ok [OF assms(1) so(1)] so(2) Some show ?thesis by auto
  qed
  then obtain cl1 where cl1: "(case map_of (cl_socks cl) ?ip of Some so \<Rightarrow> stop_at so cl | None \<Rightarrow> Inr cl) = Inr cl1"
    "client_inv {k} cl1" "cl_socks cl1 = cl_socks cl" "length (cl_heap cl1) = length (cl_heap cl)"
    "cl_heap cl1 ! k = cl_heap cl ! k"
    "\<And>so. map_of (cl_socks cl) ?ip = Some so \<Longrightarrow> sk_state (cl_heap cl1 ! so) = SockClosed" by blast
  let ?cl = "cl1\<lparr>cl_socks := AList.update ?ip k (cl_socks cl1)\<rparr>"
  have "map_of (cl_socks cl) (Socket_IP (cl_heap cl1 ! j)) = Some j \<and> Socket_IP (cl_heap cl1 ! j) \<noteq> ?ip"
    if "j < length (cl_heap cl1)" "j \<noteq> k" "sk_state (cl_heap cl1 ! j) = SockOpen" for j
    using client_invD(4) [OF cl1(2) that(1) _ that(3)] that(2,3) cl1(3) cl1(6) [of j] by auto
  then have "((map_of (cl_socks cl))(?ip \<mapsto> k)) (Socket_IP (cl_heap cl1 ! j)) = Some j"
    if "j < length (cl_heap cl1)" "sk_state (cl_heap cl1 ! j) = SockOpen" for j
    using that cl1(5) by (cases "j = k") auto
  then have "client_inv {} ?cl"
    using cl1(2-5) assms(2) by (auto simp: client_inv_def update_conv')
  moreover have "AddSocket k cl = Inr ?cl" by (simp add: AddSocket_def cl1(1))
  ultimately show ?thesis by (simp add: update_conv' cl1(3))
qed

section \<open>Events\<close>

definition name_addr :: "string \<Rightarrow> string" where
  "name_addr name = split_on (CHR '':'') (path_Base name) ! 0"

lemma name_addr_number: "IPStringToInt32 (name_addr name) = Inr (Inl NilIp) \<or>
    (\<exists>i. IPStringToInt32 (name_addr name) = Inr (Inr i) \<and> name_addr name = ip_str i)"
  unfolding name_addr_def by (rule IPStringToInt32_no_colon) (rule Socket_IP_no_colon)

definition plc_inv :: "plc \<Rightarrow> bool" where
  "plc_inv c \<longleftrightarrow> client_inv {} (pl_client c) \<and> pl_spoofs c = []"

definition db_inv :: "plc \<Rightarrow> bool" where
  "db_inv c \<longleftrightarrow> (\<forall>r \<in> set (pl_db c). pv_controller r = Some (pl_ip c) \<longleftrightarrow> map_of (cl_socks (pl_client c)) (ip_str (pv_ip r)) \<noteq> None)"

lemma create_event_ok:
  assumes inv: "plc_inv c"
  shows "\<exists>c'. create_event updated name dial c = Inr c' \<and> plc_inv c' \<and> pl_ip c' = pl_ip c \<and>
    (updated \<longrightarrow> pl_ip c \<noteq> 0 \<longrightarrow> db_inv c \<longrightarrow> db_inv c') \<and>
    (dial \<noteq> None \<and> updated \<and> (\<exists>i. name_addr name = ip_str i) \<longrightarrow>
       map_of (cl_socks (pl_client c')) (name_addr name) = Some (length (cl_heap (pl_client c))))"
proof (cases dial)
  case None
  then show ?thesis using inv by (intro exI [of _ c]) (simp add: create_event_def)
next
  case (Some con)
  let ?cl = "pl_client c"
  let ?s = "NewSocket name con"
  let ?k = "length (cl_heap ?cl)"
  let ?cl1 = "?cl\<lparr>cl_heap := cl_heap ?cl @ [?s]\<rparr>"
  have ip: "Socket_IP ?s = name_addr name" by (simp add: Socket_IP_def NewSocket_def name_addr_def)
  have ci: "client_inv {} ?cl" using inv by (simp add: plc_inv_def)
  have new: "client_inv {?k} ?cl1"
    using ci NewSocket_ok [of name con] by (auto simp: client_inv_def nth_append less_Suc_eq)
  have k: "?k < length (cl_heap ?cl1)" "cl_heap ?cl1 ! ?k = ?s" by simp_all
  from stop_at_ok [OF new k(1)] obtain cl2 where cl2: "stop_at ?k ?cl1 = Inr cl2" "client_inv {} cl2" "cl_socks cl2 = cl_socks ?cl" by auto
  have refused: "?thesis" if "create_event updated name dial c = Inr (c\<lparr>pl_client := cl2\<rparr>)"
    "\<not> (updated \<and> (\<exists>i. name_addr name = ip_str i))"
    using that inv cl2(2,3) by (intro exI [of _ "c\<lparr>pl_client := cl2\<rparr>"]) (auto simp: plc_inv_def db_inv_def)
  from name_addr_number [of name] show ?thesis
  proof
    assume none: "IPStringToInt32 (name_addr name) = Inr (Inl NilIp)"
    moreover have "\<not> (\<exists>i. name_addr name = ip_str i)" using none by auto
    ultimately show ?thesis using cl2(1) by (intro refused) (simp_all add: create_event_def Some ip Let_def)
  next
    assume "\<exists>i. IPStringToInt32 (name_addr name) = Inr (Inr i) \<and> name_addr name = ip_str i"
    then obtain i where i: "IPStringToInt32 (name_addr name) = Inr (Inr i)" "name_addr name = ip_str i" by blast
    show ?thesis
    proof (cases updated)
      case False
      then show ?thesis using cl2(1) i by (intro refused) (simp_all add: create_event_def Some ip Let_def)
    next
      case True
      have "map_of (cl_socks ?cl1) a \<noteq> Some ?k" for a using client_invD(2) [OF ci] by auto
      from AddSocket_ok [OF new k(1) this] obtain cl3 where cl3: "AddSocket ?k ?cl1 = Inr cl3" "client_inv {} cl3"
        "map_of (cl_socks cl3) = (map_of (cl_socks ?cl))(ip_str i \<mapsto> ?k)" by (auto simp: ip i)
      let ?c = "(pl_update updated i (pl_ip c) c)\<lparr>pl_client := cl3\<rparr>"
      have "create_event updated name dial c = Inr ?c"
        using True cl3(1) i by (simp add: create_event_def Some ip Let_def)
      moreover have "db_inv ?c" if "pl_ip c \<noteq> 0" "db_inv c"
        using that True cl3(3) by (auto simp: db_inv_def pl_update_def UpdateController_def)
      moreover have "plc_inv ?c" "pl_ip ?c = pl_ip c" using inv cl3(2) by (simp_all add: plc_inv_def pl_update_def)
      moreover have "map_of (cl_socks cl3) (name_addr name) = Some ?k" by (simp add: cl3(3) i(2))
      ultimately show ?thesis using True by (intro exI [of _ ?c]) simp
    qed
  qed
qed

lemma remove_event_ok:
  assumes inv: "plc_inv c"
  shows "\<exists>c'. remove_event updated name c = Inr c' \<and> plc_inv c' \<and> pl_ip c' = pl_ip c \<and> (updated \<longrightarrow> pl_ip c \<noteq> 0 \<longrightarrow> db_inv c \<longrightarrow> db_inv c') \<and>
    ((\<exists>i. name_addr name = ip_str i) \<longrightarrow> map_of (cl_socks (pl_client c')) (name_addr name) = None) \<and>
    (\<forall>k i. name_addr name = ip_str i \<and> map_of (cl_socks (pl_client c)) (name_addr name) = Some k \<longrightarrow>
       sk_state (cl_heap (pl_client c') ! k) = SockClosed)"
  using name_addr_number [of name]
proof
  assume none: "IPStringToInt32 (name_addr name) = Inr (Inl NilIp)"
  moreover have "\<not> (\<exists>i. name_addr name = ip_str i)" using none by auto
  ultimately show ?thesis
    using inv by (intro exI [of _ c]) (simp add: remove_event_def name_addr_def Let_def)
next
  assume "\<exists>i. IPStringToInt32 (name_addr name) = Inr (Inr i) \<and> name_addr name = ip_str i"
  then obtain i where i: "IPStringToInt32 (name_addr name) = Inr (Inr i)" "name_addr name = ip_str i" by blast
  let ?cl = "pl_client c"
  have ci: "client_inv {} ?cl" using inv by (simp add: plc_inv_def)
  have "\<exists>cl'. (case GetSocket (ip_str i) ?cl of Inl _ \<Rightarrow> Inr ?cl | Inr k \<Rightarrow> stop_at k ?cl) = Inr cl' \<and> client_inv {} cl' \<and>
      cl_socks cl' = cl_socks ?cl \<and> (\<forall>k. map_of (cl_socks ?cl) (ip_str i) = Some k \<longrightarrow> sk_state (cl_heap cl' ! k) = SockClosed)"
  proof (cases "map_of (cl_socks ?cl) (ip_str i)")
    case None
    then show ?thesis using ci by (simp add: GetSocket_def)
  next
    case (Some k)
    from stop_at_ok [OF ci client_invD(2) [OF ci Some]] Some show ?thesis by (auto simp: GetSocket_def)
  qed
  then obtain cl' where cl': "(case GetSocket (ip_str i) ?cl of Inl _ \<Rightarrow> Inr ?cl | Inr k \<Rightarrow> stop_at k ?cl) = Inr cl'"
    "client_inv {} cl'" "cl_socks cl' = cl_socks ?cl"
    "\<And>k. map_of (cl_socks ?cl) (ip_str i) = Some k \<Longrightarrow> sk_state (cl_heap cl' ! k) = SockClosed" by blast
  let ?c = "(pl_update updated i 0 c)\<lparr>pl_client := RemoveSocket (ip_str i) cl'\<rparr>"
  have same: "pl_client (pl_update updated i 0 c) = ?cl" by (simp add: pl_update_def)
  have "remove_event updated name c = Inr ?c"
    unfolding remove_event_def name_addr_def [symmetric] Let_def i(2) IPStringToInt32_ip_str go_bind.simps sum.case same cl'(1) ..
  moreover have "client_inv {} (RemoveSocket (ip_str i) cl')"
    by (rule RemoveSocket_ok [OF cl'(2)]) (simp add: cl'(3,4))
  then have "plc_inv ?c" using inv by (simp add: plc_inv_def pl_update_def)
  moreover have socks: "map_of (cl_socks (RemoveSocket (ip_str i) cl')) = (map_of (cl_socks ?cl))(ip_str i := None)"
    by (simp add: RemoveSocket_def AList.delete_conv' cl'(3))
  moreover have "db_inv ?c" if "updated" "pl_ip c \<noteq> 0" "db_inv c"
    using that socks by (auto simp: db_inv_def pl_update_def UpdateController_def)
  moreover have "pl_ip ?c = pl_ip c" by (simp add: pl_update_def)
  moreover have "sk_state (cl_heap (RemoveSocket (ip_str i) cl') ! k) = SockClosed" if "map_of (cl_socks ?cl) (ip_str i) = Some k" for k
    using cl'(4) [OF that] by (simp add: RemoveSocket_def)
  ultimately show ?thesis by (intro exI [of _ ?c]) (simp add: i(2))
qed

lemma ReceiveSpoof_keeps: "snd (ReceiveSpoof sps spoofs) = spoofs"
proof -
  have "snd (ReceiveSpoof_loop sps s) = s" for s
    by (induction sps arbitrary: s) (simp_all add: recSpoof_def case_prod_beta)
  then show ?thesis by (simp add: ReceiveSpoof_def case_prod_beta)
qed

lemma AcceptProbes_empty: "snd (AcceptProbes ps []) = []"
proof -
  have "fold (\<lambda>p s. snd (acceptProbe p s)) ps [] = []"
    by (induction ps) (simp_all add: acceptProbe_def Receive_def)
  then show ?thesis by (simp add: AcceptProbes_def)
qed

lemma handle_event_ok:
  assumes "plc_inv c"
  shows "\<exists>c'. handle_event updated ev c = Inr c' \<and> plc_inv c' \<and> pl_ip c' = pl_ip c \<and>
    (updated \<longrightarrow> pl_ip c \<noteq> 0 \<longrightarrow> db_inv c \<longrightarrow> db_inv c')"
proof (cases ev)
  case (CreateEv name dial)
  from create_event_ok [OF assms, where name = name and dial = dial and updated = updated] show ?thesis
    by (auto simp: handle_event_def CreateEv)
next
  case (RemoveEv name)
  from remove_event_ok [OF assms, where name = name and updated = updated] show ?thesis
    by (auto simp: handle_event_def RemoveEv)
qed

lemma pl_step_ok:
  "pl_step updated c c' \<Longrightarrow> plc_inv c \<Longrightarrow>
     plc_inv c' \<and> pl_ip c' = pl_ip c \<and> (updated \<longrightarrow> pl_ip c \<noteq> 0 \<longrightarrow> db_inv c \<longrightarrow> db_inv c')"
proof (induction rule: pl_step.induct)
  case (event ev c c')
  then show ?case using handle_event_ok [OF event(2), where ev = ev and updated = updated] by auto
next
  case (socket k c s)
  let ?cl = "pl_client c"
  have ci: "client_inv {} ?cl" using socket(3) by (simp add: plc_inv_def)
  have "client_inv {} (?cl\<lparr>cl_heap := (cl_heap ?cl)[k := s]\<rparr>)"
    by (rule client_inv_update [OF ci socket(1) sk_step_ok [OF socket(2)]])
       (use client_invD(1) [OF ci socket(1)] socket_frame [OF socket(2)] in simp_all)
  then show ?case using socket(3) by (simp add: plc_inv_def db_inv_def)
next
  case (spoofs c sps)
  then show ?case by (simp add: plc_inv_def db_inv_def ReceiveSpoof_keeps)
next
  case (probes c ps)
  then show ?case by (simp add: plc_inv_def db_inv_def AcceptProbes_empty)
qed

lemma plc_start_ok: "plc_inv (plc_start ip db) \<and> db_inv (plc_start ip db)"
  by (auto simp: plc_start_def plc_inv_def client_inv_def NewClient_def db_inv_def ClearAllVPs_def)

lemma plc_reachable_ok:
  "pl_reachable ups c \<Longrightarrow> plc_inv c \<and> (ups = {True} \<longrightarrow> pl_ip c \<noteq> 0 \<longrightarrow> db_inv c)"
proof (induction rule: pl_reachable.induct)
  case (start ip db)
  then show ?case using plc_start_ok by blast
next
  case (step c u c')
  then show ?case using pl_step_ok [OF step(3)] by auto
qed

section \<open>Properties\<close>

text \<open>
  C33. The controller of the nodes keeps track of its sockets: whatever files appear and disappear, whether
  nodes can be dialled, updates of the database fail or sockets close by themselves, the handler of events
  never panics, the map holds a socket only under the address of its file, and a socket that is still open
  is the one the map holds for its address, so that no connection is leaked.
\<close>

theorem sockets_accounted:
  assumes "pl_reachable ups c"
  shows "(\<exists>c'. handle_event updated ev c = Inr c') \<and>
    (\<forall>a k. map_of (cl_socks (pl_client c)) a = Some k \<longrightarrow> Socket_IP (cl_heap (pl_client c) ! k) = a) \<and>
    (\<forall>k < length (cl_heap (pl_client c)). sk_state (cl_heap (pl_client c) ! k) = SockOpen \<longrightarrow>
       map_of (cl_socks (pl_client c)) (Socket_IP (cl_heap (pl_client c) ! k)) = Some k)"
proof -
  have inv: "plc_inv c" using plc_reachable_ok [OF assms] by blast
  then have ci: "client_inv {} (pl_client c)" by (simp add: plc_inv_def)
  show ?thesis
    using handle_event_ok [OF inv, where ev = ev and updated = updated] client_invD(3,4) [OF ci] by auto
qed

theorem sockets_accounted_witness:
  "\<exists>c'. handle_event True (CreateEv ''/s/10.0.0.1:80'' (Some [])) (plc_start 9 []) = Inr c'"
  using sockets_accounted [OF pl_reachable.start [of "{True}" 9 "[]"], of True "CreateEv ''/s/10.0.0.1:80'' (Some [])"] by blast

text \<open>
  C34. The table tells which nodes are connected: as long as updates of the database succeed, the controller
  of a node is this one exactly if the map holds a socket for the node's address.
\<close>

theorem table_matches_sockets:
  assumes "pl_reachable {True} c" and "pl_ip c \<noteq> 0" and "r \<in> set (pl_db c)"
  shows "pv_controller r = Some (pl_ip c) \<longleftrightarrow> map_of (cl_socks (pl_client c)) (ip_str (pv_ip r)) \<noteq> None"
  using plc_reachable_ok [OF assms(1)] assms(2,3) by (simp add: db_inv_def)

definition ex_row :: pl_row where
  "ex_row = \<lparr>pv_ip = 0x0A000001, pv_controller = Some 9, pv_hostname = ''n'', pv_site = ''s'', pv_timestamp = False,
     pv_record_route = True, pv_can_spoof = False, pv_receive_spoof = False, pv_port = 22, pv_last_updated = 5,
     pv_spoof_checked = None, pv_last_health_check = None\<rparr>"

theorem table_matches_sockets_witness:
  "\<exists>r. pl_db (plc_start 9 [ex_row]) = [r] \<and> pv_controller r \<noteq> Some 9 \<and> pv_controller ex_row = Some 9"
proof -
  let ?r = "ex_row\<lparr>pv_controller := None\<rparr>"
  have db: "pl_db (plc_start 9 [ex_row]) = [?r]" by (simp add: plc_start_def ClearAllVPs_def ex_row_def)
  have "pv_controller ?r = Some (pl_ip (plc_start 9 [ex_row])) \<longleftrightarrow>
      map_of (cl_socks (pl_client (plc_start 9 [ex_row]))) (ip_str (pv_ip ?r)) \<noteq> None"
    by (rule table_matches_sockets [OF pl_reachable.start]) (simp_all add: db, simp add: plc_start_def)
  then show ?thesis using db by (auto simp: plc_start_def NewClient_def ex_row_def)
qed

text \<open>
  C35. A removal that comes late disconnects the node: sockets are known by address only, so when a node
  has connected again before the file of its old connection goes, the event of the old file closes the
  new socket, and the node is neither in the map nor measured from until it connects once more.
\<close>

theorem late_removal_disconnects:
  assumes "pl_reachable ups c" and "name_addr old = ip_str i" and "name_addr new = ip_str i"
  shows "\<exists>c1 c2. handle_event True (CreateEv new (Some con)) c = Inr c1 \<and>
    map_of (cl_socks (pl_client c1)) (ip_str i) = Some (length (cl_heap (pl_client c))) \<and>
    handle_event True (RemoveEv old) c1 = Inr c2 \<and> map_of (cl_socks (pl_client c2)) (ip_str i) = None \<and>
    sk_state (cl_heap (pl_client c2) ! length (cl_heap (pl_client c))) = SockClosed"
proof -
  have inv: "plc_inv c" using plc_reachable_ok [OF assms(1)] by blast
  from create_event_ok [OF inv, where name = new and dial = "Some con" and updated = True] assms(3) obtain c1 where
    c1: "create_event True new (Some con) c = Inr c1" "plc_inv c1"
      "map_of (cl_socks (pl_client c1)) (ip_str i) = Some (length (cl_heap (pl_client c)))" by auto
  from remove_event_ok [OF c1(2), where name = old and updated = True] assms(2) c1(3) obtain c2 where
    "remove_event True old c1 = Inr c2" "map_of (cl_socks (pl_client c2)) (ip_str i) = None"
    "sk_state (cl_heap (pl_client c2) ! length (cl_heap (pl_client c))) = SockClosed" by auto
  with c1 show ?thesis by (simp add: handle_event_def)
qed

lemma ex_names: "name_addr ''/s/0.0.0.0:80'' = ip_str 0" "name_addr ''/s/0.0.0.0:81'' = ip_str 0"
  by (simp_all add: name_addr_def path_Base_def ip_str_0)

theorem late_removal_disconnects_witness:
  "\<exists>c1 c2. handle_event True (CreateEv ''/s/0.0.0.0:81'' (Some [])) (plc_start 9 []) = Inr c1 \<and>
    handle_event True (RemoveEv ''/s/0.0.0.0:80'') c1 = Inr c2 \<and> map_of (cl_socks (pl_client c2)) ''0.0.0.0'' = None"
  using late_removal_disconnects [OF pl_reachable.start [of "{True}" 9 "[]"] ex_names, of "[]"] by (auto simp: ip_str_0)

text \<open>
  The released node controller forwards no spoofed probe: requests to receive spoofed probes are
  answered but never registered, so the map stays empty and every probe a node hands in is unknown.
\<close>

lemma spoofed_probes_unknown:
  assumes "pl_reachable ups c"
  shows "pl_spoofs c = [] \<and> fst (acceptProbe p (snd (ReceiveSpoof sps (pl_spoofs c)))) = Some ErrorSpoofNotFound"
  using plc_reachable_ok [OF assms] by (simp add: plc_inv_def ReceiveSpoof_keeps acceptProbe_def Receive_def)

text \<open>What a request does until its select is served: the socket reads and handles the next answer.\<close>

definition scamper_answers :: "string \<times> nat \<times> nat \<times> uint32 \<Rightarrow> Client \<Rightarrow> select_case \<times> Client" where
  "scamper_answers h cl =
     (case h of (src, k, c, i) \<Rightarrow>
      case read_and_answer (cl_heap cl ! k) of
        Inl _ \<Rightarrow> (TimedOut, cl)
      | Inr s \<Rightarrow>
          (case receive_done c s of
             None \<Rightarrow> (TimedOut, cl)
           | Some (r, s) \<Rightarrow> (Received r, cl\<lparr>cl_heap := (cl_heap cl)[k := s]\<rparr>)))"

lemma started:
  assumes "client_inv {} cl" and "start_measurement src arg cl = (Inr (a, k, c, i), cl')"
  shows "\<exists>s cr. cl' = cl\<lparr>cl_heap := (cl_heap cl)[k := s]\<rparr> \<and> k < length (cl_heap cl) \<and> sk_inv s \<and>
    map_of (sk_cmds s) i = Some cr \<and> cr_done cr = c \<and> dc_buf (sk_chans s ! c) = [] \<and>
    Socket_DoMeasurement arg (cl_heap cl ! k) = (Inr (c, i), s)"
proof -
  have "DoMeasurement (ip_str src) arg cl = (Inr (k, c, i), cl')"
    using assms(2) by (simp add: start_measurement_def Int32ToIPString_ip_str split: prod.splits sum.splits)
  then obtain s where s: "map_of (cl_socks cl) (ip_str src) = Some k" "Socket_DoMeasurement arg (cl_heap cl ! k) = (Inr (c, i), s)"
    "cl' = cl\<lparr>cl_heap := (cl_heap cl)[k := s]\<rparr>"
    by (auto simp: DoMeasurement_def GetSocket_def split: option.splits prod.splits sum.splits)
  have k: "k < length (cl_heap cl)" by (rule client_invD(2) [OF assms(1) s(1)])
  have inv: "sk_inv s" using DoMeasurement_ok [OF client_invD(1) [OF assms(1) k], of arg] s(2) by simp
  show ?thesis
  proof (cases arg "cl_heap cl ! k" rule: DoMeasurement_cases)
    case (issued cr)
    then show ?thesis using s k inv by (intro exI [of _ s] exI [of _ cr]) auto
  qed (use s(2) in simp_all)
qed


text \<open>A node that has just connected, and what it is about to send.\<close>

definition ex_plc :: "byte list \<Rightarrow> plc" where
  "ex_plc con = \<lparr>pl_client = \<lparr>cl_heap = [NewSocket ''/s/0.0.0.0:80'' con], cl_socks = [(''0.0.0.0'', 0)]\<rparr>, pl_ip = 9,
     pl_db = [], pl_spoofs = []\<rparr>"

lemma ex_plc_reachable: "pl_reachable {True} (ex_plc con)"
proof -
  have ip: "Socket_IP (NewSocket ''/s/0.0.0.0:80'' con) = ''0.0.0.0''"
    using ex_names(1) by (simp add: Socket_IP_def NewSocket_def name_addr_def ip_str_0)
  have "IPStringToInt32 ''0.0.0.0'' = Inr (Inr 0)" using IPStringToInt32_ip_str [of 0] by (simp only: ip_str_0)
  then have "handle_event True (CreateEv ''/s/0.0.0.0:80'' (Some con)) (plc_start 9 []) = Inr (ex_plc con)"
    by (simp add: handle_event_def create_event_def ip Let_def plc_start_def NewClient_def AddSocket_def pl_update_def
        UpdateController_def ClearAllVPs_def ex_plc_def)
  then show ?thesis
    by (intro pl_reachable.step [OF pl_reachable.start [of _ 9 "[]"] _ pl_step.event]) simp_all
qed


end
