(* ===== verification/RunnerFrame.thy ===== *)
theory RunnerFrame
  imports Runner
begin

text \<open>
  \<open>revtr/runner/revtr_runner.go\<close>, what a run leaves alone: the id, the two ends, the options and the
  callbacks of a reverse traceroute stay as they were created, and the callback of a failure is not made
  again once it was made. The server stores results by these.
\<close>

definition run_frame :: "revtr \<Rightarrow> revtr \<Rightarrow> bool" where
  "run_frame rt rt' \<longleftrightarrow> ID rt' = ID rt \<and> rt_Src rt' = rt_Src rt \<and> rt_Dst rt' = rt_Dst rt \<and>
     BackoffEndhost rt' = BackoffEndhost rt \<and> has_onFail rt' = has_onFail rt \<and> (onFailOnce rt \<longrightarrow> onFailOnce rt')"

lemma run_frame_refl [simp]: "run_frame rt rt"
  by (simp add: run_frame_def)

lemma run_frame_trans: "run_frame a b \<Longrightarrow> run_frame b c \<Longrightarrow> run_frame a c"
  by (simp add: run_frame_def)

lemma ts_run_frame: "ts_frame a b \<Longrightarrow> run_frame a b"
  by (simp add: ts_frame_def run_frame_def)

text \<open>A computation whose results, read by \<open>f\<close>, keep to the frame if it gives any.\<close>

definition keeps :: "revtr \<Rightarrow> ('a \<Rightarrow> revtr) \<Rightarrow> 'a go \<Rightarrow> bool" where
  "keeps rt f m \<longleftrightarrow> (\<forall>x. m = Inr x \<longrightarrow> run_frame rt (f x))"

abbreviation keeps_step :: "revtr \<Rightarrow> 'w step_result \<Rightarrow> bool" where
  "keeps_step rt m \<equiv> keeps rt (\<lambda>(_, rt', _). rt') m"

lemma keeps_Inr [simp]: "keeps rt f (Inr x) \<longleftrightarrow> run_frame rt (f x)"
  by (simp add: keeps_def)

lemma keeps_Inl [simp]: "keeps rt f (Inl e)"
  by (simp add: keeps_def)

lemma keeps_bind:
  assumes "keeps rt f m" and "\<And>x. m = Inr x \<Longrightarrow> keeps (f x) g (k x)"
  shows "keeps rt g (go_bind m k)"
proof (cases m)
  case (Inr x)
  with assms(1) have "run_frame rt (f x)" by simp
  with assms(2) [OF Inr] run_frame_trans show ?thesis unfolding keeps_def Inr by auto
qed simp

lemma keeps_pure: "(\<And>x. m = Inr x \<Longrightarrow> keeps rt g (k x)) \<Longrightarrow> keeps rt g (go_bind m k)"
  by (cases m) simp_all

lemma keeps_weaken: "run_frame rt rt1 \<Longrightarrow> keeps rt1 f m \<Longrightarrow> keeps rt f m"
  using run_frame_trans unfolding keeps_def by blast

section \<open>Operations of a reverse traceroute\<close>

lemma run_frame_updates [simp]:
  "run_frame rt (rt'\<lparr>Stats := st\<rparr>) = run_frame rt rt'" "run_frame rt (rt'\<lparr>Paths := ps\<rparr>) = run_frame rt rt'"
  "run_frame rt (rt'\<lparr>DeadEnd := de\<rparr>) = run_frame rt rt'" "run_frame rt (rt'\<lparr>Tokens := ts\<rparr>) = run_frame rt rt'"
  "run_frame rt (rt'\<lparr>ErrorDetails := es\<rparr>) = run_frame rt rt'" "run_frame rt (rt'\<lparr>FailReason := r\<rparr>) = run_frame rt rt'"
  "run_frame rt (rt'\<lparr>StopReason := s\<rparr>) = run_frame rt rt'" "run_frame rt (rt'\<lparr>RRHop2RateLimit := rl\<rparr>) = run_frame rt rt'"
  "run_frame rt (rt'\<lparr>RRHop2VPSLeft := vl\<rparr>) = run_frame rt rt'" "run_frame rt (rt'\<lparr>TSHop2AdjsLeft := al\<rparr>) = run_frame rt rt'"
  "run_frame rt (rt'\<lparr>rrSpoofRRResponsive := rr\<rparr>) = run_frame rt rt'"
  by (simp_all add: run_frame_def)

lemma run_frame_callbacks [simp]:
  "run_frame rt (call_onAdd rt) " "run_frame rt (call_onReach rt)" "run_frame rt (call_onFail rt)"
  by (simp_all add: run_frame_def call_onAdd_def call_onReach_def call_onFail_def)

lemma run_frame_failed: "run_frame rt (snd (rt_Failed rt))"
  using run_frame_trans [of rt "rt\<lparr>StopReason := StopFailed\<rparr>"] by (simp add: rt_Failed_def)

lemma keeps_reaches: "keeps rt snd (rt_Reaches cm rt)"
proof -
  have "run_frame rt (call_onReach (rt\<lparr>StopReason := StopReaches\<rparr>))"
    by (rule run_frame_trans [of rt "rt\<lparr>StopReason := StopReaches\<rparr>"]) simp_all
  then show ?thesis unfolding rt_Reaches_def by (auto intro!: keeps_pure)
qed

lemma keeps_fail_loop: "keeps rt id (fail_loop rt)"
proof (induction rt rule: fail_loop.induct)
  case (1 rt)
  show ?case
  proof (cases "is_failed rt")
    case True
    then show ?thesis
      using run_frame_failed [of rt] by (subst fail_loop.simps) (simp add: rt_Failed_def)
  next
    case False
    then have f: "rt_Failed rt = (False, rt)" by (simp add: rt_Failed_def)
    have "keeps rt id (fail_loop (rt\<lparr>Paths := take (rt_len rt - 1) (Paths rt)\<rparr>))"
      if "rt_LastHop rt = Inr h" "dead_end rt h" "rt_LastSeg rt = Inr s" "\<not> is_DstSym s" for h s
      by (rule keeps_weaken [OF _ "1.IH"]) (use f that in auto)
    then show ?thesis by (subst fail_loop.simps) (auto simp: f intro!: keeps_pure)
  qed
qed

lemma keeps_FailCurrPath: "keeps rt id (FailCurrPath rt)"
  unfolding FailCurrPath_def
proof (rule keeps_pure)
  fix h
  show "keeps rt id (go_bind (fail_loop (rt\<lparr>DeadEnd := List.insert h (DeadEnd rt)\<rparr>)) (\<lambda>rt'. Inr (call_onAdd rt')))"
    by (rule keeps_weaken [OF _ keeps_bind [OF keeps_fail_loop]]) simp_all
qed

lemma keeps_AddAndReplace: "keeps rt snd (AddAndReplaceSegment s rt)"
proof -
  have "run_frame rt (call_onAdd (rt\<lparr>Paths := ps\<rparr>))" for ps
    by (rule run_frame_trans [of rt "rt\<lparr>Paths := ps\<rparr>"]) simp_all
  then show ?thesis unfolding AddAndReplaceSegment_def by (auto intro!: keeps_pure)
qed

lemma run_frame_add_loop: "add_loop ord cm base segs added rt = (err, added', rt') \<Longrightarrow> run_frame rt rt'"
proof (induction segs arbitrary: added rt)
  case (Cons s segs)
  have "run_frame rt rt'" if "add_loop ord cm base segs True (rt\<lparr>Paths := ps\<rparr>) = (err, added', rt')" for ps
    using run_frame_trans [OF _ Cons.IH [OF that]] by simp
  with Cons show ?case by (auto split: if_splits prod.splits option.splits)
qed simp

lemma keeps_AddSegments: "keeps rt snd (AddSegments srt ord cm segs rt)"
  unfolding AddSegments_def Let_def
proof (rule keeps_pure)
  fix rp
  obtain err added rt1 where l: "add_loop ord cm (rp_Clone rp) (srt (seg_Less cm) segs) False rt = (err, added, rt1)"
    by (metis surj_pair)
  then have "run_frame rt rt1" by (rule run_frame_add_loop)
  then show "keeps rt snd (case add_loop ord cm (rp_Clone rp) (srt (seg_Less cm) segs) False rt of
      (True, _, rt') \<Rightarrow> Inr (False, rt') | (False, added, rt') \<Rightarrow> Inr (added, if added then call_onAdd rt' else rt'))"
    using run_frame_trans [of rt rt1 "call_onAdd rt1"] by (simp add: l split: bool.split)
qed

lemma keeps_AddBackground: "keeps rt snd (AddBackgroundTRSegment srt ord cm tr rt)"
proof -
  have "run_frame rt rt'" if "AddSegments srt ord cm [tr] (rt\<lparr>Paths := ps\<rparr>) = Inr (b, rt')" for ps b rt'
    using run_frame_trans [of rt "rt\<lparr>Paths := ps\<rparr>" rt'] keeps_AddSegments [of "rt\<lparr>Paths := ps\<rparr>" srt ord cm "[tr]"] that
    by (simp add: keeps_def)
  then show ?thesis
    unfolding AddBackgroundTRSegment_def Let_def by (auto intro!: keeps_pure split: option.split prod.split)
qed

lemma keeps_init_rr: "keeps rt id (init_rr_hops vs hops rt)"
proof (induction hops arbitrary: rt)
  case (Cons h hops)
  have "keeps rt id (if RRHop2VPSLeft rt h = None then InitializeRRVPs vs h rt else Inr rt)"
    by (auto simp: InitializeRRVPs_def Let_def intro!: keeps_pure split: option.split)
  then show ?case by (auto intro!: keeps_bind Cons [unfolded id_def] simp: id_def)
qed simp

lemma keeps_GetRRVPs: "keeps rt (\<lambda>(_, _, rt'). rt') (GetRRVPs vs rt)"
proof -
  have "keeps rt1 snd (next_rr_batch t s rt1)" for t s rt1
    unfolding next_rr_batch_def Let_def set_vps_left_def by (auto intro!: keeps_pure split: segment.split)
  then have "keeps rt1 (\<lambda>(_, _, rt'). rt') (go_bind (next_rr_batch t s rt1) (\<lambda>(vps, rt2). Inr (vps, t, rt2)))" for t s rt1
    by (rule keeps_bind) (auto split: prod.split)
  then show ?thesis
    unfolding GetRRVPs_def by (auto intro!: keeps_pure keeps_bind [OF keeps_init_rr] split: option.split)
qed

lemma keeps_GetTSAdjacents: "keeps rt snd (GetTSAdjacents srtd srta ord as hop rt)"
proof -
  have "keeps rt id (if TSHop2AdjsLeft rt hop = None then InitializeTSAdjacents srtd srta ord as hop rt else Inr rt)"
    by (auto simp: InitializeTSAdjacents_def intro!: keeps_pure split: option.split)
  then show ?thesis
    unfolding GetTSAdjacents_def Let_def by (rule keeps_bind) (auto intro!: keeps_pure)
qed

section \<open>Steps\<close>

lemma run_frame_left [simp]:
  "run_frame (rt\<lparr>Stats := st\<rparr>) rt' = run_frame rt rt'" "run_frame (rt\<lparr>Tokens := ts\<rparr>) rt' = run_frame rt rt'"
  "run_frame (rt\<lparr>ErrorDetails := es\<rparr>) rt' = run_frame rt rt'"
  by (simp_all add: run_frame_def)

lemma framed:
  "rt_Reaches cm rt = Inr (b, rt') \<Longrightarrow> run_frame rt rt'"
  "AddSegments srt ord cm segs rt = Inr (b, rt') \<Longrightarrow> run_frame rt rt'"
  "AddBackgroundTRSegment srt ord cm tr rt = Inr (b, rt') \<Longrightarrow> run_frame rt rt'"
  "AddAndReplaceSegment s rt = Inr (b, rt') \<Longrightarrow> run_frame rt rt'"
  using keeps_reaches keeps_AddSegments keeps_AddBackground keeps_AddAndReplace by (fastforce simp: keeps_def)+

lemma framed2: "run_frame rt rt1 \<Longrightarrow> run_frame rt1 rt2 \<Longrightarrow> run_frame rt rt2"
  by (rule run_frame_trans)

lemma keeps_finish: "keeps_step rt (finish_with_trace e msg tr rt w)"
  unfolding finish_with_trace_def Let_def
  by (auto intro!: keeps_pure dest!: framed split: prod.split) (erule (1) framed2)

lemma keeps_trToSource: "keeps_step rt (trToSource e rt w)"
  unfolding trToSource_def Let_def
  by (auto intro!: keeps_pure keeps_weaken [OF _ keeps_finish] split: prod.split sum.split)

lemma keeps_backgroundTRS: "keeps_step rt (backgroundTRS e rt w)"
  unfolding backgroundTRS_def Let_def
  by (auto intro!: keeps_pure keeps_weaken [OF _ keeps_finish] split: prod.split sum.split)

lemma keeps_checkbgTRs: "keeps_step rt (checkbgTRs e nxt rt w)"
  unfolding checkbgTRs_def by (rule keeps_bind [OF keeps_backgroundTRS]) (auto split: prod.split option.split)

lemma keeps_after_adding: "keeps_step rt (after_adding e nxt rt w)"
  unfolding after_adding_def by (auto intro!: keeps_pure keeps_weaken [OF _ keeps_checkbgTRs] dest!: framed)

lemma keeps_reach_or_restart: "keeps_step rt (reach_or_restart e rt w)"
  unfolding reach_or_restart_def by (auto intro!: keeps_pure dest!: framed)

lemma keeps_fail_or_restart: "keeps_step rt (fail_or_restart reason rt w)"
proof -
  have "keeps_step rt1 (case rt_Failed rt1 of
      (True, rt2) \<Rightarrow> Inr (None, rt2\<lparr>FailReason := reason\<rparr>, w) | (False, rt2) \<Rightarrow> Inr (Some S_trToSource, rt2, w))" for rt1
    using run_frame_failed [of rt1] by (auto split: prod.split bool.split)
  then show ?thesis
    unfolding fail_or_restart_def using keeps_bind [OF keeps_FailCurrPath] by fastforce
qed

lemma keeps_assumeSymmetric: "keeps_step rt (assumeSymmetric e rt w)"
proof -
  have sym: "keeps_step rt (extend_symmetric e rp s rt w)" for rp s rt w
    unfolding extend_symmetric_def Let_def
    by (auto intro!: keeps_pure keeps_weaken [OF _ keeps_reach_or_restart] dest!: framed split: prod.split)
  show ?thesis
    unfolding assumeSymmetric_def Let_def
    by (auto intro!: keeps_pure keeps_weaken [OF _ sym] keeps_weaken [OF _ keeps_fail_or_restart]
        keeps_weaken [OF _ keeps_reach_or_restart] dest!: framed elim: framed2 split: prod.split sum.split)
qed

lemma keeps_backoffEndhost: "keeps_step rt (backoffEndhost e rt w)"
  unfolding backoffEndhost_def
  by (rule keeps_bind [OF keeps_assumeSymmetric]) (auto intro!: keeps_pure dest!: framed elim: framed2 split: prod.split)

lemma run_frame_spoofers [simp]:
  "run_frame rt (MarkResponsiveRRSpoofer t rt') = run_frame rt rt'" "run_frame rt (AddUnresponsiveRRSpoofer t n rt') = run_frame rt rt'"
  "run_frame (MarkResponsiveRRSpoofer t rt') rt = run_frame rt' rt" "run_frame (AddUnresponsiveRRSpoofer t n rt') rt = run_frame rt' rt"
  by (auto simp: MarkResponsiveRRSpoofer_def AddUnresponsiveRRSpoofer_def run_frame_def split: option.split)

lemma keeps_rr_plain:
  assumes "\<And>rt w. keeps_step rt (again rt w)"
  shows "keeps_step rt (rr_plain again e target rt w)"
  unfolding rr_plain_def Let_def
  by (auto intro!: keeps_pure keeps_weaken [OF _ assms] assms keeps_weaken [OF _ keeps_after_adding] dest!: framed elim: framed2 split: prod.split sum.split)

lemma keeps_rr_spoofed:
  assumes "\<And>rt w. keeps_step rt (again rt w)"
  shows "keeps_step rt (rr_spoofed again e vps target rt w)"
  unfolding rr_spoofed_def Let_def
  by (auto intro!: keeps_pure keeps_weaken [OF _ assms] keeps_weaken [OF _ keeps_after_adding] dest!: framed split: prod.split)

lemma keeps_rr_loop: "keeps_step rt (rr_loop n e rt w)"
proof (induction n arbitrary: rt w)
  case (Suc n)
  show ?case
    unfolding rr_loop.simps
    by (auto intro!: keeps_pure keeps_bind [OF keeps_GetRRVPs] keeps_rr_plain keeps_rr_spoofed Suc split: prod.split)
qed simp

lemma keeps_ts_loop: "keeps_step rt (ts_loop n e target r2s rt w)"
proof (induction n arbitrary: rt r2s w)
  case (Suc n)
  have round: "run_frame rt (tl_revtr l)" if "ts_round e issue r2s rt w = Inr (l, r2s', w')" for issue r2s rt w l r2s' w'
    using ts_round_safe [of rt e issue r2s w] that by (auto simp: ts_safe_def intro: ts_run_frame)
  have first: "run_frame rt1 rt2" if "ts_first_probes vs target adjs r2s rt1 = Inr (Some (issue, r2s', rt2))" for vs adjs r2s rt1 issue r2s' rt2
    by (rule ts_run_frame [OF ts_first_probes_frame [OF that]])
  have rest: "keeps_step rt1 (go_bind (ts_round e issue r2s1 rt2 w) (\<lambda>(l, r2s2, w1).
      go_bind (rt_LastHop (tl_revtr l)) (\<lambda>lastHop.
        case tl_revHops l (rt_Src (tl_revtr l), lastHop) of
          None \<Rightarrow> ts_loop n e target r2s2 (tl_revtr l) w1
        | Some segments \<Rightarrow>
            go_bind (AddSegments (e_srt e) (e_ord e) (e_cm e) segments (tl_revtr l)) (\<lambda>(added, rt3).
              if added then after_adding e S_trToSource rt3 w1 else ts_loop n e target r2s2 rt3 w1))))"
    if f: "run_frame rt1 rt2" for rt1 rt2 issue r2s1
  proof (rule keeps_pure, clarify)
    fix l r2s2 w1 assume "ts_round e issue r2s1 rt2 w = Inr (l, r2s2, w1)"
    then have "run_frame rt1 (tl_revtr l)" using run_frame_trans [OF f round] by blast
    then show "keeps_step rt1 (go_bind (rt_LastHop (tl_revtr l)) (\<lambda>lastHop.
        case tl_revHops l (rt_Src (tl_revtr l), lastHop) of
          None \<Rightarrow> ts_loop n e target r2s2 (tl_revtr l) w1
        | Some segments \<Rightarrow>
            go_bind (AddSegments (e_srt e) (e_ord e) (e_cm e) segments (tl_revtr l)) (\<lambda>(added, rt3).
              if added then after_adding e S_trToSource rt3 w1 else ts_loop n e target r2s2 rt3 w1)))"
      by (rule keeps_weaken) (auto intro!: keeps_pure keeps_weaken [OF _ Suc] Suc keeps_weaken [OF _ keeps_after_adding] dest!: framed elim: framed2 split: option.split prod.split)
  qed
  show ?case
    unfolding ts_loop.simps
    by (rule keeps_bind [OF keeps_GetTSAdjacents]) (auto intro!: keeps_pure rest split: prod.split option.split dest: first)
qed simp

lemma keeps_do_step: "keeps_step rt (do_step m e s rt w)"
  by (cases s) (auto simp: keeps_backoffEndhost keeps_trToSource keeps_backgroundTRS keeps_assumeSymmetric recordRoute_def timestamp_def Let_def
    intro!: keeps_pure keeps_weaken [OF _ keeps_rr_loop] keeps_weaken [OF _ keeps_ts_loop])

lemma keeps_run_loop: "keeps rt fst (run_loop n m e s rt w)"
proof (induction n arbitrary: s rt w)
  case (Suc n)
  show ?case
    unfolding run_loop.simps by (auto intro!: keeps_bind [OF keeps_do_step] Suc split: option.split)
qed simp

lemma run_keeps: "run n m e rt w = Inr (rt', w') \<Longrightarrow> run_frame rt rt'"
  using keeps_run_loop [of rt n m e "initialStep rt" w] by (auto simp: run_def keeps_def split: if_split_asm)

section \<open>A result can be stored\<close>

lemma run_done_ok: "run n m e rt w = Inr (rt', w') \<Longrightarrow> e_Done e = (\<lambda>_. False) \<Longrightarrow> done_ok (e_cm e) rt'"
proof -
  assume r: "run n m e rt w = Inr (rt', w')" and d: "e_Done e = (\<lambda>_. False)"
  have "run_loop n m e s rt w = Inr (rt', w') \<Longrightarrow> done_ok (e_cm e) rt'" for n s rt w
  proof (induction n arbitrary: s rt w)
    case (Suc n)
    from Suc.prems obtain nxt rt1 w1 where s: "do_step m e s rt w = Inr (nxt, rt1, w1)"
      "(case nxt of None \<Rightarrow> Inr (rt1, w1) | Some s \<Rightarrow> run_loop n m e s rt1 w1) = Inr (rt', w')"
      by (auto simp: d go_simps)
    with ends_do_step [of e m s rt w] Suc.IH show ?case by (cases nxt) (simp_all add: ends_def)
  qed simp
  with r d show ?thesis by (simp add: run_def)
qed

lemma reached_not_failed: "reached cm rt \<Longrightarrow> \<not> BackoffEndhost rt \<Longrightarrow> \<not> is_failed rt"
  by (simp add: reached_def is_failed_def rt_len_def)

text \<open>Storing after a run that was not cancelled makes no further callback, unless the end host was backed off.\<close>

lemma ToStorable_silent:
  assumes "run n m e rt w = Inr (rt', w')" and "e_Done e = (\<lambda>_. False)" and "\<not> BackoffEndhost rt"
  shows "\<exists>st rt''. ToStorable rt' = Inr (st, rt'') \<and> callbacks rt'' = callbacks rt' \<and> sr_Id st = ID rt \<and>
    sr_Status st = COMPLETED \<and> sr_Stats st \<noteq> None"
proof -
  note d = run_done_ok [OF assms(1,2)] and f = run_keeps [OF assms(1)]
  have bo: "\<not> BackoffEndhost rt'" and id: "ID rt' = ID rt" using f assms(3) by (simp_all add: run_frame_def)
  have stop: "stop_string (StopReason rt') \<noteq> []" using d by (auto simp: done_ok_def)
  show ?thesis
  proof (cases "is_failed rt'")
    case True
    with d bo have "has_onFail rt' \<longrightarrow> onFailOnce rt'" using reached_not_failed by (auto simp: done_ok_def)
    then have "callbacks (call_onFail (rt'\<lparr>StopReason := StopFailed\<rparr>)) = callbacks rt'" by (simp add: call_onFail_def)
    with True stop id show ?thesis by (simp add: ToStorable_def Let_def rt_Failed_def)
  next
    case False
    then have "Paths rt' \<noteq> []" by (auto simp: is_failed_def rt_len_def)
    then have "CurrPath rt' = Inr (last (Paths rt'))" by (simp add: CurrPath_Inr)
    with False stop id show ?thesis by (simp add: ToStorable_def Let_def rt_Failed_def)
  qed
qed

end
