(* ===== verification/RevtrRepo.thy ===== *)
theory RevtrRepo
  imports RevTracerouteVPs ClusterMap
begin

text \<open>
  \<open>revtr/repository/repo.go\<close> over the tables of \<open>doc/sql/revtr.sql\<close>: users with their quotas, the batches of
  reverse traceroutes they asked for, hops and statistics of those, and the adjacencies and aliases.
  A table is the list of its rows in the order of insertion, a time a number of seconds. Transactions run
  one after the other; texts fit their columns; broken connections are not modelled. Neither are run times,
  dates and the ids of the rows of hops, which no query selects by. When two keys of users are equal
  is up to the collation of the database, here \<open>same\<close>.
\<close>

section \<open>Tables\<close>

record revtr_user =
  ru_Id :: uint32
  ru_Name :: string
  ru_Email :: string
  ru_Max :: uint32
  ru_Delay :: uint32
  ru_Key :: string

record batch_row =
  ba_Id :: uint32
  ba_User :: uint32
  ba_Created :: int

record revtr_row =
  rw_Id :: uint32
  rw_Src :: uint32
  rw_Dst :: uint32
  rw_StopReason :: string
  rw_Status :: string
  rw_FailReason :: string

record hop_row =
  hw_Revtr :: uint32
  hw_Hop :: uint32
  hw_Type :: uint32
  hw_Order :: nat

text \<open>The two counters are the next ids of the tables of batches and of reverse traceroutes.\<close>

record revtr_db =
  rd_users :: "revtr_user list"
  rd_batches :: "batch_row list"
  rd_batch_revtr :: "(uint32 \<times> uint32) list"
  rd_revtrs :: "revtr_row list"
  rd_hops :: "hop_row list"
  rd_stats :: "(uint32 \<times> storable_stats) list"
  rd_hop_types :: "uint32 list"
  rd_next_batch :: nat
  rd_next_revtr :: nat
  rd_adjacencies :: "adjacency list"
  rd_adjacencies_to_dest :: "adjacency_to_dest list"
  rd_ip_aliases :: "(uint32 \<times> int option) list"

datatype repo_error =
    ErrInvalidUserID
  | ErrNoRow
  | ErrCannotAddRevtrBatch
  | ErrFailedToStoreBatch
  | ErrFailedToGetBatch
  | ErrNoRevtrUserFound
  | ErrNoAlias
  | DbError

definition revtr_ids :: "revtr_db \<Rightarrow> uint32 list" where
  "revtr_ids db = map rw_Id (rd_revtrs db)"

fun status_String :: "revtr_status \<Rightarrow> string" where
  "status_String DUMMY_X = ''DUMMY_X''"
| "status_String RUNNING = ''RUNNING''"
| "status_String COMPLETED = ''COMPLETED''"
| "status_String CANCELED = ''CANCELED''"

text \<open>\<open>pb.RevtrStatus_value[status]\<close>: a text that is no name gives zero.\<close>

definition RevtrStatus_value :: "string \<Rightarrow> revtr_status" where
  "RevtrStatus_value s = (if s = ''RUNNING'' then RUNNING else if s = ''COMPLETED'' then COMPLETED
     else if s = ''CANCELED'' then CANCELED else DUMMY_X)"

section \<open>Statements\<close>

text \<open>A row is refused (\<open>None\<close>) when it breaks a foreign key or repeats a primary key.\<close>

definition insert_hop :: "uint32 \<Rightarrow> uint32 \<Rightarrow> uint32 \<Rightarrow> nat \<Rightarrow> revtr_db \<Rightarrow> revtr_db option" where
  "insert_hop rid hop ty i db =
     (if rid \<in> set (revtr_ids db) \<and> ty \<in> set (rd_hop_types db)
      then Some (db\<lparr>rd_hops := rd_hops db @ [\<lparr>hw_Revtr = rid, hw_Hop = hop, hw_Type = ty, hw_Order = i\<rparr>]\<rparr>) else None)"

definition insert_stats :: "uint32 \<Rightarrow> storable_stats \<Rightarrow> revtr_db \<Rightarrow> revtr_db option" where
  "insert_stats rid stats db =
     (if rid \<in> set (revtr_ids db) \<and> rid \<notin> fst ` set (rd_stats db)
      then Some (db\<lparr>rd_stats := rd_stats db @ [(rid, stats)]\<rparr>) else None)"

definition insert_batch_revtr :: "uint32 \<Rightarrow> uint32 \<Rightarrow> revtr_db \<Rightarrow> revtr_db option" where
  "insert_batch_revtr bid rid db =
     (if bid \<in> set (map ba_Id (rd_batches db)) \<and> rid \<in> set (revtr_ids db)
      then Some (db\<lparr>rd_batch_revtr := rd_batch_revtr db @ [(bid, rid)]\<rparr>) else None)"

text \<open>Ids have 32 bits; a table whose ids are used up refuses rows.\<close>

definition insert_revtr :: "uint32 \<Rightarrow> uint32 \<Rightarrow> string \<Rightarrow> string \<Rightarrow> string \<Rightarrow> revtr_db \<Rightarrow> (uint32 \<times> revtr_db) option" where
  "insert_revtr src dst stop status fail db =
     (if rd_next_revtr db < 2 ^ 32
      then let rid = of_nat (rd_next_revtr db) in
        Some (rid, db\<lparr>rd_next_revtr := rd_next_revtr db + 1, rd_revtrs := rd_revtrs db @
          [\<lparr>rw_Id = rid, rw_Src = src, rw_Dst = dst, rw_StopReason = stop, rw_Status = status, rw_FailReason = fail\<rparr>]\<rparr>)
      else None)"

text \<open>
  \<open>INSERT INTO batch(user_id) SELECT id FROM users WHERE users.key = ?\<close> makes a batch for every user with
  the key; the id reported is the first one, or zero if there is none.
\<close>

definition users_by_key :: "(string \<Rightarrow> string \<Rightarrow> bool) \<Rightarrow> string \<Rightarrow> revtr_db \<Rightarrow> revtr_user list" where
  "users_by_key same key db = filter (\<lambda>u. same (ru_Key u) key) (rd_users db)"

definition insert_batch :: "(string \<Rightarrow> string \<Rightarrow> bool) \<Rightarrow> int \<Rightarrow> string \<Rightarrow> revtr_db \<Rightarrow> (uint32 \<times> revtr_db) option" where
  "insert_batch same now key db =
     (let us = users_by_key same key db; n = rd_next_batch db in
      if n + length us \<le> 2 ^ 32
      then Some (if us = [] then 0 else of_nat n,
        db\<lparr>rd_next_batch := n + length us, rd_batches := rd_batches db @
          map (\<lambda>(u, i). \<lparr>ba_Id = of_nat i, ba_User = ru_Id u, ba_Created = now\<rparr>) (zip us [n..<n + length us])\<rparr>)
      else None)"

definition update_revtr :: "storable \<Rightarrow> revtr_db \<Rightarrow> revtr_db" where
  "update_revtr rt db = db\<lparr>rd_revtrs := map (\<lambda>r. if rw_Id r = sr_Id rt
     then r\<lparr>rw_StopReason := sr_StopReason rt, rw_Status := status_String (sr_Status rt), rw_FailReason := sr_FailReason rt\<rparr>
     else r) (rd_revtrs db)\<rparr>"

text \<open>A rollback restores the rows; ids that were given out are not given out again.\<close>

definition Rollback :: "revtr_db \<Rightarrow> revtr_db \<Rightarrow> revtr_db" where
  "Rollback db tx = db\<lparr>rd_next_batch := rd_next_batch tx, rd_next_revtr := rd_next_revtr tx\<rparr>"

section \<open>Storing results\<close>

text \<open>A transaction that failed is \<open>Inl\<close> of what it had become.\<close>

fun store_path :: "uint32 \<Rightarrow> nat \<Rightarrow> revtr_hop list \<Rightarrow> revtr_db \<Rightarrow> (revtr_db + revtr_db) go" where
  "store_path rid i [] db = Inr (Inr db)"
| "store_path rid i (h # hs) db =
     go_bind (ip_int (rh_Hop h)) (\<lambda>hop.
       case insert_hop rid hop (word_of_int (rh_Type h)) i db of
         None \<Rightarrow> Inr (Inl db)
       | Some db \<Rightarrow> store_path rid (i + 1) hs db)"

definition store_stats :: "uint32 \<Rightarrow> storable_stats option \<Rightarrow> revtr_db \<Rightarrow> (revtr_db + revtr_db) go" where
  "store_stats rid stats db =
     (case stats of
        None \<Rightarrow> Inl NilDereference
      | Some st \<Rightarrow> Inr (case insert_stats rid st db of None \<Rightarrow> Inl db | Some db \<Rightarrow> Inr db))"

definition store_result :: "uint32 \<Rightarrow> storable \<Rightarrow> revtr_db \<Rightarrow> (revtr_db + revtr_db) go" where
  "store_result rid rt db =
     go_bind (store_path rid 0 (sr_Path rt) db) (\<lambda>r.
       case r of Inl tx \<Rightarrow> Inr (Inl tx) | Inr db \<Rightarrow> store_stats rid (sr_Stats rt) db)"

fun store_batch :: "storable list \<Rightarrow> revtr_db \<Rightarrow> (revtr_db + revtr_db) go" where
  "store_batch [] db = Inr (Inr db)"
| "store_batch (rt # rts) db =
     go_bind (store_result (sr_Id rt) rt (update_revtr rt db)) (\<lambda>r.
       case r of Inl tx \<Rightarrow> Inr (Inl tx) | Inr db \<Rightarrow> store_batch rts db)"

definition StoreBatchedRevtrs :: "storable list \<Rightarrow> revtr_db \<Rightarrow> (repo_error option \<times> revtr_db) go" where
  "StoreBatchedRevtrs batch db =
     go_bind (store_batch batch db) (\<lambda>r.
       case r of Inl tx \<Rightarrow> Inr (Some ErrFailedToStoreBatch, Rollback db tx) | Inr db' \<Rightarrow> Inr (None, db'))"

definition StoreRevtr :: "storable \<Rightarrow> revtr_db \<Rightarrow> (repo_error option \<times> revtr_db) go" where
  "StoreRevtr rt db =
     go_bind (ip_int (sr_Src rt)) (\<lambda>src.
     go_bind (ip_int (sr_Dst rt)) (\<lambda>dst.
       case insert_revtr src dst (sr_StopReason rt) (status_String (sr_Status rt)) (sr_FailReason rt) db of
         None \<Rightarrow> Inr (Some DbError, db)
       | Some (rid, tx) \<Rightarrow>
           go_bind (store_path rid 0 (sr_Path rt) tx) (\<lambda>r.
             case r of
               Inl tx \<Rightarrow> Inr (Some DbError, Rollback db tx)
             | Inr tx \<Rightarrow> go_bind (store_stats rid (sr_Stats rt) tx) (\<lambda>r.
                 case r of Inl tx \<Rightarrow> Inr (Some ErrFailedToStoreBatch, Rollback db tx) | Inr db' \<Rightarrow> Inr (None, db')))))"

section \<open>Batches\<close>

definition in_window :: "int \<Rightarrow> revtr_user \<Rightarrow> batch_row \<Rightarrow> bool" where
  "in_window now u b \<longleftrightarrow> ba_User b = ru_Id u \<and> now - 60 * int (unat (ru_Delay u)) \<le> ba_Created b"

text \<open>The joined rows before they are grouped, each with the maximum of its user.\<close>

definition counted_rows :: "(string \<Rightarrow> string \<Rightarrow> bool) \<Rightarrow> int \<Rightarrow> string \<Rightarrow> revtr_db \<Rightarrow> uint32 list" where
  "counted_rows same now key db =
     [ru_Max u. u \<leftarrow> users_by_key same key db, b \<leftarrow> filter (in_window now u) (rd_batches db),
        br \<leftarrow> filter (\<lambda>br. fst br = ba_Id b) (rd_batch_revtr db), rt \<leftarrow> filter (\<lambda>rt. rw_Id rt = snd br) (rd_revtrs db)]"

text \<open>The groups come in the order of the maximum; without a group there is no row, which lets the user go on.\<close>

definition can_add :: "(string \<Rightarrow> string \<Rightarrow> bool) \<Rightarrow> int \<Rightarrow> nat \<Rightarrow> string \<Rightarrow> revtr_db \<Rightarrow> bool" where
  "can_add same now n key db =
     (case sort (counted_rows same now key db) of
        [] \<Rightarrow> True
      | m # ms \<Rightarrow> count_list (m # ms) m + n < unat m)"

fun add_revtrs :: "uint32 \<Rightarrow> revtr_measurement list \<Rightarrow> revtr_db \<Rightarrow> (revtr_db + revtr_measurement list \<times> revtr_db) go" where
  "add_revtrs bid [] db = Inr (Inr ([], db))"
| "add_revtrs bid (rm # rms) db =
     go_bind (ip_int (rm_Src rm)) (\<lambda>src.
     go_bind (ip_int (rm_Dst rm)) (\<lambda>dst.
       case insert_revtr src dst [] ''RUNNING'' [] db of
         None \<Rightarrow> Inr (Inl db)
       | Some (rid, db) \<Rightarrow>
           (case insert_batch_revtr bid rid db of
              None \<Rightarrow> Inr (Inl db)
            | Some db \<Rightarrow>
                go_bind (add_revtrs bid rms db) (\<lambda>r.
                  case r of
                    Inl tx \<Rightarrow> Inr (Inl tx)
                  | Inr (added, db) \<Rightarrow> Inr (Inr (rm\<lparr>rm_Id := rid\<rparr> # added, db))))))"

definition CreateRevtrBatch :: "(string \<Rightarrow> string \<Rightarrow> bool) \<Rightarrow> int \<Rightarrow> revtr_measurement list \<Rightarrow> string \<Rightarrow> revtr_db
    \<Rightarrow> ((repo_error + revtr_measurement list \<times> uint32) \<times> revtr_db) go" where
  "CreateRevtrBatch same now batch key db =
     (if \<not> can_add same now (length batch) key db then Inr (Inl ErrCannotAddRevtrBatch, db)
      else case insert_batch same now key db of
        None \<Rightarrow> Inr (Inl ErrCannotAddRevtrBatch, db)
      | Some (bid, tx) \<Rightarrow>
          go_bind (add_revtrs bid batch tx) (\<lambda>r.
            case r of
              Inl tx \<Rightarrow> Inr (Inl ErrCannotAddRevtrBatch, Rollback db tx)
            | Inr (added, db') \<Rightarrow> Inr (Inr (added, bid), db')))"

section \<open>Reading\<close>

definition batch_rows :: "uint32 \<Rightarrow> uint32 \<Rightarrow> revtr_db \<Rightarrow> revtr_row list" where
  "batch_rows uid bid db =
     [rt. u \<leftarrow> filter (\<lambda>u. ru_Id u = uid) (rd_users db),
        b \<leftarrow> filter (\<lambda>b. ba_User b = ru_Id u \<and> ba_Id b = bid) (rd_batches db),
        br \<leftarrow> filter (\<lambda>br. fst br = ba_Id b) (rd_batch_revtr db), rt \<leftarrow> filter (\<lambda>rt. rw_Id rt = snd br) (rd_revtrs db)]"

definition read_hops :: "uint32 \<Rightarrow> revtr_db \<Rightarrow> revtr_hop list" where
  "read_hops rid db = map (\<lambda>h. \<lparr>rh_Hop = ip_str (hw_Hop h), rh_Type = sint (hw_Type h)\<rparr>)
     (sort_key hw_Order (filter (\<lambda>h. hw_Revtr h = rid) (rd_hops db)))"

definition read_revtr :: "revtr_db \<Rightarrow> revtr_row \<Rightarrow> storable" where
  "read_revtr db r =
     (let status = RevtrStatus_value (rw_Status r) in
      \<lparr>sr_Id = 0, sr_Src = ip_str (rw_Src r), sr_Dst = ip_str (rw_Dst r), sr_FailReason = rw_FailReason r,
       sr_StopReason = rw_StopReason r, sr_Stats = map_of (rd_stats db) (rw_Id r), sr_Status = status,
       sr_Path = (if status = COMPLETED then read_hops (rw_Id r) db else [])\<rparr>)"

definition GetRevtrsInBatch :: "uint32 \<Rightarrow> uint32 \<Rightarrow> revtr_db \<Rightarrow> storable list" where
  "GetRevtrsInBatch uid bid db = map (read_revtr db) (batch_rows uid bid db)"

definition GetUserByKey :: "(string \<Rightarrow> string \<Rightarrow> bool) \<Rightarrow> string \<Rightarrow> revtr_db \<Rightarrow> repo_error + revtr_user" where
  "GetUserByKey same key db =
     (case users_by_key same key db of [] \<Rightarrow> Inl ErrNoRevtrUserFound | u # _ \<Rightarrow> Inr u)"

text \<open>\<open>ORDER BY cnt DESC LIMIT 500\<close>\<close>

definition GetAdjacenciesByIP1 :: "uint32 \<Rightarrow> revtr_db \<Rightarrow> adjacency list" where
  "GetAdjacenciesByIP1 ip db =
     take 500 (sort_key (\<lambda>a. - uint (adj_Cnt a)) (filter (\<lambda>a. adj_IP1 a = ip) (rd_adjacencies db)))"

definition GetAdjacenciesByIP2 :: "uint32 \<Rightarrow> revtr_db \<Rightarrow> adjacency list" where
  "GetAdjacenciesByIP2 ip db =
     take 500 (sort_key (\<lambda>a. - uint (adj_Cnt a)) (filter (\<lambda>a. adj_IP2 a = ip) (rd_adjacencies db)))"

definition GetAdjacencyToDestByAddrAndDest24 :: "uint32 \<Rightarrow> uint32 \<Rightarrow> revtr_db \<Rightarrow> adjacency_to_dest list" where
  "GetAdjacencyToDestByAddrAndDest24 dest24 addr db =
     take 500 (sort_key (\<lambda>a. - uint (atd_Cnt a))
       (filter (\<lambda>a. atd_Address a = addr \<and> atd_Dest24 a = dest24) (rd_adjacencies_to_dest db)))"

text \<open>The column of clusters may be null, which does not fit the variable it is scanned into.\<close>

definition GetClusterIDByIP :: "uint32 \<Rightarrow> revtr_db \<Rightarrow> repo_error + int" where
  "GetClusterIDByIP ip db =
     (case filter (\<lambda>a. fst a = ip) (rd_ip_aliases db) of
        [] \<Rightarrow> Inl ErrNoAlias
      | (_, None) # _ \<Rightarrow> Inl DbError
      | (_, Some c) # _ \<Rightarrow> Inr c)"

text \<open>
  The query is the one for the cluster of an address: the id is taken for an address and the cluster
  of it for an address of the cluster. Negative clusters do not fit.
\<close>

fun scan_addresses :: "int option list \<Rightarrow> repo_error + uint32 list" where
  "scan_addresses [] = Inr []"
| "scan_addresses (c # cs) =
     (case c of
        None \<Rightarrow> Inl DbError
      | Some i \<Rightarrow> if i < 0 \<or> 2 ^ 32 \<le> i then Inl DbError else go_bind (scan_addresses cs) (\<lambda>ret. Inr (word_of_int i # ret)))"

definition GetIPsForClusterID :: "int \<Rightarrow> revtr_db \<Rightarrow> repo_error + uint32 list" where
  "GetIPsForClusterID cid db =
     scan_addresses (take 1 (map snd (filter (\<lambda>a. uint (fst a) = cid) (rd_ip_aliases db))))"

text \<open>What the runs of reverse traceroutes use of the repository.\<close>

definition repo_adjacencies :: "revtr_db \<Rightarrow> adjacency_source" where
  "repo_adjacencies db =
     \<lparr>as_ByIP1 = \<lambda>ip. Some (GetAdjacenciesByIP1 ip db), as_ByIP2 = \<lambda>ip. Some (GetAdjacenciesByIP2 ip db),
      as_ToDest = \<lambda>dest24 ip. Some (GetAdjacencyToDestByAddrAndDest24 dest24 ip db)\<rparr>"

definition repo_clusters :: "revtr_db \<Rightarrow> cluster_source" where
  "repo_clusters db ip = (case GetClusterIDByIP ip db of Inl _ \<Rightarrow> None | Inr c \<Rightarrow> Some c)"

section \<open>What statements leave\<close>

text \<open>The number the repository keeps for a text; texts that are no addresses become zero.\<close>

definition address :: "string \<Rightarrow> uint32" where
  "address s = (case ip_int s of Inl _ \<Rightarrow> 0 | Inr i \<Rightarrow> i)"

lemma address_ip_str [simp]: "address (ip_str i) = i"
  by (simp add: address_def)

lemma ip_int_address: "ip_int s = Inr i \<Longrightarrow> address s = i"
  by (simp add: address_def)

text \<open>The two ways a transaction's statement goes on.\<close>

lemma tx_pair_iff:
  "go_bind m (\<lambda>r. case r of Inl tx \<Rightarrow> Inr (f tx) | Inr (a, db) \<Rightarrow> Inr (g a db)) = Inr y \<longleftrightarrow>
     (\<exists>tx. m = Inr (Inl tx) \<and> f tx = y) \<or> (\<exists>a db. m = Inr (Inr (a, db)) \<and> g a db = y)"
proof (cases m)
  case (Inr r)
  then show ?thesis by (cases r) auto
qed simp

lemma tx_iff:
  "go_bind m (\<lambda>r. case r of Inl tx \<Rightarrow> Inr (f tx) | Inr db \<Rightarrow> g db) = Inr y \<longleftrightarrow>
     (\<exists>tx. m = Inr (Inl tx) \<and> f tx = y) \<or> (\<exists>db. m = Inr (Inr db) \<and> g db = Inr y)"
proof (cases m)
  case (Inr r)
  then show ?thesis by (cases r) auto
qed simp

definition new_row :: "revtr_measurement \<Rightarrow> revtr_row" where
  "new_row m = \<lparr>rw_Id = rm_Id m, rw_Src = address (rm_Src m), rw_Dst = address (rm_Dst m),
     rw_StopReason = [], rw_Status = ''RUNNING'', rw_FailReason = []\<rparr>"

lemma rw_Id_new_row [simp]: "rw_Id (new_row m) = rm_Id m"
  by (simp add: new_row_def)

definition with_revtrs :: "uint32 \<Rightarrow> revtr_measurement list \<Rightarrow> revtr_db \<Rightarrow> revtr_db" where
  "with_revtrs bid added db = db\<lparr>rd_next_revtr := rd_next_revtr db + length added,
     rd_revtrs := rd_revtrs db @ map new_row added, rd_batch_revtr := rd_batch_revtr db @ map (\<lambda>m. (bid, rm_Id m)) added\<rparr>"

lemma with_revtrs_Nil [simp]: "with_revtrs bid [] db = db"
  by (simp add: with_revtrs_def)

lemma with_revtrs_Cons:
  "with_revtrs bid added (with_revtrs bid [m] db) = with_revtrs bid (m # added) db"
  by (simp add: with_revtrs_def)

lemma add_revtrs_added:
  assumes "add_revtrs bid rms db = Inr (Inr (added, db'))"
  shows "db' = with_revtrs bid added db \<and> map rm_Id added = map of_nat [rd_next_revtr db..<rd_next_revtr db + length rms] \<and>
    (rms \<noteq> [] \<longrightarrow> rd_next_revtr db + length rms \<le> 2 ^ 32 \<and> bid \<in> ba_Id ` set (rd_batches db)) \<and>
    list_all2 (\<lambda>m a. a = m\<lparr>rm_Id := rm_Id a\<rparr>) rms added"
  using assms
proof (induction rms arbitrary: db added)
  case Nil
  then show ?case by simp
next
  case (Cons m rms)
  let ?n = "rd_next_revtr db" and ?a = "m\<lparr>rm_Id := of_nat (rd_next_revtr db)\<rparr>"
  from Cons.prems obtain src dst where ips: "ip_int (rm_Src m) = Inr src" "ip_int (rm_Dst m) = Inr dst"
    by (auto simp: go_bind_Inr_iff)
  then have a: "address (rm_Src m) = src" "address (rm_Dst m) = dst" by (simp_all add: ip_int_address)
  have lt: "?n < 2 ^ 32" using Cons.prems ips by (auto simp: insert_revtr_def split: if_splits)
  have bid: "bid \<in> ba_Id ` set (rd_batches db)"
    using Cons.prems ips lt by (auto simp: insert_revtr_def insert_batch_revtr_def Let_def split: if_splits)
  have step: "add_revtrs bid (m # rms) db = go_bind (add_revtrs bid rms (with_revtrs bid [?a] db)) (\<lambda>r.
      case r of Inl tx \<Rightarrow> Inr (Inl tx) | Inr (added, db) \<Rightarrow> Inr (Inr (?a # added, db)))"
    using ips lt bid by (simp add: insert_revtr_def insert_batch_revtr_def Let_def with_revtrs_def new_row_def a revtr_ids_def)
  obtain as where as: "add_revtrs bid rms (with_revtrs bid [?a] db) = Inr (Inr (as, db'))" "added = ?a # as"
    using Cons.prems unfolding step tx_pair_iff by auto
  have n: "rd_next_revtr (with_revtrs bid [?a] db) = Suc ?n" "rd_batches (with_revtrs bid [?a] db) = rd_batches db"
    by (simp_all add: with_revtrs_def)
  from Cons.IH [OF as(1)] have IH: "db' = with_revtrs bid (?a # as) db"
      "map rm_Id as = map of_nat [Suc ?n..<Suc ?n + length rms]" "rms \<noteq> [] \<longrightarrow> Suc ?n + length rms \<le> 2 ^ 32"
      "list_all2 (\<lambda>m a. a = m\<lparr>rm_Id := rm_Id a\<rparr>) rms as"
    unfolding n by (auto simp only: with_revtrs_Cons)
  have "[?n..<?n + length (m # rms)] = ?n # [Suc ?n..<Suc ?n + length rms]"
    by (subst upt_conv_Cons) auto
  with IH as(2) lt bid show ?case by (cases "rms = []") auto
qed

lemma add_revtrs_aborted:
  assumes "add_revtrs bid rms db = Inr (Inl tx)" and "rd_next_revtr db \<le> 2 ^ 32"
  shows "rd_next_batch tx = rd_next_batch db \<and> rd_next_revtr db \<le> rd_next_revtr tx \<and> rd_next_revtr tx \<le> 2 ^ 32"
  using assms
proof (induction rms arbitrary: db)
  case Nil
  then show ?case by simp
next
  case (Cons m rms)
  from Cons.prems(1) obtain src dst where ips: "ip_int (rm_Src m) = Inr src" "ip_int (rm_Dst m) = Inr dst"
    by (auto simp: go_bind_Inr_iff)
  show ?case
  proof (cases "insert_revtr src dst [] ''RUNNING'' [] db")
    case None
    then show ?thesis using Cons.prems ips by simp
  next
    case (Some p)
    obtain rid db1 where p: "p = (rid, db1)" by (cases p)
    have db1: "rd_next_batch db1 = rd_next_batch db" "rd_next_revtr db1 = Suc (rd_next_revtr db)" "rd_next_revtr db1 \<le> 2 ^ 32"
      using Some by (auto simp: p insert_revtr_def Let_def split: if_splits)
    show ?thesis
    proof (cases "insert_batch_revtr bid rid db1")
      case None
      then show ?thesis using Cons.prems ips Some p db1 by simp
    next
      case (Some db2)
      then have db2: "rd_next_batch db2 = rd_next_batch db1" "rd_next_revtr db2 = rd_next_revtr db1"
        by (auto simp: insert_batch_revtr_def split: if_splits)
      have "add_revtrs bid rms db2 = Inr (Inl tx)"
        using Cons.prems(1) ips \<open>insert_revtr src dst [] ''RUNNING'' [] db = Some p\<close> p Some
        by (auto simp: tx_pair_iff)
      from Cons.IH [OF this] db1 db2 show ?thesis by simp
    qed
  qed
qed

text \<open>The batches a statement makes, one for each user with the key.\<close>

definition new_batches :: "(string \<Rightarrow> string \<Rightarrow> bool) \<Rightarrow> int \<Rightarrow> string \<Rightarrow> revtr_db \<Rightarrow> batch_row list" where
  "new_batches same now key db = (let us = users_by_key same key db; n = rd_next_batch db in
     map (\<lambda>(u, i). \<lparr>ba_Id = of_nat i, ba_User = ru_Id u, ba_Created = now\<rparr>) (zip us [n..<n + length us]))"

definition with_batches :: "(string \<Rightarrow> string \<Rightarrow> bool) \<Rightarrow> int \<Rightarrow> string \<Rightarrow> revtr_db \<Rightarrow> revtr_db" where
  "with_batches same now key db = db\<lparr>rd_next_batch := rd_next_batch db + length (users_by_key same key db),
     rd_batches := rd_batches db @ new_batches same now key db\<rparr>"

lemma insert_batch_iff:
  "insert_batch same now key db = Some (bid, tx) \<longleftrightarrow>
     rd_next_batch db + length (users_by_key same key db) \<le> 2 ^ 32 \<and>
     bid = (if users_by_key same key db = [] then 0 else of_nat (rd_next_batch db)) \<and> tx = with_batches same now key db"
  by (auto simp: insert_batch_def with_batches_def new_batches_def Let_def)

lemma CreateRevtrBatch_created:
  assumes "CreateRevtrBatch same now batch key db = Inr (Inr (added, bid), db')"
  shows "can_add same now (length batch) key db \<and> db' = with_revtrs bid added (with_batches same now key db) \<and>
    rd_next_batch db + length (users_by_key same key db) \<le> 2 ^ 32 \<and>
    bid = (if users_by_key same key db = [] then 0 else of_nat (rd_next_batch db)) \<and>
    map rm_Id added = map of_nat [rd_next_revtr db..<rd_next_revtr db + length batch] \<and>
    (batch \<noteq> [] \<longrightarrow> rd_next_revtr db + length batch \<le> 2 ^ 32 \<and> bid \<in> ba_Id ` set (rd_batches (with_batches same now key db))) \<and>
    list_all2 (\<lambda>m a. a = m\<lparr>rm_Id := rm_Id a\<rparr>) batch added"
proof -
  from assms obtain tx where tx: "can_add same now (length batch) key db" "insert_batch same now key db = Some (bid, tx)"
    "add_revtrs bid batch tx = Inr (Inr (added, db'))"
    unfolding CreateRevtrBatch_def by (auto simp: tx_pair_iff split: if_split_asm option.split_asm)
  have "rd_next_revtr (with_batches same now key db) = rd_next_revtr db" by (simp add: with_batches_def)
  with tx add_revtrs_added [OF tx(3)] show ?thesis by (simp add: insert_batch_iff)
qed

lemma CreateRevtrBatch_refused:
  assumes "CreateRevtrBatch same now batch key db = Inr (Inl e, db')" and "rd_next_revtr db \<le> 2 ^ 32" "rd_next_batch db \<le> 2 ^ 32"
  shows "e = ErrCannotAddRevtrBatch \<and> (\<exists>b r. db' = db\<lparr>rd_next_batch := b, rd_next_revtr := r\<rparr> \<and>
    rd_next_batch db \<le> b \<and> b \<le> 2 ^ 32 \<and> rd_next_revtr db \<le> r \<and> r \<le> 2 ^ 32)"
proof (cases "db' = db")
  case True
  moreover have "e = ErrCannotAddRevtrBatch"
    using assms(1) unfolding CreateRevtrBatch_def by (auto simp: tx_pair_iff split: if_split_asm option.split_asm)
  ultimately show ?thesis
    using assms(2,3) by (intro conjI exI [of _ "rd_next_batch db"] exI [of _ "rd_next_revtr db"]) simp_all
next
  case False
  then obtain bid tx where tx: "insert_batch same now key db = Some (bid, tx)"
    and r: "go_bind (add_revtrs bid batch tx) (\<lambda>r. case r of
        Inl tx \<Rightarrow> Inr (Inl ErrCannotAddRevtrBatch, Rollback db tx)
      | Inr (added, db') \<Rightarrow> Inr (Inr (added, bid), db')) = Inr (Inl e, db')"
    using assms(1) by (auto simp: CreateRevtrBatch_def split: if_splits option.splits)
  from r obtain tx' where tx': "add_revtrs bid batch tx = Inr (Inl tx')" "e = ErrCannotAddRevtrBatch" "db' = Rollback db tx'"
    unfolding tx_pair_iff by auto
  have n: "rd_next_revtr tx = rd_next_revtr db" "rd_next_batch tx = rd_next_batch db + length (users_by_key same key db)"
    "rd_next_batch tx \<le> 2 ^ 32"
    using tx by (auto simp: insert_batch_iff with_batches_def)
  from add_revtrs_aborted [OF tx'(1)] n assms(2) have "rd_next_batch tx' = rd_next_batch tx" "rd_next_revtr db \<le> rd_next_revtr tx'"
    "rd_next_revtr tx' \<le> 2 ^ 32" by simp_all
  with n show ?thesis unfolding tx'(2,3) Rollback_def by (intro conjI refl exI [of _ "rd_next_batch tx'"] exI [of _ "rd_next_revtr tx'"]) simp_all
qed

text \<open>The rows a path and a whole result become.\<close>

fun path_rows :: "uint32 \<Rightarrow> nat \<Rightarrow> revtr_hop list \<Rightarrow> hop_row list" where
  "path_rows rid i [] = []"
| "path_rows rid i (h # hs) =
     \<lparr>hw_Revtr = rid, hw_Hop = address (rh_Hop h), hw_Type = word_of_int (rh_Type h), hw_Order = i\<rparr> # path_rows rid (i + 1) hs"

definition with_result :: "uint32 \<Rightarrow> revtr_hop list \<Rightarrow> storable_stats \<Rightarrow> revtr_db \<Rightarrow> revtr_db" where
  "with_result rid path st db = db\<lparr>rd_hops := rd_hops db @ path_rows rid 0 path, rd_stats := rd_stats db @ [(rid, st)]\<rparr>"

lemma path_rows_revtr: "h \<in> set (path_rows rid i hs) \<Longrightarrow> hw_Revtr h = rid"
  by (induction hs arbitrary: i) auto

lemma store_path_stored:
  "store_path rid i hs db = Inr (Inr db') \<Longrightarrow> db' = db\<lparr>rd_hops := rd_hops db @ path_rows rid i hs\<rparr>"
proof (induction hs arbitrary: i db)
  case (Cons h hs)
  from Cons.prems obtain hop db1 where h: "ip_int (rh_Hop h) = Inr hop"
    "insert_hop rid hop (word_of_int (rh_Type h)) i db = Some db1" "store_path rid (i + 1) hs db1 = Inr (Inr db')"
    by (auto simp: go_bind_Inr_iff split: option.split_asm)
  with Cons.IH [OF h(3)] show ?case by (auto simp: insert_hop_def ip_int_address split: if_split_asm)
qed simp

lemma store_path_aborted:
  "store_path rid i hs db = Inr (Inl tx) \<Longrightarrow> rd_next_batch tx = rd_next_batch db \<and> rd_next_revtr tx = rd_next_revtr db"
proof (induction hs arbitrary: i db)
  case (Cons h hs)
  from Cons.prems obtain hop where h: "ip_int (rh_Hop h) = Inr hop" by (auto simp: go_bind_Inr_iff)
  show ?case
  proof (cases "insert_hop rid hop (word_of_int (rh_Type h)) i db")
    case None
    then show ?thesis using Cons.prems h by simp
  next
    case (Some db1)
    then have "store_path rid (i + 1) hs db1 = Inr (Inl tx)" using Cons.prems h by simp
    from Cons.IH [OF this] Some show ?thesis by (auto simp: insert_hop_def split: if_split_asm)
  qed
qed simp

lemma store_stats_iff:
  "store_stats rid stats db = Inr (Inr db') \<longleftrightarrow>
     (\<exists>st. stats = Some st \<and> rid \<in> set (revtr_ids db) \<and> rid \<notin> fst ` set (rd_stats db) \<and> db' = db\<lparr>rd_stats := rd_stats db @ [(rid, st)]\<rparr>)"
  "store_stats rid stats db = Inr (Inl tx) \<longleftrightarrow>
     stats \<noteq> None \<and> (rid \<notin> set (revtr_ids db) \<or> rid \<in> fst ` set (rd_stats db)) \<and> tx = db"
  subgoal by (cases stats) (auto simp: store_stats_def insert_stats_def)
  subgoal by (cases stats) (auto simp: store_stats_def insert_stats_def)
  done

lemma store_result_stored:
  "store_result rid rt db = Inr (Inr db') \<Longrightarrow>
     \<exists>st. sr_Stats rt = Some st \<and> rid \<in> set (revtr_ids db) \<and> rid \<notin> fst ` set (rd_stats db) \<and> db' = with_result rid (sr_Path rt) st db"
  unfolding store_result_def tx_iff
  by (auto simp: store_stats_iff with_result_def revtr_ids_def dest!: store_path_stored)

lemma store_result_aborted:
  "store_result rid rt db = Inr (Inl tx) \<Longrightarrow> rd_next_batch tx = rd_next_batch db \<and> rd_next_revtr tx = rd_next_revtr db"
  unfolding store_result_def tx_iff
  by (auto simp: store_stats_iff dest!: store_path_aborted store_path_stored)

text \<open>When a path is accepted.\<close>

definition storable_hop :: "revtr_db \<Rightarrow> revtr_hop \<Rightarrow> bool" where
  "storable_hop db h \<longleftrightarrow> (\<exists>a. rh_Hop h = ip_str a) \<and> - (2 ^ 31) \<le> rh_Type h \<and> rh_Type h < 2 ^ 31 \<and>
     word_of_int (rh_Type h) \<in> set (rd_hop_types db)"

lemma store_path_accepts:
  "\<forall>h\<in>set hs. storable_hop db h \<Longrightarrow> rid \<in> set (revtr_ids db) \<Longrightarrow>
     store_path rid i hs db = Inr (Inr (db\<lparr>rd_hops := rd_hops db @ path_rows rid i hs\<rparr>))"
proof (induction hs arbitrary: i db)
  case (Cons h hs)
  from Cons.prems obtain a where a: "rh_Hop h = ip_str a" by (auto simp: storable_hop_def)
  let ?db = "db\<lparr>rd_hops := rd_hops db @ [\<lparr>hw_Revtr = rid, hw_Hop = a, hw_Type = word_of_int (rh_Type h), hw_Order = i\<rparr>]\<rparr>"
  have "insert_hop rid a (word_of_int (rh_Type h)) i db = Some ?db"
    using Cons.prems by (simp add: insert_hop_def storable_hop_def)
  moreover have "store_path rid (i + 1) hs ?db = Inr (Inr (?db\<lparr>rd_hops := rd_hops ?db @ path_rows rid (i + 1) hs\<rparr>))"
    using Cons.prems by (intro Cons.IH) (simp_all add: storable_hop_def revtr_ids_def)
  ultimately show ?case by (simp add: a)
qed simp

lemma store_result_accepts:
  assumes "\<forall>h\<in>set (sr_Path rt). storable_hop db h" "rid \<in> set (revtr_ids db)" "rid \<notin> fst ` set (rd_stats db)" "sr_Stats rt = Some st"
  shows "store_result rid rt db = Inr (Inr (with_result rid (sr_Path rt) st db))"
  using store_path_accepts [OF assms(1,2)] assms(2-4)
  by (simp add: store_result_def store_stats_def insert_stats_def with_result_def revtr_ids_def)

lemma path_rows_order: "map hw_Order (path_rows rid i hs) = [i..<i + length hs]"
proof (induction hs arbitrary: i)
  case (Cons h hs)
  have "[i..<i + length (h # hs)] = i # [Suc i..<Suc i + length hs]" by (subst upt_conv_Cons) auto
  then show ?case using Cons.IH [of "Suc i"] by simp
qed simp

lemma path_rows_read:
  "\<forall>h\<in>set hs. storable_hop db h \<Longrightarrow>
     map (\<lambda>h. \<lparr>rh_Hop = ip_str (hw_Hop h), rh_Type = sint (hw_Type h)\<rparr>) (path_rows rid i hs) = hs"
proof (induction hs arbitrary: i)
  case (Cons h hs)
  then have "ip_str (address (rh_Hop h)) = rh_Hop h" "sint (word_of_int (rh_Type h) :: uint32) = rh_Type h"
    by (auto simp: storable_hop_def signed_of_int signed_take_bit_int_eq_self)
  with Cons show ?case by simp
qed simp

lemma read_hops_stored:
  assumes "\<forall>h\<in>set (rd_hops db). hw_Revtr h \<noteq> rid" and "\<forall>h\<in>set hs. storable_hop db h"
  shows "read_hops rid (with_result rid hs st db) = hs"
proof -
  have "filter (\<lambda>h. hw_Revtr h = rid) (rd_hops db @ path_rows rid 0 hs) = path_rows rid 0 hs"
    using assms(1) path_rows_revtr by (auto simp: filter_empty_conv filter_id_conv)
  moreover have "sort_key hw_Order (path_rows rid 0 hs) = path_rows rid 0 hs"
    by (rule sort_key_id_if_sorted) (simp add: path_rows_order)
  ultimately show ?thesis using path_rows_read [OF assms(2)] by (simp add: read_hops_def with_result_def)
qed

lemma read_hops_other:
  "rid' \<noteq> rid \<Longrightarrow> read_hops rid' (with_result rid hs st db) = read_hops rid' db"
proof -
  assume "rid' \<noteq> rid"
  then have "filter (\<lambda>h. hw_Revtr h = rid') (path_rows rid 0 hs) = []"
    using path_rows_revtr by (auto simp: filter_empty_conv)
  then show ?thesis by (simp add: read_hops_def with_result_def)
qed

lemma status_value_String [simp]: "RevtrStatus_value (status_String s) = s"
  by (cases s) (simp_all add: RevtrStatus_value_def)

section \<open>The tables stay consistent\<close>

definition revtr_db_ok :: "revtr_db \<Rightarrow> bool" where
  "revtr_db_ok db \<longleftrightarrow> distinct (map ru_Id (rd_users db)) \<and>
     distinct (revtr_ids db) \<and> (\<forall>i\<in>set (revtr_ids db). unat i \<in> {1..<rd_next_revtr db}) \<and>
     rd_next_revtr db \<in> {1..2 ^ 32} \<and>
     distinct (map ba_Id (rd_batches db)) \<and> (\<forall>i\<in>ba_Id ` set (rd_batches db). unat i \<in> {1..<rd_next_batch db}) \<and>
     rd_next_batch db \<in> {1..2 ^ 32} \<and>
     (\<forall>br\<in>set (rd_batch_revtr db). fst br \<in> ba_Id ` set (rd_batches db) \<and> snd br \<in> set (revtr_ids db)) \<and>
     distinct (map snd (rd_batch_revtr db)) \<and>
     distinct (map fst (rd_stats db)) \<and> fst ` set (rd_stats db) \<subseteq> set (revtr_ids db) \<and>
     hw_Revtr ` set (rd_hops db) \<subseteq> fst ` set (rd_stats db)"

lemma revtr_db_okD:
  assumes "revtr_db_ok db"
  shows "distinct (map ru_Id (rd_users db))" "distinct (revtr_ids db)" "i \<in> set (revtr_ids db) \<Longrightarrow> unat i < rd_next_revtr db"
    "rd_next_revtr db \<le> 2 ^ 32" "rd_next_batch db \<le> 2 ^ 32" "0 < rd_next_batch db"
    "b \<in> ba_Id ` set (rd_batches db) \<Longrightarrow> unat b < rd_next_batch db"
    "br \<in> set (rd_batch_revtr db) \<Longrightarrow> fst br \<in> ba_Id ` set (rd_batches db) \<and> snd br \<in> set (revtr_ids db)"
    "rid \<notin> fst ` set (rd_stats db) \<Longrightarrow> \<forall>h\<in>set (rd_hops db). hw_Revtr h \<noteq> rid"
    "rid \<in> fst ` set (rd_stats db) \<Longrightarrow> rid \<in> set (revtr_ids db)"
  using assms unfolding revtr_db_ok_def by auto

lemma fresh_ids:
  assumes "n + k \<le> 2 ^ 32"
  shows "distinct (map (of_nat :: nat \<Rightarrow> uint32) [n..<n + k])"
    "unat ` set (map (of_nat :: nat \<Rightarrow> uint32) [n..<n + k]) = {n..<n + k}"
proof -
  have u: "unat (of_nat i :: uint32) = i" if "i < n + k" for i
    using that assms by (simp add: unat_of_nat take_bit_nat_eq_self)
  have "inj_on (of_nat :: nat \<Rightarrow> uint32) {n..<n + k}"
    by (rule inj_onI) (metis atLeastLessThan_iff u)
  then show "distinct (map (of_nat :: nat \<Rightarrow> uint32) [n..<n + k])" by (simp add: distinct_map)
  show "unat ` set (map (of_nat :: nat \<Rightarrow> uint32) [n..<n + k]) = {n..<n + k}"
    using u by (force simp: image_image)
qed

lemma new_batches_ids:
  "map ba_Id (new_batches same now key db) = map of_nat [rd_next_batch db..<rd_next_batch db + length (users_by_key same key db)]"
  by (rule nth_equalityI) (simp_all add: new_batches_def Let_def)

lemma ids_extend:
  fixes old new :: "uint32 list"
  assumes "distinct old" "\<forall>i\<in>set old. unat i \<in> {1..<n}" "distinct new" "unat ` set new = {n..<n + k}" "1 \<le> n"
  shows "distinct (old @ new)" "\<forall>i\<in>set (old @ new). unat i \<in> {1..<n + k}"
proof -
  have new: "unat i \<in> {n..<n + k}" if "i \<in> set new" for i using assms(4) that by blast
  have "i \<notin> set new" if "i \<in> set old" for i using assms(2) that new [of i] by auto
  then show "distinct (old @ new)" using assms(1,3) by auto
  show "\<forall>i\<in>set (old @ new). unat i \<in> {1..<n + k}"
  proof
    fix i assume "i \<in> set (old @ new)"
    then consider "i \<in> set old" | "i \<in> set new" by auto
    then show "unat i \<in> {1..<n + k}" using assms(2,5) new [of i] by cases fastforce+
  qed
qed

lemma with_batches_ok:
  assumes "revtr_db_ok db" and "rd_next_batch db + length (users_by_key same key db) \<le> 2 ^ 32"
  shows "revtr_db_ok (with_batches same now key db)"
proof -
  have old: "distinct (map ba_Id (rd_batches db))" "\<forall>i\<in>set (map ba_Id (rd_batches db)). unat i \<in> {1..<rd_next_batch db}"
    "1 \<le> rd_next_batch db"
    using assms(1) by (simp_all add: revtr_db_ok_def)
  have "distinct (map ba_Id (rd_batches db) @ map ba_Id (new_batches same now key db))"
    "\<forall>i\<in>set (map ba_Id (rd_batches db) @ map ba_Id (new_batches same now key db)).
       unat i \<in> {1..<rd_next_batch db + length (users_by_key same key db)}"
    unfolding new_batches_ids using ids_extend [OF old(1,2) fresh_ids [OF assms(2)] old(3)] by simp_all
  with assms show ?thesis by (auto simp: revtr_db_ok_def with_batches_def revtr_ids_def)
qed

lemma with_revtrs_ids: "revtr_ids (with_revtrs bid added db) = revtr_ids db @ map rm_Id added"
  by (simp add: with_revtrs_def revtr_ids_def)

lemma with_revtrs_ok:
  assumes ok: "revtr_db_ok db" and ids: "map rm_Id added = map of_nat [rd_next_revtr db..<rd_next_revtr db + n]"
    and n: "added \<noteq> [] \<longrightarrow> rd_next_revtr db + n \<le> 2 ^ 32 \<and> bid \<in> ba_Id ` set (rd_batches db)"
  shows "revtr_db_ok (with_revtrs bid added db)"
proof (cases "added = []")
  case False
  with n have n: "rd_next_revtr db + n \<le> 2 ^ 32" "bid \<in> ba_Id ` set (rd_batches db)" by auto
  have old: "distinct (revtr_ids db)" "\<forall>i\<in>set (revtr_ids db). unat i \<in> {1..<rd_next_revtr db}" "1 \<le> rd_next_revtr db"
    using ok by (simp_all add: revtr_db_ok_def)
  have len: "length added = n" using arg_cong [OF ids, of length] by simp
  have all: "distinct (revtr_ids db @ map rm_Id added)" "\<forall>i\<in>set (revtr_ids db @ map rm_Id added). unat i \<in> {1..<rd_next_revtr db + n}"
    unfolding ids using ids_extend [OF old(1,2) fresh_ids [OF n(1)] old(3)] by simp_all
  have "distinct (map snd (rd_batch_revtr db) @ map rm_Id added)"
    using all(1) ok unfolding revtr_db_ok_def by (auto simp: image_iff)
  then have "distinct (map snd (rd_batch_revtr (with_revtrs bid added db)))" by (simp add: with_revtrs_def comp_def)
  with ok all n len show ?thesis
    unfolding revtr_db_ok_def with_revtrs_ids by (auto simp: with_revtrs_def)
qed (use ok in simp)

lemma counters_ok:
  assumes "revtr_db_ok db" and "rd_next_batch db \<le> b" "b \<le> 2 ^ 32" "rd_next_revtr db \<le> r" "r \<le> 2 ^ 32"
  shows "revtr_db_ok (db\<lparr>rd_next_batch := b, rd_next_revtr := r\<rparr>)"
proof -
  have "\<forall>i\<in>set (revtr_ids db). unat i \<in> {1..<r}" "\<forall>i\<in>ba_Id ` set (rd_batches db). unat i \<in> {1..<b}" "r \<in> {1..2 ^ 32}" "b \<in> {1..2 ^ 32}"
    using assms unfolding revtr_db_ok_def by fastforce+
  then show ?thesis using assms(1) unfolding revtr_db_ok_def by (simp add: revtr_ids_def)
qed

lemma CreateRevtrBatch_ok:
  assumes "revtr_db_ok db" and "CreateRevtrBatch same now batch key db = Inr (r, db')"
  shows "revtr_db_ok db'"
proof (cases r)
  case (Inl e)
  from CreateRevtrBatch_refused [OF assms(2) [unfolded Inl]] revtr_db_okD(4,5) [OF assms(1)]
  show ?thesis using counters_ok [OF assms(1)] by auto
next
  case (Inr p)
  obtain added bid where p: "p = (added, bid)" by (cases p)
  from CreateRevtrBatch_created [OF assms(2) [unfolded Inr p]]
  have c: "db' = with_revtrs bid added (with_batches same now key db)" "rd_next_batch db + length (users_by_key same key db) \<le> 2 ^ 32"
    "map rm_Id added = map of_nat [rd_next_revtr db..<rd_next_revtr db + length batch]"
    "batch \<noteq> [] \<longrightarrow> rd_next_revtr db + length batch \<le> 2 ^ 32 \<and> bid \<in> ba_Id ` set (rd_batches (with_batches same now key db))"
    "list_all2 (\<lambda>m a. a = m\<lparr>rm_Id := rm_Id a\<rparr>) batch added" by blast+
  have n: "rd_next_revtr (with_batches same now key db) = rd_next_revtr db" by (simp add: with_batches_def)
  show ?thesis unfolding c(1)
  proof (rule with_revtrs_ok)
    show "revtr_db_ok (with_batches same now key db)" by (rule with_batches_ok [OF assms(1) c(2)])
  qed (use c n in auto)
qed

lemma update_revtr_ids [simp]: "revtr_ids (update_revtr rt db) = revtr_ids db"
  by (simp add: update_revtr_def revtr_ids_def comp_def if_distrib cong: if_cong)

lemma update_revtr_tables [simp]:
  "rd_users (update_revtr rt db) = rd_users db" "rd_batches (update_revtr rt db) = rd_batches db"
  "rd_batch_revtr (update_revtr rt db) = rd_batch_revtr db" "rd_hops (update_revtr rt db) = rd_hops db"
  "rd_stats (update_revtr rt db) = rd_stats db" "rd_hop_types (update_revtr rt db) = rd_hop_types db"
  "rd_next_batch (update_revtr rt db) = rd_next_batch db" "rd_next_revtr (update_revtr rt db) = rd_next_revtr db"
  by (simp_all add: update_revtr_def)

lemma with_result_tables [simp]:
  "rd_users (with_result rid hs st db) = rd_users db" "rd_batches (with_result rid hs st db) = rd_batches db"
  "rd_batch_revtr (with_result rid hs st db) = rd_batch_revtr db" "rd_revtrs (with_result rid hs st db) = rd_revtrs db"
  "rd_hop_types (with_result rid hs st db) = rd_hop_types db" "revtr_ids (with_result rid hs st db) = revtr_ids db"
  "rd_next_batch (with_result rid hs st db) = rd_next_batch db" "rd_next_revtr (with_result rid hs st db) = rd_next_revtr db"
  by (simp_all add: with_result_def revtr_ids_def)

lemma update_revtr_ok: "revtr_db_ok db \<Longrightarrow> revtr_db_ok (update_revtr rt db)"
  by (simp add: revtr_db_ok_def)

lemma with_result_ok:
  assumes "revtr_db_ok db" "rid \<in> set (revtr_ids db)" "rid \<notin> fst ` set (rd_stats db)"
  shows "revtr_db_ok (with_result rid hs st db)"
proof -
  have "hw_Revtr ` set (path_rows rid 0 hs) \<subseteq> {rid}" using path_rows_revtr by blast
  then show ?thesis using assms by (auto simp: revtr_db_ok_def with_result_def revtr_ids_def)
qed

lemma store_batch_ok:
  "revtr_db_ok db \<Longrightarrow> store_batch rts db = Inr (Inr db') \<Longrightarrow> revtr_db_ok db' \<and> rd_users db' = rd_users db \<and>
     rd_batches db' = rd_batches db \<and> rd_batch_revtr db' = rd_batch_revtr db"
proof (induction rts arbitrary: db)
  case (Cons rt rts)
  from Cons.prems(2) obtain db1 where r: "store_result (sr_Id rt) rt (update_revtr rt db) = Inr (Inr db1)" "store_batch rts db1 = Inr (Inr db')"
    by (auto simp: tx_iff)
  from store_result_stored [OF r(1)] obtain st where st: "sr_Id rt \<in> set (revtr_ids (update_revtr rt db))"
    "sr_Id rt \<notin> fst ` set (rd_stats (update_revtr rt db))" "db1 = with_result (sr_Id rt) (sr_Path rt) st (update_revtr rt db)" by auto
  have "revtr_db_ok db1"
    unfolding st(3) by (rule with_result_ok [OF update_revtr_ok [OF Cons.prems(1)] st(1,2)])
  from Cons.IH [OF this r(2)] show ?case by (simp add: st(3))
qed simp

lemma store_batch_aborted:
  "store_batch rts db = Inr (Inl tx) \<Longrightarrow> rd_next_batch tx = rd_next_batch db \<and> rd_next_revtr tx = rd_next_revtr db"
proof (induction rts arbitrary: db)
  case (Cons rt rts)
  from Cons.prems consider "store_result (sr_Id rt) rt (update_revtr rt db) = Inr (Inl tx)"
    | db1 where "store_result (sr_Id rt) rt (update_revtr rt db) = Inr (Inr db1)" "store_batch rts db1 = Inr (Inl tx)"
    by (auto simp: tx_iff)
  then show ?case
  proof cases
    case 1
    then show ?thesis by (auto dest: store_result_aborted)
  next
    case 2
    from Cons.IH [OF 2(2)] store_result_stored [OF 2(1)] show ?thesis by auto
  qed
qed simp

lemma Rollback_same: "rd_next_batch tx = rd_next_batch db \<Longrightarrow> rd_next_revtr tx = rd_next_revtr db \<Longrightarrow> Rollback db tx = db"
  by (simp add: Rollback_def)

lemma StoreBatchedRevtrs_keeps:
  assumes "revtr_db_ok db" and "StoreBatchedRevtrs rts db = Inr (e, db')"
  shows "revtr_db_ok db' \<and> rd_users db' = rd_users db \<and> rd_batches db' = rd_batches db \<and> rd_batch_revtr db' = rd_batch_revtr db \<and>
    (e \<noteq> None \<longrightarrow> e = Some ErrFailedToStoreBatch \<and> db' = db)"
proof -
  from assms(2) consider tx where "store_batch rts db = Inr (Inl tx)" "e = Some ErrFailedToStoreBatch" "db' = Rollback db tx"
    | "store_batch rts db = Inr (Inr db')" "e = None"
    by (auto simp: StoreBatchedRevtrs_def tx_iff)
  then show ?thesis
  proof cases
    case 1
    then show ?thesis using assms(1) store_batch_aborted [OF 1(1)] by (simp add: Rollback_same)
  next
    case 2
    then show ?thesis using store_batch_ok [OF assms(1) 2(1)] by simp
  qed
qed

lemma insert_revtr_ok:
  assumes "revtr_db_ok db" and "insert_revtr src dst stop status fail db = Some (rid, db')"
  shows "revtr_db_ok db' \<and> rd_users db' = rd_users db \<and> rd_batches db' = rd_batches db \<and> rd_batch_revtr db' = rd_batch_revtr db"
proof -
  let ?n = "rd_next_revtr db"
  from assms(2) have n: "?n + 1 \<le> 2 ^ 32" and rid: "rid = of_nat ?n"
    and tables: "rd_users db' = rd_users db" "rd_batches db' = rd_batches db" "rd_batch_revtr db' = rd_batch_revtr db"
      "rd_stats db' = rd_stats db" "rd_hops db' = rd_hops db" "rd_next_batch db' = rd_next_batch db" "rd_next_revtr db' = ?n + 1"
    by (auto simp: insert_revtr_def Let_def split: if_split_asm)
  have ids: "revtr_ids db' = revtr_ids db @ map of_nat [?n..<?n + 1]"
    using assms(2) by (auto simp: insert_revtr_def Let_def revtr_ids_def split: if_split_asm)
  have old: "distinct (revtr_ids db)" "\<forall>i\<in>set (revtr_ids db). unat i \<in> {1..<?n}" "1 \<le> ?n"
    using assms(1) by (simp_all add: revtr_db_ok_def)
  have new: "distinct (revtr_ids db')" "\<forall>i\<in>set (revtr_ids db'). unat i \<in> {1..<?n + 1}" "set (revtr_ids db) \<subseteq> set (revtr_ids db')"
    unfolding ids using ids_extend [OF old(1,2) fresh_ids [OF n] old(3)] by auto
  show ?thesis using assms(1) new n unfolding revtr_db_ok_def tables by auto
qed

lemma StoreRevtr_keeps:
  assumes "revtr_db_ok db" and "StoreRevtr rt db = Inr (e, db')"
  shows "revtr_db_ok db' \<and> rd_users db' = rd_users db \<and> rd_batches db' = rd_batches db \<and> rd_batch_revtr db' = rd_batch_revtr db"
proof -
  from assms(2) obtain src dst where ips: "ip_int (sr_Src rt) = Inr src" "ip_int (sr_Dst rt) = Inr dst"
    by (auto simp: StoreRevtr_def go_bind_Inr_iff)
  show ?thesis
  proof (cases "insert_revtr src dst (sr_StopReason rt) (status_String (sr_Status rt)) (sr_FailReason rt) db")
    case None
    then show ?thesis using assms ips by (simp add: StoreRevtr_def)
  next
    case (Some p)
    obtain rid tx where p: "p = (rid, tx)" by (cases p)
    note tx = insert_revtr_ok [OF assms(1) Some [unfolded p]]
    have up: "rd_next_batch tx = rd_next_batch db" "rd_next_revtr tx = Suc (rd_next_revtr db)" "rd_next_revtr tx \<le> 2 ^ 32"
      using Some by (auto simp: p insert_revtr_def Let_def split: if_split_asm)
    have rolled: "revtr_db_ok (Rollback db tx')" if "rd_next_batch tx' = rd_next_batch tx" "rd_next_revtr tx' = rd_next_revtr tx" for tx'
      unfolding Rollback_def that up(1) by (rule counters_ok [OF assms(1)]) (use up revtr_db_okD(5) [OF assms(1)] in simp_all)
    from assms(2) ips Some p have "go_bind (store_path rid 0 (sr_Path rt) tx) (\<lambda>r.
        case r of Inl tx \<Rightarrow> Inr (Some DbError, Rollback db tx)
        | Inr tx \<Rightarrow> go_bind (store_stats rid (sr_Stats rt) tx) (\<lambda>r.
            case r of Inl tx \<Rightarrow> Inr (Some ErrFailedToStoreBatch, Rollback db tx) | Inr db' \<Rightarrow> Inr (None, db'))) = Inr (e, db')"
      by (simp add: StoreRevtr_def)
    then consider tx' where "store_path rid 0 (sr_Path rt) tx = Inr (Inl tx')" "db' = Rollback db tx'"
      | tx1 tx' where "store_path rid 0 (sr_Path rt) tx = Inr (Inr tx1)" "store_stats rid (sr_Stats rt) tx1 = Inr (Inl tx')" "db' = Rollback db tx'"
      | tx1 where "store_path rid 0 (sr_Path rt) tx = Inr (Inr tx1)" "store_stats rid (sr_Stats rt) tx1 = Inr (Inr db')"
      by (auto simp: tx_iff)
    then show ?thesis
    proof cases
      case 1
      then show ?thesis using rolled store_path_aborted [OF 1(1)] by (simp add: Rollback_def)
    next
      case 2
      then have "tx' = tx1" "tx1 = tx\<lparr>rd_hops := rd_hops tx @ path_rows rid 0 (sr_Path rt)\<rparr>"
        using store_path_stored [OF 2(1)] by (simp_all add: store_stats_iff)
      then show ?thesis using rolled [of tx'] 2(3) by (simp add: Rollback_def)
    next
      case 3
      have "store_result rid rt tx = Inr (Inr db')" using 3 by (simp add: store_result_def)
      from store_result_stored [OF this] obtain st where st: "rid \<in> set (revtr_ids tx)" "rid \<notin> fst ` set (rd_stats tx)"
        "db' = with_result rid (sr_Path rt) st tx" by auto
      show ?thesis using with_result_ok [OF conjunct1 [OF tx] st(1,2)] tx by (simp add: st(3))
    qed
  qed
qed

section \<open>Histories of the repository\<close>

text \<open>Batches have at most \<open>L\<close> members; time goes on between operations.\<close>

inductive repo_history :: "(string \<Rightarrow> string \<Rightarrow> bool) \<Rightarrow> nat \<Rightarrow> int \<Rightarrow> revtr_db \<Rightarrow> bool" for same L where
  repo_start: "revtr_db_ok db \<Longrightarrow> rd_batches db = [] \<Longrightarrow> repo_history same L now db"
| repo_wait: "repo_history same L now db \<Longrightarrow> now \<le> now' \<Longrightarrow> repo_history same L now' db"
| repo_create: "repo_history same L now db \<Longrightarrow> length batch \<le> L \<Longrightarrow> CreateRevtrBatch same now batch key db = Inr (r, db') \<Longrightarrow>
    repo_history same L now db'"
| repo_store_batch: "repo_history same L now db \<Longrightarrow> StoreBatchedRevtrs rts db = Inr (e, db') \<Longrightarrow> repo_history same L now db'"
| repo_store: "repo_history same L now db \<Longrightarrow> StoreRevtr rt db = Inr (e, db') \<Longrightarrow> repo_history same L now db'"

lemma repo_history_ok: "repo_history same L now db \<Longrightarrow> revtr_db_ok db"
  by (induction rule: repo_history.induct) (auto dest: CreateRevtrBatch_ok StoreBatchedRevtrs_keeps StoreRevtr_keeps)

text \<open>The reverse traceroutes that count against a user's maximum.\<close>

definition recent_revtrs :: "int \<Rightarrow> revtr_user \<Rightarrow> revtr_db \<Rightarrow> (uint32 \<times> uint32) list" where
  "recent_revtrs now u db = concat (map (\<lambda>b. filter (\<lambda>br. fst br = ba_Id b) (rd_batch_revtr db)) (filter (in_window now u) (rd_batches db)))"

lemma recent_revtrs_cong:
  "rd_batches db' = rd_batches db \<Longrightarrow> rd_batch_revtr db' = rd_batch_revtr db \<Longrightarrow> recent_revtrs now u db' = recent_revtrs now u db"
  by (simp add: recent_revtrs_def)

lemma recent_revtrs_later: "now \<le> now' \<Longrightarrow> length (recent_revtrs now' u db) \<le> length (recent_revtrs now u db)"
proof -
  assume "now \<le> now'"
  then have "in_window now u b" if "in_window now' u b" for b using that by (simp add: in_window_def)
  then have "length (concat (map f (filter (in_window now' u) bs))) \<le> length (concat (map f (filter (in_window now u) bs)))"
    for f :: "batch_row \<Rightarrow> (uint32 \<times> uint32) list" and bs by (induction bs) auto
  then show ?thesis by (simp add: recent_revtrs_def)
qed

lemma filter_key: "distinct (map f xs) \<Longrightarrow> x \<in> set xs \<Longrightarrow> filter (\<lambda>y. f y = f x) xs = [x]"
proof (induction xs)
  case (Cons y ys)
  show ?case
  proof (cases "x = y")
    case True
    with Cons.prems(1) have "filter (\<lambda>y. f y = f x) ys = []" by (auto simp: filter_empty_conv image_iff)
    with True show ?thesis by simp
  next
    case False
    with Cons have "f y \<noteq> f x" by (auto simp: image_iff)
    with False Cons show ?thesis by simp
  qed
qed simp

lemma counted_rows_recent:
  assumes "revtr_db_ok db" and "users_by_key same key db = [u]"
  shows "counted_rows same now key db = replicate (length (recent_revtrs now u db)) (ru_Max u)"
proof -
  have row: "map (\<lambda>_. ru_Max u) (filter (\<lambda>rt. rw_Id rt = snd br) (rd_revtrs db)) = [ru_Max u]"
    if "br \<in> set (rd_batch_revtr db)" for br
  proof -
    from revtr_db_okD(8) [OF assms(1) that] obtain r where "r \<in> set (rd_revtrs db)" "rw_Id r = snd br"
      by (auto simp: revtr_ids_def)
    with filter_key [of rw_Id "rd_revtrs db" r] revtr_db_okD(2) [OF assms(1)] show ?thesis by (simp add: revtr_ids_def)
  qed
  have "concat (map (\<lambda>br. map (\<lambda>_. ru_Max u) (filter (\<lambda>rt. rw_Id rt = snd br) (rd_revtrs db))) brs) = replicate (length brs) (ru_Max u)"
    if "set brs \<subseteq> set (rd_batch_revtr db)" for brs using that by (induction brs) (auto simp: row)
  then have "concat (map (\<lambda>b. concat (map (\<lambda>br. map (\<lambda>_. ru_Max u) (filter (\<lambda>rt. rw_Id rt = snd br) (rd_revtrs db)))
        (filter (\<lambda>br. fst br = ba_Id b) (rd_batch_revtr db)))) bs) =
      replicate (length (concat (map (\<lambda>b. filter (\<lambda>br. fst br = ba_Id b) (rd_batch_revtr db)) bs))) (ru_Max u)" for bs
    by (induction bs) (simp_all add: replicate_add)
  with assms(2) show ?thesis by (simp add: counted_rows_def recent_revtrs_def)
qed

lemma can_add_iff:
  assumes "revtr_db_ok db" and "users_by_key same key db = [u]"
  shows "can_add same now n key db \<longleftrightarrow>
    recent_revtrs now u db = [] \<or> length (recent_revtrs now u db) + n < unat (ru_Max u)"
proof -
  have s: "sort (replicate c m) = replicate c m" for c and m :: uint32 by (induction c) (simp_all add: insort_is_Cons)
  have cnt: "count_list (replicate c m) m = c" for c and m :: uint32 by (induction c) simp_all
  have "can_add same now n key db \<longleftrightarrow> (case replicate (length (recent_revtrs now u db)) (ru_Max u) of
      [] \<Rightarrow> True | m # ms \<Rightarrow> count_list (m # ms) m + n < unat m)"
    by (simp only: can_add_def counted_rows_recent [OF assms] s)
  then show ?thesis
    by (cases "length (recent_revtrs now u db)") (auto simp: cnt)
qed

lemma new_batches_users: "b \<in> set (new_batches same now key db) \<Longrightarrow> \<exists>u\<in>set (users_by_key same key db). ba_User b = ru_Id u"
  by (auto simp: new_batches_def Let_def dest: set_zip_leftD)

lemma recent_created:
  assumes ok: "revtr_db_ok db" and c: "CreateRevtrBatch same now batch key db = Inr (Inr (added, bid), db')" and u: "u \<in> set (rd_users db)"
  shows "\<not> same (ru_Key u) key \<Longrightarrow> recent_revtrs now u db' = recent_revtrs now u db"
    and "users_by_key same key db = [u] \<Longrightarrow> length (recent_revtrs now u db') = length (recent_revtrs now u db) + length batch"
proof -
  let ?us = "users_by_key same key db" and ?new = "new_batches same now key db" and ?add = "map (\<lambda>m. (bid, rm_Id m)) added"
  note cr = CreateRevtrBatch_created [OF c]
  have cr_bid: "bid = (if ?us = [] then 0 else of_nat (rd_next_batch db))" "rd_next_batch db + length ?us \<le> 2 ^ 32"
    "batch \<noteq> [] \<longrightarrow> bid \<in> ba_Id ` set (rd_batches (with_batches same now key db))"
    using cr by blast+
  have db': "rd_batches db' = rd_batches db @ ?new" "rd_batch_revtr db' = rd_batch_revtr db @ ?add"
    using cr by (simp_all add: with_revtrs_def with_batches_def)
  have fresh: "unat (ba_Id b) < rd_next_batch db" if "b \<in> set (rd_batches db)" for b
    using revtr_db_okD(7) [OF ok, of "ba_Id b"] that by simp
  have bid: "bid \<noteq> ba_Id b" if "b \<in> set (rd_batches db)" "added \<noteq> []" for b
  proof -
    have "batch \<noteq> []" using cr that(2) by auto
    show ?thesis
    proof (cases "?us = []")
      case True
      then have "?new = []" by (simp add: new_batches_def)
      with cr_bid(1,3) True \<open>batch \<noteq> []\<close> have "0 \<in> ba_Id ` set (rd_batches db)" by (simp add: with_batches_def)
      then show ?thesis using ok unfolding revtr_db_ok_def by fastforce
    next
      case False
      with cr_bid(1,2) have b: "bid = of_nat (rd_next_batch db)" "rd_next_batch db < 2 ^ 32"
        by (simp_all add: neq_Nil_conv) auto
      then have "unat bid = rd_next_batch db" by (simp add: unat_of_nat take_bit_nat_eq_self)
      with fresh [OF that(1)] show ?thesis by auto
    qed
  qed
  have old: "map (\<lambda>b. filter (\<lambda>br. fst br = ba_Id b) (rd_batch_revtr db')) (filter P (rd_batches db)) =
      map (\<lambda>b. filter (\<lambda>br. fst br = ba_Id b) (rd_batch_revtr db)) (filter P (rd_batches db))" for P
  proof (rule map_cong [OF refl])
    fix b assume "b \<in> set (filter P (rd_batches db))"
    then have "filter (\<lambda>br. fst br = ba_Id b) ?add = []" using bid [of b] by (cases "added = []") (auto simp: filter_empty_conv)
    then show "filter (\<lambda>br. fst br = ba_Id b) (rd_batch_revtr db') = filter (\<lambda>br. fst br = ba_Id b) (rd_batch_revtr db)"
      by (simp add: db')
  qed
  show "recent_revtrs now u db' = recent_revtrs now u db" if "\<not> same (ru_Key u) key"
  proof -
    have "ba_User b \<noteq> ru_Id u" if "b \<in> set ?new" for b
    proof -
      from new_batches_users [OF that] obtain v where v: "v \<in> set (rd_users db)" "same (ru_Key v) key" "ba_User b = ru_Id v"
        by (auto simp: users_by_key_def)
      with \<open>\<not> same (ru_Key u) key\<close> have "v \<noteq> u" by blast
      with v u revtr_db_okD(1) [OF ok] show ?thesis by (auto simp: distinct_map inj_on_def)
    qed
    then have "filter (in_window now u) ?new = []" by (auto simp: filter_empty_conv in_window_def)
    then show ?thesis unfolding recent_revtrs_def db'(1) filter_append map_append concat_append old by simp
  qed
  show "length (recent_revtrs now u db') = length (recent_revtrs now u db) + length batch" if us: "?us = [u]"
  proof -
    have b: "bid = of_nat (rd_next_batch db)" "rd_next_batch db < 2 ^ 32" using cr_bid(1,2) us by simp_all
    then have "unat bid = rd_next_batch db" by (simp add: unat_of_nat take_bit_nat_eq_self)
    then have "fst br \<noteq> bid" if "br \<in> set (rd_batch_revtr db)" for br
      using revtr_db_okD(8) [OF ok that] revtr_db_okD(7) [OF ok, of "fst br"] by auto
    then have "filter (\<lambda>br. fst br = bid) (rd_batch_revtr db') = ?add"
      unfolding db' by (auto simp: filter_empty_conv filter_id_conv)
    moreover have "filter (in_window now u) ?new = [\<lparr>ba_Id = bid, ba_User = ru_Id u, ba_Created = now\<rparr>]"
      using us b by (simp add: new_batches_def in_window_def)
    moreover have "length added = length batch" using cr by (auto dest: list_all2_lengthD)
    ultimately show ?thesis unfolding recent_revtrs_def db'(1) filter_append map_append concat_append old by simp
  qed
qed

lemma sole_key:
  assumes "revtr_db_ok db" "equivp same" "u \<in> set (rd_users db)" "same (ru_Key u) key"
    and "\<forall>v\<in>set (rd_users db). same (ru_Key v) (ru_Key u) \<longrightarrow> v = u"
  shows "users_by_key same key db = [u]"
proof -
  have "filter (\<lambda>v. same (ru_Key v) key) (rd_users db) = filter (\<lambda>v. ru_Id v = ru_Id u) (rd_users db)"
  proof (rule filter_cong [OF refl])
    fix v assume v: "v \<in> set (rd_users db)"
    have "same (ru_Key v) key \<longleftrightarrow> v = u"
      using assms(2,4,5) v by (metis equivp_symp equivp_transp)
    also have "v = u \<longleftrightarrow> ru_Id v = ru_Id u"
      using revtr_db_okD(1) [OF assms(1)] v assms(3) by (auto simp: distinct_map inj_on_def)
    finally show "same (ru_Key v) key \<longleftrightarrow> ru_Id v = ru_Id u" .
  qed
  with filter_key [OF revtr_db_okD(1) [OF assms(1)] assms(3)] show ?thesis by (simp add: users_by_key_def)
qed

lemma CreateRevtrBatch_users: "CreateRevtrBatch same now batch key db = Inr (r, db') \<Longrightarrow> revtr_db_ok db \<Longrightarrow> rd_users db' = rd_users db"
proof (cases r)
  case (Inl e)
  assume "CreateRevtrBatch same now batch key db = Inr (r, db')" "revtr_db_ok db"
  with CreateRevtrBatch_refused [of same now batch key db e db'] Inl revtr_db_okD(4,5) show ?thesis by auto
next
  case (Inr p)
  assume "CreateRevtrBatch same now batch key db = Inr (r, db')"
  with CreateRevtrBatch_created [of same now batch key db "fst p" "snd p" db'] Inr show ?thesis
    by (auto simp: with_revtrs_def with_batches_def)
qed

lemma recent_bounded:
  assumes "repo_history same L now db" and "equivp same" and "u \<in> set (rd_users db)"
    and "\<forall>v\<in>set (rd_users db). same (ru_Key v) (ru_Key u) \<longrightarrow> v = u"
  shows "length (recent_revtrs now u db) \<le> max L (unat (ru_Max u) - 1)"
  using assms(1,3,4)
proof (induction rule: repo_history.induct)
  case (repo_start db now)
  then show ?case by (simp add: recent_revtrs_def)
next
  case (repo_wait now db now')
  then show ?case using recent_revtrs_later [of now now' u db] by fastforce
next
  case (repo_create now db batch key r db')
  note ok = repo_history_ok [OF repo_create.hyps(1)]
  have users: "rd_users db' = rd_users db" by (rule CreateRevtrBatch_users [OF repo_create.hyps(3) ok])
  note IH = repo_create.IH [OF repo_create.prems [unfolded users]]
  show ?case
  proof (cases r)
    case (Inl e)
    from CreateRevtrBatch_refused [OF repo_create.hyps(3) [unfolded Inl]] revtr_db_okD(4,5) [OF ok]
    have "recent_revtrs now u db' = recent_revtrs now u db" by (auto intro: recent_revtrs_cong)
    with IH show ?thesis by simp
  next
    case (Inr p)
    obtain added bid where p: "p = (added, bid)" by (cases p)
    note c = repo_create.hyps(3) [unfolded Inr p]
    show ?thesis
    proof (cases "same (ru_Key u) key")
      case False
      with recent_created(1) [OF ok c] repo_create.prems users IH show ?thesis by simp
    next
      case True
      have us: "users_by_key same key db = [u]"
        using sole_key [OF ok assms(2) _ True] repo_create.prems users by simp
      have "can_add same now (length batch) key db" using CreateRevtrBatch_created [OF c] by blast
      then have "recent_revtrs now u db = [] \<or> length (recent_revtrs now u db) + length batch < unat (ru_Max u)"
        by (simp add: can_add_iff [OF ok us])
      with recent_created(2) [OF ok c _ us] repo_create.prems(1) users repo_create.hyps(2) show ?thesis by auto
    qed
  qed
next
  case (repo_store_batch now db rts e db')
  note k = StoreBatchedRevtrs_keeps [OF repo_history_ok [OF repo_store_batch.hyps(1)] repo_store_batch.hyps(2)]
  with repo_store_batch.IH repo_store_batch.prems recent_revtrs_cong [of db' db now u] show ?case by simp
next
  case (repo_store now db rt e db')
  note k = StoreRevtr_keeps [OF repo_history_ok [OF repo_store.hyps(1)] repo_store.hyps(2)]
  with repo_store.IH repo_store.prems recent_revtrs_cong [of db' db now u] show ?case by simp
qed


definition ex_repo_user :: revtr_user where
  "ex_repo_user = \<lparr>ru_Id = 1, ru_Name = ''n'', ru_Email = ''e'', ru_Max = 1, ru_Delay = 60, ru_Key = ''k''\<rparr>"

definition ex_repo_db :: revtr_db where
  "ex_repo_db = \<lparr>rd_users = [ex_repo_user], rd_batches = [], rd_batch_revtr = [], rd_revtrs = [], rd_hops = [], rd_stats = [],
     rd_hop_types = [1, 2, 3, 4, 5, 6, 7, 8, 9], rd_next_batch = 1, rd_next_revtr = 1, rd_adjacencies = [],
     rd_adjacencies_to_dest = [], rd_ip_aliases = []\<rparr>"

definition ex_repo_measurement :: revtr_measurement where
  "ex_repo_measurement = \<lparr>rm_Src = ip_str 1, rm_Dst = ip_str 2, rm_Staleness = 0, rm_Id = 0, rm_BackoffEndhost = False\<rparr>"

lemma ex_repo_db_ok: "revtr_db_ok ex_repo_db"
  by (simp add: revtr_db_ok_def ex_repo_db_def revtr_ids_def)

lemma ex_created:
  "CreateRevtrBatch (=) 0 [ex_repo_measurement] ''k'' ex_repo_db =
     Inr (Inr ([ex_repo_measurement\<lparr>rm_Id := 1\<rparr>], 1), ex_repo_db\<lparr>rd_next_batch := 2, rd_next_revtr := 2,
       rd_batches := [\<lparr>ba_Id = 1, ba_User = 1, ba_Created = 0\<rparr>], rd_batch_revtr := [(1, 1)],
       rd_revtrs := [new_row (ex_repo_measurement\<lparr>rm_Id := 1\<rparr>)]\<rparr>)"
proof -
  let ?m = "ex_repo_measurement\<lparr>rm_Id := 1\<rparr>"
  have can: "can_add (=) 0 1 ''k'' ex_repo_db"
    by (simp add: can_add_def counted_rows_def ex_repo_db_def users_by_key_def)
  let ?db = "ex_repo_db\<lparr>rd_next_batch := 2, rd_batches := [\<lparr>ba_Id = 1, ba_User = 1, ba_Created = 0\<rparr>]\<rparr>"
  have "insert_batch (=) 0 ''k'' ex_repo_db = Some (1, ?db)"
    by (simp add: insert_batch_def users_by_key_def ex_repo_db_def ex_repo_user_def)
  moreover have "add_revtrs 1 [ex_repo_measurement] ?db = Inr (Inr ([?m], ?db\<lparr>rd_next_revtr := 2, rd_batch_revtr := [(1, 1)],
      rd_revtrs := [new_row ?m]\<rparr>))"
    by (simp add: ex_repo_measurement_def insert_revtr_def insert_batch_revtr_def revtr_ids_def new_row_def ex_repo_db_def)
  ultimately show ?thesis using can by (simp add: CreateRevtrBatch_def ex_repo_db_def)
qed


section \<open>What is stored is read\<close>

lemma batch_rows_created:
  assumes ok: "revtr_db_ok db" and c: "CreateRevtrBatch same now batch key db = Inr (Inr (added, bid), db')"
    and us: "users_by_key same key db = [u]"
  shows "batch_rows (ru_Id u) bid db' = map new_row added"
proof -
  let ?new = "\<lparr>ba_Id = bid, ba_User = ru_Id u, ba_Created = now\<rparr>" and ?add = "map (\<lambda>m. (bid, rm_Id m)) added"
  note cr = CreateRevtrBatch_created [OF c]
  have b: "bid = of_nat (rd_next_batch db)" "rd_next_batch db < 2 ^ 32" using cr us by simp_all
  have ids: "map rm_Id added = map of_nat [rd_next_revtr db..<rd_next_revtr db + length batch]" "batch \<noteq> [] \<longrightarrow> rd_next_revtr db + length batch \<le> 2 ^ 32"
    "length added = length batch"
    using cr by (blast, blast, auto dest: list_all2_lengthD)
  have db': "rd_users db' = rd_users db" "rd_batches db' = rd_batches db @ [?new]"
    "rd_batch_revtr db' = rd_batch_revtr db @ ?add" "rd_revtrs db' = rd_revtrs db @ map new_row added"
    using cr us b by (simp_all add: with_revtrs_def with_batches_def new_batches_def)
  have unat: "unat bid = rd_next_batch db" using b by (simp add: unat_of_nat take_bit_nat_eq_self)
  have "u \<in> set (users_by_key same key db)" by (simp add: us)
  then have "u \<in> set (rd_users db)" by (simp add: users_by_key_def)
  then have users: "filter (\<lambda>v. ru_Id v = ru_Id u) (rd_users db') = [u]"
    using filter_key [OF revtr_db_okD(1) [OF ok]] by (simp add: db')
  have "ba_Id b \<noteq> bid" if "b \<in> set (rd_batches db)" for b
    using that revtr_db_okD(7) [OF ok, of "ba_Id b"] unat by auto
  then have batches: "filter (\<lambda>b. ba_User b = ru_Id u \<and> ba_Id b = bid) (rd_batches db') = [?new]"
    by (auto simp: db' filter_empty_conv)
  have "fst br \<noteq> bid" if "br \<in> set (rd_batch_revtr db)" for br
    using revtr_db_okD(8) [OF ok that] revtr_db_okD(7) [OF ok, of "fst br"] unat by auto
  then have members: "filter (\<lambda>br. fst br = bid) (rd_batch_revtr db') = ?add"
    by (auto simp: db' filter_empty_conv filter_id_conv)
  have rows: "filter (\<lambda>r. rw_Id r = rm_Id m) (rd_revtrs db') = [new_row m]" if "m \<in> set added" for m
  proof -
    have "revtr_db_ok db'" by (rule CreateRevtrBatch_ok [OF ok c])
    then have "distinct (map rw_Id (rd_revtrs db'))" using revtr_db_okD(2) by (simp add: revtr_ids_def)
    moreover have "new_row m \<in> set (rd_revtrs db')" using that by (simp add: db')
    ultimately show ?thesis using filter_key [of rw_Id "rd_revtrs db'" "new_row m"] by simp
  qed
  have "concat (map (\<lambda>m. filter (\<lambda>r. rw_Id r = rm_Id m) (rd_revtrs db')) ms) = map new_row ms" if "set ms \<subseteq> set added" for ms
    using that by (induction ms) (simp_all add: rows)
  then show ?thesis
    by (simp add: batch_rows_def users batches members comp_def)
qed

definition updated :: "storable \<Rightarrow> revtr_row \<Rightarrow> revtr_row" where
  "updated rt r = (if rw_Id r = sr_Id rt
     then r\<lparr>rw_StopReason := sr_StopReason rt, rw_Status := status_String (sr_Status rt), rw_FailReason := sr_FailReason rt\<rparr> else r)"

lemma updated_simps [simp]:
  "rw_Id (updated rt r) = rw_Id r" "rw_Src (updated rt r) = rw_Src r" "rw_Dst (updated rt r) = rw_Dst r"
  by (simp_all add: updated_def)

lemma batch_rows_update: "batch_rows uid bid (update_revtr rt db) = map (updated rt) (batch_rows uid bid db)"
proof -
  have "rd_revtrs (update_revtr rt db) = map (updated rt) (rd_revtrs db)"
    by (simp add: update_revtr_def updated_def)
  then show ?thesis
    by (simp add: batch_rows_def map_concat filter_map comp_def)
qed

lemma batch_rows_with_result [simp]: "batch_rows uid bid (with_result rid hs st db) = batch_rows uid bid db"
  by (simp add: batch_rows_def)

text \<open>What a reader gets of a result, in the place of a row.\<close>

definition delivered :: "revtr_row \<Rightarrow> storable \<Rightarrow> storable" where
  "delivered r rt = \<lparr>sr_Id = 0, sr_Src = ip_str (rw_Src r), sr_Dst = ip_str (rw_Dst r), sr_FailReason = sr_FailReason rt,
     sr_StopReason = sr_StopReason rt, sr_Stats = sr_Stats rt, sr_Status = sr_Status rt,
     sr_Path = (if sr_Status rt = COMPLETED then sr_Path rt else [])\<rparr>"

lemma delivered_updated [simp]: "delivered (updated rt r) = delivered r"
  by (simp add: delivered_def fun_eq_iff)

definition storable_result :: "revtr_db \<Rightarrow> storable \<Rightarrow> bool" where
  "storable_result db rt \<longleftrightarrow> sr_Id rt \<in> set (revtr_ids db) \<and> sr_Id rt \<notin> fst ` set (rd_stats db) \<and> sr_Stats rt \<noteq> None \<and>
     (\<forall>h\<in>set (sr_Path rt). storable_hop db h)"

lemma store_one:
  assumes ok: "revtr_db_ok db" and st: "storable_result db rt"
  shows "\<exists>db'. StoreBatchedRevtrs [rt] db = Inr (None, db') \<and> revtr_db_ok db' \<and> rd_users db' = rd_users db \<and>
    batch_rows uid bid db' = map (updated rt) (batch_rows uid bid db) \<and>
    (\<forall>r. read_revtr db' (updated rt r) = (if rw_Id r = sr_Id rt then delivered r rt else read_revtr db r)) \<and>
    (\<forall>rt'. storable_result db rt' \<and> sr_Id rt' \<noteq> sr_Id rt \<longrightarrow> storable_result db' rt')"
proof -
  obtain s where s: "sr_Stats rt = Some s" using st by (auto simp: storable_result_def)
  let ?rid = "sr_Id rt" and ?u = "update_revtr rt db"
  let ?db = "with_result ?rid (sr_Path rt) s ?u"
  have hops: "\<forall>h\<in>set (sr_Path rt). storable_hop ?u h" using st by (simp add: storable_result_def storable_hop_def)
  have rid: "?rid \<in> set (revtr_ids ?u)" "?rid \<notin> fst ` set (rd_stats ?u)" using st by (simp_all add: storable_result_def)
  have stored: "StoreBatchedRevtrs [rt] db = Inr (None, ?db)"
    using store_result_accepts [OF hops rid s] by (simp add: StoreBatchedRevtrs_def)
  have "\<forall>h\<in>set (rd_hops ?u). hw_Revtr h \<noteq> ?rid"
    using revtr_db_okD(9) [OF update_revtr_ok [OF ok] rid(2)] .
  then have mine: "read_hops ?rid ?db = sr_Path rt" using hops by (rule read_hops_stored)
  have stats: "map_of (rd_stats ?db) i = (if i = ?rid then Some s else map_of (rd_stats db) i)" for i
  proof -
    have "map_of (rd_stats db) ?rid = None" using rid(2) by (simp add: map_of_eq_None_iff)
    then show ?thesis by (auto simp: with_result_def map_add_def split: option.split)
  qed
  have other: "read_hops i ?db = read_hops i db" if "i \<noteq> ?rid" for i
    using that by (simp add: read_hops_other) (simp add: read_hops_def)
  have compl: "RevtrStatus_value ''COMPLETED'' = COMPLETED" using status_value_String [of COMPLETED] by simp
  have "read_revtr ?db (updated rt r) = (if rw_Id r = ?rid then delivered r rt else read_revtr db r)" for r
    by (simp add: read_revtr_def Let_def stats mine other delivered_def s) (simp add: updated_def compl)
  moreover have "storable_result ?db rt'" if "storable_result db rt'" "sr_Id rt' \<noteq> ?rid" for rt'
  proof -
    have "set (revtr_ids ?db) = set (revtr_ids db)" "rd_hop_types ?db = rd_hop_types db"
      "fst ` set (rd_stats ?db) = insert ?rid (fst ` set (rd_stats db))" by (simp, simp, simp add: with_result_def)
    with that show ?thesis by (simp add: storable_result_def storable_hop_def)
  qed
  ultimately show ?thesis
    using stored with_result_ok [OF update_revtr_ok [OF ok] rid] by (intro exI [of _ ?db]) (simp add: batch_rows_update)
qed

lemma fresh_result:
  assumes ok: "revtr_db_ok db" and c: "CreateRevtrBatch same now batch key db = Inr (Inr (added, bid), db')" and m: "m \<in> set added"
  shows "rm_Id m \<in> set (revtr_ids db') \<and> rm_Id m \<notin> fst ` set (rd_stats db') \<and> rd_hop_types db' = rd_hop_types db"
proof -
  note cr = CreateRevtrBatch_created [OF c]
  have db': "set (revtr_ids db') = set (revtr_ids db) \<union> rm_Id ` set added" "rd_stats db' = rd_stats db" "rd_hop_types db' = rd_hop_types db"
    using cr by (auto simp: with_revtrs_def with_batches_def revtr_ids_def)
  have ids: "map rm_Id added = map of_nat [rd_next_revtr db..<rd_next_revtr db + length batch]" using cr by blast
  with m have "batch \<noteq> []" by auto
  with cr have room: "rd_next_revtr db + length batch \<le> 2 ^ 32" by blast
  have "rm_Id m \<in> set (map rm_Id added)" using m by simp
  then obtain k where k: "rm_Id m = of_nat k" "rd_next_revtr db \<le> k" "k < rd_next_revtr db + length batch"
    unfolding ids by auto
  then have "unat (rm_Id m) = k" using room by (simp add: unat_of_nat take_bit_nat_eq_self)
  with k(2) have "rm_Id m \<notin> set (revtr_ids db)" using revtr_db_okD(3) [OF ok, of "rm_Id m"] by auto
  then have "rm_Id m \<notin> fst ` set (rd_stats db)" using revtr_db_okD(10) [OF ok] by blast
  with db' m show ?thesis by simp
qed

end
