(* ===== verification/RevtrServer.thy ===== *)
theory RevtrServer
  imports RunnerFrame RevtrRepo
begin

text \<open>
  \<open>revtr/server/server.go\<close>: the server of reverse traceroutes. Batches are checked, entered in the repository
  and run; a reverse traceroute asked for over the web page is added first and started later, and reports
  its progress on a channel. What the code calls outside the repository is an argument: the resolver, the
  vantage point service, the ping of the controller, the texts of errors and of floating point numbers.
\<close>

section \<open>Addresses of a request\<close>

text \<open>A service that cannot be reached returns the text of its error.\<close>

datatype server_error =
    RepoError repo_error
  | VpsError string
  | SrcError string
  | DstError string
  | ErrNoRevtrsToRun
  | ErrConnectFailed
  | ErrFailedToCreateBatch
  | BatchIDError uint32
  | IDError uint32

fun validSrc :: "string \<Rightarrow> vantage_point list \<Rightarrow> string option" where
  "validSrc src [] = None"
| "validSrc src (vp # vps) =
     (let s = ip_str (vp_Ip vp) in if vp_Hostname vp = src \<or> s = src then Some s else validSrc src vps)"

text \<open>\<open>net.LookupHost\<close> fails (\<open>None\<close>) or lists addresses.\<close>

definition validDest :: "(string \<Rightarrow> string list option) \<Rightarrow> string \<Rightarrow> vantage_point list \<Rightarrow> string option" where
  "validDest lookup dst vps =
     (let ip = ParseIP dst in
      if ip = [] then
        (case find (\<lambda>vp. vp_Hostname vp = dst) vps of
           Some vp \<Rightarrow> Some (ip_str (vp_Ip vp))
         | None \<Rightarrow> (case lookup dst of None \<Rightarrow> None | Some [] \<Rightarrow> None | Some (a # _) \<Rightarrow> Some a))
      else if IsPrivate ip then None else Some dst)"

definition verifyAddrs :: "(string \<Rightarrow> string list option) \<Rightarrow> string \<Rightarrow> string \<Rightarrow> vantage_point list \<Rightarrow> server_error + string \<times> string" where
  "verifyAddrs lookup src dst vps =
     (case validSrc src vps of
        None \<Rightarrow> Inl (SrcError src)
      | Some nsrc \<Rightarrow>
          (case validDest lookup dst vps of
             None \<Rightarrow> Inl (DstError dst)
           | Some ndst \<Rightarrow>
               if ParseIP nsrc = [] then Inl (SrcError nsrc)
               else if ParseIP ndst = [] then Inl (DstError ndst) else Inr (nsrc, ndst)))"

section \<open>Batches\<close>

fun verify_all :: "(string \<Rightarrow> string list option) \<Rightarrow> vantage_point list \<Rightarrow> revtr_measurement list \<Rightarrow> server_error + revtr_measurement list" where
  "verify_all lookup vps [] = Inr []"
| "verify_all lookup vps (r # rs) =
     go_bind (verifyAddrs lookup (rm_Src r) (rm_Dst r) vps) (\<lambda>(src, dst).
     go_bind (verify_all lookup vps rs) (\<lambda>reqToRun. Inr (r\<lparr>rm_Src := src, rm_Dst := dst\<rparr> # reqToRun)))"

text \<open>The answer is the batch id; with it come the measurements handed to the goroutine that runs them.\<close>

definition RunRevtr :: "(string \<Rightarrow> string \<Rightarrow> bool) \<Rightarrow> int \<Rightarrow> (string \<Rightarrow> string list option) \<Rightarrow> string + vantage_point list \<Rightarrow> bool
    \<Rightarrow> string \<Rightarrow> revtr_measurement list \<Rightarrow> revtr_db \<Rightarrow> ((server_error + uint32 \<times> revtr_measurement list) \<times> revtr_db) go" where
  "RunRevtr same now lookup GetVPs connected auth revtrs db =
     (case GetUserByKey same auth db of
        Inl err \<Rightarrow> Inr (Inl (RepoError err), db)
      | Inr user \<Rightarrow>
     (case GetVPs of
        Inl err \<Rightarrow> Inr (Inl (VpsError err), db)
      | Inr vps \<Rightarrow>
     (case verify_all lookup vps revtrs of
        Inl err \<Rightarrow> Inr (Inl err, db)
      | Inr reqToRun \<Rightarrow>
          if reqToRun = [] then Inr (Inl ErrNoRevtrsToRun, db)
          else if \<not> connected then Inr (Inl ErrConnectFailed, db)
          else go_bind (CreateRevtrBatch same now reqToRun (ru_Key user) db) (\<lambda>(r, db).
            case r of
              Inl _ \<Rightarrow> Inr (Inl ErrFailedToCreateBatch, db)
            | Inr (reqToRun, batchID) \<Rightarrow> Inr (Inr (batchID, reqToRun), db)))))"

text \<open>What the goroutine runs; \<open>rnd\<close> gives the random number of each.\<close>

definition batch_revtrs :: "(revtr_measurement \<Rightarrow> uint32) \<Rightarrow> revtr_measurement list \<Rightarrow> revtr list" where
  "batch_revtrs rnd reqToRun = map (\<lambda>r. CreateReverseTraceroute (rnd r) r False False False) reqToRun"

text \<open>
  Every reverse traceroute that is done is stored as it comes; a failure is logged. The repository is given to the
  server, of which this is the only use in the goroutine.
\<close>

fun store_done :: "(storable list \<Rightarrow> 'db \<Rightarrow> (repo_error option \<times> 'db) go) \<Rightarrow> revtr list \<Rightarrow> 'db \<Rightarrow> 'db go" where
  "store_done storeBatched [] db = Inr db"
| "store_done storeBatched (drtr # done) db =
     go_bind (ToStorable drtr) (\<lambda>(st, _).
     go_bind (storeBatched [st] db) (\<lambda>(_, db). store_done storeBatched done db))"

definition GetRevtr :: "(string \<Rightarrow> string \<Rightarrow> bool) \<Rightarrow> string \<Rightarrow> uint32 \<Rightarrow> revtr_db \<Rightarrow> server_error + storable list" where
  "GetRevtr same auth batchId db =
     (case GetUserByKey same auth db of
        Inl err \<Rightarrow> Inl (RepoError err)
      | Inr usr \<Rightarrow> if batchId = 0 then Inl (BatchIDError batchId) else Inr (GetRevtrsInBatch (ru_Id usr) batchId db))"

record pb_source =
  so_Hostname :: string
  so_Ip :: string
  so_Site :: string

definition GetSources :: "(string \<Rightarrow> string \<Rightarrow> bool) \<Rightarrow> string + vantage_point list \<Rightarrow> string \<Rightarrow> revtr_db \<Rightarrow> server_error + pb_source list" where
  "GetSources same GetVPs auth db =
     (case GetUserByKey same auth db of
        Inl err \<Rightarrow> Inl (RepoError err)
      | Inr _ \<Rightarrow>
          (case GetVPs of
             Inl err \<Rightarrow> Inl (VpsError err)
           | Inr vps \<Rightarrow> Inr (map (\<lambda>vp. \<lparr>so_Hostname = vp_Hostname vp, so_Ip = ip_str (vp_Ip vp), so_Site = vp_Site vp\<rparr>) vps)))"

section \<open>The report of a reverse traceroute\<close>

record status =
  st_Rep :: string
  st_Status :: bool
  st_Error :: string

text \<open>
  The cache holds host names and round-trip times beside the clusters, whose keys start with \<open>CM_\<close> and are
  in the theory of the cluster map. A report reads the clock once.
\<close>

datatype 'f cache_item = HostName string | RTT 'f

datatype ping_stream = PingFails | NoAnswer | AnswerFails | PingAnswer "uint32 list"

record 'f print_env =
  pe_now :: int
  pe_GetVPs :: "string + vantage_point list"
  pe_LookupAddr :: "string \<Rightarrow> string list option"
  pe_Ping :: "ping_measurement \<Rightarrow> ping_stream"
  pe_ms :: "uint32 \<Rightarrow> 'f"
  pe_zero :: 'f
  pe_float :: "'f \<Rightarrow> string"
  pe_errors :: "probe_error list \<Rightarrow> string"

definition thirty_minutes :: int where
  "thirty_minutes = 30 * 60 * 1000000000"

definition four_hours :: int where
  "four_hours = 4 * 3600 * 1000000000"

definition rs_cache_Set :: "'f print_env \<Rightarrow> string \<Rightarrow> 'f cache_item \<Rightarrow> int \<Rightarrow> 'f cache_item go_cache \<Rightarrow> 'f cache_item go_cache" where
  "rs_cache_Set e k x d ca = cache_Set thirty_minutes (pe_now e) k x d ca"

definition resolveHostname :: "'f print_env \<Rightarrow> string \<Rightarrow> 'f cache_item go_cache \<Rightarrow> (string \<times> 'f cache_item go_cache) go" where
  "resolveHostname e ip ca =
     (case cache_Get (pe_now e) ip ca of
        Some (HostName s) \<Rightarrow> Inr (s, ca)
      | Some (RTT _) \<Rightarrow> Inl (PanicMsg ''interface conversion'')
      | None \<Rightarrow>
     (case pe_GetVPs e of
        Inl _ \<Rightarrow> Inr ([], ca)
      | Inr vps \<Rightarrow>
     (case find (\<lambda>vp. ip_str (vp_Ip vp) = ip) vps of
        Some vp \<Rightarrow> Inr (vp_Hostname vp, rs_cache_Set e ip (HostName (vp_Hostname vp)) four_hours ca)
      | None \<Rightarrow>
     (case pe_LookupAddr e ip of
        None \<Rightarrow> Inr ([], rs_cache_Set e ip (HostName []) four_hours ca)
      | Some hns \<Rightarrow> go_bind (go_index hns 0) (\<lambda>hn. Inr (hn, rs_cache_Set e ip (HostName hn) four_hours ca))))))"

definition rtt_key :: "string \<Rightarrow> string \<Rightarrow> string" where
  "rtt_key src dst = src @ '':'' @ dst @ '':rtt''"

text \<open>A stream that ends without an answer leaves the loop, and what was missing in the cache is converted.\<close>

definition getRTT :: "'f print_env \<Rightarrow> string \<Rightarrow> string \<Rightarrow> 'f cache_item go_cache \<Rightarrow> ('f \<times> 'f cache_item go_cache) go" where
  "getRTT e src dst ca =
     (let key = rtt_key src dst; none = Inr (pe_zero e, rs_cache_Set e key (RTT (pe_zero e)) thirty_minutes ca) in
      case cache_Get (pe_now e) key ca of
        Some (RTT t) \<Rightarrow> Inr (t, ca)
      | Some (HostName _) \<Rightarrow> Inl (PanicMsg ''interface conversion'')
      | None \<Rightarrow>
          go_bind (ip_int dst) (\<lambda>targ. go_bind (ip_int src) (\<lambda>src.
            case pe_Ping e (zero_ping_measurement\<lparr>pm_Src := src, pm_Dst := targ, pm_Count := ''1'', pm_Timeout := 5\<rparr>) of
              PingFails \<Rightarrow> none
            | NoAnswer \<Rightarrow> Inl (PanicMsg ''interface conversion'')
            | AnswerFails \<Rightarrow> none
            | PingAnswer [] \<Rightarrow> none
            | PingAnswer (rtt # _) \<Rightarrow> Inr (pe_ms e rtt, rs_cache_Set e key (RTT (pe_ms e rtt)) thirty_minutes ca))))"

fun segment_symbol :: "segment \<Rightarrow> string" where
  "segment_symbol (DstSymRevSegment _ _ _) = ''sym''"
| "segment_symbol (DstRevSegment _) = ''dst''"
| "segment_symbol (TRtoSrcRevSegment _) = ''tr''"
| "segment_symbol (SpoofRRRevSegment _ _) = ''rr''"
| "segment_symbol (RRRevSegment _) = ''rr''"
| "segment_symbol (SpoofTSAdjRevSegmentTSZeroDoubleStamp _ _ _) = ''ts''"
| "segment_symbol (SpoofTSAdjRevSegmentTSZero _ _ _) = ''ts''"
| "segment_symbol (SpoofTSAdjRevSegment _ _ _) = ''ts''"
| "segment_symbol (TSAdjRevSegment _ _) = ''ts''"
| "segment_symbol (RevSegment _) = []"

text \<open>\<open>%-2d\<close> and \<open>%-80s\<close> fill up with blanks on the right.\<close>

definition pad_right :: "nat \<Rightarrow> string \<Rightarrow> string" where
  "pad_right n s = s @ replicate (n - length s) (CHR 0x20)"

text \<open>The loop's state: the hops seen, whether the segment is at its first hop, the row number, output, cache.\<close>

type_synonym 'f report_state = "string list \<times> bool \<times> nat \<times> string \<times> 'f cache_item go_cache"

definition print_hop :: "'f print_env \<Rightarrow> revtr \<Rightarrow> string \<Rightarrow> hop \<Rightarrow> 'f report_state \<Rightarrow> 'f report_state go" where
  "print_hop e rt symbol hop st =
     (case st of (seen, first, i, out, ca) \<Rightarrow>
      if hop \<in> set seen then Inr st
      else
        let tech = (if first then symbol else ''-'' @ symbol); num = pad_right 2 (show_nat i) in
        if hop = ''0.0.0.0'' \<or> hop = ''*''
        then Inr (hop # seen, False, i + 1,
          out @ ''<tr><td>'' @ num @ ''</td><td>'' @ pad_right 80 ''* * *'' @ ''</td><td></td><td>'' @ tech @ ''</td></tr>'', ca)
        else
          go_bind (resolveHostname e hop ca) (\<lambda>(name, ca).
          go_bind (getRTT e (rt_Src rt) hop ca) (\<lambda>(rtt, ca).
            Inr (hop # seen, False, i + 1,
              out @ ''<tr><td>'' @ num @ ''</td><td>'' @ pad_right 80 hop @ '' ('' @ name @ '')</td><td>'' @ pe_float e rtt @
                ''ms</td><td>'' @ tech @ ''</td></tr>'', ca))))"

fun print_hops :: "'f print_env \<Rightarrow> revtr \<Rightarrow> string \<Rightarrow> hop list \<Rightarrow> 'f report_state \<Rightarrow> 'f report_state go" where
  "print_hops e rt symbol [] st = Inr st"
| "print_hops e rt symbol (h # hs) st = go_bind (print_hop e rt symbol h st) (print_hops e rt symbol hs)"

fun print_segments :: "'f print_env \<Rightarrow> revtr \<Rightarrow> segment list \<Rightarrow> 'f report_state \<Rightarrow> 'f report_state go" where
  "print_segments e rt [] st = Inr st"
| "print_segments e rt (s # ss) st =
     (case st of (seen, _, i, out, ca) \<Rightarrow>
      go_bind (print_hops e rt (segment_symbol s) (Hops s) (seen, True, i, out, ca)) (print_segments e rt ss))"

definition newlines_to_br :: "string \<Rightarrow> string" where
  "newlines_to_br s = concat (map (\<lambda>c. if c = CHR 0x0A then ''<br>'' else [c]) s)"

definition makePrintHTML :: "'f print_env \<Rightarrow> revtr \<Rightarrow> 'f cache_item go_cache \<Rightarrow> (status \<times> 'f cache_item go_cache) go" where
  "makePrintHTML e rt ca =
     go_bind (resolveHostname e (rt_Dst rt) ca) (\<lambda>(dst, ca).
     go_bind (resolveHostname e (rt_Src rt) ca) (\<lambda>(src, ca).
       let out = ''<table class=\"table\">'' @ ''<caption class=\"text-center\">Reverse Traceroute from '' @ rt_Dst rt @ '' ('' @ dst @
         '') back to '' @ rt_Src rt @ '' ('' @ src @ '')'' @ ''</caption>'' @ ''<tbody>'' in
       go_bind (if length (Paths rt) > 0
         then go_bind (CurrPath rt) (\<lambda>rp. print_segments e rt (rp_Path rp) ([], False, 0, out, ca))
         else Inr ([], False, 0, out, ca)) (\<lambda>(_, _, _, out, ca).
         let out = out @ ''</tbody></table>'' @ [CHR 0x0A] @ stop_string (StopReason rt);
             err = (if StopReason rt = StopFailed then newlines_to_br (pe_errors e (ErrorDetails rt)) else [])
         in Inr (\<lparr>st_Rep = newlines_to_br out, st_Status = (StopReason rt \<noteq> NoStop), st_Error = err\<rparr>, ca))))"

section \<open>Reverse traceroutes of the web page\<close>

text \<open>
  What \<open>AddRevtr\<close> makes lives in a heap: the reverse traceroute and the channel of its reports, which holds
  five. \<open>StartRevtr\<close> starts a goroutine; it stands at one of the points between which it holds the lock or
  waits for the run.
\<close>

record revtr_output =
  ro_rt :: revtr
  ro_buf :: "status list"
  ro_closed :: bool

datatype starter_phase = Spawned | Cleared | InRun | Storing | Ended

record starter =
  sg_Id :: uint32
  sg_Out :: nat
  sg_Phase :: starter_phase

record 'f server =
  sv_next :: uint32
  sv_outs :: "revtr_output list"
  sv_revtrs :: "uint32 \<rightharpoonup> nat"
  sv_running :: "uint32 set"
  sv_starters :: "starter list"
  sv_ca :: "'f cache_item go_cache"
  sv_db :: revtr_db

definition NewRevtrServer :: "revtr_db \<Rightarrow> 'f server" where
  "NewRevtrServer db = \<lparr>sv_next = 0, sv_outs = [], sv_revtrs = Map.empty, sv_running = {}, sv_starters = [],
     sv_ca = Map.empty, sv_db = db\<rparr>"

text \<open>\<open>select { case sc <- stat: default: }\<close>\<close>

definition send_status :: "status \<Rightarrow> revtr_output \<Rightarrow> revtr_output go" where
  "send_status stat o1 =
     (if ro_closed o1 then Inl (PanicMsg ''send on closed channel'')
      else Inr (if length (ro_buf o1) < 5 then o1\<lparr>ro_buf := ro_buf o1 @ [stat]\<rparr> else o1))"

text \<open>The callback \<open>pf\<close>: the report of \<open>rt\<close> goes to the channel of output \<open>k\<close>.\<close>

definition pf :: "'f print_env \<Rightarrow> nat \<Rightarrow> revtr \<Rightarrow> 'f server \<Rightarrow> 'f server go" where
  "pf pe k rt s =
     go_bind (makePrintHTML pe rt (sv_ca s)) (\<lambda>(stat, ca).
     go_bind (send_status stat (sv_outs s ! k)) (\<lambda>o1.
       Inr (s\<lparr>sv_ca := ca, sv_outs := (sv_outs s)[k := o1]\<rparr>)))"

definition AddRevtr :: "'f print_env \<Rightarrow> (string \<Rightarrow> string list option) \<Rightarrow> uint32 \<Rightarrow> revtr_measurement \<Rightarrow> 'f server
    \<Rightarrow> ((server_error + uint32) \<times> 'f server) go" where
  "AddRevtr pe lookup rnd rtm s =
     (case pe_GetVPs pe of
        Inl err \<Rightarrow> Inr (Inl (VpsError err), s)
      | Inr vps \<Rightarrow>
     (case verifyAddrs lookup (rm_Src rtm) (rm_Dst rtm) vps of
        Inl err \<Rightarrow> Inr (Inl err, s)
      | Inr (src, dst) \<Rightarrow>
          let rid = sv_next s + 1; k = length (sv_outs s);
              rt = CreateReverseTraceroute rnd (rtm\<lparr>rm_Src := src, rm_Dst := dst\<rparr>) True True True;
              s1 = s\<lparr>sv_next := rid, sv_outs := sv_outs s @ [\<lparr>ro_rt = rt, ro_buf = [], ro_closed = False\<rparr>]\<rparr>
          in go_bind (pf pe k rt s1) (\<lambda>s2. Inr (Inr rid, s2\<lparr>sv_revtrs := (sv_revtrs s2)(rid \<mapsto> k)\<rparr>))))"

text \<open>The channel that is returned is named by its output.\<close>

definition StartRevtr :: "uint32 \<Rightarrow> 'f server \<Rightarrow> (server_error + nat) \<times> 'f server" where
  "StartRevtr rid s =
     (case sv_revtrs s rid of
        None \<Rightarrow> (Inl (IDError rid), s)
      | Some k \<Rightarrow> (Inr k, s\<lparr>sv_starters := sv_starters s @ [\<lparr>sg_Id = rid, sg_Out = k, sg_Phase = Spawned\<rparr>]\<rparr>))"

text \<open>
  The goroutine at position \<open>j\<close>: it looks without the lock whether the id is running; starts the run; at the
  end of the run forgets the id and closes the channel; stores the result, which may make a callback.
\<close>

definition set_phase :: "nat \<Rightarrow> starter_phase \<Rightarrow> 'f server \<Rightarrow> 'f server" where
  "set_phase j p s = s\<lparr>sv_starters := (sv_starters s)[j := (sv_starters s ! j)\<lparr>sg_Phase := p\<rparr>]\<rparr>"

definition check_running :: "nat \<Rightarrow> 'f server \<Rightarrow> 'f server" where
  "check_running j s = set_phase j (if sg_Id (sv_starters s ! j) \<in> sv_running s then Ended else Cleared) s"

definition begin_run :: "nat \<Rightarrow> 'f server \<Rightarrow> 'f server" where
  "begin_run j s = set_phase j InRun (s\<lparr>sv_running := insert (sg_Id (sv_starters s ! j)) (sv_running s)\<rparr>)"

definition end_run :: "nat \<Rightarrow> revtr \<Rightarrow> 'f server \<Rightarrow> 'f server go" where
  "end_run j drtr s =
     (let g = sv_starters s ! j; k = sg_Out g; o1 = sv_outs s ! k in
      if ro_closed o1 then Inl (PanicMsg ''close of closed channel'')
      else Inr (set_phase j Storing (s\<lparr>sv_revtrs := (sv_revtrs s)(sg_Id g := None), sv_running := sv_running s - {sg_Id g},
        sv_outs := (sv_outs s)[k := o1\<lparr>ro_rt := drtr, ro_closed := True\<rparr>]\<rparr>)))"

definition store_run :: "'f print_env \<Rightarrow> nat \<Rightarrow> 'f server \<Rightarrow> 'f server go" where
  "store_run pe j s =
     (let k = sg_Out (sv_starters s ! j); drtr = ro_rt (sv_outs s ! k) in
      go_bind (ToStorable drtr) (\<lambda>(st, drtr').
      go_bind (if callbacks drtr' \<noteq> callbacks drtr then pf pe k drtr' s else Inr s) (\<lambda>s.
      go_bind (StoreRevtr st (sv_db s)) (\<lambda>(_, db). Inr (set_phase j Ended (s\<lparr>sv_db := db\<rparr>))))))"

definition read_status :: "nat \<Rightarrow> 'f server \<Rightarrow> 'f server" where
  "read_status k s = s\<lparr>sv_outs := (sv_outs s)[k := (sv_outs s ! k)\<lparr>ro_buf := tl (ro_buf (sv_outs s ! k))\<rparr>]\<rparr>"

text \<open>
  What goroutines do; a panic is a result. A run of the runner ends with what \<open>run\<close> makes of the reverse
  traceroute, and reports any state it goes through. The context of a run is never done.
\<close>

inductive goroutine :: "'f print_env \<Rightarrow> 'w env \<Rightarrow> 'f server \<Rightarrow> 'f server go \<Rightarrow> bool" for pe e where
  checks: "j < length (sv_starters s) \<Longrightarrow> sg_Phase (sv_starters s ! j) = Spawned \<Longrightarrow> goroutine pe e s (Inr (check_running j s))"
| begins: "j < length (sv_starters s) \<Longrightarrow> sg_Phase (sv_starters s ! j) = Cleared \<Longrightarrow> goroutine pe e s (Inr (begin_run j s))"
| reports: "j < length (sv_starters s) \<Longrightarrow> sg_Phase (sv_starters s ! j) = InRun \<Longrightarrow>
    goroutine pe e s (pf pe (sg_Out (sv_starters s ! j)) rt s)"
| ends: "j < length (sv_starters s) \<Longrightarrow> sg_Phase (sv_starters s ! j) = InRun \<Longrightarrow>
    run n m e (ro_rt (sv_outs s ! sg_Out (sv_starters s ! j))) w = Inr (drtr, w') \<Longrightarrow> goroutine pe e s (end_run j drtr s)"
| stores: "j < length (sv_starters s) \<Longrightarrow> sg_Phase (sv_starters s ! j) = Storing \<Longrightarrow> goroutine pe e s (store_run pe j s)"

inductive_simps goroutine_simps: "goroutine pe e s r"
inductive_cases goroutineE: "goroutine pe e s r"

section \<open>Batches are served\<close>

text \<open>
  The contract of the repository for the goroutine of a batch: a result that fits is stored, is what is
  read for its row from then on, and leaves other rows and what the rest of the server keeps there.
\<close>

locale rt_store =
  fixes storeBatched :: "storable list \<Rightarrow> 'db \<Rightarrow> (repo_error option \<times> 'db) go"
    and good :: "'db \<Rightarrow> bool"
    and fits :: "'db \<Rightarrow> storable \<Rightarrow> bool"
    and kept :: "'db \<Rightarrow> 'u"
    and rows :: "'db \<Rightarrow> 'row list"
    and row_id :: "'row \<Rightarrow> uint32"
    and read :: "'db \<Rightarrow> 'row \<Rightarrow> storable"
    and put :: "storable \<Rightarrow> 'row \<Rightarrow> 'row"
    and deliver :: "'row \<Rightarrow> storable \<Rightarrow> storable"
  assumes stores: "good db \<Longrightarrow> fits db rt \<Longrightarrow> \<exists>db'. storeBatched [rt] db = Inr (None, db') \<and> good db' \<and> kept db' = kept db \<and>
      rows db' = map (put rt) (rows db) \<and>
      (\<forall>r. read db' (put rt r) = (if row_id r = sr_Id rt then deliver r rt else read db r)) \<and>
      (\<forall>rt'. fits db rt' \<and> sr_Id rt' \<noteq> sr_Id rt \<longrightarrow> fits db' rt')"
    and put_id: "row_id (put rt r) = row_id r"
    and put_deliver: "deliver (put rt r) = deliver r"
begin

lemma store_done_read:
  assumes "good db" and "distinct (map ID ds)"
    and "\<forall>d\<in>set ds. \<exists>st d'. ToStorable d = Inr (st, d') \<and> sr_Id st = ID d \<and> fits db st"
  shows "\<exists>db'. store_done storeBatched ds db = Inr db' \<and> kept db' = kept db \<and>
    map (read db') (rows db') = map (\<lambda>r. case find (\<lambda>d. ID d = row_id r) ds of
      None \<Rightarrow> read db r | Some d \<Rightarrow> deliver r (fst (projr (ToStorable d)))) (rows db)"
  using assms
proof (induction ds arbitrary: db)
  case Nil
  then show ?case by simp
next
  case (Cons d ds)
  from Cons.prems(3) obtain st d' where st: "ToStorable d = Inr (st, d')" "sr_Id st = ID d" "fits db st" by auto
  from stores [OF Cons.prems(1) st(3)] obtain db1 where one: "storeBatched [st] db = Inr (None, db1)"
    "good db1" "kept db1 = kept db" "rows db1 = map (put st) (rows db)"
    "\<And>r. read db1 (put st r) = (if row_id r = sr_Id st then deliver r st else read db r)"
    "\<And>rt'. fits db rt' \<and> sr_Id rt' \<noteq> sr_Id st \<Longrightarrow> fits db1 rt'" by blast
  have others: "\<forall>e\<in>set ds. \<exists>st d'. ToStorable e = Inr (st, d') \<and> sr_Id st = ID e \<and> fits db1 st"
  proof
    fix e assume e: "e \<in> set ds"
    then obtain st' e' where "ToStorable e = Inr (st', e')" "sr_Id st' = ID e" "fits db st'" using Cons.prems(3) by auto
    moreover have "ID e \<noteq> ID d" using e Cons.prems(2) by (metis distinct.simps(2) imageI list.simps(9) set_map)
    ultimately show "\<exists>st d'. ToStorable e = Inr (st, d') \<and> sr_Id st = ID e \<and> fits db1 st" using one(6) st(2) by metis
  qed
  from Cons.IH [OF one(2) _ others] Cons.prems(2) obtain db' where db': "store_done storeBatched ds db1 = Inr db'" "kept db' = kept db1"
    "map (read db') (rows db') = map (\<lambda>r. case find (\<lambda>d. ID d = row_id r) ds of
      None \<Rightarrow> read db1 r | Some d \<Rightarrow> deliver r (fst (projr (ToStorable d)))) (rows db1)" by auto
  have "find (\<lambda>e. ID e = ID d) ds = None" using Cons.prems(2) by (simp add: find_None_iff) (metis image_eqI)
  then have "(case find (\<lambda>d. ID d = row_id (put st r)) ds of None \<Rightarrow> read db1 (put st r)
      | Some d \<Rightarrow> deliver (put st r) (fst (projr (ToStorable d)))) =
    (case find (\<lambda>d. ID d = row_id r) (d # ds) of None \<Rightarrow> read db r | Some d \<Rightarrow> deliver r (fst (projr (ToStorable d))))" for r
    by (cases "ID d = row_id r") (simp_all add: one(5) st put_id put_deliver split: option.split)
  then show ?case using db' one(1,3,4) st(1) by (simp add: comp_def)
qed

end

interpretation repo: rt_store StoreBatchedRevtrs revtr_db_ok storable_result rd_users "batch_rows uid bid" rw_Id read_revtr updated delivered
  for uid bid
  by unfold_locales (simp_all add: store_one)

lemma created_iff:
  "go_bind m (\<lambda>(r, db). case r of Inl _ \<Rightarrow> Inr (Inl err, db) | Inr (reqs, i) \<Rightarrow> Inr (Inr (i, reqs), db)) = Inr (Inr (i, reqs), db') \<longleftrightarrow>
     m = Inr (Inr (reqs, i), db')"
proof (cases m)
  case (Inr p)
  then obtain r d where "m = Inr (r, d)" by (cases p) simp
  then show ?thesis by (cases r) auto
qed simp

lemma verify_all_lists:
  "verify_all lookup vps rs = Inr ms \<Longrightarrow>
     list_all2 (\<lambda>r m. verifyAddrs lookup (rm_Src r) (rm_Dst r) vps = Inr (rm_Src m, rm_Dst m) \<and> rm_BackoffEndhost m = rm_BackoffEndhost r) rs ms"
  by (induction rs arbitrary: ms) (auto simp: go_bind_Inr_iff)

text \<open>What the server answers for a request of a batch when the reverse traceroutes \<open>done\<close> are stored.\<close>

definition answer :: "revtr list \<Rightarrow> revtr_measurement \<Rightarrow> storable" where
  "answer finished m =
     (let a = \<lparr>sr_Id = 0, sr_Src = ip_str (address (rm_Src m)), sr_Dst = ip_str (address (rm_Dst m)), sr_FailReason = [],
        sr_StopReason = [], sr_Stats = None, sr_Status = RUNNING, sr_Path = []\<rparr> in
      case find (\<lambda>d. ID d = rm_Id m) finished of
        None \<Rightarrow> a
      | Some d \<Rightarrow> (case fst (projr (ToStorable d)) of st \<Rightarrow>
          a\<lparr>sr_FailReason := sr_FailReason st, sr_StopReason := sr_StopReason st, sr_Stats := sr_Stats st,
            sr_Status := COMPLETED, sr_Path := sr_Path st\<rparr>))"

text \<open>The reverse traceroutes are results of runs of the batch that were not cancelled, and their hops can be stored.\<close>

definition batch_results :: "'w env \<Rightarrow> revtr_db \<Rightarrow> revtr_measurement list \<Rightarrow> revtr list \<Rightarrow> bool" where
  "batch_results e db added finished \<longleftrightarrow> e_Done e = (\<lambda>_. False) \<and> distinct (map ID finished) \<and>
     (\<forall>d\<in>set finished. (\<exists>m\<in>set added. \<exists>n k rnd w w'. run n k e (CreateReverseTraceroute rnd m False False False) w = Inr (d, w')) \<and>
       (\<forall>st d'. ToStorable d = Inr (st, d') \<longrightarrow> (\<forall>h\<in>set (sr_Path st). storable_hop db h)))"

lemma batch_result_stored:
  assumes "revtr_db_ok db" and "CreateRevtrBatch same now batch key db = Inr (Inr (added, bid), db')" and "\<forall>r\<in>set batch. \<not> rm_BackoffEndhost r"
    and "batch_results e db added finished" and d: "d \<in> set finished"
  shows "\<exists>st d'. ToStorable d = Inr (st, d') \<and> sr_Id st = ID d \<and> sr_Status st = COMPLETED \<and> storable_result db' st"
proof -
  obtain m n k rnd w w' where m: "m \<in> set added" and e: "e_Done e = (\<lambda>_. False)"
    and r: "run n k e (CreateReverseTraceroute rnd m False False False) w = Inr (d, w')"
    and hops: "\<forall>st d'. ToStorable d = Inr (st, d') \<longrightarrow> (\<forall>h\<in>set (sr_Path st). storable_hop db h)"
    using assms(4) d unfolding batch_results_def by blast
  have "list_all2 (\<lambda>m a. a = m\<lparr>rm_Id := rm_Id a\<rparr>) batch added" using CreateRevtrBatch_created [OF assms(2)] by blast
  then obtain b where "b \<in> set batch" "m = b\<lparr>rm_Id := rm_Id m\<rparr>" using m
    by (simp add: list_all2_conv_all_nth in_set_conv_nth) metis
  then have "\<not> rm_BackoffEndhost m" using assms(3) by (metis revtr_measurement.select_convs(5) revtr_measurement.surjective revtr_measurement.update_convs(4))
  then have bo: "\<not> BackoffEndhost (CreateReverseTraceroute rnd m False False False)" by (simp add: CreateReverseTraceroute_def)
  have "revtr_db_ok db'" by (rule CreateRevtrBatch_ok [OF assms(1,2)])
  then have "unat (rm_Id m) \<noteq> 0" using fresh_result [OF assms(1,2) m] by (force simp: revtr_db_ok_def)
  then have "rm_Id m \<noteq> 0" by auto
  then have created: "ID (CreateReverseTraceroute rnd m False False False) = rm_Id m"
    by (simp add: CreateReverseTraceroute_def NewReverseTraceroute_def Let_def)
  have "ID d = rm_Id m" using run_keeps [OF r] created by (simp add: run_frame_def)
  with ToStorable_silent [OF r e bo] created hops fresh_result [OF assms(1,2) m] show ?thesis
    by (auto simp: storable_result_def storable_hop_def)
qed

text \<open>
  A batch is served. When the server accepts a batch of a user whose key is his alone, its number is not
  zero and it holds the measurements asked for, in their order, with checked addresses. Whichever of its
  runs have finished and been stored, in whatever order, the same key then reads the whole batch in the
  order it was asked for: a finished one with the path, statistics and reasons of its result, as completed, and
  every other one as running.
\<close>

lemma batch_served:
  assumes ok: "revtr_db_ok db" and keys: "equivp same" "\<forall>u\<in>set (rd_users db). \<forall>v\<in>set (rd_users db). same (ru_Key u) (ru_Key v) \<longrightarrow> u = v"
    and accepted: "RunRevtr same now lookup (Inr vps) connected auth revtrs db = Inr (Inr (bid, added), db1)"
    and bo: "\<forall>r\<in>set revtrs. \<not> rm_BackoffEndhost r" and results: "batch_results e db added finished"
  shows "bid \<noteq> 0 \<and> list_all2 (\<lambda>r m. verifyAddrs lookup (rm_Src r) (rm_Dst r) vps = Inr (rm_Src m, rm_Dst m)) revtrs added \<and>
    (\<exists>db2. store_done StoreBatchedRevtrs finished db1 = Inr db2 \<and> GetRevtr same auth bid db2 = Inr (map (answer finished) added))"
proof -
  from accepted obtain u reqs where u: "GetUserByKey same auth db = Inr u" and v: "verify_all lookup vps revtrs = Inr reqs"
    and c: "CreateRevtrBatch same now reqs (ru_Key u) db = Inr (Inr (added, bid), db1)" and ne: "reqs \<noteq> []"
    by (auto simp: RunRevtr_def created_iff split: sum.split_asm if_split_asm)
  have us: "u \<in> set (rd_users db)" "same (ru_Key u) auth"
  proof -
    have "u \<in> set (users_by_key same auth db)" using u by (auto simp: GetUserByKey_def split: list.split_asm)
    then show "u \<in> set (rd_users db)" "same (ru_Key u) auth" by (simp_all add: users_by_key_def)
  qed
  have sole: "users_by_key same key db = [u]" if "same (ru_Key u) key" for key
    by (rule sole_key [OF ok keys(1) us(1) that]) (use keys(2) us(1) in blast)
  have rows: "batch_rows (ru_Id u) bid db1 = map new_row added"
    by (rule batch_rows_created [OF ok c sole]) (use keys(1) in \<open>simp add: equivp_reflp\<close>)
  note cr = CreateRevtrBatch_created [OF c]
  have ok1: "revtr_db_ok db1" by (rule CreateRevtrBatch_ok [OF ok c])
  have "bid \<in> ba_Id ` set (rd_batches db1)" using cr ne by (auto simp: with_revtrs_def)
  then have "bid \<noteq> 0" using ok1 by (force simp: revtr_db_ok_def)
  moreover have "list_all2 (\<lambda>r m. verifyAddrs lookup (rm_Src r) (rm_Dst r) vps = Inr (rm_Src m, rm_Dst m)) revtrs added"
  proof (rule list_all2_trans [OF _ verify_all_lists [OF v]])
    show "list_all2 (\<lambda>m a. a = m\<lparr>rm_Id := rm_Id a\<rparr>) reqs added" using cr by blast
  qed (metis revtr_measurement.select_convs(1,2) revtr_measurement.surjective revtr_measurement.update_convs(4))
  moreover have "\<forall>r\<in>set reqs. \<not> rm_BackoffEndhost r"
    using verify_all_lists [OF v] bo by (simp add: list_all2_conv_all_nth all_set_conv_all_nth)
  note stored = batch_result_stored [OF ok c this results]
  have "distinct (map ID finished)" using results by (simp add: batch_results_def)
  from repo.store_done_read [OF ok1 this, of "ru_Id u" bid] stored obtain db2 where db2: "store_done StoreBatchedRevtrs finished db1 = Inr db2" "rd_users db2 = rd_users db1"
    "map (read_revtr db2) (batch_rows (ru_Id u) bid db2) = map (\<lambda>r. case find (\<lambda>d. ID d = rw_Id r) finished of
      None \<Rightarrow> read_revtr db1 r | Some d \<Rightarrow> delivered r (fst (projr (ToStorable d)))) (map new_row added)"
    unfolding rows [symmetric] by blast
  have "GetUserByKey same auth db2 = Inr u"
    using u cr db2(2) by (simp add: GetUserByKey_def users_by_key_def with_revtrs_def with_batches_def)
  moreover have "(case find (\<lambda>d. ID d = rw_Id (new_row m)) finished of None \<Rightarrow> read_revtr db1 (new_row m)
      | Some d \<Rightarrow> delivered (new_row m) (fst (projr (ToStorable d)))) = answer finished m" if m: "m \<in> set added" for m
  proof (cases "find (\<lambda>d. ID d = rm_Id m) finished")
    case None
    have "map_of (rd_stats db1) (rm_Id m) = None" using fresh_result [OF ok c m] by (simp add: map_of_eq_None_iff)
    moreover have "RevtrStatus_value ''RUNNING'' = RUNNING" by (simp add: RevtrStatus_value_def)
    ultimately show ?thesis using None by (simp add: answer_def read_revtr_def Let_def) (simp add: new_row_def)
  next
    case (Some d)
    then have "d \<in> set finished" by (auto simp: find_Some_iff)
    from stored [OF this] Some show ?thesis by (auto simp: answer_def delivered_def Let_def new_row_def)
  qed
  ultimately show ?thesis using db2(1,3) by (simp add: GetRevtr_def GetRevtrsInBatch_def)
qed
definition ex_page_vp :: vantage_point where
  "ex_page_vp = \<lparr>vp_Ip = 1, vp_Hostname = ''h'', vp_Site = ''s'', vp_Timestamp = True, vp_RecordRoute = True,
     vp_Spoof = False, vp_RecSpoof = False, vp_Ping = True, vp_Trace = True\<rparr>"

lemma ex_verify: "verifyAddrs lookup ''h'' ''h'' [ex_page_vp] = Inr (ip_str 1, ip_str 1)"
proof -
  have "ParseIP ''h'' = []" by (simp add: ParseIP_def)
  moreover have "ParseIP (ip_str 1) \<noteq> []" by (simp add: ip_str_def Int32ToIPString_def' net_IPv4_def)
  ultimately show ?thesis by (simp add: verifyAddrs_def validDest_def ex_page_vp_def Let_def)
qed

definition ex_request :: revtr_measurement where
  "ex_request = \<lparr>rm_Src = ''h'', rm_Dst = ip_str 2, rm_Staleness = 0, rm_Id = 0, rm_BackoffEndhost = False\<rparr>"

lemma ex_ip_texts: "ip_str 1 = ''0.0.0.1''" "ip_str 2 = ''0.0.0.2''"
proof -
  have "show_nat (Suc 0) = ''1''" "show_nat 2 = ''2''" by code_simp+
  then show "ip_str 1 = ''0.0.0.1''" "ip_str 2 = ''0.0.0.2''"
    by (simp_all add: ip_str_def Int32ToIPString_def' dotted_quad_def show_byte_def show_nat_0)
qed

lemma ex_finished:
  "(case run 10 3 ex_env (CreateReverseTraceroute 0 \<lparr>rm_Src = ''0.0.0.1'', rm_Dst = ''0.0.0.2'', rm_Staleness = 0, rm_Id = 1, rm_BackoffEndhost = False\<rparr>
     False False False) () of Inr (rt', _) \<Rightarrow> is_failed rt' | _ \<Rightarrow> False)"
  by code_simp

lemma ex_accepted:
  "\<exists>db. RunRevtr (=) 0 (\<lambda>_. None) (Inr [ex_page_vp]) True ''k'' [ex_request] ex_repo_db =
     Inr (Inr (1, [ex_repo_measurement\<lparr>rm_Id := 1\<rparr>]), db)"
proof -
  have ip: "ParseIP (ip_str 1) \<noteq> []" "ParseIP (ip_str 2) \<noteq> []" by (simp_all add: ip_str_def Int32ToIPString_def' net_IPv4_def)
  have "\<not> IsPrivate (ParseIP (ip_str 2))" by (simp add: ip_str_def Int32ToIPString_def' IsPrivate_def IsGlobalUnicast_IPv4)
  with ip have "verifyAddrs (\<lambda>_. None) ''h'' (ip_str 2) [ex_page_vp] = Inr (ip_str 1, ip_str 2)"
    by (simp add: verifyAddrs_def validDest_def ex_page_vp_def Let_def)
  then have "verify_all (\<lambda>_. None) [ex_page_vp] [ex_request] = Inr [ex_repo_measurement]"
    by (simp add: ex_request_def ex_repo_measurement_def)
  moreover have "GetUserByKey (=) ''k'' ex_repo_db = Inr ex_repo_user"
    by (simp add: GetUserByKey_def users_by_key_def ex_repo_db_def ex_repo_user_def)
  moreover have "ru_Key ex_repo_user = ''k''" by (simp add: ex_repo_user_def)
  ultimately show ?thesis using ex_created by (simp add: RunRevtr_def)
qed

section \<open>IPv6 destinations\<close>

lemma ip_int_parsed:
  assumes "ParseIP s \<noteq> []"
  shows "ip_int s = (if To4 (ParseIP s) = [] then Inl IndexOutOfRange else ip_int s)"
    and "To4 (ParseIP s) \<noteq> [] \<Longrightarrow> \<exists>i. ip_int s = Inr i"
proof -
  have four: "length (To4 ip) = 4 \<or> To4 ip = []" for ip by (auto simp: To4_def)
  show "ip_int s = (if To4 (ParseIP s) = [] then Inl IndexOutOfRange else ip_int s)"
    using assms by (simp add: ip_int_def IPStringToInt32_def be_uint32_def go_index_def Let_def)
  assume "To4 (ParseIP s) \<noteq> []"
  with four have "length (To4 (ParseIP s)) = 4" by blast
  then show "\<exists>i. ip_int s = Inr i"
    using assms by (simp add: ip_int_def IPStringToInt32_def be_uint32_def go_index_def Let_def)
qed

lemma add_revtrs_outcome:
  assumes "bid \<in> ba_Id ` set (rd_batches db)" and "rd_next_revtr db + length ms \<le> 2 ^ 32"
    and "\<forall>m\<in>set ms. (\<exists>i. rm_Src m = ip_str i) \<and> ParseIP (rm_Dst m) \<noteq> []"
  shows "if \<exists>m\<in>set ms. To4 (ParseIP (rm_Dst m)) = [] then add_revtrs bid ms db = Inl IndexOutOfRange
    else \<exists>x. add_revtrs bid ms db = Inr (Inr x)"
  using assms
proof (induction ms arbitrary: db)
  case (Cons m ms)
  from Cons.prems(3) obtain i where i: "rm_Src m = ip_str i" "ParseIP (rm_Dst m) \<noteq> []" by auto
  show ?case
  proof (cases "To4 (ParseIP (rm_Dst m)) = []")
    case True
    with ip_int_parsed(1) [OF i(2)] i(1) show ?thesis by simp
  next
    case False
    with ip_int_parsed(2) [OF i(2)] obtain j where j: "ip_int (rm_Dst m) = Inr j" by blast
    obtain rid db1 where r: "insert_revtr i j [] ''RUNNING'' [] db = Some (rid, db1)" "rid \<in> set (revtr_ids db1)"
      "rd_batches db1 = rd_batches db" "rd_next_revtr db1 = Suc (rd_next_revtr db)"
      using Cons.prems(2) by (simp add: insert_revtr_def Let_def revtr_ids_def)
    let ?db = "db1\<lparr>rd_batch_revtr := rd_batch_revtr db1 @ [(bid, rid)]\<rparr>"
    have "insert_batch_revtr bid rid db1 = Some ?db"
      using r Cons.prems(1) by (simp add: insert_batch_revtr_def)
    moreover have "if \<exists>m\<in>set ms. To4 (ParseIP (rm_Dst m)) = [] then add_revtrs bid ms ?db = Inl IndexOutOfRange
      else \<exists>x. add_revtrs bid ms ?db = Inr (Inr x)"
      by (rule Cons.IH) (use Cons.prems r in simp_all)
    ultimately show ?thesis using False i(1) j r(1) by (auto split: if_splits)
  qed
qed simp

lemma verify_all_addresses:
  "verify_all lookup vps rs = Inr ms \<Longrightarrow> \<forall>m\<in>set ms. (\<exists>i. rm_Src m = ip_str i) \<and> ParseIP (rm_Dst m) \<noteq> []"
proof -
  have src: "validSrc src vps = Some a \<Longrightarrow> \<exists>i. a = ip_str i" for src a
    by (induction vps) (auto simp: Let_def split: if_split_asm)
  assume "verify_all lookup vps rs = Inr ms"
  then show ?thesis
    by (induction rs arbitrary: ms)
      (auto simp: go_bind_Inr_iff verifyAddrs_def split: option.split_asm if_split_asm dest!: src)
qed

text \<open>
  C37. What becomes of a request whose addresses were accepted: refused if the quota does not allow it, otherwise a panic
  exactly if the destination of a measurement is an IPv6 address, or a name the resolver gave one for first;
  only then it is entered as a batch. The check of the addresses lets IPv6 pass, the number that the
  repository wants of it has no bytes to be read from, and the transaction stays open.
\<close>

theorem request_outcome:
  assumes same: "equivp same" and u: "GetUserByKey same auth db = Inr u" and v: "verify_all lookup vps revtrs = Inr reqs" "reqs \<noteq> []"
    and room: "rd_next_batch db + length (rd_users db) \<le> 2 ^ 32" "rd_next_revtr db + length reqs \<le> 2 ^ 32"
  shows "if \<not> can_add same now (length reqs) (ru_Key u) db
      then RunRevtr same now lookup (Inr vps) True auth revtrs db = Inr (Inl ErrFailedToCreateBatch, db)
    else if \<exists>m\<in>set reqs. To4 (ParseIP (rm_Dst m)) = []
      then RunRevtr same now lookup (Inr vps) True auth revtrs db = Inl IndexOutOfRange
    else \<exists>bid added db1. RunRevtr same now lookup (Inr vps) True auth revtrs db = Inr (Inr (bid, added), db1)"
proof -
  let ?us = "users_by_key same (ru_Key u) db" and ?tx = "with_batches same now (ru_Key u) db"
  have "u \<in> set (users_by_key same auth db)" using u by (auto simp: GetUserByKey_def split: list.split_asm)
  then have us: "?us \<noteq> []" using equivp_reflp [OF same] by (auto simp: users_by_key_def filter_empty_conv)
  have "length ?us \<le> length (rd_users db)" by (simp add: users_by_key_def)
  with room(1) us have ins: "insert_batch same now (ru_Key u) db = Some (of_nat (rd_next_batch db), ?tx)"
    by (simp add: insert_batch_iff)
  have bid: "of_nat (rd_next_batch db) \<in> ba_Id ` set (rd_batches ?tx)"
  proof -
    have "rd_next_batch db \<in> set [rd_next_batch db..<rd_next_batch db + length ?us]" using us by (cases ?us) auto
    then have "of_nat (rd_next_batch db) \<in> set (map ba_Id (new_batches same now (ru_Key u) db))" unfolding new_batches_ids by simp
    then show ?thesis by (simp add: with_batches_def image_Un)
  qed
  have "rd_next_revtr ?tx + length reqs \<le> 2 ^ 32" using room(2) by (simp add: with_batches_def)
  note added = add_revtrs_outcome [OF bid this verify_all_addresses [OF v(1)]]
  have run: "RunRevtr same now lookup (Inr vps) True auth revtrs db = go_bind (CreateRevtrBatch same now reqs (ru_Key u) db) (\<lambda>(r, db).
      case r of Inl _ \<Rightarrow> Inr (Inl ErrFailedToCreateBatch, db) | Inr (reqToRun, batchID) \<Rightarrow> Inr (Inr (batchID, reqToRun), db))"
    using u v by (simp add: RunRevtr_def)
  show ?thesis
  proof (cases "can_add same now (length reqs) (ru_Key u) db")
    case True
    with added ins show ?thesis unfolding run by (auto simp: CreateRevtrBatch_def split: if_splits)
  qed (simp add: run CreateRevtrBatch_def)
qed

lemma ex_ipv6: "ParseIP ''1::'' = [0, 1, 0, 0, 0, 0, 0, 0, 0, 0, 0, 0, 0, 0, 0, 0]"
proof -
  have "hex_group ''1::'' = Some ([0, 1], ''::'')" by (simp add: hex_group_def hex_digit_def Let_def)
  then have "parse6 (Suc 7) [] None ''1::'' = Some ([0, 1], Some 2, [])" by (subst parse6.simps) simp
  moreover have "(8 :: nat) = Suc 7" by simp
  ultimately have "parse6 8 [] None ''1::'' = Some ([0, 1], Some 2, [])" by presburger
  then have "parseIPv6 ''1::'' = Some ([0, 1] @ replicate 14 0)" by (simp add: parseIPv6_def)
  moreover have "replicate 14 0 = [0, 0, 0, 0, 0, 0, 0, 0, 0, 0, 0, 0, 0, 0 :: byte]" by (simp add: eval_nat_numeral)
  ultimately show ?thesis by (simp add: ParseIP_def)
qed

theorem request_outcome_witness:
  "RunRevtr (=) 0 (\<lambda>_. None) (Inr [ex_page_vp]) True ''k'' [ex_request\<lparr>rm_Dst := ''1::''\<rparr>] ex_repo_db = Inl IndexOutOfRange"
proof -
  let ?m = "ex_repo_measurement\<lparr>rm_Dst := ''1::''\<rparr>"
  have priv: "\<not> IsPrivate [0, 1, 0, 0, 0, 0, 0, 0, 0, 0, 0, 0, 0, 0, 0, 0 :: byte]" by code_simp
  have four: "To4 [0, 1, 0, 0, 0, 0, 0, 0, 0, 0, 0, 0, 0, 0, 0, 0] = []" by code_simp
  have src: "ParseIP (ip_str 1) \<noteq> []" by (simp add: ip_str_def Int32ToIPString_def' net_IPv4_def)
  have "verifyAddrs (\<lambda>_. None) ''h'' ''1::'' [ex_page_vp] = Inr (ip_str 1, ''1::'')"
    using src by (simp add: verifyAddrs_def validDest_def ex_ipv6 priv Let_def) (auto simp: ex_page_vp_def Let_def)
  then have v: "verify_all (\<lambda>_. None) [ex_page_vp] [ex_request\<lparr>rm_Dst := ''1::''\<rparr>] = Inr [?m]"
    by (simp add: ex_request_def ex_repo_measurement_def)
  have u: "GetUserByKey (=) ''k'' ex_repo_db = Inr ex_repo_user"
    by (simp add: GetUserByKey_def users_by_key_def ex_repo_db_def ex_repo_user_def)
  have can: "can_add (=) 0 1 (ru_Key ex_repo_user) ex_repo_db"
    by (simp add: can_add_def counted_rows_def ex_repo_db_def users_by_key_def)
  from request_outcome [OF identity_equivp u v, of 0] can show ?thesis
    by (simp add: ex_ipv6 four ex_repo_db_def)
qed

end
