(* ===== verification/RevtrWeb.thy ===== *)
theory RevtrWeb
  imports RevtrServer
begin

text \<open>
  \<open>cmd/revtr/main.go\<close>, the web page of reverse traceroutes: a request adds a reverse traceroute to the server
  and hands out its id; a websocket with the id starts it, or joins those that watch it. For every websocket
  a goroutine monitors the channel of the reports. Handlers and monitors hold two kinds of locks: \<open>rr.mu\<close>
  for the map of ids, and the one of each output channel.
\<close>

section \<open>The home page\<close>

record vp_model =
  vm_Host :: string
  vm_IP :: string

text \<open>One node of each site that can do record route and timestamps, as the loop meets them, then sorted by host.\<close>

fun home_loop :: "string list \<Rightarrow> vantage_point list \<Rightarrow> vp_model list" where
  "home_loop sites [] = []"
| "home_loop sites (node # nodes) =
     (if \<not> vp_RecordRoute node \<or> \<not> vp_Timestamp node then home_loop sites nodes
      else if vp_Site node \<in> set sites then home_loop sites nodes
      else \<lparr>vm_Host = vp_Hostname node, vm_IP = ip_str (vp_Ip node)\<rparr> # home_loop (vp_Site node # sites) nodes)"

definition vpModelSort_Less :: "vp_model \<Rightarrow> vp_model \<Rightarrow> bool" where
  "vpModelSort_Less a b \<longleftrightarrow> vm_Host a < vm_Host b"

definition Home :: "((vp_model \<Rightarrow> vp_model \<Rightarrow> bool) \<Rightarrow> vp_model list \<Rightarrow> vp_model list) \<Rightarrow> string \<Rightarrow> string + vantage_point list
    \<Rightarrow> nat + vp_model list" where
  "Home srt path GetVPs =
     (if path \<noteq> ''/'' then Inl 404
      else case GetVPs of Inl _ \<Rightarrow> Inl 400 | Inr nodes \<Rightarrow> Inr (srt vpModelSort_Less (home_loop [] nodes)))"

section \<open>Output channels\<close>

text \<open>
  \<open>oc_funcs\<close> are the websockets that watch; \<open>oc_key\<close> the id the completion removes. A nil channel is \<open>None\<close>.
\<close>

record output_chan =
  oc_c :: "nat option"
  oc_last :: status
  oc_funcs :: "nat list"
  oc_key :: uint32
  oc_completed :: bool

definition zero_status :: status where
  "zero_status = \<lparr>st_Rep = [], st_Status = False, st_Error = []\<rparr>"

text \<open>
  A monitor waits for a report, has one and waits for the lock, or holds the lock of its channel and waits
  for \<open>rr.mu\<close> to remove the id.
\<close>

datatype monitor_phase = Waiting | Got status | Completing | Stopped

record monitor =
  mo_Oc :: nat
  mo_Phase :: monitor_phase

text \<open>
  \<open>wb_handler\<close> is the websocket handler that holds \<open>rr.mu\<close> and waits for the lock of a channel, with that
  channel and its websocket; otherwise \<open>rr.mu\<close> is free. \<open>wb_pending\<close> are ids handed out and not yet in the map.
\<close>

record 'f web =
  wb_server :: "'f server"
  wb_rts :: "uint32 \<rightharpoonup> nat option"
  wb_ocs :: "output_chan list"
  wb_monitors :: "monitor list"
  wb_handler :: "(nat \<times> nat) option"
  wb_pending :: "uint32 list"
  wb_conns :: "status list list"

definition RegisterRunRevtr :: "'f server \<Rightarrow> 'f web" where
  "RegisterRunRevtr s = \<lparr>wb_server = s, wb_rts = Map.empty, wb_ocs = [], wb_monitors = [], wb_handler = None,
     wb_pending = [], wb_conns = []\<rparr>"

text \<open>Each watcher is written the status; those where that fails (\<open>fails\<close>) are removed.\<close>

definition callAll :: "nat set \<Rightarrow> status \<Rightarrow> nat \<Rightarrow> 'f web \<Rightarrow> 'f web" where
  "callAll fails st oc w =
     (let o1 = wb_ocs w ! oc in
      w\<lparr>wb_conns := map (\<lambda>(c, ms). if c \<in> set (oc_funcs o1) - fails then ms @ [st] else ms) (zip [0..<length (wb_conns w)] (wb_conns w)),
        wb_ocs := (wb_ocs w)[oc := o1\<lparr>oc_funcs := filter (\<lambda>c. c \<notin> fails) (oc_funcs o1)\<rparr>]\<rparr>)"

definition register :: "nat set \<Rightarrow> nat \<Rightarrow> nat \<Rightarrow> 'f web \<Rightarrow> 'f web" where
  "register fails oc conn w =
     (let o1 = wb_ocs w ! oc; w1 = w\<lparr>wb_ocs := (wb_ocs w)[oc := o1\<lparr>oc_funcs := conn # oc_funcs o1\<rparr>]\<rparr> in
      if oc_last o1 \<noteq> zero_status then callAll fails (oc_last o1) oc w1 else w1)"

section \<open>Handlers\<close>

text \<open>\<open>strconv.ParseUint(key, 10, 32)\<close>\<close>

definition ParseUint32 :: "string \<Rightarrow> uint32 option" where
  "ParseUint32 s = (if s = [] \<or> \<not> list_all is_digit s then None
     else let n = dec_value 0 s in if n < 2 ^ 32 then Some (of_nat n) else None)"

text \<open>The handler of \<open>/runrevtr\<close> up to the id; it is put into the map under the lock, in a step of its own.\<close>

definition web_measurement :: "string \<Rightarrow> string \<Rightarrow> revtr_measurement" where
  "web_measurement src dst = \<lparr>rm_Src = src, rm_Dst = dst, rm_Staleness = 60, rm_Id = 0, rm_BackoffEndhost = False\<rparr>"

definition RunRevtr_page :: "string \<Rightarrow> 'f print_env \<Rightarrow> (string \<Rightarrow> string list option) \<Rightarrow> uint32 \<Rightarrow> string \<Rightarrow> string \<Rightarrow> 'f web \<Rightarrow> ((nat + uint32) \<times> 'f web) go" where
  "RunRevtr_page meth pe lookup rnd src dst w =
     (if meth \<noteq> ''GET'' then Inr (Inl 405, w)
      else if src = [] \<or> dst = [] then Inr (Inl 400, w)
      else go_bind (AddRevtr pe lookup rnd (web_measurement src dst) (wb_server w)) (\<lambda>(r, s).
        case r of
          Inl _ \<Rightarrow> Inr (Inl 500, w\<lparr>wb_server := s\<rparr>)
        | Inr rid \<Rightarrow> Inr (Inr rid, w\<lparr>wb_server := s, wb_pending := wb_pending w @ [rid]\<rparr>)))"

definition publish :: "uint32 \<Rightarrow> 'f web \<Rightarrow> 'f web" where
  "publish rid w = w\<lparr>wb_rts := (wb_rts w)(rid \<mapsto> None), wb_pending := remove1 rid (wb_pending w)\<rparr>"

text \<open>The handler of a websocket, from the lock up to the registration.\<close>

definition WS :: "string \<Rightarrow> 'f web \<Rightarrow> 'f web" where
  "WS key w =
     (case ParseUint32 key of
        None \<Rightarrow> w
      | Some rid \<Rightarrow>
          let conn = length (wb_conns w) in
          (case wb_rts w rid of
             None \<Rightarrow> w
           | Some None \<Rightarrow>
               (case StartRevtr rid (wb_server w) of (out, s) \<Rightarrow>
                let oc = length (wb_ocs w) in
                w\<lparr>wb_server := s, wb_rts := (wb_rts w)(rid \<mapsto> Some oc),
                  wb_ocs := wb_ocs w @ [\<lparr>oc_c = (case out of Inl _ \<Rightarrow> None | Inr k \<Rightarrow> Some k), oc_last = zero_status, oc_funcs = [],
                    oc_key = rid, oc_completed = False\<rparr>],
                  wb_handler := Some (oc, conn), wb_conns := wb_conns w @ [[]]\<rparr>)
           | Some (Some oc) \<Rightarrow> w\<lparr>wb_handler := Some (oc, conn), wb_conns := wb_conns w @ [[]]\<rparr>))"

definition WS_register :: "nat set \<Rightarrow> 'f web \<Rightarrow> 'f web" where
  "WS_register fails w =
     (case wb_handler w of
        None \<Rightarrow> w
      | Some (oc, conn) \<Rightarrow>
          (let w1 = register fails oc conn w
           in w1\<lparr>wb_handler := None, wb_monitors := wb_monitors w1 @ [\<lparr>mo_Oc = oc, mo_Phase = Waiting\<rparr>]\<rparr>))"

section \<open>Monitors\<close>

definition set_monitor :: "nat \<Rightarrow> monitor_phase \<Rightarrow> 'f web \<Rightarrow> 'f web" where
  "set_monitor i p w = w\<lparr>wb_monitors := (wb_monitors w)[i := (wb_monitors w ! i)\<lparr>mo_Phase := p\<rparr>]\<rparr>"

definition monitor_oc :: "nat \<Rightarrow> 'f web \<Rightarrow> nat" where
  "monitor_oc i w = mo_Oc (wb_monitors w ! i)"

text \<open>A receive: a report, or the channel is closed and empty; otherwise (\<open>None\<close>) the monitor goes on waiting.\<close>

definition monitor_receive :: "nat \<Rightarrow> 'f web \<Rightarrow> 'f web option" where
  "monitor_receive i w =
     (case oc_c (wb_ocs w ! monitor_oc i w) of
        None \<Rightarrow> None
      | Some k \<Rightarrow>
          (case ro_buf (sv_outs (wb_server w) ! k) of
             st # _ \<Rightarrow> Some (set_monitor i (Got st) (w\<lparr>wb_server := read_status k (wb_server w)\<rparr>))
           | [] \<Rightarrow> if ro_closed (sv_outs (wb_server w) ! k) then Some (set_monitor i Stopped w) else None))"

text \<open>\<open>complete\<close> is called for every report; the first time it needs \<open>rr.mu\<close>.\<close>

definition monitor_call :: "nat set \<Rightarrow> status \<Rightarrow> nat \<Rightarrow> 'f web \<Rightarrow> 'f web" where
  "monitor_call fails st i w =
     (let oc = monitor_oc i w; w1 = callAll fails st oc w; o1 = wb_ocs w1 ! oc in
      if oc_completed o1 then set_monitor i Waiting (w1\<lparr>wb_ocs := (wb_ocs w1)[oc := o1\<lparr>oc_last := st\<rparr>]\<rparr>)
      else set_monitor i Completing (w1\<lparr>wb_ocs := (wb_ocs w1)[oc := o1\<lparr>oc_last := st, oc_completed := True\<rparr>]\<rparr>))"

definition monitor_complete :: "nat \<Rightarrow> 'f web \<Rightarrow> 'f web" where
  "monitor_complete i w =
     set_monitor i Waiting (w\<lparr>wb_rts := (wb_rts w)(oc_key (wb_ocs w ! monitor_oc i w) := None)\<rparr>)"

definition oc_locked :: "nat \<Rightarrow> 'f web \<Rightarrow> bool" where
  "oc_locked oc w \<longleftrightarrow> (\<exists>m\<in>set (wb_monitors w). mo_Oc m = oc \<and> mo_Phase m = Completing)"

section \<open>Histories\<close>

text \<open>
  One step of the page: requests, websockets, monitors and the server's goroutines, none of which panics.
  The ids of the server, which have 32 bits, are not used up.
\<close>

inductive web_step :: "'w env \<Rightarrow> 'f web \<Rightarrow> 'f web \<Rightarrow> bool" for e where
  page: "unat (sv_next (wb_server w)) + 1 < 2 ^ 32 \<Longrightarrow> RunRevtr_page meth pe lookup rnd src dst w = Inr (r, w') \<Longrightarrow> web_step e w w'"
| pub: "rid \<in> set (wb_pending w) \<Longrightarrow> wb_handler w = None \<Longrightarrow> web_step e w (publish rid w)"
| ws: "wb_handler w = None \<Longrightarrow> web_step e w (WS key w)"
| reg: "wb_handler w = Some (oc, conn) \<Longrightarrow> \<not> oc_locked oc w \<Longrightarrow> web_step e w (WS_register fails w)"
| receive: "i < length (wb_monitors w) \<Longrightarrow> mo_Phase (wb_monitors w ! i) = Waiting \<Longrightarrow> monitor_receive i w = Some w' \<Longrightarrow> web_step e w w'"
| callall: "i < length (wb_monitors w) \<Longrightarrow> mo_Phase (wb_monitors w ! i) = Got st \<Longrightarrow> \<not> oc_locked (monitor_oc i w) w \<Longrightarrow>
    web_step e w (monitor_call fails st i w)"
| compl: "i < length (wb_monitors w) \<Longrightarrow> mo_Phase (wb_monitors w ! i) = Completing \<Longrightarrow> wb_handler w = None \<Longrightarrow>
    web_step e w (monitor_complete i w)"
| server: "goroutine pe e (wb_server w) (Inr s) \<Longrightarrow> web_step e w (w\<lparr>wb_server := s\<rparr>)"

inductive web_reachable :: "'w env \<Rightarrow> 'f web \<Rightarrow> bool" for e where
  web_start: "web_reachable e (RegisterRunRevtr (NewRevtrServer db))"
| web_more: "web_reachable e w \<Longrightarrow> web_step e w w' \<Longrightarrow> web_reachable e w'"

inductive_cases web_stepE: "web_step e w w'"

section \<open>Panics of channels\<close>

definition chan_free :: "'a go \<Rightarrow> bool" where
  "chan_free m \<longleftrightarrow> m \<noteq> Inl (PanicMsg ''send on closed channel'') \<and> m \<noteq> Inl (PanicMsg ''close of closed channel'')"

lemma chan_free_Inr [simp]: "chan_free (Inr x)"
  by (simp add: chan_free_def)

lemma chan_free_runtime [simp]:
  "chan_free (Inl IndexOutOfRange)" "chan_free (Inl SliceOutOfRange)" "chan_free (Inl NilDereference)" "chan_free (Inl NoReturn)"
  "chan_free (Inl (PanicMsg ''interface conversion''))"
  by (simp_all add: chan_free_def)

lemma chan_free_bind: "chan_free m \<Longrightarrow> (\<And>x. m = Inr x \<Longrightarrow> chan_free (f x)) \<Longrightarrow> chan_free (go_bind m f)"
  by (cases m) (auto simp: chan_free_def)

lemma chan_free_index [simp]: "chan_free (go_index xs i)"
  by (simp add: go_index_def)

lemma chan_free_ip_int [simp]: "chan_free (ip_int s)"
  unfolding ip_int_def IPStringToInt32_def be_uint32_def Let_def
  by (auto intro!: chan_free_bind split: sum.split)

lemma chan_free_CurrPath [simp]: "chan_free (CurrPath rt)"
  by (simp add: CurrPath_def)

lemma chan_free_resolve [simp]: "chan_free (resolveHostname e ip ca)"
  unfolding resolveHostname_def
  by (auto intro!: chan_free_bind split: option.split sum.split cache_item.split)

lemma chan_free_rtt [simp]: "chan_free (getRTT e src dst ca)"
  unfolding getRTT_def Let_def
  by (auto intro!: chan_free_bind split: option.split cache_item.split ping_stream.split list.split)

lemma chan_free_hop [simp]: "chan_free (print_hop e rt symbol hop st)"
  unfolding print_hop_def Let_def by (auto intro!: chan_free_bind split: prod.split)

lemma chan_free_hops [simp]: "chan_free (print_hops e rt symbol hops st)"
  by (induction hops arbitrary: st) (auto intro!: chan_free_bind)

lemma chan_free_segments [simp]: "chan_free (print_segments e rt segs st)"
  by (induction segs arbitrary: st) (auto intro!: chan_free_bind split: prod.split)

lemma chan_free_report [simp]: "chan_free (makePrintHTML e rt ca)"
  unfolding makePrintHTML_def Let_def by (auto intro!: chan_free_bind split: prod.split)

lemma pf_open:
  assumes "\<not> ro_closed (sv_outs s ! k)"
  shows "chan_free (pf pe k rt s)"
    and "pf pe k rt s = Inr s' \<Longrightarrow> \<exists>ca buf. s' = s\<lparr>sv_ca := ca, sv_outs := (sv_outs s)[k := (sv_outs s ! k)\<lparr>ro_buf := buf\<rparr>]\<rparr>"
proof -
  show "chan_free (pf pe k rt s)"
    unfolding pf_def by (auto intro!: chan_free_bind simp: send_status_def assms split: prod.split)
  assume "pf pe k rt s = Inr s'"
  then obtain st ca o1 where p: "send_status st (sv_outs s ! k) = Inr o1" "s' = s\<lparr>sv_ca := ca, sv_outs := (sv_outs s)[k := o1]\<rparr>"
    by (auto simp: pf_def go_bind_Inr_iff)
  have "o1 = (sv_outs s ! k)\<lparr>ro_buf := ro_buf o1\<rparr>" using p(1) assms by (auto simp: send_status_def split: if_split_asm)
  with p(2) show "\<exists>ca buf. s' = s\<lparr>sv_ca := ca, sv_outs := (sv_outs s)[k := (sv_outs s ! k)\<lparr>ro_buf := buf\<rparr>]\<rparr>" by metis
qed

lemma chan_free_store_path [simp]: "chan_free (store_path rid i hs db)"
  by (induction hs arbitrary: i db) (auto intro!: chan_free_bind split: option.split)

lemma chan_free_StoreRevtr [simp]: "chan_free (StoreRevtr rt db)"
  unfolding StoreRevtr_def store_stats_def
  by (auto intro!: chan_free_bind split: option.split sum.split prod.split)

lemma chan_free_ToStorable [simp]: "chan_free (ToStorable rt)"
  unfolding ToStorable_def Let_def by (auto intro!: chan_free_bind split: prod.split bool.split)

section \<open>The server's channels\<close>

text \<open>Storing a result makes no callback.\<close>

definition silent :: "revtr \<Rightarrow> bool" where
  "silent rt \<longleftrightarrow> (\<forall>st rt'. ToStorable rt = Inr (st, rt') \<longrightarrow> callbacks rt' = callbacks rt)"

text \<open>
  Every goroutine has an output of its own, and an output is closed only once its goroutine is past the
  run; reverse traceroutes are found under one id.
\<close>

definition server_inv :: "'f server \<Rightarrow> bool" where
  "server_inv s \<longleftrightarrow> distinct (map sg_Out (sv_starters s)) \<and> (\<forall>g\<in>set (sv_starters s). sg_Out g < length (sv_outs s)) \<and>
     (\<forall>k<length (sv_outs s). ro_closed (sv_outs s ! k) \<longrightarrow>
        (\<exists>g\<in>set (sv_starters s). sg_Out g = k \<and> (sg_Phase g = Storing \<or> sg_Phase g = Ended))) \<and>
     (\<forall>o1\<in>set (sv_outs s). \<not> BackoffEndhost (ro_rt o1)) \<and>
     (\<forall>g\<in>set (sv_starters s). sg_Phase g = Storing \<longrightarrow> silent (ro_rt (sv_outs s ! sg_Out g))) \<and>
     (\<forall>rid k. sv_revtrs s rid = Some k \<longrightarrow> k < length (sv_outs s)) \<and>
     (\<forall>rid rid' k. sv_revtrs s rid = Some k \<and> sv_revtrs s rid' = Some k \<longrightarrow> rid = rid')"

lemma server_invD:
  assumes "server_inv s"
  shows "g \<in> set (sv_starters s) \<Longrightarrow> sg_Out g < length (sv_outs s)"
    and "g \<in> set (sv_starters s) \<Longrightarrow> g' \<in> set (sv_starters s) \<Longrightarrow> sg_Out g = sg_Out g' \<Longrightarrow> g = g'"
    and "g \<in> set (sv_starters s) \<Longrightarrow> sg_Phase g \<noteq> Storing \<Longrightarrow> sg_Phase g \<noteq> Ended \<Longrightarrow> \<not> ro_closed (sv_outs s ! sg_Out g)"
    and "k < length (sv_outs s) \<Longrightarrow> \<not> BackoffEndhost (ro_rt (sv_outs s ! k))"
    and "g \<in> set (sv_starters s) \<Longrightarrow> sg_Phase g = Storing \<Longrightarrow> silent (ro_rt (sv_outs s ! sg_Out g))"
    and "sv_revtrs s rid = Some k \<Longrightarrow> k < length (sv_outs s)"
    and "sv_revtrs s rid = Some k \<Longrightarrow> sv_revtrs s rid' = Some k \<Longrightarrow> rid = rid'"
proof -
  show uniq: "g \<in> set (sv_starters s) \<Longrightarrow> g' \<in> set (sv_starters s) \<Longrightarrow> sg_Out g = sg_Out g' \<Longrightarrow> g = g'" for g g'
    using assms by (auto simp: server_inv_def distinct_map inj_on_def)
  show "\<not> ro_closed (sv_outs s ! sg_Out g)" if "g \<in> set (sv_starters s)" "sg_Phase g \<noteq> Storing" "sg_Phase g \<noteq> Ended"
  proof
    assume "ro_closed (sv_outs s ! sg_Out g)"
    moreover have "sg_Out g < length (sv_outs s)" using assms that(1) by (simp add: server_inv_def)
    ultimately obtain g' where "g' \<in> set (sv_starters s)" "sg_Out g' = sg_Out g" "sg_Phase g' = Storing \<or> sg_Phase g' = Ended"
      using assms unfolding server_inv_def by blast
    with uniq [OF that(1), of g'] that(2,3) show False by auto
  qed
qed (use assms in \<open>auto simp: server_inv_def\<close>)

lemma set_phase_simps [simp]:
  "sv_outs (set_phase j p s) = sv_outs s" "sv_revtrs (set_phase j p s) = sv_revtrs s" "sv_next (set_phase j p s) = sv_next s"
  "sv_running (set_phase j p s) = sv_running s"
  "map sg_Out (sv_starters (set_phase j p s)) = map sg_Out (sv_starters s)"
  "map sg_Id (sv_starters (set_phase j p s)) = map sg_Id (sv_starters s)"
  by (simp_all add: set_phase_def map_update_same)

lemma set_phase_starters:
  assumes "server_inv s" and "j < length (sv_starters s)"
  shows "set (sv_starters (set_phase j p s)) = insert ((sv_starters s ! j)\<lparr>sg_Phase := p\<rparr>) (set (sv_starters s) - {sv_starters s ! j})"
proof -
  have "distinct (sv_starters s)" using assms(1) by (simp add: server_inv_def distinct_map)
  then show ?thesis using assms(2) by (simp add: set_phase_def set_update_distinct)
qed

text \<open>An update of one output by its own goroutine, which moves to another phase.\<close>

lemma server_inv_move:
  assumes inv: "server_inv s" and j: "j < length (sv_starters s)" and g: "g = sv_starters s ! j" "k = sg_Out g"
    and s': "sv_starters s' = sv_starters (set_phase j p s)" "sv_outs s' = (sv_outs s)[k := out]"
      "\<And>rid. sv_revtrs s' rid = sv_revtrs s rid \<or> sv_revtrs s' rid = None"
    and o1: "ro_closed out \<longrightarrow> p = Storing \<or> p = Ended" "\<not> BackoffEndhost (ro_rt out)" "p = Storing \<longrightarrow> silent (ro_rt out)"
  shows "server_inv s'"
proof -
  have k: "k < length (sv_outs s)" and gs: "g \<in> set (sv_starters s)" using server_invD(1) [OF inv] j g by auto
  have st: "set (sv_starters s') = insert (g\<lparr>sg_Phase := p\<rparr>) (set (sv_starters s) - {g})"
    unfolding s'(1) g(1) by (rule set_phase_starters [OF inv j])
  have other: "sg_Out h \<noteq> k" if "h \<in> set (sv_starters s) - {g}" for h
    using server_invD(2) [OF inv gs, of h] that g(2) by auto
  have "distinct (map sg_Out (sv_starters s'))" using inv s'(1) by (simp add: server_inv_def)
  moreover have "\<forall>h\<in>set (sv_starters s'). sg_Out h < length (sv_outs s')"
    using st s'(2) k g(2) server_invD(1) [OF inv] by auto
  moreover have "\<exists>h\<in>set (sv_starters s'). sg_Out h = i \<and> (sg_Phase h = Storing \<or> sg_Phase h = Ended)"
    if i: "i < length (sv_outs s')" "ro_closed (sv_outs s' ! i)" for i
  proof (cases "i = k")
    case True
    with i k s'(2) o1(1) have "p = Storing \<or> p = Ended" by auto
    with st True g(2) show ?thesis by auto
  next
    case False
    with i s'(2) have "i < length (sv_outs s)" "ro_closed (sv_outs s ! i)" by auto
    then obtain h where h: "h \<in> set (sv_starters s)" "sg_Out h = i" "sg_Phase h = Storing \<or> sg_Phase h = Ended"
      using inv unfolding server_inv_def by blast
    moreover have "h \<noteq> g" using h(2) False g(2) by auto
    ultimately show ?thesis using st by auto
  qed
  moreover have "\<forall>o2\<in>set (sv_outs s'). \<not> BackoffEndhost (ro_rt o2)"
    using inv o1(2) set_update_subset_insert [of "sv_outs s" k out] by (auto simp: server_inv_def s'(2))
  moreover have "silent (ro_rt (sv_outs s' ! sg_Out h))" if h: "h \<in> set (sv_starters s')" "sg_Phase h = Storing" for h
  proof -
    from h(1) st consider "h = g\<lparr>sg_Phase := p\<rparr>" | "h \<in> set (sv_starters s) - {g}" by auto
    then show ?thesis
    proof cases
      case 1
      with h(2) o1(3) k g(2) s'(2) show ?thesis by simp
    next
      case 2
      with h(2) server_invD(5) [OF inv, of h] other [OF 2] s'(2) show ?thesis by simp
    qed
  qed
  moreover have "\<forall>rid i. sv_revtrs s' rid = Some i \<longrightarrow> i < length (sv_outs s')"
    using server_invD(6) [OF inv] s'(2,3) by (metis length_list_update option.distinct(1))
  moreover have "\<forall>rid rid' i. sv_revtrs s' rid = Some i \<and> sv_revtrs s' rid' = Some i \<longrightarrow> rid = rid'"
    using server_invD(7) [OF inv] s'(3) by (metis option.distinct(1))
  ultimately show ?thesis unfolding server_inv_def by blast
qed

text \<open>What the goroutines leave of the server for the page.\<close>

definition server_kept :: "'f server \<Rightarrow> 'f server \<Rightarrow> bool" where
  "server_kept s s' \<longleftrightarrow> sv_next s' = sv_next s \<and> map sg_Id (sv_starters s') = map sg_Id (sv_starters s) \<and>
     map sg_Out (sv_starters s') = map sg_Out (sv_starters s) \<and> length (sv_outs s') = length (sv_outs s) \<and>
     (\<forall>rid. sv_revtrs s' rid = sv_revtrs s rid \<or> rid \<in> sg_Id ` set (sv_starters s) \<and> sv_revtrs s' rid = None)"

lemma silent_run:
  assumes "run n m e rt w = Inr (rt', w')" "e_Done e = (\<lambda>_. False)" "\<not> BackoffEndhost rt"
  shows "silent rt' \<and> \<not> BackoffEndhost rt'"
  using ToStorable_silent [OF assms] run_keeps [OF assms(1)] assms(3) by (auto simp: silent_def run_frame_def)

lemma goroutine_ok:
  assumes inv: "server_inv s" and d: "e_Done e = (\<lambda>_. False)" and g: "goroutine pe e s r"
  shows "chan_free r \<and> (\<forall>s'. r = Inr s' \<longrightarrow> server_inv s' \<and> server_kept s s')"
  using g
proof (cases rule: goroutine.cases)
  case (checks j)
  let ?k = "sg_Out (sv_starters s ! j)" and ?s = "check_running j s"
  have gs: "sv_starters s ! j \<in> set (sv_starters s)" using checks(2) by simp
  have "server_inv ?s"
  proof (rule server_inv_move [OF inv checks(2) refl refl, where out = "sv_outs s ! ?k"])
    show "sv_starters ?s = sv_starters (set_phase j (if sg_Id (sv_starters s ! j) \<in> sv_running s then Ended else Cleared) s)"
      by (simp add: check_running_def)
  qed (use server_invD(3) [OF inv gs] server_invD(1,4) [OF inv] gs checks(3) in \<open>auto simp: check_running_def\<close>)
  then show ?thesis using checks(1) by (simp add: server_kept_def check_running_def)
next
  case (begins j)
  let ?k = "sg_Out (sv_starters s ! j)" and ?s = "begin_run j s"
  have gs: "sv_starters s ! j \<in> set (sv_starters s)" using begins(2) by simp
  have "server_inv ?s"
  proof (rule server_inv_move [OF inv begins(2) refl refl, where out = "sv_outs s ! ?k"])
    show "sv_starters ?s = sv_starters (set_phase j InRun s)" by (simp add: begin_run_def set_phase_def)
  qed (use server_invD(3) [OF inv gs] server_invD(1,4) [OF inv] gs begins(3) in \<open>auto simp: begin_run_def\<close>)
  then show ?thesis using begins(1) by (simp add: server_kept_def begin_run_def)
next
  case (reports j rt)
  let ?k = "sg_Out (sv_starters s ! j)"
  have gs: "sv_starters s ! j \<in> set (sv_starters s)" using reports(2) by simp
  have op: "\<not> ro_closed (sv_outs s ! ?k)" using server_invD(3) [OF inv gs] reports(3) by simp
  have "server_inv s' \<and> server_kept s s'" if "pf pe ?k rt s = Inr s'" for s'
  proof -
    from pf_open(2) [OF op that] obtain ca buf where s': "s' = s\<lparr>sv_ca := ca, sv_outs := (sv_outs s)[?k := (sv_outs s ! ?k)\<lparr>ro_buf := buf\<rparr>]\<rparr>"
      by blast
    have "set_phase j (sg_Phase (sv_starters s ! j)) s = s" by (simp add: set_phase_def)
    then have "server_inv s'"
      by (intro server_inv_move [OF inv reports(2) refl refl, where p = "sg_Phase (sv_starters s ! j)" and
          out = "(sv_outs s ! ?k)\<lparr>ro_buf := buf\<rparr>"])
        (use op server_invD(1,4) [OF inv] gs reports(3) in \<open>auto simp: s'\<close>)
    then show ?thesis by (simp add: server_kept_def s')
  qed
  with pf_open(1) [OF op, of pe rt] show ?thesis unfolding reports(1) by simp
next
  case (ends j n m w drtr w')
  let ?g = "sv_starters s ! j"
  have gs: "?g \<in> set (sv_starters s)" using ends(2) by simp
  have op: "\<not> ro_closed (sv_outs s ! sg_Out ?g)" using server_invD(3) [OF inv gs] ends(3) by simp
  have "\<not> BackoffEndhost (ro_rt (sv_outs s ! sg_Out ?g))" using server_invD(1,4) [OF inv] gs by blast
  note sil = silent_run [OF ends(4) d this]
  let ?s = "set_phase j Storing (s\<lparr>sv_revtrs := (sv_revtrs s)(sg_Id ?g := None), sv_running := sv_running s - {sg_Id ?g},
        sv_outs := (sv_outs s)[sg_Out ?g := (sv_outs s ! sg_Out ?g)\<lparr>ro_rt := drtr, ro_closed := True\<rparr>]\<rparr>)"
  have "server_inv ?s"
    by (rule server_inv_move [OF inv ends(2) refl refl, where p = Storing and
        out = "(sv_outs s ! sg_Out ?g)\<lparr>ro_rt := drtr, ro_closed := True\<rparr>"]) (use sil in \<open>auto simp: set_phase_def\<close>)
  moreover have "server_kept s ?s"
    using gs by (simp add: server_kept_def)
  ultimately show ?thesis using ends(1) op by (simp add: end_run_def Let_def)
next
  case (stores j)
  let ?g = "sv_starters s ! j"
  have gs: "?g \<in> set (sv_starters s)" using stores(2) by simp
  have sil: "silent (ro_rt (sv_outs s ! sg_Out ?g))" by (rule server_invD(5) [OF inv gs stores(3)])
  have "chan_free (store_run pe j s)"
    unfolding store_run_def Let_def using sil
    by (auto intro!: chan_free_bind simp: silent_def split: prod.split)
  moreover have "server_inv s' \<and> server_kept s s'" if "store_run pe j s = Inr s'" for s'
  proof -
    from that sil obtain db where s': "s' = set_phase j Ended (s\<lparr>sv_db := db\<rparr>)"
      by (auto simp: store_run_def Let_def go_bind_Inr_iff silent_def)
    have "server_inv s'"
      by (rule server_inv_move [OF inv stores(2) refl refl, where p = Ended and out = "sv_outs s ! sg_Out ?g"])
        (use server_invD(1,4) [OF inv] gs in \<open>auto simp: s' set_phase_def\<close>)
    then show ?thesis by (simp add: server_kept_def s')
  qed
  ultimately show ?thesis unfolding stores(1) by simp
qed

section \<open>The page starts nothing twice\<close>

definition web_inv :: "'f web \<Rightarrow> bool" where
  "web_inv w \<longleftrightarrow> server_inv (wb_server w) \<and>
     (\<forall>rid. wb_rts w rid = Some None \<or> rid \<in> set (wb_pending w) \<longrightarrow>
        (\<exists>k. sv_revtrs (wb_server w) rid = Some k \<and> k \<notin> sg_Out ` set (sv_starters (wb_server w))) \<and>
        rid \<notin> sg_Id ` set (sv_starters (wb_server w))) \<and>
     distinct (wb_pending w) \<and> (\<forall>rid\<in>set (wb_pending w). wb_rts w rid = None) \<and>
     (\<forall>rid. sv_revtrs (wb_server w) rid \<noteq> None \<or> wb_rts w rid \<noteq> None \<or> rid \<in> sg_Id ` set (sv_starters (wb_server w)) \<longrightarrow>
        rid \<le> sv_next (wb_server w))"

lemma web_invD:
  assumes "web_inv w"
  shows "server_inv (wb_server w)"
    and "wb_rts w rid = Some None \<or> rid \<in> set (wb_pending w) \<Longrightarrow>
      (\<exists>k. sv_revtrs (wb_server w) rid = Some k \<and> k \<notin> sg_Out ` set (sv_starters (wb_server w))) \<and>
      rid \<notin> sg_Id ` set (sv_starters (wb_server w))"
    and "distinct (wb_pending w)" "rid \<in> set (wb_pending w) \<Longrightarrow> wb_rts w rid = None"
    and "sv_revtrs (wb_server w) rid \<noteq> None \<or> wb_rts w rid \<noteq> None \<or> rid \<in> sg_Id ` set (sv_starters (wb_server w)) \<Longrightarrow>
      rid \<le> sv_next (wb_server w)"
  using assms unfolding web_inv_def by blast+

lemma next_id: "unat (x :: uint32) + 1 < 2 ^ 32 \<Longrightarrow> x < x + 1"
  by (simp add: word_less_nat_alt unat_word_ariths)

lemma AddRevtr_added:
  assumes inv: "server_inv s" and bo: "\<not> rm_BackoffEndhost rtm"
  shows "chan_free (AddRevtr pe lookup rnd rtm s)"
    and "AddRevtr pe lookup rnd rtm s = Inr (Inl err, s') \<Longrightarrow> s' = s"
    and "AddRevtr pe lookup rnd rtm s = Inr (Inr rid, s') \<Longrightarrow> server_inv s' \<and> rid = sv_next s + 1 \<and> sv_next s' = rid \<and>
      sv_starters s' = sv_starters s \<and> sv_revtrs s' = (sv_revtrs s)(rid \<mapsto> length (sv_outs s))"
proof -
  let ?k = "length (sv_outs s)"
  let ?s1 = "\<lambda>rt. s\<lparr>sv_next := sv_next s + 1, sv_outs := sv_outs s @ [\<lparr>ro_rt = rt, ro_buf = [], ro_closed = False\<rparr>]\<rparr>"
  have op: "\<not> ro_closed (sv_outs (?s1 rt) ! ?k)" for rt by simp
  show "chan_free (AddRevtr pe lookup rnd rtm s)"
    unfolding AddRevtr_def Let_def
    by (auto intro!: chan_free_bind pf_open(1) split: sum.split prod.split)
  show "s' = s" if "AddRevtr pe lookup rnd rtm s = Inr (Inl err, s')"
    using that by (auto simp: AddRevtr_def Let_def go_bind_Inr_iff split: sum.split_asm prod.split_asm)
  assume "AddRevtr pe lookup rnd rtm s = Inr (Inr rid, s')"
  then obtain src dst s2 where a: "pf pe ?k (CreateReverseTraceroute rnd (rtm\<lparr>rm_Src := src, rm_Dst := dst\<rparr>) True True True)
      (?s1 (CreateReverseTraceroute rnd (rtm\<lparr>rm_Src := src, rm_Dst := dst\<rparr>) True True True)) = Inr s2"
    "rid = sv_next s + 1" "s' = s2\<lparr>sv_revtrs := (sv_revtrs s2)(rid \<mapsto> ?k)\<rparr>"
    by (auto simp: AddRevtr_def Let_def go_bind_Inr_iff split: sum.split_asm prod.split_asm)
  define rt where "rt = CreateReverseTraceroute rnd (rtm\<lparr>rm_Src := src, rm_Dst := dst\<rparr>) True True True"
  have rt: "\<not> BackoffEndhost rt" using bo by (simp add: rt_def CreateReverseTraceroute_def)
  from pf_open(2) [OF op a(1)] obtain ca buf where s2: "s2 = (?s1 rt)\<lparr>sv_ca := ca, sv_outs := sv_outs s @ [\<lparr>ro_rt = rt, ro_buf = buf, ro_closed = False\<rparr>]\<rparr>"
    by (auto simp: rt_def list_update_append)
  have "server_inv s'"
    unfolding server_inv_def
  proof (intro conjI)
    show "\<forall>k<length (sv_outs s'). ro_closed (sv_outs s' ! k) \<longrightarrow>
        (\<exists>g\<in>set (sv_starters s'). sg_Out g = k \<and> (sg_Phase g = Storing \<or> sg_Phase g = Ended))"
      using inv by (simp add: a(3) s2 nth_append server_inv_def less_Suc_eq)
    show "\<forall>g\<in>set (sv_starters s'). sg_Phase g = Storing \<longrightarrow> silent (ro_rt (sv_outs s' ! sg_Out g))"
      using server_invD(1,5) [OF inv] by (simp add: a(3) s2 nth_append)
    show "\<forall>g\<in>set (sv_starters s'). sg_Out g < length (sv_outs s')"
      using server_invD(1) [OF inv] by (fastforce simp: a(3) s2)
    show "\<forall>rid k. sv_revtrs s' rid = Some k \<longrightarrow> k < length (sv_outs s')"
    proof (intro allI impI)
      fix r k assume "sv_revtrs s' r = Some k"
      then show "k < length (sv_outs s')"
        using server_invD(6) [OF inv, of r k] by (cases "r = rid") (auto simp: a(3) s2)
    qed
    show "\<forall>rid rid' k. sv_revtrs s' rid = Some k \<and> sv_revtrs s' rid' = Some k \<longrightarrow> rid = rid'"
      using server_invD(6,7) [OF inv] by (auto simp: a(3) s2)
  qed (use inv rt in \<open>auto simp: a(3) s2 server_inv_def\<close>)
  then show "server_inv s' \<and> rid = sv_next s + 1 \<and> sv_next s' = rid \<and>
      sv_starters s' = sv_starters s \<and> sv_revtrs s' = (sv_revtrs s)(rid \<mapsto> length (sv_outs s))"
    by (simp add: a(2,3) s2)
qed

lemma server_inv_start:
  assumes "server_inv s" and "sv_revtrs s rid = Some k" and "k \<notin> sg_Out ` set (sv_starters s)"
  shows "server_inv (s\<lparr>sv_starters := sv_starters s @ [\<lparr>sg_Id = rid, sg_Out = k, sg_Phase = Spawned\<rparr>]\<rparr>)"
  using assms server_invD(6) [OF assms(1,2)] by (auto simp: server_inv_def)

lemma server_inv_read: "server_inv s \<Longrightarrow> server_inv (read_status k s)"
proof -
  assume inv: "server_inv s"
  define outs where "outs = (sv_outs s)[k := (sv_outs s ! k)\<lparr>ro_buf := tl (ro_buf (sv_outs s ! k))\<rparr>]"
  have len: "length outs = length (sv_outs s)" by (simp add: outs_def)
  have rt: "ro_rt (outs ! i) = ro_rt (sv_outs s ! i)" "ro_closed (outs ! i) = ro_closed (sv_outs s ! i)" for i
  proof -
    have "outs ! i = sv_outs s ! i \<or> outs ! i = (sv_outs s ! i)\<lparr>ro_buf := tl (ro_buf (sv_outs s ! i))\<rparr>"
      by (cases "k < length (sv_outs s)") (auto simp: outs_def nth_list_update list_update_beyond)
    then show "ro_rt (outs ! i) = ro_rt (sv_outs s ! i)" "ro_closed (outs ! i) = ro_closed (sv_outs s ! i)" by auto
  qed
  have "\<forall>o1\<in>set outs. \<not> BackoffEndhost (ro_rt o1)"
    using server_invD(4) [OF inv] unfolding all_set_conv_all_nth len rt by blast
  moreover have "read_status k s = s\<lparr>sv_outs := outs\<rparr>" by (simp add: read_status_def outs_def)
  ultimately show ?thesis using inv unfolding server_inv_def by (simp add: rt len)
qed

lemma page_frame [simp]:
  "wb_server (set_monitor i p w) = wb_server w" "wb_rts (set_monitor i p w) = wb_rts w" "wb_pending (set_monitor i p w) = wb_pending w"
  "wb_server (callAll fails st oc w) = wb_server w" "wb_rts (callAll fails st oc w) = wb_rts w"
  "wb_pending (callAll fails st oc w) = wb_pending w"
  "wb_server (register fails oc conn w) = wb_server w" "wb_rts (register fails oc conn w) = wb_rts w"
  "wb_pending (register fails oc conn w) = wb_pending w"
  "wb_server (WS_register fails w) = wb_server w" "wb_rts (WS_register fails w) = wb_rts w"
  "wb_pending (WS_register fails w) = wb_pending w"
  "wb_server (monitor_call fails st i w) = wb_server w" "wb_rts (monitor_call fails st i w) = wb_rts w"
  "wb_pending (monitor_call fails st i w) = wb_pending w"
  "wb_server (monitor_complete i w) = wb_server w" "wb_pending (monitor_complete i w) = wb_pending w"
  by (simp_all add: set_monitor_def callAll_def register_def WS_register_def monitor_call_def monitor_complete_def Let_def split: option.split prod.split)

lemma web_inv_cong:
  "web_inv w \<Longrightarrow> wb_server w' = wb_server w \<Longrightarrow> wb_pending w' = wb_pending w \<Longrightarrow> (\<And>rid. wb_rts w' rid = wb_rts w rid \<or> wb_rts w' rid = None) \<Longrightarrow>
     web_inv w'"
  unfolding web_inv_def by (metis option.distinct(1))

lemma RunRevtr_page_cases:
  assumes p: "RunRevtr_page meth pe lookup rnd src dst w = Inr (r, w')"
  obtains (refused) err where "w' = w" "r = Inl err"
  | (failed) err s where "AddRevtr pe lookup rnd (web_measurement src dst) (wb_server w) = Inr (Inl err, s)" "r = Inl 500"
      "w' = w\<lparr>wb_server := s\<rparr>"
  | (added) rid s where "AddRevtr pe lookup rnd (web_measurement src dst) (wb_server w) = Inr (Inr rid, s)" "r = Inr rid"
      "w' = w\<lparr>wb_server := s, wb_pending := wb_pending w @ [rid]\<rparr>"
proof (cases "meth \<noteq> ''GET'' \<or> src = [] \<or> dst = []")
  case True
  with p have "w' = w" "r = Inl 405 \<or> r = Inl 400" by (cases "meth = ''GET''"; simp add: RunRevtr_page_def)+
  then show ?thesis using that(1) by blast
next
  case False
  with p have b: "go_bind (AddRevtr pe lookup rnd (web_measurement src dst) (wb_server w)) (\<lambda>(r, s).
      case r of Inl _ \<Rightarrow> Inr (Inl 500, w\<lparr>wb_server := s\<rparr>)
      | Inr rid \<Rightarrow> Inr (Inr rid, w\<lparr>wb_server := s, wb_pending := wb_pending w @ [rid]\<rparr>)) = Inr (r, w')"
    by (simp add: RunRevtr_page_def)
  then obtain x s where x: "AddRevtr pe lookup rnd (web_measurement src dst) (wb_server w) = Inr (x, s)"
    unfolding go_bind_Inr_iff by fastforce
  with b that(2,3) show ?thesis by (cases x) auto
qed

lemma web_inv_page:
  assumes inv: "web_inv w" and room: "unat (sv_next (wb_server w)) + 1 < 2 ^ 32"
    and p: "RunRevtr_page meth pe lookup rnd src dst w = Inr (r, w')"
  shows "web_inv w'"
proof -
  have bo: "\<not> rm_BackoffEndhost (web_measurement src dst)" by (simp add: web_measurement_def)
  note sinv = web_invD(1) [OF inv] and old = web_invD(2-5) [OF inv]
  from p show ?thesis
  proof (cases rule: RunRevtr_page_cases)
    case failed
    with AddRevtr_added(2) [OF sinv bo] have "w' = w" by auto
    with inv show ?thesis by simp
  next
    case (added rid s)
    note a = AddRevtr_added(3) [OF sinv bo added(1)]
    have new: "sv_next (wb_server w) < rid" using next_id [OF room] a by simp
    have fresh: "sv_revtrs (wb_server w) rid = None" "wb_rts w rid = None" "rid \<notin> sg_Id ` set (sv_starters (wb_server w))"
      using old(4) [of rid] new by (meson linorder_not_less)+
    then have "rid \<notin> set (wb_pending w)" using old(1) [of rid] by auto
    moreover have "length (sv_outs (wb_server w)) \<notin> sg_Out ` set (sv_starters (wb_server w))"
      using server_invD(1) [OF sinv] by fastforce
    moreover have "r \<le> rid" if "r \<le> sv_next (wb_server w)" for r using that new by simp
    ultimately show ?thesis
      using inv a fresh unfolding added(3) web_inv_def by auto
  qed (use inv in simp)
qed

lemma web_inv_publish:
  assumes inv: "web_inv w" and rid: "rid \<in> set (wb_pending w)"
  shows "web_inv (publish rid w)"
proof -
  have "set (remove1 rid (wb_pending w)) = set (wb_pending w) - {rid}" "distinct (remove1 rid (wb_pending w))"
    using web_invD(3) [OF inv] by simp_all
  moreover have "sv_revtrs (wb_server w) rid \<noteq> None" using web_invD(2) [OF inv] rid by blast
  ultimately show ?thesis
    using inv rid unfolding web_inv_def publish_def by auto
qed

lemma web_inv_WS:
  assumes inv: "web_inv w"
  shows "web_inv (WS key w)"
proof (cases "ParseUint32 key")
  case (Some rid)
  show ?thesis
  proof (cases "wb_rts w rid")
    case None
    with inv Some show ?thesis by (simp add: WS_def Let_def)
  next
    case r: (Some entry)
    show ?thesis
    proof (cases entry)
      case None
      with r web_invD(2) [OF inv, of rid] obtain k where k: "sv_revtrs (wb_server w) rid = Some k"
        "k \<notin> sg_Out ` set (sv_starters (wb_server w))" "rid \<notin> sg_Id ` set (sv_starters (wb_server w))" by auto
      let ?s = "wb_server w" and ?oc = "length (wb_ocs w)"
      let ?s' = "?s\<lparr>sv_starters := sv_starters ?s @ [\<lparr>sg_Id = rid, sg_Out = k, sg_Phase = Spawned\<rparr>]\<rparr>"
      have w': "wb_server (WS key w) = ?s'" "wb_rts (WS key w) = (wb_rts w)(rid \<mapsto> Some ?oc)" "wb_pending (WS key w) = wb_pending w"
        using Some r None k(1) by (simp_all add: WS_def Let_def StartRevtr_def)
      have pend: "rid \<notin> set (wb_pending w)" using web_invD(4) [OF inv, of rid] r by auto
      have "server_inv ?s'" by (rule server_inv_start [OF web_invD(1) [OF inv] k(1,2)])
      moreover have "(\<exists>i. sv_revtrs ?s r = Some i \<and> i \<notin> insert k (sg_Out ` set (sv_starters ?s))) \<and> r \<notin> insert rid (sg_Id ` set (sv_starters ?s))"
        if "r \<noteq> rid" "wb_rts w r = Some None \<or> r \<in> set (wb_pending w)" for r
      proof -
        from web_invD(2) [OF inv that(2)] obtain i where i: "sv_revtrs ?s r = Some i" "i \<notin> sg_Out ` set (sv_starters ?s)"
          "r \<notin> sg_Id ` set (sv_starters ?s)" by auto
        moreover have "i \<noteq> k" using server_invD(7) [OF web_invD(1) [OF inv] k(1), of r] i(1) that(1) by auto
        ultimately show ?thesis using that(1) by auto
      qed
      ultimately show ?thesis
        unfolding web_inv_def w' using web_invD(3,4,5) [OF inv] pend r by (auto split: if_split_asm)
    next
      case (Some oc)
      with r \<open>ParseUint32 key = Some rid\<close> show ?thesis
        by (intro web_inv_cong [OF inv]) (simp_all add: WS_def Let_def)
    qed
  qed
qed (use inv in \<open>simp add: WS_def\<close>)

lemma web_inv_server:
  assumes inv: "web_inv w" and s: "server_inv s" "server_kept (wb_server w) s"
  shows "web_inv (w\<lparr>wb_server := s\<rparr>)"
proof -
  have sets: "sg_Out ` set (sv_starters s) = sg_Out ` set (sv_starters (wb_server w))"
    "sg_Id ` set (sv_starters s) = sg_Id ` set (sv_starters (wb_server w))" "sv_next s = sv_next (wb_server w)"
    using s(2) by (metis server_kept_def set_map)+
  have keep: "sv_revtrs s rid = sv_revtrs (wb_server w) rid \<or> rid \<in> sg_Id ` set (sv_starters (wb_server w)) \<and> sv_revtrs s rid = None" for rid
    using s(2) by (simp add: server_kept_def)
  have "\<exists>k. sv_revtrs s rid = Some k \<and> k \<notin> sg_Out ` set (sv_starters (wb_server w))"
    if "wb_rts w rid = Some None \<or> rid \<in> set (wb_pending w)" for rid
    using web_invD(2) [OF inv that] keep [of rid] by auto
  moreover have "rid \<le> sv_next (wb_server w)" if "sv_revtrs s rid \<noteq> None" for rid
    using web_invD(5) [OF inv, of rid] keep [of rid] that by auto
  ultimately show ?thesis
    using inv s(1) unfolding web_inv_def by (simp add: sets)
qed

lemma web_inv_receive:
  assumes inv: "web_inv w" and r: "monitor_receive i w = Some w'"
  shows "web_inv w'"
proof -
  from r obtain k where "oc_c (wb_ocs w ! monitor_oc i w) = Some k" by (auto simp: monitor_receive_def split: option.split_asm)
  with r consider "w' = set_monitor i Stopped w" | st k where "w' = set_monitor i (Got st) (w\<lparr>wb_server := read_status k (wb_server w)\<rparr>)"
    by (cases "ro_buf (sv_outs (wb_server w) ! k)") (auto simp: monitor_receive_def split: if_split_asm)
  then show ?thesis
  proof cases
    case 1
    then show ?thesis using web_inv_cong [OF inv, of w'] by simp
  next
    case 2
    have "server_kept (wb_server w) (read_status k (wb_server w))" by (simp add: server_kept_def read_status_def)
    from web_inv_server [OF inv server_inv_read [OF web_invD(1) [OF inv]] this]
    have "web_inv (w\<lparr>wb_server := read_status k (wb_server w)\<rparr>)" .
    then show ?thesis unfolding 2 by (rule web_inv_cong) simp_all
  qed
qed

lemma web_step_inv: "web_step e w w' \<Longrightarrow> e_Done e = (\<lambda>_. False) \<Longrightarrow> web_inv w \<Longrightarrow> web_inv w'"
proof (induction rule: web_step.induct)
  case (page w meth pe lookup rnd src dst r w')
  then show ?case using web_inv_page [of w] by blast
next
  case (pub rid w)
  then show ?case using web_inv_publish [of w] by blast
next
  case (ws w key)
  then show ?case using web_inv_WS [of w] by blast
next
  case (reg w oc conn fails)
  show ?case by (rule web_inv_cong [OF reg.prems(2)]) simp_all
next
  case (receive i w w')
  then show ?case using web_inv_receive [of w] by blast
next
  case (callall i w st fails)
  show ?case by (rule web_inv_cong [OF callall.prems(2)]) simp_all
next
  case (compl i w)
  show ?case by (rule web_inv_cong [OF compl.prems(2)]) (simp_all add: monitor_complete_def set_monitor_def)
next
  case (server pe w s)
  from goroutine_ok [OF web_invD(1) [OF server.prems(2)] server.prems(1) server.hyps]
  have "server_inv s" "server_kept (wb_server w) s" by simp_all
  then show ?case by (rule web_inv_server [OF server.prems(2)])
qed

lemma web_reachable_inv: "web_reachable e w \<Longrightarrow> e_Done e = (\<lambda>_. False) \<Longrightarrow> web_inv w"
proof (induction rule: web_reachable.induct)
  case (web_start db)
  show ?case by (simp add: web_inv_def server_inv_def RegisterRunRevtr_def NewRevtrServer_def)
next
  case (web_more w w')
  then show ?case using web_step_inv by blast
qed

lemma AddRevtr_reported:
  assumes "AddRevtr pe lookup rnd rtm s = Inr (Inr rid, s')"
  shows "\<exists>st. ro_buf (sv_outs s' ! length (sv_outs s)) = [st]"
proof -
  obtain rt s1 s2 where p: "pf pe (length (sv_outs s)) rt s1 = Inr s2" "sv_outs s' = sv_outs s2"
    "sv_outs s1 = sv_outs s @ [\<lparr>ro_rt = rt, ro_buf = [], ro_closed = False\<rparr>]"
    using assms by (auto simp: AddRevtr_def Let_def go_bind_Inr_iff split: sum.split_asm prod.split_asm)
  from p(1) obtain st where "sv_outs s2 = (sv_outs s1)[length (sv_outs s) := \<lparr>ro_rt = rt, ro_buf = [st], ro_closed = False\<rparr>]"
    by (auto simp: pf_def go_bind_Inr_iff send_status_def p(3))
  with p(2,3) show ?thesis by simp
qed

section \<open>Stuck for ever\<close>

text \<open>
  A handler holds \<open>rr.mu\<close> and waits for the lock of a channel whose monitor holds it and waits for \<open>rr.mu\<close>.
\<close>

definition stuck :: "'f web \<Rightarrow> bool" where
  "stuck w \<longleftrightarrow> (\<exists>oc conn. wb_handler w = Some (oc, conn) \<and> oc_locked oc w)"

lemma set_monitor_monitors: "wb_monitors (set_monitor i p w) = (wb_monitors w)[i := (wb_monitors w ! i)\<lparr>mo_Phase := p\<rparr>]"
  by (simp add: set_monitor_def)

lemma set_monitor_handler [simp]: "wb_handler (set_monitor i p w) = wb_handler w"
  by (simp add: set_monitor_def)

lemma oc_locked_other:
  assumes "oc_locked oc w" and "mo_Phase (wb_monitors w ! i) \<noteq> Completing" and "wb_monitors w' = wb_monitors w"
  shows "oc_locked oc (set_monitor i p w')"
proof -
  from assms(1) obtain j where j: "j < length (wb_monitors w)" "mo_Oc (wb_monitors w ! j) = oc" "mo_Phase (wb_monitors w ! j) = Completing"
    by (auto simp: oc_locked_def in_set_conv_nth)
  with assms(2) have "i \<noteq> j" by auto
  then have "wb_monitors (set_monitor i p w') ! j = wb_monitors w ! j" "j < length (wb_monitors (set_monitor i p w'))"
    using j(1) by (simp_all add: set_monitor_monitors assms(3))
  with j(2,3) show ?thesis unfolding oc_locked_def by (metis nth_mem)
qed

lemma callAll_keeps [simp]:
  "wb_monitors (callAll fails st oc w) = wb_monitors w" "wb_handler (callAll fails st oc w) = wb_handler w"
  by (simp_all add: callAll_def Let_def)

lemma stuck_step: "web_step e w w' \<Longrightarrow> stuck w \<Longrightarrow> stuck w'"
proof (induction rule: web_step.induct)
  case (page w meth pe lookup rnd src dst r w')
  have "wb_handler w' = wb_handler w \<and> wb_monitors w' = wb_monitors w"
    using page.hyps(2) by (cases rule: RunRevtr_page_cases) simp_all
  with page.prems show ?case by (auto simp: stuck_def oc_locked_def)
next
  case (receive i w w')
  from receive.hyps(3) obtain p w1 where "w' = set_monitor i p w1" "wb_handler w1 = wb_handler w" "wb_monitors w1 = wb_monitors w"
    by (force simp: monitor_receive_def split: option.split_asm list.split_asm if_split_asm)
  with receive.prems receive.hyps(2) show ?case unfolding stuck_def using oc_locked_other by fastforce
next
  case (callall i w st fails)
  obtain p w1 where "monitor_call fails st i w = set_monitor i p w1" "wb_handler w1 = wb_handler w" "wb_monitors w1 = wb_monitors w"
  proof (cases "oc_completed (wb_ocs (callAll fails st (monitor_oc i w) w) ! monitor_oc i w)")
    case True
    then show ?thesis using that by (simp add: monitor_call_def Let_def)
  next
    case False
    then show ?thesis using that by (simp add: monitor_call_def Let_def)
  qed
  with callall.prems callall.hyps(2) show ?case unfolding stuck_def using oc_locked_other by fastforce
qed (auto simp: stuck_def oc_locked_def)

lemma stuck_for_ever: "(web_step e)\<^sup>*\<^sup>* w w' \<Longrightarrow> stuck w \<Longrightarrow> stuck w'"
  by (induction rule: rtranclp_induct) (auto dest: stuck_step)

lemma web_reachable_steps: "(web_step e)\<^sup>*\<^sup>* w w' \<Longrightarrow> web_reachable e w \<Longrightarrow> web_reachable e w'"
  by (induction rule: rtranclp_induct) (auto intro: web_reachable.web_more)

lemma ParseUint32_show: "ParseUint32 (show_nat (unat rid)) = Some rid"
proof -
  have "show_nat (unat rid) \<noteq> []" by (subst show_nat.simps) simp
  moreover have "unat rid < 2 ^ 32" using unsigned_less [of rid] by simp
  ultimately show ?thesis by (simp add: ParseUint32_def)
qed

lemma stuck_freezes: "web_step e w w' \<Longrightarrow> stuck w \<Longrightarrow> wb_handler w' = wb_handler w \<and> wb_rts w' = wb_rts w"
proof (induction rule: web_step.induct)
  case (page w meth pe lookup rnd src dst r w')
  from page.hyps(2) show ?case by (cases rule: RunRevtr_page_cases) simp_all
next
  case (receive i w w')
  from receive.hyps(3) show ?case
    by (force simp: monitor_receive_def split: option.split_asm list.split_asm if_split_asm)
next
  case (callall i w st fails)
  then show ?case by (simp add: monitor_call_def Let_def)
qed (auto simp: stuck_def)

lemma frozen_for_ever: "(web_step e)\<^sup>*\<^sup>* w w' \<Longrightarrow> stuck w \<Longrightarrow> stuck w' \<and> wb_handler w' = wb_handler w \<and> wb_rts w' = wb_rts w"
proof (induction rule: rtranclp_induct)
  case (step y z)
  then show ?case using stuck_step [of e y z] stuck_freezes [of e y z] by simp
qed simp

text \<open>Channels that are used exist.\<close>

definition ocs_exist :: "'f web \<Rightarrow> bool" where
  "ocs_exist w \<longleftrightarrow> (\<forall>m\<in>set (wb_monitors w). mo_Oc m < length (wb_ocs w)) \<and>
     (\<forall>oc conn. wb_handler w = Some (oc, conn) \<longrightarrow> oc < length (wb_ocs w)) \<and>
     (\<forall>rid oc. wb_rts w rid = Some (Some oc) \<longrightarrow> oc < length (wb_ocs w))"

lemma set_monitor_channels: "mo_Oc ` set (wb_monitors (set_monitor i p w)) = mo_Oc ` set (wb_monitors w)"
proof -
  have "map mo_Oc (wb_monitors (set_monitor i p w)) = map mo_Oc (wb_monitors w)"
    by (simp add: set_monitor_monitors map_update_same)
  then show ?thesis by (metis set_map)
qed

lemma ocs_exist_cong:
  assumes "ocs_exist w" and "mo_Oc ` set (wb_monitors w') \<subseteq> mo_Oc ` set (wb_monitors w)" and "length (wb_ocs w') = length (wb_ocs w)"
    and "wb_handler w' = wb_handler w" and "\<And>rid. wb_rts w' rid = wb_rts w rid \<or> wb_rts w' rid = None \<or> wb_rts w' rid = Some None"
  shows "ocs_exist w'"
proof -
  have "\<forall>oc\<in>mo_Oc ` set (wb_monitors w'). oc < length (wb_ocs w)"
  proof
    fix oc assume "oc \<in> mo_Oc ` set (wb_monitors w')"
    with assms(2) have "oc \<in> mo_Oc ` set (wb_monitors w)" by (rule subsetD)
    with assms(1) show "oc < length (wb_ocs w)" by (auto simp: ocs_exist_def)
  qed
  moreover have "oc < length (wb_ocs w)" if "wb_rts w' rid = Some (Some oc)" for rid oc
  proof -
    have "wb_rts w rid = Some (Some oc)" using assms(5) [of rid] that by auto
    then show ?thesis using assms(1) by (simp add: ocs_exist_def)
  qed
  moreover have "oc < length (wb_ocs w)" if "wb_handler w = Some (oc, conn)" for oc conn
    using assms(1) that by (simp add: ocs_exist_def)
  ultimately show ?thesis unfolding ocs_exist_def assms(3,4) by simp
qed

lemma frame_ocs [simp]:
  "length (wb_ocs (callAll fails st oc w)) = length (wb_ocs w)" "wb_ocs (set_monitor i p w) = wb_ocs w"
  "wb_monitors (register fails oc conn w) = wb_monitors w" "length (wb_ocs (register fails oc conn w)) = length (wb_ocs w)"
  by (simp_all add: callAll_def set_monitor_def register_def Let_def)

lemma ocs_exist_step: "web_step e w w' \<Longrightarrow> ocs_exist w \<Longrightarrow> ocs_exist w'"
proof (induction rule: web_step.induct)
  case (page w meth pe lookup rnd src dst r w')
  from page.hyps(2) page.prems show ?case by (cases rule: RunRevtr_page_cases) (auto simp: ocs_exist_def)
next
  case (pub rid w)
  show ?case by (rule ocs_exist_cong [OF pub.prems]) (simp_all add: publish_def)
next
  case (ws w key)
  then show ?case
    by (auto simp: WS_def ocs_exist_def Let_def StartRevtr_def less_Suc_eq split: option.split sum.split prod.split if_split_asm)
next
  case (reg w oc conn fails)
  then show ?case by (auto simp: WS_register_def ocs_exist_def Let_def)
next
  case (receive i w w')
  from receive.hyps(3) obtain p w1 where "w' = set_monitor i p w1" "wb_handler w1 = wb_handler w" "wb_monitors w1 = wb_monitors w"
    "wb_ocs w1 = wb_ocs w" "wb_rts w1 = wb_rts w"
    by (force simp: monitor_receive_def split: option.split_asm list.split_asm if_split_asm)
  then show ?case by (intro ocs_exist_cong [OF receive.prems]) (simp_all add: set_monitor_channels)
next
  case (callall i w st fails)
  show ?case by (rule ocs_exist_cong [OF callall.prems]) (simp_all add: monitor_call_def Let_def set_monitor_channels)
next
  case (compl i w)
  show ?case by (rule ocs_exist_cong [OF compl.prems]) (simp_all add: monitor_complete_def set_monitor_channels)
qed (simp add: ocs_exist_def)

lemma web_reachable_ocs: "web_reachable e w \<Longrightarrow> ocs_exist w"
proof (induction rule: web_reachable.induct)
  case (web_more w w')
  then show ?case using ocs_exist_step by blast
qed (simp add: ocs_exist_def RegisterRunRevtr_def)

section \<open>The deadlock\<close>

text \<open>Two websockets with one id: the monitor of the first has the report when the second takes \<open>rr.mu\<close>.\<close>

lemma first_websocket:
  assumes ex: "ocs_exist w" and free: "wb_handler w = None" and rt: "wb_rts w rid = Some None" "sv_revtrs (wb_server w) rid = Some k"
    and buf: "ro_buf (sv_outs (wb_server w) ! k) = [st]"
  obtains w' i oc where "(web_step e)\<^sup>*\<^sup>* w w'" "wb_handler w' = None" "wb_rts w' rid = Some (Some oc)" "i < length (wb_monitors w')"
    "wb_monitors w' ! i = \<lparr>mo_Oc = oc, mo_Phase = Got st\<rparr>" "oc < length (wb_ocs w')" "\<not> oc_completed (wb_ocs w' ! oc)" "\<not> oc_locked oc w'"
proof -
  let ?oc = "length (wb_ocs w)" and ?i = "length (wb_monitors w)"
  define w1 where "w1 = WS (show_nat (unat rid)) w"
  define w2 where "w2 = WS_register {} w1"
  define w3 where "w3 = set_monitor ?i (Got st) (w2\<lparr>wb_server := read_status k (wb_server w2)\<rparr>)"
  have s1: "web_step e w w1" unfolding w1_def using free by (rule web_step.ws)
  have f1: "wb_handler w1 = Some (?oc, length (wb_conns w))" "wb_monitors w1 = wb_monitors w" "wb_rts w1 rid = Some (Some ?oc)"
    "wb_ocs w1 = wb_ocs w @ [\<lparr>oc_c = Some k, oc_last = zero_status, oc_funcs = [], oc_key = rid, oc_completed = False\<rparr>]"
    "sv_outs (wb_server w1) = sv_outs (wb_server w)"
    using rt by (simp_all add: w1_def WS_def ParseUint32_show StartRevtr_def Let_def)
  have old: "mo_Oc m < ?oc" if "m \<in> set (wb_monitors w)" for m using ex that by (simp add: ocs_exist_def)
  have s2: "web_step e w1 w2" unfolding w2_def using f1(1)
  proof (rule web_step.reg)
    show "\<not> oc_locked ?oc w1" using old f1(2) by (fastforce simp: oc_locked_def)
  qed
  have f2: "wb_handler w2 = None" "wb_monitors w2 = wb_monitors w @ [\<lparr>mo_Oc = ?oc, mo_Phase = Waiting\<rparr>]"
    "wb_rts w2 rid = Some (Some ?oc)" "oc_c (wb_ocs w2 ! ?oc) = Some k" "\<not> oc_completed (wb_ocs w2 ! ?oc)" "length (wb_ocs w2) = Suc ?oc"
    "sv_outs (wb_server w2) = sv_outs (wb_server w)"
    using f1 by (simp_all add: w2_def WS_register_def register_def Let_def)
  have "monitor_receive ?i w2 = Some w3"
    using f2(2,4,7) buf by (simp add: monitor_receive_def monitor_oc_def w3_def)
  then have s3: "web_step e w2 w3" by (intro web_step.receive) (simp_all add: f2(2))
  have f3: "wb_monitors w3 = wb_monitors w @ [\<lparr>mo_Oc = ?oc, mo_Phase = Got st\<rparr>]"
    by (simp add: w3_def set_monitor_def f2(2))
  have "\<not> oc_locked ?oc w3"
  proof
    assume "oc_locked ?oc w3"
    then obtain m where m: "m \<in> set (wb_monitors w3)" "mo_Oc m = ?oc" "mo_Phase m = Completing" unfolding oc_locked_def by blast
    then have "m \<in> set (wb_monitors w)" unfolding f3 by auto
    from old [OF this] m(2) show False by simp
  qed
  moreover have "(web_step e)\<^sup>*\<^sup>* w w3" 
    by (rule converse_rtranclp_into_rtranclp [of "web_step e", OF s1 converse_rtranclp_into_rtranclp [of "web_step e", OF s2 r_into_rtranclp [of "web_step e", OF s3]]])
  ultimately show ?thesis
    using that [of w3 ?oc ?i] f2 f3 by (simp add: w3_def)
qed

lemma second_websocket:
  assumes free: "wb_handler w = None" and rt: "wb_rts w rid = Some (Some oc)" and i: "i < length (wb_monitors w)"
    "wb_monitors w ! i = \<lparr>mo_Oc = oc, mo_Phase = Got st\<rparr>" and oc: "oc < length (wb_ocs w)" "\<not> oc_completed (wb_ocs w ! oc)" "\<not> oc_locked oc w"
  obtains w' where "(web_step e)\<^sup>*\<^sup>* w w'" "stuck w'"
proof -
  define w1 where "w1 = WS (show_nat (unat rid)) w"
  have s1: "web_step e w w1" unfolding w1_def using free by (rule web_step.ws)
  have f1: "wb_handler w1 = Some (oc, length (wb_conns w))" "wb_monitors w1 = wb_monitors w" "wb_ocs w1 = wb_ocs w"
    using rt by (simp_all add: w1_def WS_def ParseUint32_show Let_def)
  have "\<not> oc_locked (monitor_oc i w1) w1" using oc(3) by (simp add: monitor_oc_def f1(2) i(2) oc_locked_def)
  then have s2: "web_step e w1 (monitor_call {} st i w1)"
    using i by (intro web_step.callall) (simp_all add: f1(2))
  have "\<not> oc_completed (wb_ocs (callAll {} st oc w1) ! oc)" using oc(1,2) by (simp add: callAll_def Let_def f1(3))
  then have "\<exists>w2. monitor_call {} st i w1 = set_monitor i Completing w2 \<and> wb_handler w2 = wb_handler w1 \<and> wb_monitors w2 = wb_monitors w1"
    using i(2) by (intro exI conjI) (simp add: monitor_call_def monitor_oc_def f1(2) Let_def, simp_all)
  then obtain w2 where w2: "monitor_call {} st i w1 = set_monitor i Completing w2" "wb_handler w2 = wb_handler w1" "wb_monitors w2 = wb_monitors w1"
    by blast
  have "\<lparr>mo_Oc = oc, mo_Phase = Completing\<rparr> \<in> set (wb_monitors (set_monitor i Completing w2))"
    using set_update_memI [OF i(1), of "\<lparr>mo_Oc = oc, mo_Phase = Completing\<rparr>"] by (simp add: set_monitor_monitors w2(3) f1(2) i(2))
  then have "stuck (monitor_call {} st i w1)"
    unfolding stuck_def oc_locked_def w2(1) using f1(1) w2(2)
    by (intro exI conjI) (simp, rule bexI, rule conjI, simp_all)
  from that [OF converse_rtranclp_into_rtranclp [of "web_step e", OF s1 r_into_rtranclp [of "web_step e", OF s2]] this] show ?thesis .
qed

section \<open>Channels and locks\<close>

text \<open>
  C39. The goroutines of the server and the requests of the page never send on a closed channel and never
  close one twice, whatever is asked of the page and in whatever order its handlers, monitors and goroutines
  are scheduled: every reverse traceroute is started at most once. This holds although \<open>StartRevtr\<close> reads
  \<open>running\<close> without the lock, because the page starts an id only when its entry has no channel yet.
\<close>

theorem web_channels_safe:
  assumes "web_reachable e w" and "e_Done e = (\<lambda>_. False)"
  shows "(\<forall>pe r. goroutine pe e (wb_server w) r \<longrightarrow> r \<noteq> Inl (PanicMsg ''send on closed channel'') \<and> r \<noteq> Inl (PanicMsg ''close of closed channel'')) \<and>
    (\<forall>pe lookup rnd src dst. AddRevtr pe lookup rnd (web_measurement src dst) (wb_server w) \<noteq> Inl (PanicMsg ''send on closed channel'')) \<and>
    distinct (map sg_Out (sv_starters (wb_server w)))"
proof -
  have inv: "server_inv (wb_server w)" using web_invD(1) [OF web_reachable_inv [OF assms]] .
  have "\<not> rm_BackoffEndhost (web_measurement src dst)" for src dst by (simp add: web_measurement_def)
  from AddRevtr_added(1) [OF inv this] goroutine_ok [OF inv assms(2)] show ?thesis
    using inv unfolding chan_free_def server_inv_def by blast
qed

text \<open>
  C40. Two websockets can stop the page. After any request whose reverse traceroute was added, in any state
  in which \<open>rr.mu\<close> is free, there are steps, a websocket with the id, its first report and a second websocket,
  after which \<open>rr.mu\<close> is never free again: the second handler holds it and waits for the lock of the channel,
  and the monitor that holds that one waits for \<open>rr.mu\<close> to remove the id. No further id is entered or removed.
\<close>

theorem web_deadlock:
  assumes "web_reachable e w" and "e_Done e = (\<lambda>_. False)" and "wb_handler w = None" and "unat (sv_next (wb_server w)) + 1 < 2 ^ 32"
    and "RunRevtr_page ''GET'' pe lookup rnd src dst w = Inr (Inr rid, w1)"
  shows "\<exists>w2. (web_step e)\<^sup>*\<^sup>* w1 w2 \<and> (\<forall>w3. (web_step e)\<^sup>*\<^sup>* w2 w3 \<longrightarrow> wb_handler w3 \<noteq> None \<and> wb_rts w3 = wb_rts w2)"
proof -
  from assms(5) obtain s where s: "AddRevtr pe lookup rnd (web_measurement src dst) (wb_server w) = Inr (Inr rid, s)"
    "w1 = w\<lparr>wb_server := s, wb_pending := wb_pending w @ [rid]\<rparr>"
    by (cases rule: RunRevtr_page_cases) simp_all
  have bo: "\<not> rm_BackoffEndhost (web_measurement src dst)" by (simp add: web_measurement_def)
  note added = AddRevtr_added(3) [OF web_invD(1) [OF web_reachable_inv [OF assms(1,2)]] bo s(1)]
  obtain st where st: "ro_buf (sv_outs s ! length (sv_outs (wb_server w))) = [st]" using AddRevtr_reported [OF s(1)] by blast
  let ?w = "publish rid w1"
  have "web_step e w1 ?w" by (rule web_step.pub) (simp_all add: s(2) assms(3))
  moreover have "ocs_exist ?w"
    using web_reachable_ocs [OF assms(1)] by (rule ocs_exist_cong) (auto simp: publish_def s(2))
  then obtain w' i oc where "(web_step e)\<^sup>*\<^sup>* ?w w'" "wb_handler w' = None" "wb_rts w' rid = Some (Some oc)" "i < length (wb_monitors w')"
    "wb_monitors w' ! i = \<lparr>mo_Oc = oc, mo_Phase = Got st\<rparr>" "oc < length (wb_ocs w')" "\<not> oc_completed (wb_ocs w' ! oc)" "\<not> oc_locked oc w'"
    by (rule first_websocket [where e = e and rid = rid and st = st]) (use assms(3) added st in \<open>auto simp: publish_def s(2)\<close>)
  moreover from this(2-) obtain w2 where "(web_step e)\<^sup>*\<^sup>* w' w2" "stuck w2" by (rule second_websocket [where e = e])
  ultimately have "(web_step e)\<^sup>*\<^sup>* w1 w2" by (meson converse_rtranclp_into_rtranclp rtranclp_trans)
  moreover have "wb_handler w3 \<noteq> None \<and> wb_rts w3 = wb_rts w2" if "(web_step e)\<^sup>*\<^sup>* w2 w3" for w3
    using frozen_for_ever [OF that \<open>stuck w2\<close>] \<open>stuck w2\<close> by (auto simp: stuck_def)
  ultimately show ?thesis by blast
qed

section \<open>An example\<close>

definition ex_pe :: "nat print_env" where
  "ex_pe = \<lparr>pe_now = 0, pe_GetVPs = Inr [ex_page_vp], pe_LookupAddr = (\<lambda>_. None), pe_Ping = (\<lambda>_. PingFails), pe_ms = unat,
     pe_zero = 0, pe_float = show_nat, pe_errors = (\<lambda>_. [])\<rparr>"

lemma rtt_key_fresh [simp]: "rtt_key a b \<noteq> ip_str x"
proof
  assume eq: "rtt_key a b = ip_str x"
  have "CHR '':'' \<in> set (rtt_key a b)" by (simp add: rtt_key_def)
  moreover have "CHR '':'' \<notin> set (ip_str x)"
    using colon_not_in_show_byte by (simp add: ip_str_def Int32ToIPString_def' dotted_quad_def)
  ultimately show False unfolding eq by blast
qed

lemma go_bind_ex: "\<exists>x. m = Inr x \<Longrightarrow> (\<And>x. \<exists>y. f x = Inr y) \<Longrightarrow> \<exists>y. go_bind m f = Inr y"
  by auto

lemma ex_report:
  assumes rt: "rt_Src rt = ip_str 1" "rt_Dst rt = ip_str 1" "Paths rt = [NewReversePath (ip_str 1) (ip_str 1) []]"
  shows "\<exists>st ca. makePrintHTML ex_pe rt Map.empty = Inr (st, ca)"
proof -
  let ?ca = "rs_cache_Set ex_pe (ip_str 1) (HostName ''h'') four_hours Map.empty"
  have name: "resolveHostname ex_pe (ip_str 1) Map.empty = Inr (''h'', ?ca)" "resolveHostname ex_pe (ip_str 1) ?ca = Inr (''h'', ?ca)"
    by (simp_all add: resolveHostname_def ex_pe_def ex_page_vp_def rs_cache_Set_def cache_Get_def cache_Set_def four_hours_def)
  obtain t ca where rtt: "getRTT ex_pe (ip_str 1) (ip_str 1) ?ca = Inr (t, ca)"
    by (simp add: getRTT_def ex_pe_def rs_cache_Set_def cache_Get_def cache_Set_def Let_def)
  have path: "CurrPath rt = Inr (NewReversePath (ip_str 1) (ip_str 1) [])" by (simp add: CurrPath_def rt_len_def rt(3) go_index_def)
  have hop: "\<exists>r. print_hop ex_pe rt ''dst'' h ([], True, i, out, ?ca) = Inr r" if "h = ip_str 1 \<or> h = zero_hop" for i out h
    using that by (cases "h = ''0.0.0.0'' \<or> h = ''*''") (auto simp: print_hop_def name rtt rt Let_def)
  obtain h where h: "Hops (NewDstRevSegment [ip_str 1] (ip_str 1) (ip_str 1)) = [h]" "h = ip_str 1 \<or> h = zero_hop"
    by (simp add: NewDstRevSegment_def Hops_def NewRevSegment_def)
  have seg: "rp_Path (NewReversePath (ip_str 1) (ip_str 1) []) = [NewDstRevSegment [ip_str 1] (ip_str 1) (ip_str 1)]"
    "segment_symbol (NewDstRevSegment hs a b) = ''dst''" for hs a b
    by (simp_all add: NewReversePath_def NewDstRevSegment_def)
  have segs: "\<exists>seen f i o2 ca. print_segments ex_pe rt (rp_Path (NewReversePath (ip_str 1) (ip_str 1) [])) ([], False, 0, out, ?ca) =
      Inr (seen, f, i, o2, ca)" for out
  proof -
    obtain r where r: "print_hop ex_pe rt ''dst'' h ([], True, 0, out, ?ca) = Inr r" using hop [OF h(2)] by blast
    have "print_segments ex_pe rt (rp_Path (NewReversePath (ip_str 1) (ip_str 1) [])) ([], False, 0, out, ?ca) = Inr r"
      unfolding seg(1) print_segments.simps prod.case seg(2) h(1) print_hops.simps r go_bind.simps by simp
    then show ?thesis by (cases r) simp
  qed
  have len: "length (Paths rt) > 0" by (simp add: rt(3))
  have "\<exists>x. makePrintHTML ex_pe rt Map.empty = Inr x"
    unfolding makePrintHTML_def rt(1,2) name go_bind.simps prod.case Let_def path if_P [OF len]
    by (rule go_bind_ex) (use segs in blast, simp split: prod.split)
  then show ?thesis by simp
qed

lemma ex_added:
  "\<exists>s. AddRevtr ex_pe lookup 0 (web_measurement ''h'' ''h'') (NewRevtrServer db) = Inr (Inr 1, s)"
proof -
  define rt where "rt = CreateReverseTraceroute 0 ((web_measurement ''h'' ''h'')\<lparr>rm_Src := ip_str 1, rm_Dst := ip_str 1\<rparr>) True True True"
  have "rt_Src rt = ip_str 1" "rt_Dst rt = ip_str 1" "Paths rt = [NewReversePath (ip_str 1) (ip_str 1) []]"
    by (simp_all add: rt_def CreateReverseTraceroute_def NewReverseTraceroute_def web_measurement_def)
  from ex_report [OF this] obtain st ca where r: "makePrintHTML ex_pe rt Map.empty = Inr (st, ca)" by blast
  have "pe_GetVPs ex_pe = Inr [ex_page_vp]" by (simp add: ex_pe_def)
  moreover have "rm_Src (web_measurement ''h'' ''h'') = ''h''" "rm_Dst (web_measurement ''h'' ''h'') = ''h''" by (simp_all add: web_measurement_def)
  ultimately show ?thesis
    using r by (simp add: AddRevtr_def ex_verify NewRevtrServer_def pf_def send_status_def Let_def rt_def)
qed

lemma ex_page:
  obtains w where "RunRevtr_page ''GET'' ex_pe lookup 0 ''h'' ''h'' (RegisterRunRevtr (NewRevtrServer ex_repo_db)) = Inr (Inr 1, w)"
proof -
  obtain s where "AddRevtr ex_pe lookup 0 (web_measurement ''h'' ''h'') (NewRevtrServer ex_repo_db) = Inr (Inr 1, s)"
    using ex_added by blast
  then show ?thesis using that by (simp add: RunRevtr_page_def RegisterRunRevtr_def)
qed

theorem web_channels_safe_witness:
  "\<exists>w r. web_reachable ex_env w \<and> goroutine ex_pe ex_env (wb_server w) r \<and> r \<noteq> Inl (PanicMsg ''close of closed channel'') \<and>
     distinct (map sg_Out (sv_starters (wb_server w)))"
proof -
  let ?w = "RegisterRunRevtr (NewRevtrServer ex_repo_db) :: nat web"
  obtain s where s: "AddRevtr ex_pe (\<lambda>_. None) 0 (web_measurement ''h'' ''h'') (wb_server ?w) = Inr (Inr 1, s)"
    using ex_added by (auto simp: RegisterRunRevtr_def)
  define w1 where "w1 = ?w\<lparr>wb_server := s, wb_pending := [1]\<rparr>"
  define w2 where "w2 = publish 1 w1"
  define w3 where "w3 = WS (show_nat (unat (1 :: uint32))) w2"
  have d: "e_Done ex_env = (\<lambda>_. False)" by (simp add: ex_env_def)
  have start: "web_reachable ex_env ?w" by (rule web_reachable.web_start)
  have "\<not> rm_BackoffEndhost (web_measurement ''h'' ''h'')" by (simp add: web_measurement_def)
  from AddRevtr_added(3) [OF web_invD(1) [OF web_reachable_inv [OF start d]] this s]
  have added: "sv_revtrs s 1 = Some 0" "sv_starters s = []" by (simp_all add: RegisterRunRevtr_def NewRevtrServer_def)
  have "RunRevtr_page ''GET'' ex_pe (\<lambda>_. None) 0 ''h'' ''h'' ?w = Inr (Inr 1, w1)"
    using s by (simp add: RunRevtr_page_def w1_def) (simp add: RegisterRunRevtr_def)
  then have "web_step ex_env ?w w1" by (rule web_step.page [rotated]) (simp add: RegisterRunRevtr_def NewRevtrServer_def)
  with start have r1: "web_reachable ex_env w1" by (rule web_reachable.web_more)
  have "web_step ex_env w1 w2" unfolding w2_def by (rule web_step.pub) (simp_all add: w1_def RegisterRunRevtr_def)
  with r1 have r2: "web_reachable ex_env w2" by (rule web_reachable.web_more)
  have "web_step ex_env w2 w3" unfolding w3_def by (rule web_step.ws) (simp add: w2_def publish_def w1_def RegisterRunRevtr_def)
  with r2 have r3: "web_reachable ex_env w3" by (rule web_reachable.web_more)
  have "sv_starters (wb_server w3) = [\<lparr>sg_Id = 1, sg_Out = 0, sg_Phase = Spawned\<rparr>]"
    unfolding w3_def WS_def ParseUint32_show by (simp add: w2_def publish_def w1_def StartRevtr_def added Let_def)
  then have "goroutine ex_pe ex_env (wb_server w3) (Inr (check_running 0 (wb_server w3)))"
    by (intro goroutine.checks) simp_all
  with web_channels_safe [OF r3 d] r3 show ?thesis by blast
qed

theorem web_deadlock_witness:
  "\<exists>(w :: nat web) w2. (web_step ex_env)\<^sup>*\<^sup>* w w2 \<and> wb_handler w = None \<and> wb_pending w = [1] \<and>
     (\<forall>w3. (web_step ex_env)\<^sup>*\<^sup>* w2 w3 \<longrightarrow> wb_handler w3 \<noteq> None \<and> wb_rts w3 = wb_rts w2)"
proof -
  let ?w = "RegisterRunRevtr (NewRevtrServer ex_repo_db) :: nat web"
  obtain w where p: "RunRevtr_page ''GET'' ex_pe (\<lambda>_. None) 0 ''h'' ''h'' ?w = Inr (Inr 1, w)" by (rule ex_page)
  have "wb_handler w = None" "wb_pending w = [1]"
    using p by (cases rule: RunRevtr_page_cases; simp add: RegisterRunRevtr_def)+
  moreover have "\<exists>w2. (web_step ex_env)\<^sup>*\<^sup>* w w2 \<and> (\<forall>w3. (web_step ex_env)\<^sup>*\<^sup>* w2 w3 \<longrightarrow> wb_handler w3 \<noteq> None \<and> wb_rts w3 = wb_rts w2)"
  proof (rule web_deadlock [OF web_reachable.web_start _ _ _ p])
    show "e_Done ex_env = (\<lambda>_. False)" by (simp add: ex_env_def)
  qed (simp_all add: RegisterRunRevtr_def NewRevtrServer_def)
  ultimately show ?thesis by blast
qed

end
