(* ===== verification/RevtrApi.thy ===== *)
theory RevtrApi
  imports RevtrWeb
begin

text \<open>
  \<open>revtr/v1api\<close> and \<open>revtr/v2api\<close>: the two ways to the server of reverse traceroutes from outside, http with
  JSON and grpc. What is read from and written to JSON is the message itself; a body that is no message is
  \<open>None\<close>. Headers and metadata are what the handlers look up in them.
\<close>

section \<open>Version 1\<close>

text \<open>A status code other than 200, or the body.\<close>

datatype v1_response = Code nat | ResultURI string | Revtrs "storable list" | Sources "pb_source list"

definition v1_sources :: "(string \<Rightarrow> string \<Rightarrow> bool) \<Rightarrow> string + vantage_point list \<Rightarrow> string \<Rightarrow> string \<Rightarrow> revtr_db \<Rightarrow> v1_response" where
  "v1_sources same GetVPs meth key db =
     (if meth \<noteq> ''GET'' then Code 405
      else case GetSources same GetVPs key db of
        Inl (RepoError ErrNoRevtrUserFound) \<Rightarrow> Code 401
      | Inl _ \<Rightarrow> Code 500
      | Inr resp \<Rightarrow> Sources resp)"

definition retreiveRevtr :: "(string \<Rightarrow> string \<Rightarrow> bool) \<Rightarrow> string \<Rightarrow> string \<Rightarrow> revtr_db \<Rightarrow> v1_response" where
  "retreiveRevtr same key ids db =
     (if length ids = 0 then Code 400
      else case ParseUint32 ids of
        None \<Rightarrow> Code 400
      | Some bid \<Rightarrow>
          (case GetRevtr same key bid db of
             Inl (RepoError ErrNoRevtrUserFound) \<Rightarrow> Code 401
           | Inl _ \<Rightarrow> Code 500
           | Inr revtrs \<Rightarrow> Revtrs revtrs))"

definition result_prefix :: string where
  "result_prefix = ''https://revtr.ccs.neu.edu/api/v1/revtr?batchid=''"

definition result_uri :: "uint32 \<Rightarrow> string" where
  "result_uri bid = result_prefix @ show_nat (unat bid)"

text \<open>With the response come the measurements that are run from then on.\<close>

definition submitRevtr :: "(string \<Rightarrow> string \<Rightarrow> bool) \<Rightarrow> int \<Rightarrow> (string \<Rightarrow> string list option) \<Rightarrow> string + vantage_point list \<Rightarrow> bool
    \<Rightarrow> string \<Rightarrow> string \<Rightarrow> revtr_measurement list option \<Rightarrow> revtr_db \<Rightarrow> (v1_response \<times> revtr_measurement list \<times> revtr_db) go" where
  "submitRevtr same now lookup GetVPs connected meth key body db =
     (if meth \<noteq> ''POST'' then Inr (Code 405, [], db)
      else case body of
        None \<Rightarrow> Inr (Code 400, [], db)
      | Some revtrs \<Rightarrow>
          go_bind (RunRevtr same now lookup GetVPs connected key revtrs db) (\<lambda>(r, db).
            case r of
              Inl (SrcError _) \<Rightarrow> Inr (Code 400, [], db)
            | Inl (DstError _) \<Rightarrow> Inr (Code 400, [], db)
            | Inl _ \<Rightarrow> Inr (Code 500, [], db)
            | Inr (bid, added) \<Rightarrow> Inr (ResultURI (result_uri bid), added, db)))"

definition v1_revtr :: "(string \<Rightarrow> string \<Rightarrow> bool) \<Rightarrow> int \<Rightarrow> (string \<Rightarrow> string list option) \<Rightarrow> string + vantage_point list \<Rightarrow> bool
    \<Rightarrow> string \<Rightarrow> string \<Rightarrow> string \<Rightarrow> revtr_measurement list option \<Rightarrow> revtr_db \<Rightarrow> (v1_response \<times> revtr_measurement list \<times> revtr_db) go" where
  "v1_revtr same now lookup GetVPs connected meth key batchid body db =
     (if meth = ''POST'' then submitRevtr same now lookup GetVPs connected meth key body db
      else if meth = ''GET'' then Inr (retreiveRevtr same key batchid db, [], db)
      else Inr (Code 405, [], db))"

section \<open>Version 2\<close>

datatype rpc_error = ErrUnauthorizedRequest | RpcError server_error

definition checkAuth :: "(string \<Rightarrow> string list option) \<Rightarrow> string option" where
  "checkAuth m = (case m ''revtr-key'' of Some val \<Rightarrow> if length val \<noteq> 1 then None else Some (hd val) | None \<Rightarrow> None)"

text \<open>A key in the metadata is used in place of the one in the request.\<close>

definition v2_auth :: "(string \<Rightarrow> string list option) option \<Rightarrow> string \<Rightarrow> string" where
  "v2_auth md auth = (case md of None \<Rightarrow> auth | Some m \<Rightarrow> (case checkAuth m of None \<Rightarrow> auth | Some key \<Rightarrow> key))"

definition rpcError :: "server_error \<Rightarrow> rpc_error" where
  "rpcError err = (if err = RepoError ErrNoRevtrUserFound then ErrUnauthorizedRequest else RpcError err)"

definition v2_RunRevtr :: "(string \<Rightarrow> string \<Rightarrow> bool) \<Rightarrow> int \<Rightarrow> (string \<Rightarrow> string list option) \<Rightarrow> string + vantage_point list \<Rightarrow> bool
    \<Rightarrow> (string \<Rightarrow> string list option) option \<Rightarrow> string \<Rightarrow> revtr_measurement list \<Rightarrow> revtr_db
    \<Rightarrow> ((rpc_error + uint32 \<times> revtr_measurement list) \<times> revtr_db) go" where
  "v2_RunRevtr same now lookup GetVPs connected md auth revtrs db =
     (let auth = v2_auth md auth in
      if auth = [] then Inr (Inl ErrUnauthorizedRequest, db)
      else go_bind (RunRevtr same now lookup GetVPs connected auth revtrs db) (\<lambda>(r, db).
        case r of Inl err \<Rightarrow> Inr (Inl (rpcError err), db) | Inr ret \<Rightarrow> Inr (Inr ret, db)))"

definition v2_GetRevtr :: "(string \<Rightarrow> string \<Rightarrow> bool) \<Rightarrow> (string \<Rightarrow> string list option) option \<Rightarrow> string \<Rightarrow> uint32 \<Rightarrow> revtr_db
    \<Rightarrow> rpc_error + storable list" where
  "v2_GetRevtr same md auth batchId db =
     (let auth = v2_auth md auth in
      if auth = [] then Inl ErrUnauthorizedRequest
      else case GetRevtr same auth batchId db of Inl err \<Rightarrow> Inl (rpcError err) | Inr ret \<Rightarrow> Inr ret)"

definition v2_GetSources :: "(string \<Rightarrow> string \<Rightarrow> bool) \<Rightarrow> string + vantage_point list \<Rightarrow> (string \<Rightarrow> string list option) option \<Rightarrow> string
    \<Rightarrow> revtr_db \<Rightarrow> rpc_error + pb_source list" where
  "v2_GetSources same GetVPs md auth db =
     (let auth = v2_auth md auth in
      if auth = [] then Inl ErrUnauthorizedRequest
      else case GetSources same GetVPs auth db of Inl err \<Rightarrow> Inl (rpcError err) | Inr ret \<Rightarrow> Inr ret)"

section \<open>What a user sees\<close>

lemma result_uri_bid [simp]: "ParseUint32 (drop (length result_prefix) (result_uri bid)) = Some bid"
  by (simp add: result_uri_def ParseUint32_show)

lemma submitted:
  assumes "v1_revtr same now lookup GetVPs connected ''POST'' key ids (Some revtrs) db = Inr (ResultURI uri, added, db1)"
  shows "\<exists>bid. uri = result_uri bid \<and> RunRevtr same now lookup GetVPs connected key revtrs db = Inr (Inr (bid, added), db1)"
proof -
  from assms obtain r d where r: "RunRevtr same now lookup GetVPs connected key revtrs db = Inr (r, d)"
    by (auto simp: v1_revtr_def submitRevtr_def go_bind_Inr_iff)
  show ?thesis
  proof (cases r)
    case (Inl err)
    with assms r show ?thesis by (cases err) (simp_all add: v1_revtr_def submitRevtr_def)
  next
    case (Inr p)
    with assms r show ?thesis by (cases p) (auto simp: v1_revtr_def submitRevtr_def)
  qed
qed



text \<open>
  C38. Batches are private. Asked with a key that is not that of the user who made a batch, both
  interfaces give nothing of it away: a key no user has is refused as unauthorized, and with the key of
  another user the batch reads as an empty one. The data is not changed.
\<close>

theorem batches_are_private:
  assumes ok: "revtr_db_ok db" and b: "b \<in> set (rd_batches db)" and foreign: "\<forall>u\<in>set (users_by_key same key db). ru_Id u \<noteq> ba_User b"
  shows "v1_revtr same now lookup GetVPs connected ''GET'' key (show_nat (unat (ba_Id b))) body db =
      Inr (if users_by_key same key db = [] then Code 401 else Revtrs [], [], db) \<and>
    v2_GetRevtr same None key (ba_Id b) db =
      (if key = [] \<or> users_by_key same key db = [] then Inl ErrUnauthorizedRequest else Inr [])"
proof -
  have nz: "ba_Id b \<noteq> 0" using ok b by (force simp: revtr_db_ok_def)
  have ids: "distinct (map ba_Id (rd_batches db))" using ok by (simp add: revtr_db_ok_def)
  have "GetRevtrsInBatch (ru_Id u) (ba_Id b) db = []" if u: "u \<in> set (users_by_key same key db)" for u
  proof -
    have "ba_User c \<noteq> ru_Id u \<or> ba_Id c \<noteq> ba_Id b" if "c \<in> set (rd_batches db)" for c
    proof (cases "c = b")
      case True
      with foreign u show ?thesis by fastforce
    next
      case False
      with ids b that show ?thesis by (auto simp: distinct_map inj_on_def)
    qed
    then have "batch_rows (ru_Id u) (ba_Id b) db = []" by (auto simp: batch_rows_def filter_empty_conv)
    then show ?thesis by (simp add: GetRevtrsInBatch_def)
  qed
  then have "GetRevtr same key (ba_Id b) db = (if users_by_key same key db = [] then Inl (RepoError ErrNoRevtrUserFound) else Inr [])"
    using nz by (cases "users_by_key same key db") (simp_all add: GetRevtr_def GetUserByKey_def)
  then show ?thesis
    by (cases "users_by_key same key db") (simp_all add: show_nat_nonempty v1_revtr_def retreiveRevtr_def ParseUint32_show v2_GetRevtr_def v2_auth_def rpcError_def Let_def)
qed

theorem batches_are_private_witness:
  "\<exists>db. rd_batches db = [\<lparr>ba_Id = 1, ba_User = 1, ba_Created = 0\<rparr>] \<and>
     v1_revtr (=) 0 (\<lambda>_. None) (Inr []) True ''GET'' ''x'' (show_nat (unat (1 :: uint32))) None db = Inr (Code 401, [], db)"
proof -
  obtain db where c: "CreateRevtrBatch (=) 0 [ex_repo_measurement] ''k'' ex_repo_db = Inr (Inr ([ex_repo_measurement\<lparr>rm_Id := 1\<rparr>], 1), db)"
    and db: "rd_users db = [ex_repo_user]" "rd_batches db = [\<lparr>ba_Id = 1, ba_User = 1, ba_Created = 0\<rparr>]"
    using ex_created by (simp add: ex_repo_db_def)
  have "users_by_key (=) ''x'' db = []" by (simp add: users_by_key_def db(1) ex_repo_user_def)
  with batches_are_private [OF CreateRevtrBatch_ok [OF ex_repo_db_ok c], of "\<lparr>ba_Id = 1, ba_User = 1, ba_Created = 0\<rparr>" "(=)" "''x''"] db(2)
  show ?thesis by (intro exI [of _ db]) simp
qed

end
