(* ===== verification/Spec2Isabelle.thy ===== *)
theory Spec2Isabelle
  imports Runner ClusterMap VpCheck Atlas PlController RevtrApi
begin

text \<open>
  A verification library for ReverseTraceroute, the system that measures the path packets take from a
  remote host back to a source under our control.

  \<^bold>\<open>The program.\<close> The runner (\<open>revtr/runner/revtr_runner.go\<close>) drives a reverse traceroute
  (\<open>revtr/reverse_traceroute\<close>) from step to step: it intersects the path found so far with traceroutes
  of the atlas, sends record route and timestamp probes, spoofed where the plain ones fail, and as a
  last resort assumes that the route is symmetric. A reverse traceroute is a stack of reverse paths, a
  path a list of segments, a segment a list of hops with the way they were found. Addresses are grouped
  into alias clusters by a cached lookup (\<open>revtr/clustermap\<close>). The runner's measurements go to the
  controller (\<open>controller\<close>), which answers them from its cache and database or hands them to the nodes'
  controller; the answer of a spoofed probe arrives at another node, is matched by its id in the spoof
  map (\<open>spoofmap\<close>) and comes back through the controller's map of channels. The nodes' controller
  (\<open>plcontroller\<close>) keeps a control socket (\<open>scamper\<close>) for each connected node: it writes numbered commands
  and reads the answers, which are decoded by \<open>uuencode\<close>, parsed by \<open>warts\<close>, matched by number and converted
  in \<open>datamodel\<close>. The atlas (\<open>atlas\<close>) answers requests for paths from stored traceroutes, or gives a
  token and runs new ones. The vantage point service (\<open>vpservice\<close>) knows the nodes, what they can do, and
  which of them are in quarantine. The server of the reverse traceroutes (\<open>revtr/server\<close>) checks what users ask
  for, enters it as a batch in its repository (\<open>revtr/repository\<close>), has the runner run it and stores the
  results; users reach it over two interfaces (\<open>revtr/v1api\<close>, \<open>revtr/v2api\<close>) and a web page (\<open>cmd/revtr\<close>).

  \<^bold>\<open>The theories.\<close>
  \<^item> \<open>Prelude\<close>: results of Go code that may panic, index and slice expressions with their checks,
    orders the runtime picks (locale \<open>rearrangement\<close>), list lemmas.
  \<^item> \<open>NetAddr\<close>: \<open>util/util.go\<close>, \<open>revtr/ip_utils\<close> and what they use of package net.
  \<^item> \<open>StringUtil\<close>: \<open>util/string/string_utils.go\<close>.
  \<^item> \<open>ClusterMap\<close>: \<open>revtr/clustermap/cluster_map.go\<close> over the vendored cache (locale
    \<open>forgetful_cache\<close>, interpreted on the cache's operations).
  \<^item> \<open>Segments\<close>, \<open>ReversePath\<close>: \<open>segments.go\<close> and \<open>reverse_path.go\<close>.
  \<^item> \<open>PbTypes\<close>: the messages of the services.
  \<^item> \<open>RevTraceroute\<close>, \<open>RevTracerouteProps\<close>, \<open>RevTracerouteVPs\<close>: \<open>revese_traceroute.go\<close>; the record
    \<open>revtr\<close> has the fields of the Go struct, each method is a function on it.
  \<^item> \<open>RunnerProbes\<close>, \<open>RunnerSteps\<close>, \<open>RunnerTimestamp\<close>, \<open>Runner\<close>: \<open>revtr_runner.go\<close>; the services are
    functions of an environment over an arbitrary world. The contract between the functions that issue
    timestamp probes and the closures that read the answers is the locale \<open>ts_reply_handler\<close>,
    interpreted on the four closures.
  \<^item> \<open>UUEncode\<close>: encoder, decoder and decoding writer of \<open>uuencode\<close>; decoding inverts encoding.
  \<^item> \<open>Warts\<close>, \<open>WartsPing\<close>, \<open>WartsTraceroute\<close>: the readers of \<open>warts\<close> as a state monad over the bytes left
    and the addresses read; fields that are present by a flag are tables (locale \<open>flag_table\<close>). The
    parser never panics. \<open>WartsRoundtrip\<close> writes objects and shows that reading inverts writing.
  \<^item> \<open>DataModel\<close>: the conversions of \<open>datamodel\<close>, and exactly when they panic.
  \<^item> \<open>ScamperCmd\<close>, \<open>Scamper\<close>: \<open>scamper/cmd.go\<close> and \<open>socket.go\<close>. Command lines, as text and as words; a socket
    with its callers, reader, writer and the goroutines of answers, as a step relation with the invariant
    \<open>sk_inv\<close>: answers only reach the measurement whose number they carry, and what is sent is the commands
    in order. \<open>PlController\<close>: \<open>scamper/client.go\<close>, \<open>plcontroller\<close> and its table of nodes in
    \<open>dataaccess/sql\<close>: sockets, map and table agree while nodes come and go, and a traceroute goes from the
    request to scamper and, through encoding and parser, back to the request.
  \<^item> \<open>SpoofMap\<close>, \<open>ChannelMap\<close>: the two maps of spoofed probes, with a step relation each; what is sent was
    received and registered, and nothing is sent on a closed channel.
  \<^item> \<open>Controller\<close>: \<open>controller.go\<close> up to the hand-over to the services: no measurement of a batch is lost,
    under which keys results are looked up and stored.
  \<^item> \<open>Quarantine\<close>, \<open>VpRepo\<close>: the quarantines of \<open>vpservice/types\<close> with their growing backoff, and the
    repository as operations on the tables of its schema. \<open>VpServer\<close>, \<open>VpCheck\<close>: filters, the list of
    active vantage points, leaving quarantine and the tests of the nodes. What a tick of the server needs
    of the repository is the locale \<open>quarantine_store\<close> (and \<open>forgetful_store\<close>, which the repository is,
    because its update never meets a row).

  \<^item> \<open>TokenCache\<close>, \<open>AtlasRepo\<close>, \<open>Atlas\<close>: \<open>atlas/server/server.go\<close> over its cache of tokens, a vendored
    cache that drops what was not used for longest (locale \<open>request_cache\<close>, interpreted on it), and over the
    tables of \<open>atlas/repo/repo.go\<close>: which stored path answers a request, what a token is worth, and that no
    two traceroutes from one source to one destination run at once.
  \<^item> \<open>RevtrRepo\<close>: \<open>revtr/repository/repo.go\<close> over the tables of \<open>doc/sql/revtr.sql\<close>: what the quota of a user bounds,
    and that a stored result is what is read. \<open>RunnerFrame\<close>: what a run keeps of a reverse traceroute, and that its
    result can be stored. \<open>RevtrServer\<close>: \<open>revtr/server/server.go\<close>, batches, the reports and the reverse
    traceroutes of the web page; what the goroutine of a batch needs of the repository is the locale \<open>rt_store\<close>,
    interpreted on it. \<open>RevtrWeb\<close>: the web page of \<open>cmd/revtr/main.go\<close> as a step relation with its two kinds of
    locks; nothing is started twice, but two websockets can block each other. \<open>RevtrApi\<close>: \<open>revtr/v1api\<close> and
    \<open>revtr/v2api\<close>, from the posted batch to what is read of it, and who may read it.

  \<^bold>\<open>Panics and loops.\<close> A panic is a value (\<open>Inl\<close>). Loops whose end is not evident have fuel or are
  partial functions; the result is then \<open>Inl NoReturn\<close>, and the theorems C8 and C9 give the fuel that is
  enough: the number of vantage points left for \<open>recordRoute\<close>, 32 for \<open>timestamp\<close>. The fuel of \<open>run\<close> is
  the number of steps taken. The warts parser needs none: every object shortens the input.
  Endless background loops are modelled by one tick, a step of a relation.

  \<^bold>\<open>Not modelled.\<close> Durations and log output; the order in which the goroutines of a batch use the services,
  which are all they share; broken database connections and sockets that cannot be written to; overlapping
  database transactions; the grpc and http handlers of the controller and the vantage point service,
  monitoring gauges, reading configurations and starting servers, the processes of the nodes; the router's
  cache of connections and the queries for stored measurements of \<open>dataaccess/sql\<close>; generated code.
\<close>

end
